(* ===== verification/Js_Prelude.thy ===== *)
theory Js_Prelude
  imports Main "HOL-Library.Word"
begin

text \<open>
  What the page scripts use of JavaScript itself: strings (\<open>indexOf\<close>, \<open>split\<close>, \<open>join\<close>,
  \<open>substring\<close>, \<open>toLowerCase\<close>, trimming) and the 32-bit integer operators.

  A JavaScript string is a sequence of code units. A model string is a HOL \<open>string\<close>, each
  character one code unit in the range 0 to 255; where code units above 255 matter (the hash
  functions) the model takes the list of code units as numbers.
  Numbers that the code keeps integral are \<open>int\<close>; the bitwise operators convert to 32 bits and
  back exactly as ECMAScript's ToInt32 and ToUint32 do.
\<close>

unbundle bit_operations_syntax

named_theorems js_string \<comment> \<open>laws of the string operations\<close>
named_theorems js_bits \<comment> \<open>laws of the 32-bit operators\<close>

subsection \<open>Strings\<close>

text \<open>\<open>s.indexOf(p)\<close>: the least index where \<open>p\<close> occurs; \<open>None\<close> stands for -1.\<close>

fun index_of :: "string \<Rightarrow> string \<Rightarrow> nat option" where
  "index_of [] p = (if p = [] then Some 0 else None)"
| "index_of (x # xs) p =
     (if take (length p) (x # xs) = p then Some 0 else map_option Suc (index_of xs p))"

text \<open>\<open>s.lastIndexOf(c)\<close> for a single character.\<close>

fun last_index_of :: "string \<Rightarrow> char \<Rightarrow> nat option" where
  "last_index_of [] c = None"
| "last_index_of (x # xs) c =
     (case last_index_of xs c of
        Some i \<Rightarrow> Some (Suc i)
      | None \<Rightarrow> (if x = c then Some 0 else None))"

definition starts_with :: "string \<Rightarrow> string \<Rightarrow> bool" where
  "starts_with s p \<longleftrightarrow> take (length p) s = p"

definition contains :: "string \<Rightarrow> string \<Rightarrow> bool" where
  "contains s p \<longleftrightarrow> index_of s p \<noteq> None"

text \<open>\<open>s.split(c)\<close> for a single character, and \<open>xs.join(sep)\<close>.\<close>

fun split_on :: "char \<Rightarrow> string \<Rightarrow> string list" where
  "split_on c [] = [[]]"
| "split_on c (x # xs) =
     (if x = c then [] # split_on c xs
      else (case split_on c xs of
              [] \<Rightarrow> [[x]]
            | y # ys \<Rightarrow> (x # y) # ys))"

fun join_with :: "string \<Rightarrow> string list \<Rightarrow> string" where
  "join_with sep [] = []"
| "join_with sep [x] = x"
| "join_with sep (x # y # ys) = x @ sep @ join_with sep (y # ys)"

text \<open>Case mapping of the code units 0 to 255 (215 is the multiplication sign).\<close>

definition lower_char :: "char \<Rightarrow> char" where
  "lower_char c =
     (let n = (of_char c :: nat)
      in if (65 \<le> n \<and> n \<le> 90) \<or> (192 \<le> n \<and> n \<le> 222 \<and> n \<noteq> 215) then char_of (n + 32) else c)"

definition to_lower :: "string \<Rightarrow> string" where
  "to_lower s = map lower_char s"

text \<open>The class \<open>\s\<close> of regular expressions, on these code units; and the trimming regexes
  \<open>/^\s+|\s+$/g\<close>.\<close>

definition is_space :: "char \<Rightarrow> bool" where
  "is_space c = (let n = (of_char c :: nat) in (9 \<le> n \<and> n \<le> 13) \<or> n = 32 \<or> n = 160)"

definition trim :: "string \<Rightarrow> string" where
  "trim s = rev (dropWhile is_space (rev (dropWhile is_space s)))"

definition is_digit :: "char \<Rightarrow> bool" where
  "is_digit c = (let n = (of_char c :: nat) in 48 \<le> n \<and> n \<le> 57)"

definition is_upper :: "char \<Rightarrow> bool" where
  "is_upper c = (let n = (of_char c :: nat) in 65 \<le> n \<and> n \<le> 90)"

definition is_lower :: "char \<Rightarrow> bool" where
  "is_lower c = (let n = (of_char c :: nat) in 97 \<le> n \<and> n \<le> 122)"

text \<open>The class \<open>\w\<close>.\<close>

definition is_word :: "char \<Rightarrow> bool" where
  "is_word c \<longleftrightarrow> is_digit c \<or> is_upper c \<or> is_lower c \<or> c = CHR ''_''"

subsection \<open>Laws of the string operations\<close>

lemma index_of_Nil [simp, js_string]: "index_of s [] = Some 0"
  by (cases s) auto

lemma index_of_Some_0 [js_string]: "index_of s p = Some 0 \<longleftrightarrow> starts_with s p"
  by (cases s) (auto simp: starts_with_def)

lemma starts_with_append [simp, js_string]: "starts_with (p @ s) p"
  by (simp add: starts_with_def)

lemma index_of_Some:
  "index_of s p = Some i \<Longrightarrow> i + length p \<le> length s \<and> take (length p) (drop i s) = p"
proof (induction s arbitrary: i)
  case Nil
  then show ?case by (auto split: if_splits)
next
  case (Cons x xs)
  show ?case
  proof (cases "take (length p) (x # xs) = p")
    case True
    with Cons.prems have "i = 0" by simp
    moreover have "length p \<le> length (x # xs)"
      using True by (metis length_take min.cobounded1)
    ultimately show ?thesis using True by simp
  next
    case False
    with Cons.prems obtain j where "index_of xs p = Some j" and "i = Suc j"
      by (auto split: option.splits)
    with Cons.IH show ?thesis by simp
  qed
qed

lemma index_of_None_char [js_string]: "index_of s [c] = None \<longleftrightarrow> c \<notin> set s"
  by (induction s) auto

lemma split_on_not_Nil [simp, js_string]: "split_on c s \<noteq> []"
  by (cases s) (auto split: list.splits)

lemma split_on_no_sep [js_string]: "c \<notin> set s \<Longrightarrow> split_on c s = [s]"
  by (induction s) auto

lemma split_on_append_sep [js_string]:
  "c \<notin> set x \<Longrightarrow> split_on c (x @ c # s) = x # split_on c s"
  by (induction x) auto

lemma split_on_pieces [js_string]: "x \<in> set (split_on c s) \<Longrightarrow> c \<notin> set x"
proof (induction s arbitrary: x)
  case Nil
  then show ?case by simp
next
  case (Cons a s)
  obtain y ys where s: "split_on c s = y # ys"
    by (cases "split_on c s") auto
  from Cons.prems s consider "x = []" | "x \<in> set (split_on c s)" | "a \<noteq> c" "x = a # y"
    by (auto split: if_splits)
  then show ?case
  proof cases
    case 1 then show ?thesis by simp
  next
    case 2 with Cons.IH show ?thesis by blast
  next
    case 3 with Cons.IH [of y] s show ?thesis by simp
  qed
qed

lemma join_split [simp, js_string]: "join_with [c] (split_on c s) = s"
proof (induction s)
  case Nil
  then show ?case by simp
next
  case (Cons a s)
  obtain y ys where s: "split_on c s = y # ys"
    by (cases "split_on c s") auto
  with Cons.IH show ?case by (cases ys) auto
qed

lemma split_join [js_string]:
  "xs \<noteq> [] \<Longrightarrow> \<forall>x \<in> set xs. c \<notin> set x \<Longrightarrow> split_on c (join_with [c] xs) = xs"
  by (induction "[c]" xs rule: join_with.induct) (auto simp: js_string)

lemma length_split_on [js_string]: "length (split_on c s) = Suc (count_list s c)"
proof (induction s)
  case Nil
  then show ?case by simp
next
  case (Cons a s)
  obtain y ys where "split_on c s = y # ys"
    by (cases "split_on c s") auto
  with Cons.IH show ?case by auto
qed

lemma join_with_Cons: "ys \<noteq> [] \<Longrightarrow> join_with sep (x # ys) = x @ sep @ join_with sep ys"
  by (cases ys) auto

lemma join_with_append [js_string]:
  "xs \<noteq> [] \<Longrightarrow> ys \<noteq> [] \<Longrightarrow> join_with sep (xs @ ys) = join_with sep xs @ sep @ join_with sep ys"
  by (induction sep xs rule: join_with.induct) (auto simp: join_with_Cons)

lemma length_to_lower [simp]: "length (to_lower s) = length s"
  by (simp add: to_lower_def)

subsection \<open>32-bit operators\<close>

text \<open>\<open>a & b\<close>, \<open>a ^ b\<close>, \<open>a << n\<close>, \<open>a >> n\<close> and \<open>a >>> n\<close>: the operands are converted to 32-bit
  words; the result is read as a signed (for \<open>>>>\<close>: unsigned) number.\<close>

definition js_and :: "int \<Rightarrow> int \<Rightarrow> int" where
  "js_and a b = sint ((word_of_int a :: 32 word) AND word_of_int b)"

definition js_xor :: "int \<Rightarrow> int \<Rightarrow> int" where
  "js_xor a b = sint ((word_of_int a :: 32 word) XOR word_of_int b)"

definition js_shl :: "int \<Rightarrow> nat \<Rightarrow> int" where
  "js_shl a n = sint (push_bit n (word_of_int a :: 32 word))"

definition js_sar :: "int \<Rightarrow> nat \<Rightarrow> int" where
  "js_sar a n = sint (signed_drop_bit n (word_of_int a :: 32 word))"

definition js_shr :: "int \<Rightarrow> nat \<Rightarrow> int" where
  "js_shr a n = uint (drop_bit n (word_of_int a :: 32 word))"

lemma sint_word_of_int_32: "sint (word_of_int a :: 32 word) = signed_take_bit 31 a"
  by (simp add: signed_of_int)

lemma signed_take_bit_31_id: "- (2 ^ 31) \<le> a \<Longrightarrow> a < 2 ^ 31 \<Longrightarrow> signed_take_bit 31 a = (a::int)"
  by (simp add: signed_take_bit_int_eq_self)

lemma js_and_eq: "js_and a b = signed_take_bit 31 a AND signed_take_bit 31 b"
  by (simp add: js_and_def signed_and_eq sint_word_of_int_32)

lemma js_xor_eq: "js_xor a b = signed_take_bit 31 a XOR signed_take_bit 31 b"
  by (simp add: js_xor_def signed_xor_eq sint_word_of_int_32)

lemma js_sar_eq: "js_sar a n = drop_bit n (signed_take_bit 31 a)"
  by (simp add: js_sar_def sint_signed_drop_bit_eq sint_word_of_int_32)

lemma js_shl_eq: "js_shl a n = signed_take_bit 31 (a * 2 ^ n)"
proof -
  have "push_bit n (word_of_int a :: 32 word) = word_of_int (a * 2 ^ n)"
    by (simp add: push_bit_eq_mult)
  then show ?thesis by (simp only: js_shl_def sint_word_of_int_32)
qed

lemma js_and_mask [js_bits]:
  assumes "0 \<le> m" and "m < 2 ^ 31"
  shows "0 \<le> js_and a m" and "js_and a m \<le> m"
proof -
  have m: "signed_take_bit 31 m = m" using assms by (intro signed_take_bit_31_id) auto
  show "0 \<le> js_and a m" using assms by (simp add: js_and_eq m)
  show "js_and a m \<le> m" using assms by (simp add: js_and_eq m AND_upper2')
qed

lemma js_shl_exact [js_bits]:
  "0 \<le> a \<Longrightarrow> a * 2 ^ n < 2 ^ 31 \<Longrightarrow> js_shl a n = a * 2 ^ n"
  by (simp add: js_shl_eq) (rule signed_take_bit_31_id, auto intro: order_trans [of _ 0])

lemma js_sar_bounds [js_bits]:
  assumes "0 \<le> a" and "a < 2 ^ 31"
  shows "0 \<le> js_sar a n" and "js_sar a n \<le> a"
proof -
  have a: "signed_take_bit 31 a = a" using assms by (intro signed_take_bit_31_id) auto
  show "0 \<le> js_sar a n" using assms by (simp add: js_sar_eq a)
  have "a div 2 ^ n \<le> a" using assms zdiv_mono2 [of a 1 "2 ^ n"] by simp
  then show "js_sar a n \<le> a" by (simp add: js_sar_eq a drop_bit_eq_div)
qed

lemma js_xor_bounds [js_bits]:
  assumes "0 \<le> a" "a < 2 ^ 31" "0 \<le> b" "b < 2 ^ 31"
  shows "0 \<le> js_xor a b" and "js_xor a b < 2 ^ 31"
proof -
  have ab: "signed_take_bit 31 a = a" "signed_take_bit 31 b = b"
    using assms by (auto intro!: signed_take_bit_31_id)
  show "0 \<le> js_xor a b" using assms by (simp add: js_xor_eq ab)
  show "js_xor a b < 2 ^ 31" using assms XOR_upper [of a 31 b] by (simp add: js_xor_eq ab)
qed

end
