(* ===== verification/Js_Number.thy ===== *)
theory Js_Number
  imports Js_Prelude Complex_Main
begin

text \<open>
  Numbers the scripts read from strings: \<open>1 * s\<close> and \<open>Number(s)\<close> (the grammar of ECMAScript's
  StringNumericLiteral), \<open>parseInt(s, 10)\<close>, number comparison with NaN, and the decimal text of
  a natural number. A finite value is the exact rational the literal denotes; rounding to a
  double, which starts beyond 2^53, is not modelled.
\<close>

datatype jsnum = NaN | Inf bool | Fin rat

definition num_eq :: "jsnum \<Rightarrow> jsnum \<Rightarrow> bool" where
  "num_eq a b \<longleftrightarrow> a \<noteq> NaN \<and> a = b"

fun num_less :: "jsnum \<Rightarrow> jsnum \<Rightarrow> bool" where
  "num_less (Fin a) (Fin b) \<longleftrightarrow> a < b"
| "num_less (Inf p) (Fin b) \<longleftrightarrow> \<not> p"
| "num_less (Fin a) (Inf p) \<longleftrightarrow> p"
| "num_less (Inf p) (Inf q) \<longleftrightarrow> \<not> p \<and> q"
| "num_less a b \<longleftrightarrow> False"

definition digit_val :: "char \<Rightarrow> nat" where
  "digit_val c = of_char c - 48"

definition digits_val :: "string \<Rightarrow> nat" where
  "digits_val s = foldl (\<lambda>n c. 10 * n + digit_val c) 0 s"

definition hex_val :: "char \<Rightarrow> nat" where
  "hex_val c =
     (let n = of_char c
      in if 48 \<le> n \<and> n \<le> 57 then n - 48
         else if 65 \<le> n \<and> n \<le> 70 then n - 55
         else if 97 \<le> n \<and> n \<le> 102 then n - 87
         else 99)"

definition radix_number :: "nat \<Rightarrow> string \<Rightarrow> jsnum" where
  "radix_number b s =
     (if s \<noteq> [] \<and> list_all (\<lambda>c. hex_val c < b) s
      then Fin (of_nat (foldl (\<lambda>n c. b * n + hex_val c) 0 s)) else NaN)"

definition exponent :: "string \<Rightarrow> int option" where
  "exponent s =
     (let (neg, ds) = (case s of
            [] \<Rightarrow> (False, [])
          | c # r \<Rightarrow> if c = CHR ''-'' then (True, r) else if c = CHR ''+'' then (False, r) else (False, s))
      in if ds \<noteq> [] \<and> list_all is_digit ds
         then Some (if neg then - int (digits_val ds) else int (digits_val ds)) else None)"

definition scale :: "rat \<Rightarrow> int \<Rightarrow> rat" where
  "scale x k = (if 0 \<le> k then x * 10 ^ nat k else x / 10 ^ nat (- k))"

definition unsigned_number :: "string \<Rightarrow> jsnum" where
  "unsigned_number u =
     (if u = ''Infinity'' then Inf True
      else (let ip = takeWhile is_digit u; r = dropWhile is_digit u;
                (fp, r) = (case r of
                    [] \<Rightarrow> ([], [])
                  | c # s \<Rightarrow> if c = CHR ''.'' then (takeWhile is_digit s, dropWhile is_digit s) else ([], r));
                x = of_nat (digits_val (ip @ fp)) / 10 ^ length fp
            in if ip = [] \<and> fp = [] then NaN
               else (case r of
                   [] \<Rightarrow> Fin x
                 | c # s \<Rightarrow> (if c = CHR ''e'' \<or> c = CHR ''E''
                     then (case exponent s of None \<Rightarrow> NaN | Some k \<Rightarrow> Fin (scale x k)) else NaN))))"

definition num_minus :: "jsnum \<Rightarrow> jsnum" where
  "num_minus x = (case x of NaN \<Rightarrow> NaN | Inf p \<Rightarrow> Inf (\<not> p) | Fin q \<Rightarrow> Fin (- q))"

definition js_number :: "string \<Rightarrow> jsnum" where
  "js_number s =
     (let t = trim s; p = map lower_char (take 2 t)
      in if t = [] then Fin 0
         else if p = ''0x'' then radix_number 16 (drop 2 t)
         else if p = ''0o'' then radix_number 8 (drop 2 t)
         else if p = ''0b'' then radix_number 2 (drop 2 t)
         else if hd t = CHR ''-'' then num_minus (unsigned_number (tl t))
         else if hd t = CHR ''+'' then unsigned_number (tl t)
         else unsigned_number t)"

text \<open>\<open>parseInt(s, 10)\<close>: the longest run of digits after white space and a sign.\<close>

definition parse_int10 :: "string \<Rightarrow> jsnum" where
  "parse_int10 s =
     (let t = dropWhile is_space s;
          neg = (t \<noteq> [] \<and> hd t = CHR ''-'');
          u = (if t \<noteq> [] \<and> (hd t = CHR ''-'' \<or> hd t = CHR ''+'') then tl t else t);
          ds = takeWhile is_digit u
      in if ds = [] then NaN
         else Fin (if neg then - of_nat (digits_val ds) else of_nat (digits_val ds)))"

text \<open>The decimal text of a natural number.\<close>

fun show_nat :: "nat \<Rightarrow> string" where
  "show_nat n =
     (if n < 10 then [char_of (48 + n)] else show_nat (n div 10) @ [char_of (48 + n mod 10)])"

declare show_nat.simps [simp del]

subsection \<open>Reading back what was written\<close>

lemma digit_char: "n < 10 \<Longrightarrow> is_digit (char_of (48 + n)) \<and> digit_val (char_of (48 + n)) = n"
  by (simp add: is_digit_def digit_val_def)

lemma show_nat_digits: "list_all is_digit (show_nat n)"
proof (induction n rule: show_nat.induct)
  case (1 n)
  show ?case
  proof (cases "n < 10")
    case True
    then show ?thesis by (simp add: show_nat.simps [of n] digit_char)
  next
    case False
    with 1 show ?thesis by (simp add: show_nat.simps [of n] digit_char)
  qed
qed

lemma show_nat_not_Nil [simp]: "show_nat n \<noteq> []"
  by (subst show_nat.simps) simp

lemma digits_val_show_nat [simp]: "digits_val (show_nat n) = n"
proof (induction n rule: show_nat.induct)
  case (1 n)
  show ?case
  proof (cases "n < 10")
    case True
    then show ?thesis by (simp add: show_nat.simps [of n] digits_val_def digit_char)
  next
    case False
    with 1 have "digits_val (show_nat (n div 10)) = n div 10" by simp
    with False show ?thesis by (simp add: show_nat.simps [of n] digits_val_def digit_char)
  qed
qed

lemma is_digit_not_space: "is_digit c \<Longrightarrow> \<not> is_space c"
  by (auto simp: is_digit_def is_space_def Let_def)

lemma trim_digits: "list_all is_digit s \<Longrightarrow> trim s = s"
proof -
  assume a: "list_all is_digit s"
  then have "dropWhile is_space s = s" by (cases s) (auto simp: is_digit_not_space)
  moreover have "dropWhile is_space (rev s) = rev s"
    using a by (cases "rev s") (auto simp: is_digit_not_space list_all_iff)
  ultimately show "trim s = s" by (simp add: trim_def)
qed

lemma lower_digit: "is_digit c \<Longrightarrow> lower_char c = c"
  by (auto simp: is_digit_def lower_char_def Let_def)

lemma digits_no_prefix:
  assumes "list_all is_digit s" and "\<not> is_digit x"
  shows "map lower_char (take 2 s) \<noteq> [c, x]"
proof
  assume eq: "map lower_char (take 2 s) = [c, x]"
  have "map lower_char (take 2 s) = take 2 s"
    using assms(1) by (intro map_idI) (auto simp: list_all_iff lower_digit dest: in_set_takeD)
  with eq have "x \<in> set (take 2 s)" by simp
  then have "x \<in> set s" by (rule in_set_takeD)
  with assms show False by (simp add: list_all_iff)
qed

lemma takeWhile_digits: "list_all is_digit s \<Longrightarrow> takeWhile is_digit s = s \<and> dropWhile is_digit s = []"
  by (simp add: list_all_iff)

lemma not_digit_chars:
  "\<not> is_digit CHR ''-''" "\<not> is_digit CHR ''+''" "\<not> is_digit CHR ''.''" "\<not> is_digit CHR ''I''"
  "\<not> is_digit CHR ''x''" "\<not> is_digit CHR ''o''" "\<not> is_digit CHR ''b''"
  by (simp_all add: is_digit_def)

lemma hd_digits: "s \<noteq> [] \<Longrightarrow> list_all is_digit s \<Longrightarrow> \<not> is_digit c \<Longrightarrow> hd s \<noteq> c"
  by (cases s) auto

lemma unsigned_number_digits:
  assumes "s \<noteq> []" and "list_all is_digit s"
  shows "unsigned_number s = Fin (of_nat (digits_val s))"
proof -
  have "hd s \<noteq> CHR ''I''" using assms not_digit_chars(4) by (rule hd_digits)
  then have "s \<noteq> ''Infinity''" by auto
  then show ?thesis
    using assms by (simp add: unsigned_number_def takeWhile_digits)
qed

lemma js_number_digits [js_string]:
  assumes "s \<noteq> []" and "list_all is_digit s"
  shows "js_number s = Fin (of_nat (digits_val s))"
proof -
  have "hd s \<noteq> CHR ''-''" "hd s \<noteq> CHR ''+''"
    using assms by (simp_all add: hd_digits not_digit_chars)
  moreover have "map lower_char (take 2 s) \<noteq> [c, CHR ''x'']"
    "map lower_char (take 2 s) \<noteq> [c, CHR ''o'']" "map lower_char (take 2 s) \<noteq> [c, CHR ''b'']" for c
    using assms(2) by (simp_all add: digits_no_prefix not_digit_chars)
  ultimately show ?thesis using assms
    unfolding js_number_def Let_def trim_digits [OF assms(2)]
    by (simp add: unsigned_number_digits)
qed

lemma js_number_show_nat [simp]: "js_number (show_nat n) = Fin (of_nat n)"
  by (simp add: js_number_digits show_nat_digits)

lemma parse_int10_digits:
  assumes "s \<noteq> []" and "list_all is_digit s"
  shows "parse_int10 s = Fin (of_nat (digits_val s))"
proof -
  have "hd s \<noteq> CHR ''-''" "hd s \<noteq> CHR ''+''"
    using assms by (simp_all add: hd_digits not_digit_chars)
  moreover have "dropWhile is_space s = s"
    using assms by (cases s) (auto simp: is_digit_not_space)
  ultimately show ?thesis
    using assms by (simp add: parse_int10_def Let_def takeWhile_digits)
qed

end
