(* ===== verification/Js_Value.thy ===== *)
theory Js_Value
  imports Js_Number
begin

text \<open>
  The values that move through the field tables and command queues: undefined, null, booleans,
  numbers, strings, and objects and functions, which are compared by identity and are
  otherwise opaque (\<open>Ref\<close>). Truthiness, loose equality and the conversion to a string.
\<close>

datatype jval = Undef | Null | Bool bool | Num jsnum | Str string | Ref nat

definition show_int :: "int \<Rightarrow> string" where
  "show_int n = (if n < 0 then ''-'' @ show_nat (nat (- n)) else show_nat (nat n))"

text \<open>The text of a number: exact for integers; otherwise the decimal expansion, up to 20 places.\<close>

definition fraction_places :: "rat \<Rightarrow> nat" where
  "fraction_places r =
     (case find (\<lambda>k. of_int \<lfloor>r * 10 ^ k\<rfloor> = r * 10 ^ k) [0..<20] of None \<Rightarrow> 20 | Some k \<Rightarrow> k)"

definition show_rat :: "rat \<Rightarrow> string" where
  "show_rat r =
     (let k = fraction_places r; n = nat \<lfloor>\<bar>r\<bar> * 10 ^ k\<rfloor>;
          frac = show_nat (n mod 10 ^ k)
      in if k = 0 then show_int \<lfloor>r\<rfloor>
         else (if r < 0 then ''-'' else []) @ show_nat (n div 10 ^ k) @ ''.'' @
              replicate (k - length frac) CHR ''0'' @ frac)"

fun show_num :: "jsnum \<Rightarrow> string" where
  "show_num NaN = ''NaN''"
| "show_num (Inf p) = (if p then ''Infinity'' else ''-Infinity'')"
| "show_num (Fin r) = show_rat r"

fun truthy :: "jval \<Rightarrow> bool" where
  "truthy Undef = False"
| "truthy Null = False"
| "truthy (Bool b) = b"
| "truthy (Num n) = (n \<noteq> Fin 0 \<and> n \<noteq> NaN)"
| "truthy (Str s) = (s \<noteq> [])"
| "truthy (Ref r) = True"

text \<open>\<open>void 0 == c\<close>.\<close>

definition nullish :: "jval \<Rightarrow> bool" where
  "nullish c \<longleftrightarrow> c = Undef \<or> c = Null"

text \<open>The number a primitive value converts to.\<close>

fun to_num :: "jval \<Rightarrow> jsnum" where
  "to_num Undef = NaN"
| "to_num Null = Fin 0"
| "to_num (Bool b) = Fin (if b then 1 else 0)"
| "to_num (Num n) = n"
| "to_num (Str s) = js_number s"
| "to_num (Ref r) = NaN"

text \<open>\<open>a == b\<close>; an object never equals a primitive value here.\<close>

fun loose_eq :: "jval \<Rightarrow> jval \<Rightarrow> bool" where
  "loose_eq (Str s) (Str t) = (s = t)"
| "loose_eq (Ref r) (Ref q) = (r = q)"
| "loose_eq (Ref r) b = False"
| "loose_eq a (Ref q) = False"
| "loose_eq a b =
     (if nullish a \<or> nullish b then nullish a \<and> nullish b else num_eq (to_num a) (to_num b))"

text \<open>\<open>"" + c\<close>; the text of an object is not modelled further.\<close>

fun to_str :: "jval \<Rightarrow> string" where
  "to_str Undef = ''undefined''"
| "to_str Null = ''null''"
| "to_str (Bool b) = (if b then ''true'' else ''false'')"
| "to_str (Num n) = show_num n"
| "to_str (Str s) = s"
| "to_str (Ref r) = ''[object Object]''"

text \<open>\<open>m\<close> of analytics.js: a string object or primitive.\<close>

fun is_str :: "jval \<Rightarrow> bool" where
  "is_str (Str s) = True"
| "is_str _ = False"

lemma loose_eq_refl: "c = Num NaN \<or> loose_eq c c"
  by (cases c) (simp_all add: nullish_def num_eq_def)

lemma loose_eq_Undef [simp]: "loose_eq c Undef = nullish c"
  by (cases c) (simp_all add: nullish_def)

lemma nullish_simps [simp]:
  "nullish Undef" "nullish Null" "\<not> nullish (Bool b)" "\<not> nullish (Num n)" "\<not> nullish (Str s)" "\<not> nullish (Ref r)"
  by (simp_all add: nullish_def)

text \<open>A JavaScript object with fields in the order of their first assignment.\<close>

fun dict_set :: "string \<Rightarrow> 'v \<Rightarrow> (string \<times> 'v) list \<Rightarrow> (string \<times> 'v) list" where
  "dict_set k v [] = [(k, v)]"
| "dict_set k v ((j, w) # d) = (if j = k then (j, v) # d else (j, w) # dict_set k v d)"

lemma map_of_dict_set: "map_of (dict_set k v d) = (map_of d)(k \<mapsto> v)"
  by (induction d) auto

lemma dict_set_fst: "fst ` set (dict_set k v d) = insert k (fst ` set d)"
  by (simp add: dom_map_of_conv_image_fst [symmetric] map_of_dict_set)

lemma dict_set_keys: "distinct (map fst d) \<Longrightarrow> distinct (map fst (dict_set k v d))"
proof (induction d)
  case (Cons p d)
  obtain j w where p: "p = (j, w)" by force
  with Cons show ?case by (cases "j = k") (simp_all add: dict_set_fst)
qed simp

text \<open>The text of a natural number.\<close>

lemma show_rat_nat [simp]: "show_rat (of_nat n) = show_nat n"
proof -
  have "find (\<lambda>k. of_int \<lfloor>(of_nat n :: rat) * 10 ^ k\<rfloor> = (of_nat n :: rat) * 10 ^ k) [0..<20] = Some 0"
    by (simp add: upt_rec)
  then have "fraction_places (of_nat n) = 0" by (simp add: fraction_places_def)
  then show ?thesis by (simp add: show_rat_def show_int_def)
qed

end
