(* ===== verification/Usage_Bits.thy ===== *)
theory Usage_Bits
  imports Js_Prelude
begin

text \<open>
  Feature-usage bits and the packed index sets.

  \<^item> analytics.js keeps a sparse array of booleans (\<open>f.prototype.set\<close>), packs it six bits to a
    character (\<open>f.prototype.encode\<close>, sent as \<open>_u\<close>) and merges the page's bits with a tracker's
    (\<open>da\<close>);
  \<^item> ga.js has the same packer as the object \<open>od\<close> (sent as \<open>utmu\<close>);
  \<^item> gtm.js reads index sets in the same alphabet (\<open>Wk\<close>).

  Shown: the packer is exact (bit \<open>i\<close> of word \<open>j\<close> is entry \<open>6 j + i\<close>), both packers agree, and
  \<open>Wk\<close> is a left inverse of the packer up to its bound \<open>Ik = 97\<close>.
  A JavaScript array hole is falsy and is \<open>False\<close> (or 0 in an array of numbers) here.
\<close>

subsection \<open>analytics.js: the packer\<close>

definition usage_set :: "bool list \<Rightarrow> nat \<Rightarrow> bool list" where
  "usage_set bs a =
     (if a < length bs then bs[a := True] else bs @ replicate (a - length bs) False @ [True])"

definition xor_at :: "nat list \<Rightarrow> nat \<Rightarrow> nat \<Rightarrow> nat list" where
  "xor_at ws i v =
     (if i < length ws then ws[i := ws ! i XOR v] else ws @ replicate (i - length ws) 0 @ [v])"

definition usage_alphabet :: string where
  "usage_alphabet = ''ABCDEFGHIJKLMNOPQRSTUVWXYZabcdefghijklmnopqrstuvwxyz0123456789-_''"

text \<open>The array \<open>a\<close> after the first \<open>n\<close> turns of the packing loop.\<close>

fun usage_words :: "bool list \<Rightarrow> nat \<Rightarrow> nat list" where
  "usage_words bs 0 = []"
| "usage_words bs (Suc n) =
     (let ws = usage_words bs n
      in if bs ! n then xor_at ws (n div 6) (push_bit (n mod 6) 1) else ws)"

definition char_at :: "string \<Rightarrow> nat \<Rightarrow> string" where
  "char_at s i = (if i < length s then [s ! i] else [])"

definition usage_encode :: "bool list \<Rightarrow> string" where
  "usage_encode bs =
     concat (map (char_at usage_alphabet) (usage_words bs (length bs))) @ ''~''"

text \<open>\<open>da\<close>: the page-wide bits \<open>aa\<close> merged with a tracker's bits, then packed.\<close>

definition usage_merge :: "bool list \<Rightarrow> bool list \<Rightarrow> bool list" where
  "usage_merge aa bs =
     map (\<lambda>c. (c < length aa \<and> aa ! c) \<or> (c < length bs \<and> bs ! c)) [0..<max (length aa) (length bs)]"

definition usage_report :: "bool list \<Rightarrow> bool list \<Rightarrow> string" where
  "usage_report aa bs = usage_encode (usage_merge aa bs)"

subsection \<open>ga.js: the object od\<close>

fun od_pack :: "bool list \<Rightarrow> nat \<Rightarrow> nat list \<Rightarrow> nat list" where
  "od_pack [] c b = b"
| "od_pack (x # xs) c b =
     od_pack xs (Suc c) (if x then xor_at b (c div 6) (push_bit (c mod 6) 1) else b)"

fun od_chars :: "nat list \<Rightarrow> string" where
  "od_chars [] = []"
| "od_chars (w # ws) = char_at usage_alphabet w @ od_chars ws"

definition od_encode :: "bool list \<Rightarrow> string" where
  "od_encode a = od_chars (od_pack a 0 []) @ ''~''"

subsection \<open>gtm.js: reading an index set\<close>

definition Ik :: nat where
  "Ik = 97"

definition Wk_digit :: "nat \<Rightarrow> nat" where
  "Wk_digit e =
     (if 65 < e \<and> e \<le> 90 then e - 65
      else if 97 \<le> e \<and> e \<le> 122 then e - 97 + 26
      else if e = 95 then 63
      else if 48 \<le> e then e - 48 + 52
      else 62)"

definition Wk_bits :: "nat \<Rightarrow> nat \<Rightarrow> nat list" where
  "Wk_bits c f = map (\<lambda>i. c + i) (filter (\<lambda>i. bit f i) [0..<6])"

definition Wk_code :: "char \<Rightarrow> nat" where
  "Wk_code x = (let n = of_char x in if n = 0 then 65 else n)"

fun Wk_loop :: "nat \<Rightarrow> string \<Rightarrow> nat list" where
  "Wk_loop c [] = []"
| "Wk_loop c (x # xs) =
     (if c < Ik
      then (let e = Wk_code x in if e \<noteq> 65 then Wk_bits c (Wk_digit e) else []) @ Wk_loop (c + 6) xs
      else [])"

definition Wk :: "string \<Rightarrow> nat list" where
  "Wk a = Wk_loop 0 a"

subsection \<open>The packed words\<close>

definition nth0 :: "nat list \<Rightarrow> nat \<Rightarrow> nat" where
  "nth0 ws j = (if j < length ws then ws ! j else 0)"

lemma nth0_xor_at: "nth0 (xor_at ws i v) j = (if j = i then nth0 ws i XOR v else nth0 ws j)"
  by (auto simp: nth0_def xor_at_def nth_append nth_list_update)

lemma length_xor_at: "length (xor_at ws i v) = max (length ws) (Suc i)"
  by (auto simp: xor_at_def)

lemma bit_single [js_bits]: "bit (2 ^ m :: nat) i \<longleftrightarrow> i = m"
  by (auto simp: bit_exp_iff)

lemma usage_words_bit:
  "i < 6 \<Longrightarrow> bit (nth0 (usage_words bs n) j) i \<longleftrightarrow> 6 * j + i < n \<and> bs ! (6 * j + i)"
proof (induction n)
  case 0
  then show ?case by (simp add: nth0_def)
next
  case (Suc n)
  have n: "6 * (n div 6) + n mod 6 = n" by simp
  show ?case
  proof (cases "6 * j + i = n")
    case True
    with Suc.prems have "j = n div 6" "i = n mod 6" by auto
    with Suc n show ?thesis
      by (auto simp: Let_def nth0_xor_at bit_xor_iff bit_single)
  next
    case False
    with Suc.prems have "\<not> (j = n div 6 \<and> i = n mod 6)" by auto
    with Suc False show ?thesis
      by (auto simp: Let_def nth0_xor_at bit_xor_iff bit_single less_Suc_eq)
  qed
qed

lemma usage_words_high: "6 \<le> i \<Longrightarrow> \<not> bit (nth0 (usage_words bs n) j) i"
proof (induction n)
  case 0
  then show ?case by (simp add: nth0_def)
next
  case (Suc n)
  moreover have "n mod 6 < 6" by simp
  ultimately show ?case
    by (auto simp: Let_def nth0_xor_at bit_xor_iff bit_single)
qed

lemma length_usage_words: "6 * length (usage_words bs n) \<le> n + 5"
  by (induction n) (auto simp: Let_def length_xor_at)

lemma usage_words_less_64: "w \<in> set (usage_words bs n) \<Longrightarrow> w < 64"
proof -
  assume "w \<in> set (usage_words bs n)"
  then obtain j where "j < length (usage_words bs n)" "w = usage_words bs n ! j"
    by (auto simp: in_set_conv_nth)
  then have "w = nth0 (usage_words bs n) j" by (simp add: nth0_def)
  then have "\<forall>i. 6 \<le> i \<longrightarrow> \<not> bit w i" by (simp add: usage_words_high)
  then have "take_bit 6 w = w" by (intro bit_eqI) (metis bit_take_bit_iff not_less)
  then show "w < 64" using take_bit_nat_less_exp [of 6 w] by simp
qed

lemma length_usage_alphabet [simp]: "length usage_alphabet = 64"
  by (simp add: usage_alphabet_def)

lemma Wk_digit_alphabet:
  assumes "w < 64"
  shows "(if Wk_code (usage_alphabet ! w) = 65 then 0 else Wk_digit (Wk_code (usage_alphabet ! w))) = w"
proof -
  let ?f = "\<lambda>x. if Wk_code x = 65 then 0 else Wk_digit (Wk_code x)"
  have "map ?f usage_alphabet = [0..<64]"
    by (simp add: usage_alphabet_def Wk_code_def Wk_digit_def upt_conv_Cons)
  then have "map ?f usage_alphabet ! w = w" using assms by simp
  then show ?thesis using assms by (simp add: nth_map)
qed

lemma char_at_alphabet: "w < 64 \<Longrightarrow> char_at usage_alphabet w = [usage_alphabet ! w]"
  by (simp add: char_at_def)

lemma Wk_loop_char:
  assumes "w < 64" and "c < Ik"
  shows "Wk_loop c (usage_alphabet ! w # xs) = Wk_bits c w @ Wk_loop (c + 6) xs"
  using Wk_digit_alphabet [OF assms(1)] assms(2)
  by (auto simp: Let_def Wk_bits_def split: if_splits)

text \<open>Decoding the characters of a list of words lists the bits of the words in order.\<close>

lemma Wk_loop_words:
  assumes "\<forall>w \<in> set ws. w < 64" and "c + 6 * length ws \<le> Ik + 5"
  shows "Wk_loop c (concat (map (char_at usage_alphabet) ws)) =
    concat (map (\<lambda>j. Wk_bits (c + 6 * j) (ws ! j)) [0..<length ws])"
  using assms
proof (induction ws arbitrary: c)
  case Nil
  then show ?case by simp
next
  case (Cons w ws)
  from Cons.prems have "w < 64" "c < Ik" by auto
  moreover have "Wk_loop (c + 6) (concat (map (char_at usage_alphabet) ws)) =
      concat (map (\<lambda>j. Wk_bits (c + 6 + 6 * j) (ws ! j)) [0..<length ws])"
    using Cons.prems by (intro Cons.IH) auto
  moreover have "[0..<length (w # ws)] = 0 # map Suc [0..<length ws]"
    by (simp add: map_Suc_upt upt_conv_Cons del: upt_Suc)
  ultimately show ?case
    by (simp add: char_at_alphabet Wk_loop_char o_def add.assoc del: Wk_loop.simps upt_Suc)
qed

lemma filter_upt_blocks:
  "filter P [0..<6 * n] = concat (map (\<lambda>j. filter P [6 * j..<6 * j + 6]) [0..<n])"
proof (induction n)
  case 0
  then show ?case by simp
next
  case (Suc n)
  have "[0..<6 * Suc n] = [0..<6 * n] @ [6 * n..<6 * n + 6]"
    by (metis add.commute le_add1 mult_Suc_right upt_add_eq_append zero_le)
  with Suc show ?case by simp
qed

lemma filter_upt_same:
  "m \<le> n \<Longrightarrow> (\<And>k. m \<le> k \<Longrightarrow> k < n \<Longrightarrow> \<not> P k) \<Longrightarrow> filter P [0..<m] = filter P [0..<n]"
proof -
  assume "m \<le> n" and no: "\<And>k. m \<le> k \<Longrightarrow> k < n \<Longrightarrow> \<not> P k"
  then have "[0..<n] = [0..<m] @ [m..<n]" by (metis le0 le_add_diff_inverse upt_add_eq_append)
  moreover have "filter P [m..<n] = []" using no by (simp add: filter_empty_conv)
  ultimately show ?thesis by simp
qed

lemma Wk_bits_filter: "Wk_bits c f = filter (\<lambda>k. bit f (k - c)) [c..<c + 6]"
proof -
  have "[c..<c + 6] = map (\<lambda>i. c + i) [0..<6]"
    using map_add_upt [of c 6] by (simp add: add.commute)
  then show ?thesis by (simp add: Wk_bits_def filter_map o_def)
qed

subsection \<open>Packing, merging and reading back\<close>

lemma Wk_usage_words:
  assumes "length bs \<le> Ik + 5"
  shows "Wk (concat (map (char_at usage_alphabet) (usage_words bs (length bs)))) =
    filter (\<lambda>i. bs ! i) [0..<length bs]"
proof -
  let ?ws = "usage_words bs (length bs)"
  let ?P = "\<lambda>k. k < length bs \<and> bs ! k"
  have len: "6 * length ?ws \<le> Ik + 5"
    using length_usage_words [of bs "length bs"] assms by (simp add: Ik_def)
  have bits: "Wk_bits (6 * j) (?ws ! j) = filter ?P [6 * j..<6 * j + 6]" if "j < length ?ws" for j
  proof -
    have "bit (?ws ! j) (k - 6 * j) \<longleftrightarrow> ?P k" if "k \<in> set [6 * j..<6 * j + 6]" for k
      using usage_words_bit [of "k - 6 * j" bs "length bs" j] that \<open>j < length ?ws\<close>
      by (auto simp: nth0_def)
    then show ?thesis by (simp only: Wk_bits_filter cong: filter_cong)
  qed
  have beyond: "\<not> ?P k" if "6 * length ?ws \<le> k" for k
  proof -
    have "k div 6 \<ge> length ?ws" using that by simp
    then have "nth0 ?ws (k div 6) = 0" by (simp add: nth0_def)
    then show ?thesis using usage_words_bit [of "k mod 6" bs "length bs" "k div 6"] by simp
  qed
  have "Wk (concat (map (char_at usage_alphabet) ?ws)) =
      concat (map (\<lambda>j. Wk_bits (6 * j) (?ws ! j)) [0..<length ?ws])"
    unfolding Wk_def using Wk_loop_words [of ?ws 0] len usage_words_less_64 by auto
  also have "\<dots> = concat (map (\<lambda>j. filter ?P [6 * j..<6 * j + 6]) [0..<length ?ws])"
    by (intro arg_cong [where f = concat] map_cong) (auto simp: bits)
  also have "\<dots> = filter ?P [0..<6 * length ?ws]"
    by (rule filter_upt_blocks [symmetric])
  also have "\<dots> = filter ?P [0..<max (length bs) (6 * length ?ws)]"
    by (rule filter_upt_same) (auto dest: beyond)
  also have "\<dots> = filter ?P [0..<length bs]"
    by (rule filter_upt_same [symmetric]) auto
  also have "\<dots> = filter (\<lambda>i. bs ! i) [0..<length bs]"
    by (rule filter_cong) auto
  finally show ?thesis .
qed

lemma od_pack_usage_words:
  "c \<le> length bs \<Longrightarrow> od_pack (drop c bs) c (usage_words bs c) = usage_words bs (length bs)"
proof (induction "length bs - c" arbitrary: c)
  case 0
  then show ?case by simp
next
  case (Suc n)
  then have "c < length bs" by simp
  then have "drop c bs = bs ! c # drop (Suc c) bs" by (simp add: Cons_nth_drop_Suc)
  moreover have "od_pack (drop (Suc c) bs) (Suc c) (usage_words bs (Suc c)) = usage_words bs (length bs)"
    using Suc by (intro Suc.hyps) auto
  ultimately show ?case by (simp add: Let_def)
qed

lemma od_chars_concat: "od_chars ws = concat (map (char_at usage_alphabet) ws)"
  by (induction ws) auto

lemma usage_merge_nth:
  "i < max (length aa) (length bs) \<Longrightarrow>
    usage_merge aa bs ! i \<longleftrightarrow> (i < length aa \<and> aa ! i) \<or> (i < length bs \<and> bs ! i)"
  by (simp add: usage_merge_def)

text \<open>Reading back what was packed: the index reader of gtm.js, applied to the packed usage
  bits of analytics.js without the final tilde, lists exactly the set bits, in increasing order,
  for every bit array of up to 102 entries (17 characters, the reader's bound).\<close>

theorem usage_roundtrip:
  assumes "length bs \<le> 102"
  shows "Wk (butlast (usage_encode bs)) = filter (\<lambda>i. bs ! i) [0..<length bs]"
  using Wk_usage_words [of bs] assms by (simp add: usage_encode_def Ik_def butlast_append)

theorem usage_roundtrip_witness:
  "Wk (butlast (usage_encode [True, False, True, False, False, False, False, True])) = [0, 2, 7]"
  using usage_roundtrip [of "[True, False, True, False, False, False, False, True]"]
  by (simp add: upt_conv_Cons)

text \<open>The usage packers of analytics.js and ga.js produce the same text for every bit
  array.\<close>

theorem od_encode_eq: "od_encode bs = usage_encode bs"
  using od_pack_usage_words [of 0 bs]
  by (simp add: od_encode_def usage_encode_def od_chars_concat)

text \<open>A report merges the page's bits with the tracker's: reading back the report of up to
  102 merged entries lists the indices set in either array.\<close>

theorem usage_report_union:
  assumes "max (length aa) (length bs) \<le> 102"
  shows "set (Wk (butlast (usage_report aa bs))) =
    {i. i < length aa \<and> aa ! i} \<union> {i. i < length bs \<and> bs ! i}"
proof -
  have "length (usage_merge aa bs) \<le> Ik + 5" using assms by (simp add: usage_merge_def Ik_def)
  from Wk_usage_words [OF this] show ?thesis
    by (auto simp: usage_report_def usage_encode_def butlast_append usage_merge_def)
qed

theorem usage_report_union_witness:
  "set (Wk (butlast (usage_report [True] [False, True]))) = {0, 1}"
proof -
  have "{i. i < length [True] \<and> [True] ! i} = {0}"
    and "{i. i < length [False, True] \<and> [False, True] ! i} = {1}"
    by (auto simp: less_Suc_eq)
  then show ?thesis using usage_report_union [of "[True]" "[False, True]"] by (simp add: insert_commute)
qed

text \<open>Setting a bit sets that entry and no other.\<close>

lemma usage_set_nth:
  "i < length (usage_set bs a) \<Longrightarrow>
    usage_set bs a ! i \<longleftrightarrow> i = a \<or> (i < length bs \<and> bs ! i)"
  by (auto simp: usage_set_def nth_append nth_list_update nth_Cons')

end
