(* ===== verification/Ga_Hash.thy ===== *)
theory Ga_Hash
  imports Js_Prelude Complex_Main
begin

text \<open>
  The string hash of the analytics scripts (\<open>D\<close> in analytics.js, \<open>Yc\<close> in ga.js) and the sampling
  decisions made from it. It decides which clients are sampled, tags the domain in \<open>__utma\<close>
  cookies and checks cross-domain links.

  A string is the list of its code units. The loop runs from the last code unit to the first.
  Shown: no intermediate value leaves the range in which double arithmetic and the 32-bit
  operators agree, so the hash is a number from 0 to \<open>2^31 - 1\<close>; both scripts compute the same
  hash; sampling is monotone in the rate.
\<close>

subsection \<open>analytics.js\<close>

definition D_step :: "int \<Rightarrow> nat \<Rightarrow> int" where
  "D_step b d =
     (let b = js_and (js_shl b 6) 268435455 + int d + js_shl (int d) 14;
          d = js_and b 266338304
      in if d \<noteq> 0 then js_xor b (js_sar d 21) else b)"

definition D :: "nat list \<Rightarrow> int" where
  "D a = (if a = [] then 1 else foldl D_step 0 (rev a))"

text \<open>The sampler task \<open>xa\<close> throws \<open>abort\<close> (the result \<open>False\<close>) for the clients outside the
  sample; \<open>kd\<close> does the same for site-speed hits. Rates are any finite numbers.\<close>

definition xa_keeps :: "real \<Rightarrow> nat list \<Rightarrow> bool" where
  "xa_keeps rate cid \<longleftrightarrow> \<not> (rate \<noteq> 100 \<and> real_of_int (D cid mod 10000) \<ge> 100 * rate)"

definition kd_keeps :: "real \<Rightarrow> nat list \<Rightarrow> bool" where
  "kd_keeps rate cid \<longleftrightarrow> \<not> (real_of_int (D cid mod 100) \<ge> min rate 100)"

subsection \<open>ga.js\<close>

text \<open>\<open>Yc\<close>, with the loop counter \<open>c\<close> of the source (here one more than there).\<close>

fun Yc_loop :: "nat list \<Rightarrow> nat \<Rightarrow> int \<Rightarrow> int" where
  "Yc_loop a 0 b = b"
| "Yc_loop a (Suc c) b =
     (let d = int (a ! c);
          b = js_and (js_shl b 6) 268435455 + d + js_shl d 14;
          d = js_and b 266338304
      in Yc_loop a c (if 0 \<noteq> d then js_xor b (js_sar d 21) else b))"

definition Yc :: "nat list \<Rightarrow> int" where
  "Yc a = (if a \<noteq> [] then Yc_loop a (length a) 0 else 1)"

subsection \<open>Range\<close>

definition in_range :: "int \<Rightarrow> bool" where
  "in_range b \<longleftrightarrow> 0 \<le> b \<and> b < 2 ^ 31"

lemma D_step_sum:
  assumes "d < 65536"
  shows "in_range (js_and (js_shl b 6) 268435455 + int d + js_shl (int d) 14)"
proof -
  have "js_shl (int d) 14 = int d * 2 ^ 14" using assms by (intro js_shl_exact) auto
  moreover have "0 \<le> js_and (js_shl b 6) 268435455" "js_and (js_shl b 6) 268435455 \<le> 268435455"
    by (rule js_and_mask; simp)+
  ultimately show ?thesis using assms by (simp add: in_range_def)
qed

lemma in_range_xor: "in_range a \<Longrightarrow> in_range b \<Longrightarrow> in_range (js_xor a b)"
  unfolding in_range_def using js_xor_bounds [of a b] by blast

lemma D_step_range: "d < 65536 \<Longrightarrow> in_range (D_step b d)"
proof -
  assume d: "d < 65536"
  let ?b = "js_and (js_shl b 6) 268435455 + int d + js_shl (int d) 14"
  let ?e = "js_and ?b 266338304"
  have b: "in_range ?b" using d by (rule D_step_sum)
  have e: "0 \<le> ?e" "?e \<le> 266338304" by (rule js_and_mask; simp)+
  then have "in_range (js_sar ?e 21)"
    using js_sar_bounds [of ?e 21] by (simp add: in_range_def)
  with b have "in_range (js_xor ?b (js_sar ?e 21))" by (rule in_range_xor)
  with b show ?thesis by (simp add: D_step_def Let_def)
qed

lemma foldl_D_step_range:
  "in_range b \<Longrightarrow> \<forall>d \<in> set ds. d < 65536 \<Longrightarrow> in_range (foldl D_step b ds)"
  by (induction ds arbitrary: b) (auto intro: D_step_range)

lemma Yc_loop_foldl: "c \<le> length a \<Longrightarrow> Yc_loop a c b = foldl D_step b (rev (take c a))"
proof (induction c arbitrary: b)
  case 0
  then show ?case by simp
next
  case (Suc c)
  then have "rev (take (Suc c) a) = a ! c # rev (take c a)"
    by (simp add: take_Suc_conv_app_nth)
  with Suc show ?case by (simp add: D_step_def Let_def)
qed

text \<open>The hash of any string is an integer from 0 to 2147483647; it never turns negative and
  never leaves the range of the 32-bit operators.\<close>

theorem D_range:
  assumes "\<forall>d \<in> set a. d < 65536"
  shows "0 \<le> D a \<and> D a < 2 ^ 31"
proof -
  have "in_range (foldl D_step 0 (rev a))"
    using assms by (intro foldl_D_step_range) (auto simp: in_range_def)
  then show ?thesis by (simp add: D_def in_range_def)
qed

theorem D_range_witness: "0 \<le> D [65535, 65535, 65535] \<and> D [65535, 65535, 65535] < 2 ^ 31"
  using D_range [of "[65535, 65535, 65535]"] by simp

text \<open>analytics.js and ga.js hash every string alike, so a cookie or link written by one is
  recognised by the other.\<close>

theorem Yc_eq_D: "Yc a = D a"
  by (simp add: Yc_def D_def Yc_loop_foldl)

text \<open>Sampling is nested: a client kept at one sample rate is kept at every higher rate up to
  100, and rate 100 keeps every client, so raising the rate never loses a client.\<close>

theorem xa_monotone:
  assumes "xa_keeps r cid" and "r \<le> s" and "s \<le> 100"
  shows "xa_keeps s cid"
proof (cases "r = 100")
  case True
  with assms show ?thesis by (simp add: xa_keeps_def)
next
  case False
  with assms(1) have "real_of_int (D cid mod 10000) < 100 * r" by (simp add: xa_keeps_def)
  also have "\<dots> \<le> 100 * s" using assms(2) by simp
  finally show ?thesis by (simp add: xa_keeps_def)
qed

theorem xa_monotone_witness: "xa_keeps 1 [] \<and> xa_keeps 50 []"
proof -
  have h: "xa_keeps 1 []" by (simp add: xa_keeps_def D_def)
  moreover have "xa_keeps 50 []" by (rule xa_monotone [OF h]) simp_all
  ultimately show ?thesis ..
qed

end
