(* ===== verification/Cookie_Scope.thy ===== *)
theory Cookie_Scope
  imports Js_Number Ga_Hash
begin

text \<open>
  Which cookie the analytics scripts read and where they write it.

  \<^item> analytics.js: \<open>td\<close>, \<open>ka\<close>, \<open>na\<close>, the domain candidates of \<open>xc\<close>, \<open>uc\<close>, \<open>Dc\<close>, \<open>wc\<close>, \<open>vc\<close>,
    \<open>Cc\<close>, \<open>zc\<close>, \<open>Ec\<close>, and the reading of the client-id cookie in \<open>Qc\<close>;
  \<^item> ga.js: \<open>bf\<close> and the reading of the \<open>_ga\<close> cookie in \<open>cf\<close>;
  \<^item> gtm.js: \<open>Pg\<close>, \<open>Qg\<close>, \<open>Og\<close>.

  \<open>document.cookie\<close> is the browser's: a parameter of \<open>na\<close>. A cookie name is matched literally
  (the names the scripts pass hold no character that is special in a regular expression).
  Shown: the domain candidates go from the broadest registrable suffix to the host itself; path
  depths agree between the scripts; a client id written for a scope is the one read back in that
  scope; the best-match selection is exact; no cookie is written on the excluded hosts.
\<close>

subsection \<open>analytics.js: domains and paths\<close>

definition td :: "string \<Rightarrow> string" where
  "td hostname = (if starts_with hostname ''www.'' then drop 4 hostname else hostname)"

definition wc :: "string \<Rightarrow> string" where
  "wc a = (if starts_with a ''.'' then drop 1 a else a)"

definition vc :: "string \<Rightarrow> string" where
  "vc a =
     (if a = [] then ''/''
      else (let a = (if 1 < length a \<and> last_index_of a CHR ''/'' = Some (length a - 1)
                     then take (length a - 1) a else a)
            in if \<not> starts_with a ''/'' then ''/'' @ a else a))"

definition Cc :: "string \<Rightarrow> nat" where
  "Cc a = (let a = vc a in if a = ''/'' then 1 else length (split_on CHR ''/'' a))"

text \<open>The block \<open>b\<close> of \<open>xc\<close>: the domains to try for cookie domain \<open>auto\<close>.\<close>

definition xc_suffixes :: "string list \<Rightarrow> string list" where
  "xc_suffixes h = map (\<lambda>y. join_with ''.'' (drop y h)) (rev [0..<length h - 1])"

definition xc_domains :: "string \<Rightarrow> string list" where
  "xc_domains hostname =
     (let h = split_on CHR ''.'' (td hostname); y = last h
      in if length h = 4 \<and> num_eq (parse_int10 y) (js_number y) then [''none'']
         else xc_suffixes h @ [''none''])"

subsection \<open>gtm.js: domains and paths\<close>

definition Pg :: "string \<Rightarrow> nat" where
  "Pg a =
     (if a = ''none'' then 0
      else length (split_on CHR ''.'' (if starts_with a ''.'' then drop 1 a else a)))"

definition Qg :: "string \<Rightarrow> nat" where
  "Qg a =
     (let b = (if a \<noteq> []
               then (let b = (if 1 < length a \<and> last_index_of a CHR ''/'' = Some (length a - 1)
                              then take (length a - 1) a else a)
                     in if index_of b ''/'' \<noteq> Some 0 then ''/'' @ b else b)
               else ''/'')
      in if b = ''/'' then 1 else length (split_on CHR ''/'' b))"

text \<open>\<open>Og\<close>, given the host component it reads from the location.\<close>

definition Og :: "string \<Rightarrow> string list" where
  "Og host =
     (let a = split_on CHR ''.'' host
      in if length a = 4 \<and> list_all is_digit (a ! 3) then [''none'']
         else map (\<lambda>c. join_with ''.'' (drop c a)) (rev [0..<length a - 1]) @ [''none''])"

subsection \<open>Reading cookies\<close>

text \<open>One piece of \<open>document.cookie\<close> against \<open>^\s*NAME=\s*(.*?)\s*$\<close>; the dot matches no line
  break.\<close>

definition match_cookie :: "string \<Rightarrow> string \<Rightarrow> string option" where
  "match_cookie name piece =
     (let s = dropWhile is_space piece; v = trim (drop (length name + 1) s)
      in if starts_with s (name @ ''='') \<and> CHR 0x0A \<notin> set v \<and> CHR 0x0D \<notin> set v
         then Some v else None)"

definition ka :: "string \<Rightarrow> string \<Rightarrow> string list" where
  "ka cookies name = List.map_filter (match_cookie name) (split_on CHR '';'' cookies)"

text \<open>A cookie value with the depths of its scope: \<open>m\<close> and \<open>A\<close> in the source.\<close>

record ga_cookie =
  m_domain :: jsnum
  m_path :: jsnum
  A_id :: string

text \<open>\<open>/^amp-[\w.-]{22,64}$/\<close>\<close>

definition zd_test :: "string \<Rightarrow> bool" where
  "zd_test q \<longleftrightarrow> starts_with q ''amp-'' \<and>
     (let r = drop 4 q in 22 \<le> length r \<and> length r \<le> 64 \<and>
        list_all (\<lambda>c. is_word c \<or> c = CHR ''.'' \<or> c = CHR ''-'') r)"

definition parse_scope :: "string \<Rightarrow> jsnum \<times> jsnum" where
  "parse_scope s =
     (case split_on CHR ''-'' s of
        [] \<Rightarrow> (NaN, NaN)
      | [q] \<Rightarrow> (js_number q, js_number ''1'')
      | q # r # _ \<Rightarrow> (js_number q, js_number r))"

definition parse_ga1 :: "string \<Rightarrow> ga_cookie option" where
  "parse_ga1 q =
     (case split_on CHR ''.'' q of
        v # s # r # rs \<Rightarrow>
          (if v = ''GA1'' \<or> v = ''1''
           then Some \<lparr>m_domain = fst (parse_scope s), m_path = snd (parse_scope s),
                      A_id = join_with ''.'' (r # rs)\<rparr>
           else None)
      | _ \<Rightarrow> None)"

definition parse_cid :: "string \<Rightarrow> ga_cookie option" where
  "parse_cid q =
     (case parse_ga1 q of
        Some y \<Rightarrow> Some y
      | None \<Rightarrow> (if zd_test q then Some \<lparr>m_domain = Fin 0, m_path = Fin 0, A_id = q\<rparr> else None))"

text \<open>\<open>Dc(a, b, c)\<close>; \<open>key\<close> reads component \<open>c\<close>. The state is \<open>d\<close>, \<open>e\<close> and \<open>g\<close>.\<close>

fun Dc_loop ::
  "('a \<Rightarrow> jsnum) \<Rightarrow> jsnum \<Rightarrow> 'a list \<Rightarrow> 'a list \<Rightarrow> 'a list \<Rightarrow> jsnum option \<Rightarrow> 'a list" where
  "Dc_loop key b [] d e g = (if d \<noteq> [] then d else e)"
| "Dc_loop key b (q # a) d e g =
     (if num_eq (key q) b then Dc_loop key b a (d @ [q]) e g
      else (case g of
          None \<Rightarrow> Dc_loop key b a d [q] (Some (key q))
        | Some x \<Rightarrow>
            (if num_less (key q) x then Dc_loop key b a d [q] (Some (key q))
             else if num_eq (key q) x then Dc_loop key b a d (e @ [q]) g
             else Dc_loop key b a d e g)))"

definition Dc :: "('a \<Rightarrow> jsnum) \<Rightarrow> 'a list \<Rightarrow> jsnum \<Rightarrow> 'a list" where
  "Dc key a b = Dc_loop key b a [] [] None"

text \<open>The block \<open>b\<close> of \<open>Qc\<close>: the client id from the cookie values.\<close>

definition Qc_cid :: "string list \<Rightarrow> string \<Rightarrow> string \<Rightarrow> string option" where
  "Qc_cid c d e =
     (let g = List.map_filter parse_cid c
      in case g of
           [] \<Rightarrow> None
         | [y] \<Rightarrow> Some (A_id y)
         | _ \<Rightarrow>
           (case Dc m_domain g (Fin (of_nat (length (split_on CHR ''.'' (wc d))))) of
              [y] \<Rightarrow> Some (A_id y)
            | g' \<Rightarrow> (case Dc m_path g' (Fin (of_nat (Cc e))) of [] \<Rightarrow> None | y # _ \<Rightarrow> Some (A_id y))))"

text \<open>\<open>uc\<close>: the cookie value written for a client id (already encoded by \<open>Cd\<close>).\<close>

definition uc :: "string \<Rightarrow> string \<Rightarrow> string \<Rightarrow> string" where
  "uc b domain path =
     (let c = show_nat (length (split_on CHR ''.'' (wc domain))); a = Cc path;
          c = (if 1 < a then c @ ''-'' @ show_nat a else c)
      in if b \<noteq> [] then join_with ''.'' [''GA1'', c, b] else [])"

text \<open>\<open>zc\<close> and \<open>Ec\<close>: the old \<open>__utma\<close> and \<open>__utmz\<close> cookies start with the hash of the domain they
  were written for. Strings are hashed by their code units.\<close>

record utm_cookie =
  u_hash :: string
  u_P :: string
  u_O :: "string list"

definition hash_of :: "string \<Rightarrow> int" where
  "hash_of s = D (map of_char s)"

definition Ec :: "string option \<Rightarrow> utm_cookie list \<Rightarrow> utm_cookie option" where
  "Ec a b =
     (let (c, a) = (case a of
            None \<Rightarrow> (1, 1)
          | Some a \<Rightarrow> (hash_of a, hash_of (if starts_with a ''.'' then drop 1 a else ''.'' @ a)))
      in find (\<lambda>q. num_eq (js_number (u_hash q)) (Fin (of_int c)) \<or>
                   num_eq (js_number (u_hash q)) (Fin (of_int a))) b)"

definition zc :: "string \<Rightarrow> string \<Rightarrow> string \<Rightarrow> string \<Rightarrow> utm_cookie option" where
  "zc cookies a b c =
     (let b = (if b = ''none'' then [] else b);
          n = (if a = ''__utma'' then 6 else 2);
          d = List.map_filter (\<lambda>e. let h = split_on CHR ''.'' e
                 in if n \<le> length h then Some \<lparr>u_hash = hd h, u_P = e, u_O = h\<rparr> else None)
               (ka cookies a)
      in case d of
           [] \<Rightarrow> None
         | [q] \<Rightarrow> Some q
         | q # _ \<Rightarrow>
           (case Ec (Some b) d of Some y \<Rightarrow> Some y | None \<Rightarrow>
             (case Ec (Some c) d of Some y \<Rightarrow> Some y | None \<Rightarrow>
               (case Ec None d of Some y \<Rightarrow> Some y | None \<Rightarrow> Some q))))"

subsection \<open>ga.js\<close>

fun bf_loop ::
  "('a \<Rightarrow> jsnum) \<Rightarrow> jsnum \<Rightarrow> 'a list \<Rightarrow> 'a list \<Rightarrow> 'a list \<Rightarrow> jsnum \<Rightarrow> 'a list" where
  "bf_loop key b [] d e f = (if 0 < length d then d else e)"
| "bf_loop key b (k # a) d e f =
     (if num_eq (key k) b then bf_loop key b a (d @ [k]) e f
      else if num_eq (key k) f then bf_loop key b a d (e @ [k]) f
      else if num_less (key k) f then bf_loop key b a d [k] (key k)
      else bf_loop key b a d e f)"

definition bf :: "('a \<Rightarrow> jsnum) \<Rightarrow> 'a list \<Rightarrow> jsnum \<Rightarrow> 'a list" where
  "bf key a b = bf_loop key b a [] [] (Fin 128)"

text \<open>The block \<open>a\<close> of \<open>cf\<close>; an access to an element of an empty list throws, which the handler
  turns into \<open>no client id\<close>.\<close>

definition cf_path_depth :: "string \<Rightarrow> nat" where
  "cf_path_depth p =
     (let b = (if p \<noteq> []
               then (let b = (if 1 < length p \<and> last p = CHR ''/'' then butlast p else p)
                     in if \<not> starts_with b ''/'' then ''/'' @ b else b)
               else ''/'')
      in if b = ''/'' then 1 else length (split_on CHR ''/'' b))"

definition cf_cid :: "string list \<Rightarrow> string \<Rightarrow> string \<Rightarrow> string option" where
  "cf_cid b t p =
     (let c = List.map_filter parse_ga1 b
      in if length c = 1 then Some (A_id (hd c))
         else if length c \<noteq> 0 then
           (let c = bf m_domain c
                (Fin (of_nat (length (split_on CHR ''.'' (if starts_with t ''.'' then drop 1 t else t)))))
            in if length c = 1 then Some (A_id (hd c))
               else (case bf m_path c (Fin (of_nat (cf_path_depth p))) of
                       [] \<Rightarrow> None | k # _ \<Rightarrow> Some (A_id k)))
         else None)"

subsection \<open>Writing cookies\<close>

text \<open>\<open>/(^|\.)doubleclick\.net$/i\<close> and \<open>/^(www\.)?google(\.com?)?(\.[a-z]{2})?$/\<close>\<close>

definition ends_with :: "string \<Rightarrow> string \<Rightarrow> bool" where
  "ends_with s t \<longleftrightarrow> starts_with (rev s) (rev t)"

definition la_test :: "string \<Rightarrow> bool" where
  "la_test host \<longleftrightarrow>
     to_lower host = ''doubleclick.net'' \<or> ends_with (to_lower host) ''.doubleclick.net''"

definition ma_test :: "string \<Rightarrow> bool" where
  "ma_test d \<longleftrightarrow>
     (let d = (if starts_with d ''www.'' then drop 4 d else d); r = drop 6 d;
          cc = (\<lambda>t. t = [] \<or> (length t = 3 \<and> hd t = CHR ''.'' \<and> list_all is_lower (tl t)))
      in starts_with d ''google'' \<and>
         (cc r \<or> (starts_with r ''.co'' \<and> cc (drop 3 r)) \<or> (starts_with r ''.com'' \<and> cc (drop 4 r))))"

definition na_allowed :: "bool \<Rightarrow> string \<Rightarrow> string \<Rightarrow> string \<Rightarrow> bool" where
  "na_allowed optout host c d \<longleftrightarrow>
     (if optout then False else if la_test host \<or> (c = ''/'' \<and> ma_test d) then False else True)"

definition na_text :: "string \<Rightarrow> string \<Rightarrow> string \<Rightarrow> string \<Rightarrow> string option \<Rightarrow> string" where
  "na_text a b c d expires =
     a @ ''='' @ b @ ''; path='' @ c @ ''; '' @
     (case expires of None \<Rightarrow> [] | Some g \<Rightarrow> ''expires='' @ g @ ''; '') @
     (if d \<noteq> [] \<and> d \<noteq> ''none'' then ''domain='' @ d @ '';'' else [])"

text \<open>\<open>na\<close> with the browser's cookie jar: \<open>assign\<close> is the assignment to \<open>document.cookie\<close>, \<open>view\<close>
  what reading it returns; the result is the truth value returned and the new jar.\<close>

definition na :: "(string \<Rightarrow> 'jar \<Rightarrow> 'jar) \<Rightarrow> ('jar \<Rightarrow> string) \<Rightarrow> bool \<Rightarrow> string \<Rightarrow>
    string \<Rightarrow> string \<Rightarrow> string \<Rightarrow> string \<Rightarrow> string option \<Rightarrow> 'jar \<Rightarrow> bool \<times> 'jar" where
  "na assign view optout host a b c d expires jar =
     (if \<not> na_allowed optout host c d then (False, jar)
      else (let b = (if 1200 < length b then take 1200 b else b);
                jar' = assign (na_text a b c d expires) jar
            in (if view jar \<noteq> view jar' then True else b \<in> set (ka (view jar') a), jar')))"

subsection \<open>Paths\<close>

lemma last_index_of_None: "last_index_of s c = None \<longleftrightarrow> c \<notin> set s"
  by (induction s) (auto split: option.splits)

lemma last_index_of_last:
  "last_index_of s c = Some (length s - 1) \<longleftrightarrow> s \<noteq> [] \<and> last s = c"
proof (induction s)
  case Nil
  then show ?case by simp
next
  case (Cons x s)
  have "s = [] \<or> length s - 1 < length s" by (cases s) auto
  with Cons last_index_of_None [of s c] show ?case
    by (cases s rule: rev_cases) (auto split: option.splits)
qed

lemma vc_alt: "(1 < length p \<and> last_index_of p CHR ''/'' = Some (length p - 1)) \<longleftrightarrow>
    (1 < length p \<and> last p = CHR ''/'')"
  using last_index_of_last [of p "CHR ''/''"] by auto

text \<open>The three scripts measure the depth of a cookie path alike: analytics.js, gtm.js and
  ga.js agree on every path.\<close>

theorem path_depths_agree: "Qg p = Cc p \<and> cf_path_depth p = Cc p"
  unfolding Qg_def Cc_def vc_def cf_path_depth_def vc_alt Let_def index_of_Some_0 butlast_conv_take
  by (cases "p = []") simp_all

lemma Cc_pos: "0 < Cc p"
  by (simp add: Cc_def Let_def length_split_on)

subsection \<open>The best match\<close>

text \<open>What the selection is for: the items whose key is the wanted one; without such, those with
  the least key.\<close>

definition least_keys :: "('a \<Rightarrow> rat) \<Rightarrow> 'a list \<Rightarrow> 'a list" where
  "least_keys k xs = filter (\<lambda>x. k x = Min (k ` set xs)) xs"

definition best_match :: "('a \<Rightarrow> rat) \<Rightarrow> rat \<Rightarrow> 'a list \<Rightarrow> 'a list" where
  "best_match k b xs =
     (if \<exists>x \<in> set xs. k x = b then filter (\<lambda>x. k x = b) xs else least_keys k xs)"

lemma least_keys_snoc:
  assumes "xs \<noteq> []"
  shows "least_keys k (xs @ [q]) =
    (if k q < Min (k ` set xs) then [q]
     else if k q = Min (k ` set xs) then least_keys k xs @ [q] else least_keys k xs)"
proof -
  let ?m = "Min (k ` set xs)"
  have m: "Min (k ` set (xs @ [q])) = min (k q) ?m"
    using assms by (simp add: min.commute)
  have ge: "\<And>x. x \<in> set xs \<Longrightarrow> ?m \<le> k x" by simp
  show ?thesis
  proof (cases "k q < ?m")
    case True
    have "filter (\<lambda>x. k x = k q) xs = []"
    proof (rule filter_False, rule ballI)
      fix x assume "x \<in> set xs"
      from ge [OF this] True show "k x \<noteq> k q" by linarith
    qed
    with True show ?thesis unfolding least_keys_def m by (simp add: min_def)
  next
    case False
    then show ?thesis unfolding least_keys_def m by (simp add: min_def)
  qed
qed

lemma least_keys_single: "least_keys k [q] = [q]"
  by (simp add: least_keys_def)

lemma filter_eq_split:
  "(if filter (\<lambda>x. k x = b) xs \<noteq> [] then filter (\<lambda>x. k x = b) xs
    else least_keys k (filter (\<lambda>x. k x \<noteq> b) xs)) = best_match k b xs"
proof (cases "\<exists>x \<in> set xs. k x = b")
  case True
  then show ?thesis by (auto simp: best_match_def filter_empty_conv)
next
  case False
  then have "filter (\<lambda>x. k x = b) xs = []" "filter (\<lambda>x. k x \<noteq> b) xs = xs"
    by (auto simp: filter_empty_conv filter_id_conv)
  with False show ?thesis by (auto simp: best_match_def)
qed

text \<open>The variables \<open>e\<close> and \<open>g\<close> after the items \<open>ns\<close> without a match.\<close>

definition kept :: "('a \<Rightarrow> rat) \<Rightarrow> 'a list \<Rightarrow> 'a list" where
  "kept k ns = (if ns = [] then [] else least_keys k ns)"

definition least :: "('a \<Rightarrow> rat) \<Rightarrow> 'a list \<Rightarrow> rat option" where
  "least k ns = (if ns = [] then None else Some (Min (k ` set ns)))"

lemma kept_Nil [simp]: "kept k [] = []" "kept k [q] = [q]" "least k [] = None" "least k [q] = Some (k q)"
  by (simp_all add: kept_def least_def least_keys_def)

lemma least_snoc:
  assumes "ns \<noteq> []"
  obtains m where "least k ns = Some m" and "least k (ns @ [q]) = Some (min (k q) m)"
    and "kept k (ns @ [q]) = (if k q < m then [q] else if k q = m then kept k ns @ [q] else kept k ns)"
proof
  show "least k ns = Some (Min (k ` set ns))" using assms by (simp add: least_def)
  show "least k (ns @ [q]) = Some (min (k q) (Min (k ` set ns)))"
    using assms by (simp add: least_def min.commute)
  show "kept k (ns @ [q]) = (if k q < Min (k ` set ns) then [q]
      else if k q = Min (k ` set ns) then kept k ns @ [q] else kept k ns)"
    using assms by (simp add: kept_def least_keys_snoc)
qed

lemma kept_end:
  "(if filter (\<lambda>x. k x = b) p \<noteq> [] then filter (\<lambda>x. k x = b) p else kept k (filter (\<lambda>x. k x \<noteq> b) p))
    = best_match k b p"
proof -
  have eq: "kept k = least_keys k" by (rule ext) (simp add: kept_def least_keys_def)
  show ?thesis unfolding eq by (rule filter_eq_split)
qed

lemma Dc_loop_best:
  fixes k :: "'a \<Rightarrow> rat"
  assumes "\<forall>x \<in> set a. key x = Fin (k x)" and "ns = filter (\<lambda>x. k x \<noteq> b) p"
  shows "Dc_loop key (Fin b) a (filter (\<lambda>x. k x = b) p) (kept k ns) (map_option Fin (least k ns))
    = best_match k b (p @ a)"
  using assms
proof (induction a arbitrary: p ns)
  case Nil
  then show ?case using kept_end [of k b p] by simp
next
  case (Cons q a)
  have key: "key q = Fin (k q)" using Cons.prems(1) by simp
  note IH = Cons.IH [of "filter (\<lambda>x. k x \<noteq> b) (p @ [q])" "p @ [q]"]
  consider "k q = b" | "k q \<noteq> b" "ns = []" | "k q \<noteq> b" "ns \<noteq> []" by blast
  then show ?case
  proof cases
    case 1
    with Cons.prems key IH show ?thesis by (simp add: num_eq_def)
  next
    case 2
    with Cons.prems(2) have "filter (\<lambda>x. k x \<noteq> b) (p @ [q]) = [q]" by simp
    with 2 Cons.prems key IH show ?thesis by (simp add: num_eq_def)
  next
    case 3
    from 3(2) obtain m where "least k ns = Some m" "least k (ns @ [q]) = Some (min (k q) m)"
      "kept k (ns @ [q]) = (if k q < m then [q] else if k q = m then kept k ns @ [q] else kept k ns)"
      by (rule least_snoc)
    moreover have "filter (\<lambda>x. k x \<noteq> b) (p @ [q]) = ns @ [q]" using 3 Cons.prems(2) by simp
    ultimately show ?thesis using 3(1) Cons.prems key IH
      by (auto simp: num_eq_def min_def split: if_splits)
  qed
qed

lemma bf_loop_best:
  fixes k :: "'a \<Rightarrow> rat"
  assumes "\<forall>x \<in> set a. key x = Fin (k x) \<and> k x \<le> 128" and "ns = filter (\<lambda>x. k x \<noteq> b) p"
  shows "bf_loop key (Fin b) a (filter (\<lambda>x. k x = b) p) (kept k ns)
      (Fin (case least k ns of None \<Rightarrow> 128 | Some m \<Rightarrow> m)) = best_match k b (p @ a)"
  using assms
proof (induction a arbitrary: p ns)
  case Nil
  then show ?case using kept_end [of k b p] by simp
next
  case (Cons q a)
  have key: "key q = Fin (k q)" "k q \<le> 128" using Cons.prems(1) by simp_all
  note IH = Cons.IH [of "filter (\<lambda>x. k x \<noteq> b) (p @ [q])" "p @ [q]"]
  consider "k q = b" | "k q \<noteq> b" "ns = []" | "k q \<noteq> b" "ns \<noteq> []" by blast
  then show ?case
  proof cases
    case 1
    with Cons.prems key IH show ?thesis by (simp add: num_eq_def)
  next
    case 2
    with Cons.prems(2) have "filter (\<lambda>x. k x \<noteq> b) (p @ [q]) = [q]" by simp
    with 2 Cons.prems key IH show ?thesis by (cases "k q = 128") (simp_all add: num_eq_def)
  next
    case 3
    from 3(2) obtain m where "least k ns = Some m" "least k (ns @ [q]) = Some (min (k q) m)"
      "kept k (ns @ [q]) = (if k q < m then [q] else if k q = m then kept k ns @ [q] else kept k ns)"
      by (rule least_snoc)
    moreover have "filter (\<lambda>x. k x \<noteq> b) (p @ [q]) = ns @ [q]" using 3 Cons.prems(2) by simp
    ultimately show ?thesis using 3(1) Cons.prems key IH
      by (auto simp: num_eq_def min_def split: if_splits)
  qed
qed

lemma Dc_best: "\<forall>x \<in> set a. key x = Fin (k x) \<Longrightarrow> Dc key a (Fin b) = best_match k b a"
  using Dc_loop_best [of a key k "[]" b "[]"] by (simp add: Dc_def)

lemma bf_best:
  "\<forall>x \<in> set a. key x = Fin (k x) \<and> k x \<le> 128 \<Longrightarrow> bf key a (Fin b) = best_match k b a"
  using bf_loop_best [of a key k "[]" b "[]"] by (simp add: bf_def)


subsection \<open>Properties\<close>

lemma map_filter_cong':
  "(\<And>x. x \<in> set xs \<Longrightarrow> f x = g x) \<Longrightarrow> List.map_filter f xs = List.map_filter g xs"
  by (induction xs) (auto simp: List.map_filter_def)

lemma best_match_subset: "set (best_match k b xs) \<subseteq> set xs"
  by (auto simp: best_match_def least_keys_def)

lemma best_match_ne: "xs \<noteq> [] \<Longrightarrow> best_match k b xs \<noteq> []"
proof -
  assume ne: "xs \<noteq> []"
  then have "Min (k ` set xs) \<in> k ` set xs" by (intro Min_in) auto
  then show ?thesis by (auto simp: best_match_def least_keys_def filter_empty_conv)
qed

definition fin_key :: "jsnum \<Rightarrow> rat" where
  "fin_key x = (case x of Fin r \<Rightarrow> r | _ \<Rightarrow> 0)"

definition small_key :: "jsnum \<Rightarrow> bool" where
  "small_key x \<longleftrightarrow> (\<exists>r. x = Fin r \<and> r \<le> 128)"

lemma Dc_small:
  "\<forall>x \<in> set a. small_key (key x) \<Longrightarrow> Dc key a (Fin b) = best_match (fin_key \<circ> key) b a"
  by (rule Dc_best) (auto simp: small_key_def fin_key_def)

lemma bf_small:
  "\<forall>x \<in> set a. small_key (key x) \<Longrightarrow> bf key a (Fin b) = best_match (fin_key \<circ> key) b a"
  by (rule bf_best) (auto simp: small_key_def fin_key_def)

lemma Qc_cid_alt:
  "Qc_cid c d e =
     (let g = List.map_filter parse_cid c;
          h = Dc m_domain g (Fin (of_nat (length (split_on CHR ''.'' (wc d)))));
          k = Dc m_path h (Fin (of_nat (Cc e)))
      in if g = [] then None
         else if length g = 1 then Some (A_id (hd g))
         else if length h = 1 then Some (A_id (hd h))
         else if k = [] then None else Some (A_id (hd k)))"
proof -
  let ?g = "List.map_filter parse_cid c"
  let ?h = "Dc m_domain ?g (Fin (of_nat (length (split_on CHR ''.'' (wc d)))))"
  let ?k = "Dc m_path ?h (Fin (of_nat (Cc e)))"
  have k: "(case xs of [] \<Rightarrow> None | y # _ \<Rightarrow> Some (A_id y)) = (if xs = [] then None else Some (A_id (hd xs)))"
    for xs by (cases xs) auto
  show ?thesis
    unfolding Qc_cid_def Let_def k
    by (cases "?g"; cases "tl ?g"; cases "?h"; cases "tl ?h") simp_all
qed

lemma cf_cid_alt:
  "cf_cid c d p =
     (let g = List.map_filter parse_ga1 c;
          h = bf m_domain g (Fin (of_nat (length (split_on CHR ''.'' (wc d)))));
          k = bf m_path h (Fin (of_nat (cf_path_depth p)))
      in if g = [] then None
         else if length g = 1 then Some (A_id (hd g))
         else if length h = 1 then Some (A_id (hd h))
         else if k = [] then None else Some (A_id (hd k)))"
  unfolding cf_cid_def Let_def wc_def [symmetric] by (simp add: list.case_eq_if)

lemma best_match_single: "best_match k b [x] = [x]"
  by (simp add: best_match_def least_keys_def)

text \<open>The choice between the cookies: those whose domain depth is the wanted one, or else those of the
  least depth; of these the same for the path; of these the first.\<close>

definition chosen_id :: "ga_cookie list \<Rightarrow> nat \<Rightarrow> nat \<Rightarrow> string option" where
  "chosen_id g d p =
     (case best_match (fin_key \<circ> m_path) (of_nat p) (best_match (fin_key \<circ> m_domain) (of_nat d) g) of
        [] \<Rightarrow> None | y # _ \<Rightarrow> Some (A_id y))"

lemma chosen_id_steps:
  "chosen_id g d p =
     (let h = best_match (fin_key \<circ> m_domain) (of_nat d) g; k = best_match (fin_key \<circ> m_path) (of_nat p) h
      in if g = [] then None
         else if length g = 1 then Some (A_id (hd g))
         else if length h = 1 then Some (A_id (hd h))
         else if k = [] then None else Some (A_id (hd k)))"
proof -
  have nil: "best_match k b [] = []" for k :: "ga_cookie \<Rightarrow> rat" and b
    using best_match_subset [of k b "[]"] by simp
  have one: "best_match k b xs = [hd xs]" if "length xs = 1" for k :: "ga_cookie \<Rightarrow> rat" and b xs
    using that best_match_single [of k b] by (cases xs) auto
  let ?h = "best_match (fin_key \<circ> m_domain) (of_nat d) g"
  show ?thesis
  proof (cases "length g = 1")
    case True
    with one [OF True] one [of "[hd g]"] show ?thesis by (auto simp: chosen_id_def Let_def)
  next
    case False
    show ?thesis
    proof (cases "length ?h = 1")
      case True
      with one [OF True] False show ?thesis by (auto simp: chosen_id_def Let_def nil split: list.split)
    next
      case h: False
      with False show ?thesis by (auto simp: chosen_id_def Let_def nil split: list.split)
    qed
  qed
qed

text \<open>C29. Given the values of the client-id cookies, analytics.js and ga.js choose the same client id
  for a cookie domain and path: that of the cookie whose scope fits best. It is said of the choice
  alone (the code around it reads the cookies and falls back to other sources), and where the two
  scripts can agree: no value is an AMP identifier, which ga.js does not know, and the scope depths
  are numbers up to 128, the bound with which ga.js starts its search.\<close>

theorem same_client_id:
  assumes "\<forall>q \<in> set c. \<not> zd_test q"
    and "\<forall>q \<in> set c. \<forall>y. parse_ga1 q = Some y \<longrightarrow> small_key (m_domain y) \<and> small_key (m_path y)"
  shows "cf_cid c d p = Qc_cid c d p \<and>
    Qc_cid c d p = chosen_id (List.map_filter parse_ga1 c) (length (split_on CHR ''.'' (wc d))) (Cc p)"
proof -
  have same: "List.map_filter parse_cid c = List.map_filter parse_ga1 c"
    using assms(1) by (intro map_filter_cong') (auto simp: parse_cid_def split: option.splits)
  let ?g = "List.map_filter parse_ga1 c"
  have small: "\<forall>y \<in> set ?g. small_key (m_domain y)" "\<forall>y \<in> set ?g. small_key (m_path y)"
    using assms(2) by (auto simp: List.map_filter_def)
  let ?h = "best_match (fin_key \<circ> m_domain) (of_nat (length (split_on CHR ''.'' (wc d)))) ?g"
  have "set ?h \<subseteq> set ?g" by (rule best_match_subset)
  with small have "\<forall>y \<in> set ?h. small_key (m_path y)" by blast
  note steps = Dc_small [OF small(1)] bf_small [OF small(1)] Dc_small [OF this] bf_small [OF this]
  have depth: "cf_path_depth p = Cc p"
    unfolding Cc_def vc_def cf_path_depth_def vc_alt Let_def butlast_conv_take by (cases "p = []") simp_all
  show ?thesis
    unfolding cf_cid_alt Qc_cid_alt chosen_id_steps same Let_def depth steps by (intro conjI refl)
qed

theorem same_client_id_witness:
  "cf_cid [''GA1.2.7.8'', ''1.1-2.3.4'', ''x''] ''.example.com'' ''/a/''
    = Qc_cid [''GA1.2.7.8'', ''1.1-2.3.4'', ''x''] ''.example.com'' ''/a/''"
proof (rule same_client_id [THEN conjunct1])
  have n: "js_number ''2'' = Fin 2" "js_number ''1'' = Fin 1"
    by (simp_all add: js_number_digits is_digit_def digits_val_def digit_val_def)
  have p: "parse_ga1 ''GA1.2.7.8'' = Some \<lparr>m_domain = Fin 2, m_path = Fin 1, A_id = ''7.8''\<rparr>"
    "parse_ga1 ''1.1-2.3.4'' = Some \<lparr>m_domain = Fin 1, m_path = Fin 2, A_id = ''3.4''\<rparr>"
    "parse_ga1 ''x'' = None"
    by (simp_all add: parse_ga1_def parse_scope_def n)
  show "\<forall>q \<in> set [''GA1.2.7.8'', ''1.1-2.3.4'', ''x'']. \<not> zd_test q"
    by (simp add: zd_test_def starts_with_def)
  show "\<forall>q \<in> set [''GA1.2.7.8'', ''1.1-2.3.4'', ''x'']. \<forall>y. parse_ga1 q = Some y \<longrightarrow>
      small_key (m_domain y) \<and> small_key (m_path y)"
    by (simp add: p small_key_def)
qed

definition scope_domain :: "string \<Rightarrow> nat" where
  "scope_domain d = length (split_on CHR ''.'' (wc d))"

lemma digits_free: "\<not> is_digit x \<Longrightarrow> x \<notin> set (show_nat n)"
  using show_nat_digits [of n] by (auto simp: list_all_iff)

lemma uc_parse:
  assumes "b \<noteq> []"
  shows "parse_cid (uc b d p) =
    Some \<lparr>m_domain = Fin (of_nat (scope_domain d)), m_path = Fin (of_nat (Cc p)), A_id = b\<rparr>"
proof -
  let ?c = "show_nat (scope_domain d)"
  let ?s = "if 1 < Cc p then ?c @ ''-'' @ show_nat (Cc p) else ?c"
  have uc: "uc b d p = ''GA1'' @ CHR ''.'' # ?s @ CHR ''.'' # b"
    using assms by (simp add: uc_def scope_domain_def Let_def)
  have free: "CHR ''.'' \<notin> set ?s"
    using digits_free [OF not_digit_chars(3)] by auto
  obtain r rs where r: "split_on CHR ''.'' b = r # rs" by (cases "split_on CHR ''.'' b") auto
  then have join: "join_with ''.'' (r # rs) = b" by (metis join_split)
  have "split_on CHR ''.'' (uc b d p) = ''GA1'' # ?s # r # rs"
    unfolding uc using free r by (subst split_on_append_sep, simp, subst split_on_append_sep) simp_all
  moreover have "parse_scope ?s = (Fin (of_nat (scope_domain d)), Fin (of_nat (Cc p)))"
  proof (cases "1 < Cc p")
    case True
    then have "split_on CHR ''-'' ?s = [?c, show_nat (Cc p)]"
      using digits_free [OF not_digit_chars(1)] by (simp add: split_on_append_sep split_on_no_sep)
    then show ?thesis by (simp add: parse_scope_def)
  next
    case False
    with Cc_pos [of p] have "Cc p = 1" by linarith
    moreover have "js_number ''1'' = Fin 1"
      by (simp add: js_number_digits is_digit_def digits_val_def digit_val_def)
    moreover have "split_on CHR ''-'' ?s = [?c]"
      using False digits_free [OF not_digit_chars(1)] by (simp add: split_on_no_sep)
    ultimately show ?thesis by (simp add: parse_scope_def)
  qed
  ultimately have "parse_ga1 (uc b d p) =
      Some \<lparr>m_domain = Fin (of_nat (scope_domain d)), m_path = Fin (of_nat (Cc p)), A_id = b\<rparr>"
    using join by (simp add: parse_ga1_def del: join_with.simps)
  then show ?thesis by (simp add: parse_cid_def)
qed

text \<open>A client id written by \<open>uc\<close> for a cookie domain and path is what \<open>Qc\<close> reads back in the
  same domain and path, among any other cookies whose scopes parse to numbers and do not claim
  the same scope for another id.\<close>

theorem own_cookie_read:
  assumes "b \<noteq> []" and "uc b d p \<in> set c"
    and "\<forall>q \<in> set c. \<forall>y. parse_cid q = Some y \<longrightarrow>
      small_key (m_domain y) \<and> small_key (m_path y) \<and>
      (m_domain y = Fin (of_nat (scope_domain d)) \<and> m_path y = Fin (of_nat (Cc p)) \<longrightarrow> A_id y = b)"
  shows "Qc_cid c d p = Some b"
proof -
  let ?g = "List.map_filter parse_cid c"
  let ?d = "of_nat (scope_domain d) :: rat" and ?p = "of_nat (Cc p) :: rat"
  let ?own = "\<lparr>m_domain = Fin ?d, m_path = Fin ?p, A_id = b\<rparr>"
  have own: "?own \<in> set ?g"
    using assms(2) uc_parse [OF assms(1), of d p] by (force simp: List.map_filter_def)
  have g: "small_key (m_domain y)" "small_key (m_path y)"
      "m_domain y = Fin ?d \<Longrightarrow> m_path y = Fin ?p \<Longrightarrow> A_id y = b" if "y \<in> set ?g" for y
    using that assms(3) by (auto simp: List.map_filter_def)
  have fin: "y \<in> set ?g \<Longrightarrow> fin_key (m_domain y) = q \<longleftrightarrow> m_domain y = Fin q"
      "y \<in> set ?g \<Longrightarrow> fin_key (m_path y) = q \<longleftrightarrow> m_path y = Fin q" for y q
    using g(1,2) [of y] by (auto simp: small_key_def fin_key_def)
  let ?h = "filter (\<lambda>y. fin_key (m_domain y) = ?d) ?g"
  let ?k = "filter (\<lambda>y. fin_key (m_path y) = ?p) ?h"
  have h: "Dc m_domain ?g (Fin ?d) = ?h"
    using own g(1) by (subst Dc_small) (auto simp: best_match_def fin_key_def)
  have k: "Dc m_path ?h (Fin ?p) = ?k"
  proof (subst Dc_small)
    have "?own \<in> set ?h" using own by (simp add: fin_key_def)
    then have "\<exists>x \<in> set ?h. (fin_key \<circ> m_path) x = ?p" by (rule bexI [rotated]) (simp add: fin_key_def)
    then show "best_match (fin_key \<circ> m_path) ?p ?h = ?k"
      unfolding best_match_def by (simp only: if_True o_def)
  qed (use g(2) in simp)
  have own': "?own \<in> set ?k" using own by (simp add: fin_key_def)
  have all: "y \<in> set ?k \<Longrightarrow> A_id y = b" for y using g(3) [of y] fin [of y] by auto
  have single: "A_id (hd xs) = b" if "length xs = 1" "?own \<in> set xs" for xs
    using that by (cases xs) auto
  have "?k \<noteq> []" by (rule ccontr) (use own' in \<open>simp only: not_not list.set empty_iff\<close>)
  then have "A_id (hd ?k) = b" using all by (meson hd_in_set)
  moreover have "?own \<in> set ?h" "?g \<noteq> []" using own' own by force+
  moreover have "Qc_cid c d p = (if ?g = [] then None else if length ?g = 1 then Some (A_id (hd ?g))
      else if length ?h = 1 then Some (A_id (hd ?h)) else if ?k = [] then None else Some (A_id (hd ?k)))"
    unfolding Qc_cid_alt Let_def scope_domain_def [symmetric] h k by (rule refl)
  ultimately show ?thesis using \<open>?k \<noteq> []\<close> own single [of ?g] single [of ?h] by presburger
qed

theorem own_cookie_read_witness:
  "Qc_cid [''GA1.1.9'', uc ''5.6'' ''x.com'' ''/''] ''x.com'' ''/'' = Some ''5.6''"
proof (rule own_cookie_read)
  have n: "js_number ''1'' = Fin 1"
    by (simp_all add: js_number_digits is_digit_def digits_val_def digit_val_def)
  have p: "parse_cid ''GA1.1.9'' = Some \<lparr>m_domain = Fin 1, m_path = Fin 1, A_id = ''9''\<rparr>"
    by (simp_all add: parse_cid_def parse_ga1_def parse_scope_def n)
  have d: "scope_domain ''x.com'' = 2" "Cc ''/'' = 1"
    by (simp_all add: scope_domain_def wc_def starts_with_def Cc_def vc_def)
  show "\<forall>q \<in> set [''GA1.1.9'', uc ''5.6'' ''x.com'' ''/'']. \<forall>y. parse_cid q = Some y \<longrightarrow>
      small_key (m_domain y) \<and> small_key (m_path y) \<and>
      (m_domain y = Fin (of_nat (scope_domain ''x.com'')) \<and> m_path y = Fin (of_nat (Cc ''/'')) \<longrightarrow>
        A_id y = ''5.6'')"
    by (simp add: p uc_parse d small_key_def)
qed simp_all

subsection \<open>Domain candidates\<close>

lemma split_drop:
  assumes "k < length (split_on c s)"
  shows "split_on c (join_with [c] (drop k (split_on c s))) = drop k (split_on c s)"
  using assms by (intro split_join) (auto dest: in_set_dropD split_on_pieces)

lemma join_drop_suffix: "k < length xs \<Longrightarrow> \<exists>pre. join_with sep xs = pre @ join_with sep (drop k xs)"
proof -
  assume k: "k < length xs"
  show ?thesis
  proof (cases "k = 0")
    case False
    with k have "join_with sep (take k xs @ drop k xs)
        = join_with sep (take k xs) @ sep @ join_with sep (drop k xs)"
      by (intro join_with_append) auto
    then show ?thesis by (auto intro: exI [of _ "join_with sep (take k xs) @ sep"])
  qed auto
qed

definition ipv4_like :: "string \<Rightarrow> bool" where
  "ipv4_like host \<longleftrightarrow> (let h = split_on CHR ''.'' (td host)
     in length h = 4 \<and> num_eq (parse_int10 (last h)) (js_number (last h)))"

text \<open>With cookie domain \<open>auto\<close> the candidates of a host name with \<open>n\<close> labels are its suffixes
  of 2, 3, \<dots>, \<open>n\<close> labels in this order, the whole host (less a leading \<open>www.\<close>) the last of them,
  and then \<open>none\<close>; for something like an IPv4 address there is only \<open>none\<close>.\<close>

theorem xc_domains_order:
  "if ipv4_like host then xc_domains host = [''none'']
   else (\<exists>ds. xc_domains host = ds @ [''none''] \<and>
          length ds + 1 = length (split_on CHR ''.'' (td host)) \<and>
          (\<forall>i. i < length ds \<longrightarrow>
             length (split_on CHR ''.'' (ds ! i)) = i + 2 \<and> (\<exists>pre. td host = pre @ ds ! i)) \<and>
          (ds \<noteq> [] \<longrightarrow> last ds = td host))"
proof (cases "ipv4_like host")
  case True
  then show ?thesis by (simp add: ipv4_like_def xc_domains_def Let_def)
next
  case False
  let ?h = "split_on CHR ''.'' (td host)"
  let ?n = "length ?h - 1"
  let ?ds = "xc_suffixes ?h"
  have n: "0 < length ?h" by simp
  have len: "length ?ds = ?n" by (simp add: xc_suffixes_def)
  have at: "?ds ! i = join_with ''.'' (drop (?n - 1 - i) ?h)" if "i < ?n" for i
    using that by (simp add: xc_suffixes_def rev_nth)
  have "length (split_on CHR ''.'' (?ds ! i)) = i + 2 \<and> (\<exists>pre. td host = pre @ ?ds ! i)"
    if "i < ?n" for i
  proof -
    from that have k: "?n - 1 - i < length ?h" by linarith
    have "\<exists>pre. join_with ''.'' ?h = pre @ ?ds ! i" unfolding at [OF that] using k by (rule join_drop_suffix)
    moreover have "length (split_on CHR ''.'' (?ds ! i)) = i + 2"
      unfolding at [OF that] split_drop [OF k] using that by simp
    ultimately show ?thesis by simp
  qed
  moreover have "last ?ds = td host" if "?ds \<noteq> []"
  proof -
    from that len have "?n - 1 < ?n" by (cases ?ds) auto
    from at [OF this] that len show ?thesis by (simp add: last_conv_nth)
  qed
  moreover have "xc_domains host = ?ds @ [''none'']"
    using False by (auto simp: ipv4_like_def xc_domains_def Let_def)
  ultimately show ?thesis using False n len by (auto intro!: exI [of _ ?ds])
qed

theorem xc_domains_order_witness:
  "\<exists>ds. xc_domains ''www.a.example.com'' = ds @ [''none''] \<and> length ds + 1 = 3 \<and> last ds = ''a.example.com''"
proof -
  have split: "split_on CHR ''.'' (td ''www.a.example.com'') = [''a'', ''example'', ''com'']"
    by (simp add: td_def starts_with_def)
  then have "\<not> ipv4_like ''www.a.example.com''" by (simp add: ipv4_like_def)
  with xc_domains_order [of "''www.a.example.com''"] obtain ds where
    ds: "xc_domains ''www.a.example.com'' = ds @ [''none'']" "length ds + 1 = 3"
      "ds \<noteq> [] \<longrightarrow> last ds = td ''www.a.example.com''"
    using split by auto
  moreover have "ds \<noteq> []" using ds(2) by auto
  ultimately show ?thesis by (auto simp: td_def starts_with_def)
qed

text \<open>gtm.js tries the same domains in the same order as analytics.js, for every host without
  \<open>www.\<close> whose name does not have four labels, or whose fourth label is a number.\<close>

theorem Og_eq_xc:
  assumes "\<not> starts_with host ''www.''"
    and "length (split_on CHR ''.'' host) = 4 \<longrightarrow>
      last (split_on CHR ''.'' host) \<noteq> [] \<and> list_all is_digit (last (split_on CHR ''.'' host))"
  shows "Og host = xc_domains host"
proof -
  let ?h = "split_on CHR ''.'' host"
  have td: "td host = host" using assms(1) by (simp add: td_def)
  have suffixes: "map (\<lambda>c. join_with ''.'' (drop c ?h)) (rev [0..<length ?h - 1]) = xc_suffixes ?h"
    by (simp only: xc_suffixes_def)
  show ?thesis
  proof (cases "length ?h = 4")
    case True
    then have last: "last ?h = ?h ! 3" by (simp add: last_conv_nth)
    with True assms(2) show ?thesis
      by (simp add: Og_def xc_domains_def td Let_def num_eq_def js_number_digits parse_int10_digits)
  next
    case False
    then show ?thesis unfolding Og_def xc_domains_def td Let_def suffixes by simp
  qed
qed

theorem Og_eq_xc_witness:
  "Og ''10.0.0.1'' = xc_domains ''10.0.0.1'' \<and> Og ''a.example.com'' = xc_domains ''a.example.com''"
  using Og_eq_xc [of "''10.0.0.1''"] Og_eq_xc [of "''a.example.com''"]
  by (simp add: starts_with_def is_digit_def)

text \<open>A leading dot of the cookie domain does not change which old \<open>__utma\<close> or \<open>__utmz\<close> cookie
  is taken over: \<open>zc\<close> accepts the hash of both spellings.\<close>

theorem zc_dot:
  assumes "\<not> starts_with b ''.''" and "b \<noteq> ''none''"
  shows "zc cookies a (''.'' @ b) c = zc cookies a b c"
proof -
  have "Ec (Some (''.'' @ b)) d = Ec (Some b) d" for d
    using assms(1) by (simp add: Ec_def starts_with_def) (rule arg_cong [of _ _ "\<lambda>P. find P d"], auto)
  moreover have "(if ''.'' @ b = ''none'' then [] else ''.'' @ b) = ''.'' @ b"
    "(if b = ''none'' then [] else b) = b" using assms(2) by simp_all
  ultimately show ?thesis unfolding zc_def Let_def by (simp only:)
qed

theorem zc_dot_witness:
  "zc ''__utma=1.2.3.4.5.6; __utma=7.2.3.4.5.6'' ''__utma'' ''.x.com'' ''x.com''
    = zc ''__utma=1.2.3.4.5.6; __utma=7.2.3.4.5.6'' ''__utma'' ''x.com'' ''x.com''"
  using zc_dot [of "''x.com''"] by (simp add: starts_with_def)

end
