(* ===== verification/Rate_Limits.thy ===== *)
theory Rate_Limits
  imports Js_Prelude
begin

text \<open>
  The four rate limiters.

  \<^item> analytics.js \<open>Pa\<close>: hits other than \<open>transaction\<close> and \<open>item\<close> take a token; tokens come back
    at \<open>Math.round(2 * elapsed / 1000)\<close>, up to 20;
  \<^item> ga.js \<open>ne\<close> and \<open>pe\<close>: events take a token; one token per full second, up to 10. The time of
    the last refill starts as the session's time in seconds and is in milliseconds from the first
    refill on, which \<open>ne\<close> tells apart by comparing it with the session time;
  \<^item> prompt_embed_static.js \<open>RateThrottler\<close> (\<open>zd\<close>): a sliding window of an hour;
  \<^item> gtm.js \<open>vl\<close> and \<open>tl\<close>: two tag reports per tick, a thousand per page.

  Times are milliseconds (\<open>int\<close>); the ticks of \<open>setInterval\<close> are explicit steps.
  The first two implement the contract \<open>token_bucket\<close>, from which the bound on the hits admitted
  in any period follows for both.
\<close>

subsection \<open>The contract of a token bucket\<close>

locale token_bucket =
  fixes attempt :: "int \<Rightarrow> 's \<Rightarrow> bool \<times> 's"
    and tokens :: "'s \<Rightarrow> int"
    and clock :: "'s \<Rightarrow> int"
    and valid :: "'s \<Rightarrow> bool"
    and cap :: int
    and period :: int
  assumes period_pos: "0 < period"
    and valid_tokens: "valid s \<Longrightarrow> 0 \<le> tokens s \<and> tokens s \<le> cap"
    and valid_attempt: "valid s \<Longrightarrow> clock s \<le> now \<Longrightarrow> valid (snd (attempt now s))"
    and clock_attempt: "valid s \<Longrightarrow> clock s \<le> now \<Longrightarrow>
      clock s \<le> clock (snd (attempt now s)) \<and> clock (snd (attempt now s)) \<le> now"
    and pay: "valid s \<Longrightarrow> clock s \<le> now \<Longrightarrow>
      period * (tokens (snd (attempt now s)) + (if fst (attempt now s) then 1 else 0))
        \<le> period * tokens s + (clock (snd (attempt now s)) - clock s)"
begin

fun admitted :: "int list \<Rightarrow> 's \<Rightarrow> int" where
  "admitted [] s = 0"
| "admitted (now # ts) s =
     (if fst (attempt now s) then 1 else 0) + admitted ts (snd (attempt now s))"

lemma admitted_bound:
  assumes "valid s" and "sorted (clock s # ts)"
  shows "period * admitted ts s \<le> period * tokens s + (last (clock s # ts) - clock s)"
  using assms
proof (induction ts arbitrary: s)
  case Nil
  then show ?case using valid_tokens [of s] period_pos by simp
next
  case (Cons now ts)
  let ?s = "snd (attempt now s)"
  have now: "clock s \<le> now" using Cons.prems(2) by simp
  note step = valid_attempt [OF Cons.prems(1) now] clock_attempt [OF Cons.prems(1) now]
    pay [OF Cons.prems(1) now]
  have "sorted (clock ?s # ts)" using Cons.prems(2) step(2) by auto
  from Cons.IH [OF step(1) this]
  have IH: "period * admitted ts ?s \<le> period * tokens ?s + (last (clock ?s # ts) - clock ?s)" .
  have "last (clock ?s # ts) \<le> last (now # ts)" using step(2) by auto
  with IH step(3) show ?case by (simp add: distrib_left)
qed

theorem admitted_cap:
  assumes "valid s" and "sorted (clock s # ts)"
  shows "period * admitted ts s \<le> period * cap + (last (clock s # ts) - clock s)"
proof -
  have "period * tokens s \<le> period * cap"
    using valid_tokens [OF assms(1)] period_pos by simp
  with admitted_bound [OF assms] show ?thesis by linarith
qed

end

subsection \<open>analytics.js\<close>

text \<open>\<open>Math.round(x / y)\<close> for integers.\<close>

definition js_round_div :: "int \<Rightarrow> int \<Rightarrow> int" where
  "js_round_div x y = (2 * x + y) div (2 * y)"

text \<open>The fields \<open>_hc\<close>, \<open>_ti\<close> and \<open>_to\<close> of a tracker, with their default values.\<close>

record pa_state =
  Qa_hits :: int
  Ta_time :: int
  Sa_tokens :: int

definition pa_init :: pa_state where
  "pa_init = \<lparr>Qa_hits = 0, Ta_time = 0, Sa_tokens = 20\<rparr>"

text \<open>The result \<open>False\<close> is \<open>throw "abort"\<close>; the fields set before the throw keep their values.\<close>

definition Pa :: "string \<Rightarrow> int \<Rightarrow> pa_state \<Rightarrow> bool \<times> pa_state" where
  "Pa Ra d a =
     (let b = Qa_hits a
      in if Ra \<noteq> ''transaction'' \<and> Ra \<noteq> ''item''
         then (let c = Sa_tokens a; e = Ta_time a;
                   a = (if e = 0 then a\<lparr>Ta_time := d\<rparr> else a);
                   e = js_round_div (2 * (d - e)) 1000;
                   (c, a) = (if 0 < e then (min (c + e) 20, a\<lparr>Ta_time := d\<rparr>) else (c, a))
               in if 0 \<ge> c then (False, a)
                  else (True, a\<lparr>Sa_tokens := c - 1, Qa_hits := b + 1\<rparr>))
         else (True, a\<lparr>Qa_hits := b + 1\<rparr>))"

subsection \<open>ga.js\<close>

text \<open>The session fields \<open>cc\<close> (hits), \<open>dc\<close> (last refill), \<open>Zb\<close> (start of the session, in
  seconds) and \<open>R\<close> (tokens).\<close>

record ne_state =
  cc_hits :: int
  dc_last :: int
  Zb_session :: int
  R_tokens :: int

text \<open>\<open>ne\<close>: the truth value says whether \<open>stopPropagation\<close> was called.\<close>

definition ne :: "string \<Rightarrow> int \<Rightarrow> ne_state \<Rightarrow> bool \<times> ne_state" where
  "ne sc b a =
     (let stop = (sc \<noteq> ''trans'' \<and> 500 \<le> cc_hits a)
      in if sc = ''event''
         then (let c = dc_last a; d = Zb_session a;
                   c = (b - (if c \<noteq> d then c else 1000 * c)) div 1000;
                   a = (if 0 < c then a\<lparr>dc_last := b, R_tokens := min 10 (R_tokens a + c)\<rparr> else a)
               in (stop \<or> 0 \<ge> R_tokens a, a))
         else (stop, a))"

definition pe :: "string \<Rightarrow> ne_state \<Rightarrow> ne_state" where
  "pe sc a = (if sc = ''event'' then a\<lparr>R_tokens := max 0 (R_tokens a - 1)\<rparr> else a)"

text \<open>An event on its way: the handlers after \<open>ne\<close>, \<open>pe\<close> among them, run unless it was stopped;
  the hit is counted when it is sent (\<open>re\<close>).\<close>

definition ne_event :: "int \<Rightarrow> ne_state \<Rightarrow> bool \<times> ne_state" where
  "ne_event b a =
     (let (stop, a) = ne ''event'' b a
      in if stop then (False, a)
         else (True, pe ''event'' (a\<lparr>cc_hits := cc_hits a + 1\<rparr>)))"

definition ne_clock :: "ne_state \<Rightarrow> int" where
  "ne_clock a = (if dc_last a \<noteq> Zb_session a then dc_last a else 1000 * dc_last a)"

definition ne_valid :: "ne_state \<Rightarrow> bool" where
  "ne_valid a \<longleftrightarrow> 0 < Zb_session a \<and> 1000 * Zb_session a \<le> ne_clock a \<and>
     0 \<le> R_tokens a \<and> R_tokens a \<le> 10"

subsection \<open>Both are token buckets\<close>

text \<open>Rounding to the nearest makes a token come back after a quarter of a second.\<close>

lemma js_round_div_token: "0 < js_round_div (2 * t) 1000 \<Longrightarrow> 250 * js_round_div (2 * t) 1000 \<le> t"
  by (simp add: js_round_div_def)

definition pa_attempt :: "int \<Rightarrow> pa_state \<Rightarrow> bool \<times> pa_state" where
  "pa_attempt now s = Pa ''pageview'' now s"

definition pa_valid :: "pa_state \<Rightarrow> bool" where
  "pa_valid s \<longleftrightarrow> 0 < Ta_time s \<and> 0 \<le> Sa_tokens s \<and> Sa_tokens s \<le> 20"

lemma pa_attempt_cases:
  assumes "pa_valid s" and "Ta_time s \<le> now"
  obtains (idle) "js_round_div (2 * (now - Ta_time s)) 1000 \<le> 0" "0 < Sa_tokens s"
      "pa_attempt now s = (True, s\<lparr>Sa_tokens := Sa_tokens s - 1, Qa_hits := Qa_hits s + 1\<rparr>)"
  | (empty) "js_round_div (2 * (now - Ta_time s)) 1000 \<le> 0" "Sa_tokens s = 0"
      "pa_attempt now s = (False, s)"
  | (refill) e where "0 < e" "250 * e \<le> now - Ta_time s"
      "pa_attempt now s = (True, s\<lparr>Ta_time := now, Sa_tokens := min (Sa_tokens s + e) 20 - 1,
         Qa_hits := Qa_hits s + 1\<rparr>)"
proof (cases "0 < js_round_div (2 * (now - Ta_time s)) 1000")
  case True
  define e where "e = js_round_div (2 * (now - Ta_time s)) 1000"
  have "0 < e" "250 * e \<le> now - Ta_time s"
    using True js_round_div_token [of "now - Ta_time s"] by (simp_all only: e_def)
  moreover have "pa_attempt now s = (True, s\<lparr>Ta_time := now, Sa_tokens := min (Sa_tokens s + e) 20 - 1,
         Qa_hits := Qa_hits s + 1\<rparr>)"
    using assms \<open>0 < e\<close> unfolding pa_attempt_def Pa_def Let_def e_def [symmetric]
    by (auto simp: pa_valid_def min_def)
  ultimately show ?thesis by (rule refill)
next
  case False
  with assms idle empty show ?thesis
    by (cases "Sa_tokens s = 0") (simp_all add: pa_attempt_def Pa_def Let_def pa_valid_def)
qed

interpretation pa: token_bucket pa_attempt Sa_tokens Ta_time pa_valid 20 250
proof (unfold_locales, goal_cases)
  case 1 show ?case by simp
next
  case (2 s) then show ?case by (simp add: pa_valid_def)
next
  case (3 s now) then show ?case by (rule pa_attempt_cases) (use 3 in \<open>auto simp: pa_valid_def\<close>)
next
  case (4 s now) then show ?case by (rule pa_attempt_cases) (use 4 in \<open>auto simp: pa_valid_def\<close>)
next
  case (5 s now) then show ?case by (rule pa_attempt_cases) (auto simp: min_def)
qed

lemma ne_event_cases:
  assumes "ne_valid s" and "ne_clock s \<le> now"
  obtains (keep) "snd (ne ''event'' now s) = s" "ne_clock s \<le> now"
  | (refill) e where "0 < e" "1000 * e \<le> now - ne_clock s"
      "snd (ne ''event'' now s) = s\<lparr>dc_last := now, R_tokens := min 10 (R_tokens s + e)\<rparr>"
      "ne_clock (snd (ne ''event'' now s)) = now"
proof (cases "0 < (now - ne_clock s) div 1000")
  case True
  let ?e = "(now - ne_clock s) div 1000"
  have "0 < Zb_session s" "1000 * Zb_session s \<le> now"
    using assms by (simp_all add: ne_valid_def)
  then have "Zb_session s < now" by linarith
  moreover have "snd (ne ''event'' now s) = s\<lparr>dc_last := now, R_tokens := min 10 (R_tokens s + ?e)\<rparr>"
    using True by (simp add: ne_def Let_def ne_clock_def)
  moreover have "1000 * ?e \<le> now - ne_clock s" 
    using mult_div_mod_eq [of 1000 "now - ne_clock s"] pos_mod_sign [of 1000 "now - ne_clock s"]
    by linarith
  ultimately show ?thesis using True by (intro refill [of ?e]) (simp_all add: ne_clock_def)
next
  case False
  then have "snd (ne ''event'' now s) = s" by (simp add: ne_def Let_def ne_clock_def)
  with assms keep show ?thesis by blast
qed

lemma ne_event_alt:
  "ne_event b s =
     (let a = snd (ne ''event'' b s)
      in if 500 \<le> cc_hits s \<or> R_tokens a \<le> 0 then (False, a)
         else (True, a\<lparr>cc_hits := cc_hits a + 1, R_tokens := max 0 (R_tokens a - 1)\<rparr>))"
  by (auto simp: ne_event_def ne_def pe_def Let_def)

lemma ne_clock_update [simp]:
  "ne_clock (s\<lparr>cc_hits := h\<rparr>) = ne_clock s" "ne_clock (s\<lparr>R_tokens := t\<rparr>) = ne_clock s"
  by (simp_all add: ne_clock_def)

interpretation ga_events: token_bucket ne_event R_tokens ne_clock ne_valid 10 1000
proof (unfold_locales, goal_cases)
  case 1 show ?case by simp
next
  case (2 s) then show ?case by (simp add: ne_valid_def)
next
  case (3 s now)
  then show ?case
    by (rule ne_event_cases) (use 3 in \<open>auto simp: ne_event_alt ne_valid_def Let_def\<close>)
next
  case (4 s now) then show ?case by (rule ne_event_cases) (auto simp: ne_event_alt Let_def)
next
  case (5 s now) then show ?case
    by (rule ne_event_cases) (use 5 in \<open>auto simp: ne_event_alt Let_def ne_valid_def min_def\<close>)
qed

text \<open>A run of hits, each with its type and the time of the attempt; the result says which passed.\<close>

fun Pa_run :: "(string \<times> int) list \<Rightarrow> pa_state \<Rightarrow> (string \<times> bool) list \<times> pa_state" where
  "Pa_run [] s = ([], s)"
| "Pa_run ((h, now) # hs) s =
     (let (ok, s) = Pa h now s; (r, s) = Pa_run hs s in ((h, ok) # r, s))"

definition limited :: "string \<Rightarrow> bool" where
  "limited h \<longleftrightarrow> h \<noteq> ''transaction'' \<and> h \<noteq> ''item''"

definition same_bucket :: "pa_state \<Rightarrow> pa_state \<Rightarrow> bool" where
  "same_bucket s s' \<longleftrightarrow> Ta_time s = Ta_time s' \<and> Sa_tokens s = Sa_tokens s'"

lemma Pa_free: "\<not> limited h \<Longrightarrow> Pa h now s = (True, s\<lparr>Qa_hits := Qa_hits s + 1\<rparr>)"
  by (auto simp: limited_def Pa_def)

lemma Pa_limited:
  assumes "limited h" and "same_bucket s s'"
  shows "fst (Pa h now s) = fst (pa_attempt now s') \<and> same_bucket (snd (Pa h now s)) (snd (pa_attempt now s'))"
  using assms by (auto simp: limited_def same_bucket_def pa_attempt_def Pa_def Let_def)

lemma Pa_run_admitted:
  assumes "same_bucket s s'"
  shows "int (length (filter (\<lambda>(h, ok). limited h \<and> ok) (fst (Pa_run hs s)))) =
    pa.admitted (map snd (filter (\<lambda>(h, now). limited h) hs)) s'"
  using assms
proof (induction hs arbitrary: s s')
  case (Cons x hs)
  obtain h now where x: "x = (h, now)" by force
  show ?case
  proof (cases "limited h")
    case True
    note step = Pa_limited [OF True Cons.prems, of now]
    from Cons.IH [of "snd (Pa h now s)" "snd (pa_attempt now s')"] step True show ?thesis
      by (simp add: x split_beta Let_def)
  next
    case False
    have "same_bucket (s\<lparr>Qa_hits := Qa_hits s + 1\<rparr>) s'" using Cons.prems by (simp add: same_bucket_def)
    from Cons.IH [OF this] False show ?thesis by (simp add: x Pa_free split_beta Let_def)
  qed
qed simp

lemma Pa_run_free: "(h, ok) \<in> set (fst (Pa_run hs s)) \<Longrightarrow> \<not> limited h \<Longrightarrow> ok"
  by (induction hs arbitrary: s) (auto simp: Pa_free split_beta Let_def)

lemma last_filtered_le: "sorted (a # map snd hs) \<Longrightarrow>
    last (a # map snd (filter P hs)) \<le> last (a # map snd hs)" for a :: int
proof (induction hs arbitrary: a)
  case (Cons x hs)
  have *: "a \<le> snd x" "sorted (snd x # map snd hs)" "sorted (a # map snd hs)" using Cons.prems by auto
  from Cons.IH [OF *(2)] Cons.IH [OF *(3)] *(1)
  have "last (a # map snd (filter P hs)) \<le> last (snd x # map snd hs)" by (cases hs) auto
  with Cons.IH [OF *(2)] show ?case by (cases "P x") simp_all
qed simp



text \<open>The bound is sharp: hits exactly 250 milliseconds apart are never rejected (each refill
  rounds half a token up), so the sustained rate is four hits a second.\<close>

theorem pa_quarter_second:
  assumes "pa_valid s"
  shows "pa.admitted (map (\<lambda>i. Ta_time s + 250 * int i) [1..<Suc n]) s = int n"
  using assms
proof (induction n arbitrary: s)
  case 0
  then show ?case by simp
next
  case (Suc n)
  let ?s = "snd (pa_attempt (Ta_time s + 250) s)"
  have step: "fst (pa_attempt (Ta_time s + 250) s)" "pa_valid ?s" "Ta_time ?s = Ta_time s + 250"
    using Suc.prems by (auto simp: pa_attempt_def Pa_def Let_def pa_valid_def js_round_div_def)
  have "map (\<lambda>i. Ta_time s + 250 * int i) [1..<Suc (Suc n)]
      = (Ta_time s + 250) # map (\<lambda>i. Ta_time ?s + 250 * int i) [1..<Suc n]"
    unfolding step(3) by (subst upt_conv_Cons) (simp_all add: map_Suc_upt [symmetric] del: upt_Suc)
  with step(1) Suc.IH [OF step(2)] show ?case by simp
qed

theorem pa_quarter_second_witness:
  "pa.admitted [1250, 1500] \<lparr>Qa_hits = 0, Ta_time = 1000, Sa_tokens = 0\<rparr> = 2"
  using pa_quarter_second [of "\<lparr>Qa_hits = 0, Ta_time = 1000, Sa_tokens = 0\<rparr>" 2]
  by (simp add: pa_valid_def upt_rec)

text \<open>ga.js: in a period of \<open>T\<close> milliseconds at most \<open>10 + T / 1000\<close> events of a session pass;
  the switch of the refill time from seconds to milliseconds loses nothing.\<close>

theorem ga_event_rate:
  assumes "ne_valid s" and "sorted (ne_clock s # ts)"
  shows "1000 * ga_events.admitted ts s \<le> 1000 * 10 + (last (ne_clock s # ts) - ne_clock s)"
  using assms by (rule ga_events.admitted_cap)

theorem ga_event_rate_witness:
  "1000 * ga_events.admitted [5000, 7500] \<lparr>cc_hits = 0, dc_last = 5, Zb_session = 5, R_tokens = 10\<rparr>
     \<le> 1000 * 10 + 2500"
proof -
  let ?s = "\<lparr>cc_hits = 0, dc_last = 5, Zb_session = 5, R_tokens = 10\<rparr>"
  have c: "ne_clock ?s = 5000" by (simp add: ne_clock_def)
  then have "ne_valid ?s" "sorted (ne_clock ?s # [5000, 7500])" by (simp_all add: ne_valid_def)
  from ga_event_rate [OF this] c show ?thesis by simp
qed

subsection \<open>prompt_embed_static.js: RateThrottler\<close>

text \<open>The history \<open>Rb\<close> and the limit \<open>ia\<close>. The constructor drops the oldest entries of a stored
  history that is too long. \<open>Os = 36E5\<close>.\<close>

definition zd :: "nat \<Rightarrow> int list \<Rightarrow> int list" where
  "zd ia stored = drop (length stored - ia) stored"

definition zd_exec :: "nat \<Rightarrow> int \<Rightarrow> int list \<Rightarrow> bool \<times> int list" where
  "zd_exec ia b Rb =
     (if length Rb = ia
      then (case Rb of
              [] \<Rightarrow> (False, Rb)
            | r # Rb' \<Rightarrow> if r < b - 3600000 then (True, Rb' @ [b]) else (False, Rb))
      else (True, Rb @ [b]))"

text \<open>The times at which \<open>exec\<close> ran its callback.\<close>

fun zd_runs :: "nat \<Rightarrow> int list \<Rightarrow> int list \<Rightarrow> int list" where
  "zd_runs ia [] Rb = []"
| "zd_runs ia (b # ts) Rb =
     (let (ok, Rb') = zd_exec ia b Rb in (if ok then [b] else []) @ zd_runs ia ts Rb')"

text \<open>All runs so far are \<open>old @ Rb\<close>; the history is what is left of them.\<close>

definition spaced :: "nat \<Rightarrow> int list \<Rightarrow> bool" where
  "spaced n xs \<longleftrightarrow> (\<forall>i. i + n < length xs \<longrightarrow> xs ! i + 3600000 < xs ! (i + n))"

lemma zd_runs_spaced:
  assumes "spaced ia (old @ Rb)" and "length Rb \<le> ia" and "length Rb < ia \<longrightarrow> old = []"
  shows "spaced ia (old @ Rb @ zd_runs ia ts Rb)"
  using assms
proof (induction ts arbitrary: old Rb)
  case Nil
  then show ?case by simp
next
  case (Cons b ts)
  show ?case
  proof (cases "length Rb = ia")
    case False
    with Cons.prems have "spaced ia ([] @ (Rb @ [b]))" "length (Rb @ [b]) \<le> ia" "old = []"
      by (auto simp: spaced_def)
    with Cons.IH [of "[]" "Rb @ [b]"] False show ?thesis by (simp add: zd_exec_def)
  next
    case full: True
    show ?thesis
    proof (cases Rb)
      case Nil
      with Cons.IH [OF Cons.prems] full show ?thesis by (simp add: zd_exec_def)
    next
      case Rb: (Cons r Rb')
      show ?thesis
      proof (cases "r < b - 3600000")
        case True
        have "spaced ia ((old @ [r]) @ (Rb' @ [b]))"
          unfolding spaced_def
        proof (intro allI impI)
          fix i assume i: "i + ia < length ((old @ [r]) @ Rb' @ [b])"
          have xs: "(old @ [r]) @ Rb' @ [b] = (old @ Rb) @ [b]" using Rb by simp
          show "((old @ [r]) @ Rb' @ [b]) ! i + 3600000 < ((old @ [r]) @ Rb' @ [b]) ! (i + ia)"
          proof (cases "i + ia < length (old @ Rb)")
            case True
            with Cons.prems(1) show ?thesis
              unfolding xs spaced_def by (simp only: nth_append_left add_lessD1)
          next
            case False
            with i Rb have "i + ia = length (old @ Rb)" by simp
            then have "i = length old" using full by simp
            moreover have "ia = Suc (length Rb')" using full Rb by simp
            ultimately show ?thesis using True Rb unfolding xs by (simp add: nth_append)
          qed
        qed
        with Cons.IH [of "old @ [r]" "Rb' @ [b]"] full Rb True show ?thesis by (simp add: zd_exec_def)
      next
        case False
        with Cons.IH [OF Cons.prems] full Rb show ?thesis by (simp add: zd_exec_def)
      qed
    qed
  qed
qed

text \<open>C6. With an empty history, a throttler with limit \<open>ia\<close> never runs its callback more than \<open>ia\<close>
  times within an hour: the run \<open>ia\<close> places later is more than an hour later.\<close>

theorem throttle_window:
  assumes "i + ia < length (zd_runs ia ts [])"
  shows "zd_runs ia ts [] ! i + 3600000 < zd_runs ia ts [] ! (i + ia)"
proof -
  have "spaced ia ([] @ [])" by (simp add: spaced_def)
  then have "spaced ia ([] @ [] @ zd_runs ia ts [])" by (rule zd_runs_spaced) simp_all
  with assms show ?thesis by (simp add: spaced_def)
qed

theorem throttle_window_witness: "zd_runs 1 [0, 10, 3600001] [] ! 0 + 3600000 < zd_runs 1 [0, 10, 3600001] [] ! 1"
  using throttle_window [of 0 1 "[0, 10, 3600001]"] by (simp add: zd_exec_def)

subsection \<open>gtm.js: tag reports\<close>

text \<open>The report state: the current event \<open>il\<close>, the events reported (\<open>nl\<close>), their parameters
  (\<open>pl\<close>), the events given up (\<open>ql\<close>), the two counters, the report in progress \<open>ol\<close>, the timer
  \<open>jl\<close>, and the requests sent. The request prefix \<open>hl\<close> and the tag count \<open>kl()\<close> are arguments.\<close>

record report =
  il :: "nat option"
  nl :: "nat set"
  pl :: "nat \<Rightarrow> string"
  ql :: "nat set"
  rl :: int
  sl :: int
  ol :: string
  jl :: bool
  sent :: "string list"

definition report_init :: report where
  "report_init = \<lparr>il = None, nl = {}, pl = (\<lambda>_. []), ql = {}, rl = 2, sl = 1000, ol = [], jl = False, sent = []\<rparr>"

definition tl_tick :: "report \<Rightarrow> report" where
  "tl_tick s = s\<lparr>rl := 2\<rparr>"

definition ul :: "string \<Rightarrow> string \<Rightarrow> report \<Rightarrow> string" where
  "ul hl kl s =
     (case il s of
        None \<Rightarrow> []
      | Some a \<Rightarrow> concat [hl, if a \<in> nl s then [] else ''&es=1'', pl s a, kl, ol s, ''&z=0''])"

definition vl :: "string \<Rightarrow> string \<Rightarrow> report \<Rightarrow> report" where
  "vl hl kl s =
     (let s = s\<lparr>jl := False\<rparr>
      in case il s of
           None \<Rightarrow> s
         | Some a \<Rightarrow>
           (if a \<in> nl s \<and> ol s = [] then s
            else if a \<in> ql s then s\<lparr>ql := insert a (ql s)\<rparr>
            else (let r = rl s; s = s\<lparr>rl := r - 1\<rparr>
                  in if 0 \<ge> r then s\<lparr>ql := insert a (ql s)\<rparr>
                     else (let r = sl s; s = s\<lparr>sl := r - 1\<rparr>
                           in if 0 \<ge> r then s\<lparr>ql := insert a (ql s)\<rparr>
                              else s\<lparr>sent := sent s @ [ul hl kl s], nl := insert a (nl s), ol := []\<rparr>))))"

text \<open>\<open>wl(a, b, c)\<close>; \<open>d\<close> is the piece made of \<open>c\<close> and the tag's name, and reports are enabled.\<close>

definition wl_add :: "string \<Rightarrow> report \<Rightarrow> report" where
  "wl_add d s = s\<lparr>ol := (if ol s \<noteq> [] then ol s @ ''.'' @ d else ''&tr='' @ d), jl := True\<rparr>"

definition wl :: "string \<Rightarrow> string \<Rightarrow> nat \<Rightarrow> string \<Rightarrow> report \<Rightarrow> report" where
  "wl hl kl a d s =
     (if a \<notin> ql s
      then (let s = (if Some a \<noteq> il s then (vl hl kl s)\<lparr>il := Some a\<rparr> else s);
                s = wl_add d s
            in if 2022 \<le> length (ul hl kl s) then vl hl kl s else s)
      else s)"

text \<open>The step of \<open>Sh\<close> that starts the report of event \<open>a\<close>; \<open>e\<close> holds the event's parameters.\<close>

definition Sh_report :: "string \<Rightarrow> string \<Rightarrow> nat \<Rightarrow> string \<Rightarrow> report \<Rightarrow> report" where
  "Sh_report hl kl a e s =
     (if 0 \<ge> sl s \<or> il s = Some a then s
      else (let s = vl hl kl s in s\<lparr>il := Some a, ol := [], pl := (pl s)(a := e), jl := True\<rparr>))"

text \<open>What can happen: an event starts, a tag is reported, the half-second timer fires, and the
  one-second tick. The prefix is renewed daily, so each step may see another one.\<close>

inductive report_step :: "bool \<Rightarrow> string \<Rightarrow> report \<Rightarrow> report \<Rightarrow> bool" for tick kl where
  tag: "report_step tick kl s (wl hl kl a d s)"
| timer: "jl s \<Longrightarrow> report_step tick kl s (vl hl kl s)"
| event: "report_step tick kl s (Sh_report hl kl a e s)"
| second: "tick \<Longrightarrow> report_step tick kl s (tl_tick s)"

inductive report_steps :: "bool \<Rightarrow> string \<Rightarrow> report \<Rightarrow> report \<Rightarrow> bool" for tick kl where
  refl: "report_steps tick kl s s"
| step: "report_steps tick kl s t \<Longrightarrow> report_step tick kl t u \<Longrightarrow> report_steps tick kl s u"

inductive_cases report_step_cases: "report_step tick kl s t"

definition report_left :: "report \<Rightarrow> int \<times> int" where
  "report_left s = (int (length (sent s)) + max 0 (rl s), int (length (sent s)) + max 0 (sl s))"

lemma report_left_update [simp]:
  "report_left (s\<lparr>il := i\<rparr>) = report_left s" "report_left (s\<lparr>ol := x\<rparr>) = report_left s"
  "report_left (s\<lparr>jl := b\<rparr>) = report_left s" "report_left (s\<lparr>pl := p\<rparr>) = report_left s"
  by (simp_all add: report_left_def)

lemma vl_left:
  "fst (report_left (vl hl kl s)) \<le> fst (report_left s)"
  "snd (report_left (vl hl kl s)) \<le> snd (report_left s)"
  "rl (vl hl kl s) \<le> rl s"
  by (auto simp: vl_def Let_def report_left_def split: option.split)

lemma wl_add_left [simp]: "report_left (wl_add d s) = report_left s" "rl (wl_add d s) = rl s"
  by (simp_all add: wl_add_def report_left_def)

lemma wl_left:
  "fst (report_left (wl hl kl a d s)) \<le> fst (report_left s)"
  "snd (report_left (wl hl kl a d s)) \<le> snd (report_left s)"
  "rl (wl hl kl a d s) \<le> rl s"
  using vl_left [of hl kl s] vl_left [of hl kl "wl_add d ((vl hl kl s)\<lparr>il := Some a\<rparr>)"]
    vl_left [of hl kl "wl_add d s"]
  by (simp_all add: wl_def Let_def)

lemma Sh_report_left:
  "fst (report_left (Sh_report hl kl a e s)) \<le> fst (report_left s)"
  "snd (report_left (Sh_report hl kl a e s)) \<le> snd (report_left s)"
  "rl (Sh_report hl kl a e s) \<le> rl s"
  using vl_left [of hl kl s] by (simp_all add: Sh_report_def Let_def)

lemma report_step_total: "report_step tick kl s t \<Longrightarrow>
    snd (report_left t) \<le> snd (report_left s) \<and> (rl s \<le> 2 \<longrightarrow> rl t \<le> 2)"
proof (elim report_step_cases)
  show "t = tl_tick s \<Longrightarrow> ?thesis" by (simp add: tl_tick_def report_left_def)
qed (auto simp: vl_left wl_left Sh_report_left intro: order_trans [OF vl_left(3)]
    order_trans [OF wl_left(3)] order_trans [OF Sh_report_left(3)])

lemma report_step_burst: "report_step False kl s t \<Longrightarrow> fst (report_left t) \<le> fst (report_left s)"
  using vl_left wl_left Sh_report_left by (elim report_step_cases) auto

lemma report_steps_total: "report_steps tick kl s t \<Longrightarrow>
    snd (report_left t) \<le> snd (report_left s) \<and> (rl s \<le> 2 \<longrightarrow> rl t \<le> 2)"
  by (induction rule: report_steps.induct) (auto dest: report_step_total)

lemma report_steps_burst: "report_steps False kl s t \<Longrightarrow> fst (report_left t) \<le> fst (report_left s)"
  by (induction rule: report_steps.induct) (auto dest: report_step_burst)

text \<open>gtm.js sends at most a thousand tag reports from a page, and from any reachable state at
  most two more until the next tick of the one-second timer.\<close>

theorem report_limits:
  assumes "report_steps True kl report_init s"
  shows "length (sent s) \<le> 1000 \<and>
    (\<forall>t. report_steps False kl s t \<longrightarrow> length (sent t) \<le> length (sent s) + 2)"
proof -
  from report_steps_total [OF assms]
  have total: "int (length (sent s)) + max 0 (sl s) \<le> 1000" and two: "rl s \<le> 2"
    by (simp_all add: report_left_def report_init_def)
  have "length (sent t) \<le> length (sent s) + 2" if "report_steps False kl s t" for t
    using report_steps_burst [OF that] two by (simp add: report_left_def)
  with total show ?thesis by simp
qed

theorem report_limits_witness:
  "length (sent (vl ''h'' ''k'' (wl ''h'' ''k'' 0 ''1gct'' report_init)))
     \<le> length (sent (wl ''h'' ''k'' 0 ''1gct'' report_init)) + 2"
proof -
  let ?s = "wl ''h'' ''k'' 0 ''1gct'' report_init"
  have s: "report_steps True ''k'' report_init ?s"
    by (rule report_steps.step [OF report_steps.refl report_step.tag])
  have "jl ?s" by (simp add: wl_def wl_add_def report_init_def vl_def Let_def ul_def)
  then have "report_steps False ''k'' ?s (vl ''h'' ''k'' ?s)"
    by (rule report_steps.step [OF report_steps.refl report_step.timer])
  with report_limits [OF s] show ?thesis by blast
qed

end
