(* ===== verification/Key_Stores.thy ===== *)
theory Key_Stores
  imports Js_Prelude
begin

text \<open>
  The key stores: the prefixed stores of ga.js (\<open>nf\<close>) and gtm.js (\<open>jg\<close>), the two-level store of
  analytics.js (\<open>x\<close>) and the map of the Closure library in prompt_embed_static.js (\<open>Ee\<close>, with its
  lazily cleaned key list, \<open>Fe\<close>, and its iterators).

  A JavaScript object used as a table is a partial map; deleting a property makes it \<open>None\<close>.
  All four satisfy the contract \<open>key_store\<close>; the Closure map also \<open>erasable_store\<close>.
  For the Closure map the invariant, the order and uniqueness of the keys it enumerates, the bound
  on stale keys and the behaviour of its iterators are shown.
\<close>

subsection \<open>The contracts\<close>

locale key_store =
  fixes new :: 's
    and lookup :: "'s \<Rightarrow> 'k \<Rightarrow> 'v option"
    and update :: "'k \<Rightarrow> 'v \<Rightarrow> 's \<Rightarrow> 's"
    and ok :: "'s \<Rightarrow> bool"
  assumes ok_new: "ok new"
    and ok_update: "ok s \<Longrightarrow> ok (update k v s)"
    and lookup_new: "lookup new k = None"
    and lookup_update: "ok s \<Longrightarrow> lookup (update k v s) j = (if j = k then Some v else lookup s j)"
begin

definition update_all :: "('k \<times> 'v) list \<Rightarrow> 's \<Rightarrow> 's" where
  "update_all kvs s = foldl (\<lambda>s (k, v). update k v s) s kvs"

lemma ok_update_all: "ok s \<Longrightarrow> ok (update_all kvs s)"
  by (induction kvs arbitrary: s) (auto simp: update_all_def ok_update)

lemma update_all_snoc: "update_all (kvs @ [(k, v)]) s = update k v (update_all kvs s)"
  by (simp add: update_all_def)

theorem last_write_wins:
  "ok s \<Longrightarrow> lookup (update_all kvs s) k = (case map_of (rev kvs) k of None \<Rightarrow> lookup s k | Some v \<Rightarrow> Some v)"
proof (induction kvs rule: rev_induct)
  case Nil
  then show ?case by (simp add: update_all_def)
next
  case (snoc kv kvs)
  obtain a v where kv: "kv = (a, v)" by force
  from snoc show ?case
    by (simp add: kv update_all_snoc lookup_update ok_update_all)
qed

lemma lookup_update_all_new: "lookup (update_all kvs new) k = map_of (rev kvs) k"
  by (simp add: last_write_wins ok_new lookup_new split: option.split)

end

locale erasable_store = key_store new lookup update ok
  for new :: 's
    and lookup :: "'s \<Rightarrow> 'k \<Rightarrow> 'v option"
    and update :: "'k \<Rightarrow> 'v \<Rightarrow> 's \<Rightarrow> 's"
    and ok :: "'s \<Rightarrow> bool" +
  fixes erase :: "'k \<Rightarrow> 's \<Rightarrow> 's"
  assumes ok_erase: "ok s \<Longrightarrow> ok (erase k s)"
    and lookup_erase: "ok s \<Longrightarrow> lookup (erase k s) j = (if j = k then None else lookup s j)"
begin

lemma erase_update: "ok s \<Longrightarrow> lookup (erase k (update k v s)) j = lookup (erase k s) j"
  by (simp add: lookup_erase lookup_update ok_update)

lemma erase_twice: "ok s \<Longrightarrow> lookup (erase k (erase k s)) j = lookup (erase k s) j"
  by (simp add: lookup_erase ok_erase)

end

subsection \<open>ga.js and gtm.js: prefixed stores\<close>

record 'v nf =
  prefix :: string
  nf_values :: "string \<Rightarrow> 'v option"

definition nf_new :: "'v nf" where
  "nf_new = \<lparr>prefix = ''ga.'', nf_values = Map.empty\<rparr>"

definition nf_set :: "string \<Rightarrow> 'v \<Rightarrow> 'v nf \<Rightarrow> 'v nf" where
  "nf_set a b s = s\<lparr>nf_values := (nf_values s)(prefix s @ a \<mapsto> b)\<rparr>"

definition nf_get :: "'v nf \<Rightarrow> string \<Rightarrow> 'v option" where
  "nf_get s a = nf_values s (prefix s @ a)"

definition nf_contains :: "'v nf \<Rightarrow> string \<Rightarrow> bool" where
  "nf_contains s a \<longleftrightarrow> nf_get s a \<noteq> None"

definition jg_new :: "'v nf" where
  "jg_new = \<lparr>prefix = ''gtm.'', nf_values = Map.empty\<rparr>"

interpretation nf: key_store nf_new nf_get nf_set "\<lambda>_. True"
  by unfold_locales (auto simp: nf_new_def nf_get_def nf_set_def)

interpretation jg: key_store jg_new nf_get nf_set "\<lambda>_. True"
  by unfold_locales (auto simp: jg_new_def nf_get_def nf_set_def)

subsection \<open>analytics.js: the two-level store x\<close>

text \<open>\<open>values\<close> are kept; the values in \<open>v\<close> hide them until \<open>send\<close> empties \<open>v\<close>. \<open>keys\<close> records
  every assignment.\<close>

record 'v x_store =
  keys :: "string list"
  vals :: "string \<Rightarrow> 'v option"
  hit :: "string \<Rightarrow> 'v option"

definition x_new :: "'v x_store" where
  "x_new = \<lparr>keys = [], vals = Map.empty, hit = Map.empty\<rparr>"

definition x_set :: "string \<Rightarrow> 'v \<Rightarrow> bool \<Rightarrow> 'v x_store \<Rightarrow> 'v x_store" where
  "x_set a b c s =
     (let s = s\<lparr>keys := keys s @ [a]\<rparr>
      in if c then s\<lparr>hit := (hit s)(a \<mapsto> b)\<rparr> else s\<lparr>vals := (vals s)(a \<mapsto> b)\<rparr>)"

definition x_get :: "'v x_store \<Rightarrow> string \<Rightarrow> 'v option" where
  "x_get s a = (if hit s a \<noteq> None then hit s a else vals s a)"

text \<open>\<open>map\<close> visits the keys in order with their truthy values.\<close>

definition x_map :: "('v \<Rightarrow> bool) \<Rightarrow> 'v x_store \<Rightarrow> (string \<times> 'v) list" where
  "x_map truthy s =
     concat (map (\<lambda>c. case x_get s c of None \<Rightarrow> [] | Some d \<Rightarrow> if truthy d then [(c, d)] else []) (keys s))"

definition x_no_hits :: "'v x_store \<Rightarrow> bool" where
  "x_no_hits s \<longleftrightarrow> hit s = Map.empty"

interpretation x: key_store x_new x_get "\<lambda>k v. x_set k v False" x_no_hits
  by unfold_locales (auto simp: x_new_def x_get_def x_set_def x_no_hits_def)

interpretation x_hit: key_store x_new x_get "\<lambda>k v. x_set k v True" "\<lambda>_. True"
  by unfold_locales (auto simp: x_new_def x_get_def x_set_def)

subsection \<open>prompt_embed_static.js: the Closure map\<close>

text \<open>\<open>Tb\<close> holds the values, \<open>oa\<close> the keys in order (possibly with stale and repeated ones), \<open>ia\<close>
  the number of entries and \<open>Dd\<close> the version.\<close>

record 'v Ee =
  Tb :: "string \<Rightarrow> 'v option"
  oa :: "string list"
  ia :: nat
  Dd :: nat

definition Ee_new :: "'v Ee" where
  "Ee_new = \<lparr>Tb = Map.empty, oa = [], ia = 0, Dd = 0\<rparr>"

definition Ge :: "(string \<Rightarrow> 'v option) \<Rightarrow> string \<Rightarrow> bool" where
  "Ge a b \<longleftrightarrow> a b \<noteq> None"

text \<open>The second loop of \<open>Fe\<close>: the first occurrence of each key; \<open>e\<close> holds the keys met.\<close>

fun Fe_once :: "string list \<Rightarrow> string set \<Rightarrow> string list" where
  "Fe_once [] e = []"
| "Fe_once (d # ds) e = (if d \<in> e then Fe_once ds e else d # Fe_once ds (insert d e))"

definition Fe :: "'v Ee \<Rightarrow> 'v Ee" where
  "Fe a =
     (let a = (if ia a \<noteq> length (oa a) then a\<lparr>oa := filter (Ge (Tb a)) (oa a)\<rparr> else a)
      in if ia a \<noteq> length (oa a) then a\<lparr>oa := Fe_once (oa a) {}\<rparr> else a)"

definition Ee_get :: "'v Ee \<Rightarrow> string \<Rightarrow> 'v option" where
  "Ee_get s a = (if Ge (Tb s) a then Tb s a else None)"

definition Ee_set :: "string \<Rightarrow> 'v \<Rightarrow> 'v Ee \<Rightarrow> 'v Ee" where
  "Ee_set a b s =
     (let s = (if Ge (Tb s) a then s else s\<lparr>ia := ia s + 1, oa := oa s @ [a], Dd := Dd s + 1\<rparr>)
      in s\<lparr>Tb := (Tb s)(a \<mapsto> b)\<rparr>)"

definition Ee_remove :: "string \<Rightarrow> 'v Ee \<Rightarrow> bool \<times> 'v Ee" where
  "Ee_remove a s =
     (if Ge (Tb s) a
      then (let s = s\<lparr>Tb := (Tb s)(a := None), ia := ia s - 1, Dd := Dd s + 1\<rparr>
            in (True, if length (oa s) > 2 * ia s then Fe s else s))
      else (False, s))"

text \<open>\<open>clear\<close>: as in the source, the version is reset with the count.\<close>

definition Ee_clear :: "'v Ee \<Rightarrow> 'v Ee" where
  "Ee_clear s = s\<lparr>Tb := Map.empty, oa := [], ia := 0, Dd := 0\<rparr>"

definition Ee_Pb :: "'v Ee \<Rightarrow> string list \<times> 'v Ee" where
  "Ee_Pb s = (let s = Fe s in (oa s, s))"

definition Ee_gc :: "'v Ee \<Rightarrow> 'v option list \<times> 'v Ee" where
  "Ee_gc s = (let s = Fe s in (map (Tb s) (oa s), s))"

text \<open>An iterator over the keys: its position and the version it was made at. The three outcomes
  of \<open>next\<close>: an error, the end (\<open>StopIteration\<close>), a key.\<close>

datatype 'k iter_next = Changed | Stop | Yield 'k

definition Ee_iter :: "'v Ee \<Rightarrow> (nat \<times> nat) \<times> 'v Ee" where
  "Ee_iter s = (let s = Fe s in ((0, Dd s), s))"

definition Ee_next :: "nat \<times> nat \<Rightarrow> 'v Ee \<Rightarrow> string iter_next \<times> (nat \<times> nat)" where
  "Ee_next it d =
     (let (b, c) = it
      in if c \<noteq> Dd d then (Changed, it)
         else if b \<ge> length (oa d) then (Stop, it)
         else (Yield (oa d ! b), (b + 1, c)))"

subsection \<open>The Closure map: invariant\<close>

definition Ee_ok :: "'v Ee \<Rightarrow> bool" where
  "Ee_ok s \<longleftrightarrow> dom (Tb s) \<subseteq> set (oa s) \<and> ia s = card (dom (Tb s)) \<and> length (oa s) \<le> 2 * ia s"

lemma Ee_ok_finite: "dom (Tb s) \<subseteq> set (oa s) \<Longrightarrow> finite (dom (Tb s))"
  by (rule finite_subset [OF _ finite_set])

lemma Fe_once: "set (Fe_once ds e) = set ds - e \<and> distinct (Fe_once ds e)"
  by (induction ds e rule: Fe_once.induct) auto

lemma covering_list:
  assumes "D \<subseteq> set xs" and "length xs = card D"
  shows "set xs = D \<and> distinct xs"
proof -
  have "card D \<le> card (set xs)" using assms(1) by (intro card_mono) auto
  then have "card (set xs) = length xs" using assms(2) card_length [of xs] by linarith
  then have "distinct xs" by (rule card_distinct)
  moreover have "D = set xs" using assms \<open>card (set xs) = length xs\<close> by (intro card_subset_eq) auto
  ultimately show ?thesis by simp
qed

text \<open>What \<open>Fe\<close> is for: afterwards the key list is the list of the entries, each once.\<close>

lemma Fe_exact:
  assumes "dom (Tb s) \<subseteq> set (oa s)" and "ia s = card (dom (Tb s))"
  shows "set (oa (Fe s)) = dom (Tb s)" and "distinct (oa (Fe s))"
proof -
  let ?f = "filter (Ge (Tb s)) (oa s)"
  have f: "set ?f = dom (Tb s)" using assms(1) by (auto simp: Ge_def)
  have "set (oa (Fe s)) = dom (Tb s) \<and> distinct (oa (Fe s))"
  proof (cases "ia s = length (oa s)")
    case True
    with assms(2) have "set (oa s) = dom (Tb s) \<and> distinct (oa s)"
      by (intro covering_list assms(1)) simp
    with True show ?thesis by (simp add: Fe_def)
  next
    case oa: False
    show ?thesis
    proof (cases "ia s = length ?f")
      case True
      with assms(2) f have "set ?f = dom (Tb s) \<and> distinct ?f" by (intro covering_list) auto
      with True oa show ?thesis by (simp add: Fe_def Let_def)
    next
      case False
      with oa have "oa (Fe s) = Fe_once ?f {}" by (simp add: Fe_def Let_def)
      with Fe_once [of ?f "{}"] f show ?thesis by simp
    qed
  qed
  then show "set (oa (Fe s)) = dom (Tb s)" "distinct (oa (Fe s))" by simp_all
qed

lemma Fe_same [simp]: "Tb (Fe s) = Tb s" "ia (Fe s) = ia s" "Dd (Fe s) = Dd s"
  by (simp_all add: Fe_def Let_def)

lemma Fe_length:
  assumes "dom (Tb s) \<subseteq> set (oa s)" and "ia s = card (dom (Tb s))"
  shows "length (oa (Fe s)) = ia s"
  using Fe_exact [OF assms] assms(2) by (metis distinct_card)

lemma Fe_ok:
  "dom (Tb s) \<subseteq> set (oa s) \<Longrightarrow> ia s = card (dom (Tb s)) \<Longrightarrow> Ee_ok (Fe s)"
  by (simp add: Ee_ok_def Fe_exact Fe_length)

lemma Ee_ok_set: "Ee_ok s \<Longrightarrow> Ee_ok (Ee_set a b s)"
  by (auto simp: Ee_ok_def Ee_set_def Ge_def Let_def insert_absorb domI Ee_ok_finite domIff)

lemma Ee_ok_remove: "Ee_ok s \<Longrightarrow> Ee_ok (snd (Ee_remove a s))"
proof (cases "Ge (Tb s) a")
  case True
  assume ok: "Ee_ok s"
  let ?s = "s\<lparr>Tb := (Tb s)(a := None), ia := ia s - 1, Dd := Dd s + 1\<rparr>"
  have "a \<in> dom (Tb s)" using True by (auto simp: Ge_def)
  then have s: "dom (Tb ?s) \<subseteq> set (oa ?s)" "ia ?s = card (dom (Tb ?s))"
    using ok by (auto simp: Ee_ok_def dom_fun_upd)
  show ?thesis
  proof (cases "length (oa s) > 2 * (ia s - 1)")
    case True
    with \<open>Ge (Tb s) a\<close> Fe_ok [OF s] show ?thesis by (simp add: Ee_remove_def Let_def)
  next
    case False
    with \<open>Ge (Tb s) a\<close> s show ?thesis by (simp add: Ee_remove_def Let_def Ee_ok_def)
  qed
qed (simp add: Ee_remove_def)

lemma Ee_lookup_remove: "Ee_get (snd (Ee_remove k s)) j = (if j = k then None else Ee_get s j)"
  by (auto simp: Ee_get_def Ee_remove_def Ge_def Let_def)

interpretation Ee: erasable_store Ee_new Ee_get Ee_set Ee_ok "\<lambda>k s. snd (Ee_remove k s)"
  by unfold_locales
    (auto simp: Ee_ok_set Ee_ok_remove Ee_lookup_remove, auto simp: Ee_new_def Ee_get_def Ee_ok_def Ee_set_def Ge_def Let_def)

subsection \<open>The Closure map: keys and iterators\<close>

text \<open>Any sequence of operations.\<close>

inductive Ee_reach :: "'v Ee \<Rightarrow> bool" where
  new: "Ee_reach Ee_new"
| set: "Ee_reach s \<Longrightarrow> Ee_reach (Ee_set a b s)"
| remove: "Ee_reach s \<Longrightarrow> Ee_reach (snd (Ee_remove a s))"
| clear: "Ee_reach s \<Longrightarrow> Ee_reach (Ee_clear s)"
| clean: "Ee_reach s \<Longrightarrow> Ee_reach (Fe s)"

lemma Ee_reach_ok: "Ee_reach s \<Longrightarrow> Ee_ok s"
proof (induction rule: Ee_reach.induct)
  case new
  show ?case by (rule Ee.ok_new)
next
  case (clean s)
  then show ?case by (intro Fe_ok) (simp_all add: Ee_ok_def)
qed (auto simp: Ee_ok_set Ee_ok_remove, simp add: Ee_ok_def Ee_clear_def)

text \<open>C4. Whatever was done to a Closure map, its key list enumerates its entries, each exactly
  once, the count is their number, and before cleaning at most half of the list is stale.\<close>

theorem Ee_keys:
  assumes "Ee_reach s"
  shows "distinct (fst (Ee_Pb s)) \<and> set (fst (Ee_Pb s)) = dom (Ee_get s) \<and>
    ia s = length (fst (Ee_Pb s)) \<and> length (oa s) \<le> 2 * ia s"
proof -
  have ok: "dom (Tb s) \<subseteq> set (oa s)" "ia s = card (dom (Tb s))" "length (oa s) \<le> 2 * ia s"
    using Ee_reach_ok [OF assms] by (simp_all add: Ee_ok_def)
  have "Ee_get s = Tb s" by (rule ext) (simp add: Ee_get_def Ge_def)
  with ok Fe_exact [OF ok(1,2)] Fe_length [OF ok(1,2)] show ?thesis by (simp add: Ee_Pb_def Let_def)
qed

theorem Ee_keys_witness:
  "fst (Ee_Pb (snd (Ee_remove ''a'' (Ee_set ''b'' (2::nat) (Ee_set ''a'' 1 Ee_new))))) = [''b''] \<and>
   set [''b''] = dom (Ee_get (snd (Ee_remove ''a'' (Ee_set ''b'' (2::nat) (Ee_set ''a'' 1 Ee_new)))))"
proof -
  let ?s = "snd (Ee_remove ''a'' (Ee_set ''b'' (2::nat) (Ee_set ''a'' 1 Ee_new)))"
  have "Ee_reach ?s" by (intro Ee_reach.intros)
  from Ee_keys [OF this] have "set (fst (Ee_Pb ?s)) = dom (Ee_get ?s)" by blast
  moreover have "fst (Ee_Pb ?s) = [''b'']"
    by (simp add: Ee_Pb_def Ee_remove_def Ee_set_def Ee_new_def Ge_def Fe_def Let_def)
  ultimately show ?thesis by simp
qed

text \<open>Repeated calls of \<open>next\<close>, the map being left alone.\<close>

fun Ee_drain :: "nat \<Rightarrow> nat \<times> nat \<Rightarrow> 'v Ee \<Rightarrow> string list" where
  "Ee_drain 0 it s = []"
| "Ee_drain (Suc n) it s =
     (case Ee_next it s of (Yield k, it') \<Rightarrow> k # Ee_drain n it' s | _ \<Rightarrow> [])"

lemma Ee_drain_drop: "Ee_drain n (b, Dd s) s = take n (drop b (oa s))"
proof (induction n arbitrary: b)
  case 0
  then show ?case by simp
next
  case (Suc n)
  then show ?case
    by (cases "b < length (oa s)") (simp_all add: Ee_next_def Cons_nth_drop_Suc [symmetric])
qed

lemma Ee_version:
  "Dd (Ee_set a b s) = (if Ge (Tb s) a then Dd s else Dd s + 1)"
  "Dd (snd (Ee_remove a s)) = (if Ge (Tb s) a then Dd s + 1 else Dd s)"
  by (simp_all add: Ee_set_def Ee_remove_def Let_def)

text \<open>An iterator over a Closure map yields each key once and then stops, as long as the map is
  left alone; after a key is added or removed its next step is the error; overwriting the value of
  a key does not disturb it.\<close>

theorem Ee_iterator:
  assumes "Ee_reach s" and "Ee_iter s = (it, t)"
  shows "distinct (Ee_drain (ia s) it t) \<and> set (Ee_drain (ia s) it t) = dom (Ee_get s) \<and>
    (if Ge (Tb s) a then fst (Ee_next it (snd (Ee_remove a t))) = Changed \<and>
        Ee_next it (Ee_set a v t) = Ee_next it t
     else fst (Ee_next it (Ee_set a v t)) = Changed)"
proof -
  have t: "t = Fe s" "it = (0, Dd t)" using assms(2) by (auto simp: Ee_iter_def Let_def)
  have ok: "dom (Tb s) \<subseteq> set (oa s)" "ia s = card (dom (Tb s))"
    using Ee_reach_ok [OF assms(1)] by (simp_all add: Ee_ok_def)
  have "Ee_drain (ia s) it t = oa t"
    unfolding t Ee_drain_drop using Fe_length [OF ok] by simp
  moreover have "Ee_get s = Tb s" by (rule ext) (simp add: Ee_get_def Ge_def)
  moreover have "oa (Ee_set a v t) = oa t" if "Ge (Tb s) a"
    using that by (simp add: Ee_set_def t Let_def)
  ultimately show ?thesis
    using Fe_exact [OF ok] by (simp add: t Ee_next_def Ee_version)
qed

theorem Ee_iterator_witness:
  "fst (Ee_next (fst (Ee_iter (Ee_set ''a'' (1::nat) Ee_new)))
     (snd (Ee_remove ''a'' (snd (Ee_iter (Ee_set ''a'' (1::nat) Ee_new)))))) = Changed"
proof -
  let ?s = "Ee_set ''a'' (1::nat) Ee_new"
  have "Ee_reach ?s" by (intro Ee_reach.intros)
  moreover have "Ge (Tb ?s) ''a''" by (simp add: Ee_set_def Ge_def Let_def)
  ultimately show ?thesis
    using Ee_iterator [of ?s "fst (Ee_iter ?s)" "snd (Ee_iter ?s)" "''a''" 0] by simp
qed

text \<open>The check of an iterator misses a \<open>clear\<close>, which puts the version back to 0: cleared and
  filled to the same version, the map passes for unchanged, and the iterator yields a key of the
  new contents.\<close>

lemma Ee_clear_unnoticed:
  "Ee_next (fst (Ee_iter (Ee_set ''a'' (1::nat) Ee_new)))
     (Ee_set ''b'' 2 (Ee_clear (snd (Ee_iter (Ee_set ''a'' 1 Ee_new))))) = (Yield ''b'', (1, 1))"
  by (simp add: Ee_next_def Ee_iter_def Ee_set_def Ee_new_def Ee_clear_def Fe_def Ge_def Let_def)

end
