(* ===== verification/Js_Uri.thy ===== *)
theory Js_Uri
  imports Js_Prelude
begin

text \<open>
  The URI functions of ECMAScript: \<open>encodeURIComponent\<close>, \<open>encodeURI\<close> and \<open>decodeURIComponent\<close>,
  through the UTF-8 bytes of a string. The model's strings hold the code units 0 to 255, so the
  result of decoding is \<open>None\<close> for a malformed sequence (a \<open>URIError\<close>) and also for text that
  decodes to a code point above 255.
\<close>

text \<open>The UTF-8 bytes of a code unit below 256, and their reading.\<close>

definition utf8_bytes :: "char \<Rightarrow> nat list" where
  "utf8_bytes c = (let n = of_char c in if n < 128 then [n] else [192 + n div 64, 128 + n mod 64])"

definition hex_digit :: "nat \<Rightarrow> char" where
  "hex_digit n = (if n < 10 then char_of (48 + n) else char_of (55 + n))"

definition percent :: "nat \<Rightarrow> string" where
  "percent b = [CHR ''%'', hex_digit (b div 16), hex_digit (b mod 16)]"

definition encode_char :: "(char \<Rightarrow> bool) \<Rightarrow> char \<Rightarrow> string" where
  "encode_char keep c = (if keep c then [c] else concat (map percent (utf8_bytes c)))"

text \<open>The characters \<open>encodeURIComponent\<close> and \<open>encodeURI\<close> leave as they are.\<close>

definition is_alnum :: "char \<Rightarrow> bool" where
  "is_alnum c \<longleftrightarrow> is_digit c \<or> is_upper c \<or> is_lower c"

definition uri_unreserved :: "char \<Rightarrow> bool" where
  "uri_unreserved c \<longleftrightarrow> is_alnum c \<or> c \<in> set ''-_.!~*()'' \<or> of_char c = (39 :: nat)"

definition uri_reserved :: "char \<Rightarrow> bool" where
  "uri_reserved c \<longleftrightarrow> c \<in> set '';/?:@&=+$,#''"

definition encode_component :: "string \<Rightarrow> string" where
  "encode_component s = concat (map (encode_char uri_unreserved) s)"

definition encode_uri :: "string \<Rightarrow> string" where
  "encode_uri s = concat (map (encode_char (\<lambda>c. uri_unreserved c \<or> uri_reserved c)) s)"

text \<open>Decoding: a hexadecimal digit, an escaped byte, then the text.\<close>

definition hex_read :: "char \<Rightarrow> nat option" where
  "hex_read c =
     (let n = of_char c
      in if 48 \<le> n \<and> n \<le> 57 then Some (n - 48)
         else if 65 \<le> n \<and> n \<le> 70 then Some (n - 55)
         else if 97 \<le> n \<and> n \<le> 102 then Some (n - 87)
         else None)"

fun escaped_byte :: "string \<Rightarrow> (nat \<times> string) option" where
  "escaped_byte (p # a # b # r) =
     (if p = CHR ''%'' then
        (case (hex_read a, hex_read b) of (Some x, Some y) \<Rightarrow> Some (16 * x + y, r) | _ \<Rightarrow> None)
      else None)"
| "escaped_byte _ = None"

lemma escaped_byte_length: "escaped_byte s = Some (b, r) \<Longrightarrow> length r < length s"
  by (induction s rule: escaped_byte.induct) (auto split: if_splits option.splits)

function decode_component :: "string \<Rightarrow> string option" where
  "decode_component [] = Some []"
| "decode_component (c # s) =
     (if c \<noteq> CHR ''%'' then map_option ((#) c) (decode_component s)
      else (case escaped_byte (c # s) of
              None \<Rightarrow> None
            | Some (b, r) \<Rightarrow>
                (if b < 128 then map_option ((#) (char_of b)) (decode_component r)
                 else if b = 194 \<or> b = 195 then
                   (case escaped_byte r of
                      None \<Rightarrow> None
                    | Some (d, q) \<Rightarrow>
                        (if 128 \<le> d \<and> d < 192
                         then map_option ((#) (char_of (64 * (b - 192) + (d - 128)))) (decode_component q)
                         else None))
                 else None)))"
  by pat_completeness auto
termination
  by (relation "measure length") (auto dest!: escaped_byte_length)

subsection \<open>Laws\<close>

lemma nat_of_char_of: "n < 256 \<Longrightarrow> (of_char (char_of n :: char) :: nat) = n"
  by simp

lemma hex_digit_code: "n < 16 \<Longrightarrow> (of_char (hex_digit n) :: nat) = (if n < 10 then 48 + n else 55 + n)"
  unfolding hex_digit_def by (simp only: if_distrib [of of_char] nat_of_char_of)

lemma hex_read_digit: "n < 16 \<Longrightarrow> hex_read (hex_digit n) = Some n"
  by (simp add: hex_read_def Let_def hex_digit_code)

lemma escaped_byte_percent: "b < 256 \<Longrightarrow> escaped_byte (percent b @ r) = Some (b, r)"
  by (simp add: percent_def hex_read_digit less_mult_imp_div_less)

lemma decode_keep: "c \<noteq> CHR ''%'' \<Longrightarrow> decode_component (c # s) = map_option ((#) c) (decode_component s)"
  by simp

lemma decode_percent:
  assumes "escaped_byte s = Some (b, r)"
  shows "decode_component s =
    (if b < 128 then map_option ((#) (char_of b)) (decode_component r)
     else if b = 194 \<or> b = 195 then
       (case escaped_byte r of
          None \<Rightarrow> None
        | Some (d, q) \<Rightarrow>
            (if 128 \<le> d \<and> d < 192
             then map_option ((#) (char_of (64 * (b - 192) + (d - 128)))) (decode_component q)
             else None))
     else None)"
proof -
  from assms obtain c t where s: "s = c # t" and c: "c = CHR ''%''"
    by (cases s rule: escaped_byte.cases) (auto split: if_splits)
  show ?thesis
    using assms by (simp only: s c decode_component.simps(2) simp_thms if_False option.case prod.case)
qed

lemma decode_two_bytes:
  assumes "n < 256" and "\<not> n < 128"
  shows "decode_component (percent (192 + n div 64) @ percent (128 + n mod 64) @ s) =
    map_option ((#) (char_of n)) (decode_component s)"
proof -
  have d: "n div 64 = 2 \<or> n div 64 = 3"
    using div_le_mono [of 128 n 64] less_mult_imp_div_less [of n 4 64] assms by auto
  have m: "n mod 64 < 64" by simp
  have n: "64 * (n div 64) + n mod 64 = n" by simp
  have 1: "escaped_byte (percent (192 + n div 64) @ percent (128 + n mod 64) @ s) =
      Some (192 + n div 64, percent (128 + n mod 64) @ s)"
    by (rule escaped_byte_percent) (use d in linarith)
  have 2: "escaped_byte (percent (128 + n mod 64) @ s) = Some (128 + n mod 64, s)"
    by (rule escaped_byte_percent) (use m in linarith)
  have 3: "\<not> 192 + n div 64 < 128" "192 + n div 64 = 194 \<or> 192 + n div 64 = 195"
    "128 \<le> 128 + n mod 64 \<and> 128 + n mod 64 < 192"
    using d m by auto
  show ?thesis
    by (simp only: decode_percent [OF 1] 2 3 n simp_thms if_True if_False option.case prod.case
        add_diff_cancel_left')
qed

lemma decode_encode_char:
  assumes "\<not> keep (CHR ''%'')"
  shows "decode_component (encode_char keep c @ s) = map_option ((#) c) (decode_component s)"
proof (cases "keep c")
  case True
  with assms have "c \<noteq> CHR ''%''" by auto
  with True show ?thesis by (simp add: encode_char_def)
next
  case False
  define n where "n = (of_char c :: nat)"
  have n: "n < 256" and c: "c = char_of n" by (simp_all add: n_def)
  have code: "of_char c = n" unfolding c by (rule nat_of_char_of [OF n])
  show ?thesis
  proof (cases "n < 128")
    case True
    have "escaped_byte (percent n @ s) = Some (n, s)" by (rule escaped_byte_percent [OF n])
    from decode_percent [OF this] True False show ?thesis
      by (simp only: encode_char_def utf8_bytes_def code c [symmetric] Let_def if_True if_False
          list.map concat.simps append_Nil2)
  next
    case hi: False
    from decode_two_bytes [OF n hi, of s] False hi show ?thesis
      by (simp only: encode_char_def utf8_bytes_def code c [symmetric] Let_def if_False
          list.map concat.simps append_Nil2 append_assoc)
  qed
qed

lemma encode_keep:
  "\<not> keep (CHR ''%'') \<Longrightarrow> decode_component (concat (map (encode_char keep) s)) = Some s"
  by (induction s) (simp_all add: decode_encode_char)

lemma percent_escaped: "\<not> uri_unreserved (CHR ''%'')"
  by code_simp

lemma decode_encode [js_string]: "decode_component (encode_component s) = Some s"
  by (simp only: encode_component_def encode_keep [where keep = uri_unreserved, OF percent_escaped])

lemma encode_component_inj: "encode_component s = encode_component t \<Longrightarrow> s = t"
  by (metis decode_encode option.inject)

text \<open>Which characters an encoded component can have.\<close>

lemma hex_digit_alnum: "n < 16 \<Longrightarrow> is_alnum (hex_digit n)"
  by (simp add: is_alnum_def is_digit_def is_upper_def Let_def hex_digit_code)

lemma percent_chars: "b < 256 \<Longrightarrow> x \<in> set (percent b) \<Longrightarrow> x = CHR ''%'' \<or> is_alnum x"
proof -
  assume b: "b < 256" and x: "x \<in> set (percent b)"
  from b have "b div 16 < 16" by (simp add: less_mult_imp_div_less)
  moreover have "b mod 16 < 16" by simp
  ultimately have "is_alnum (hex_digit (b div 16))" "is_alnum (hex_digit (b mod 16))"
    by (blast intro: hex_digit_alnum)+
  with x show ?thesis by (auto simp only: percent_def set_simps)
qed

lemma utf8_bytes_range: "b \<in> set (utf8_bytes c) \<Longrightarrow> b < 256"
proof -
  assume b: "b \<in> set (utf8_bytes c)"
  have "(of_char c :: nat) div 64 < 4" by (rule less_mult_imp_div_less) simp
  with b show "b < 256" by (auto simp: utf8_bytes_def Let_def split: if_splits)
qed

lemma encode_component_chars:
  "x \<in> set (encode_component s) \<Longrightarrow> x = CHR ''%'' \<or> uri_unreserved x"
  by (auto simp: encode_component_def encode_char_def uri_unreserved_def split: if_splits
      dest!: percent_chars [OF utf8_bytes_range])

lemma encode_component_id: "list_all uri_unreserved s \<Longrightarrow> encode_component s = s"
  by (induction s) (auto simp: encode_component_def encode_char_def)

subsection \<open>\<open>decodeURI\<close>\<close>

text \<open>Escapes of reserved characters stay.\<close>

function decode_uri :: "string \<Rightarrow> string option" where
  "decode_uri [] = Some []"
| "decode_uri (c # s) =
     (if c \<noteq> CHR ''%'' then map_option ((#) c) (decode_uri s)
      else (case escaped_byte (c # s) of
              None \<Rightarrow> None
            | Some (b, r) \<Rightarrow>
                (if b < 128 then
                   map_option ((@) (if uri_reserved (char_of b) then take 3 (c # s) else [char_of b])) (decode_uri r)
                 else if b = 194 \<or> b = 195 then
                   (case escaped_byte r of
                      None \<Rightarrow> None
                    | Some (d, q) \<Rightarrow>
                        (if 128 \<le> d \<and> d < 192
                         then map_option ((#) (char_of (64 * (b - 192) + (d - 128)))) (decode_uri q)
                         else None))
                 else None)))"
  by pat_completeness auto
termination
  by (relation "measure length") (auto dest!: escaped_byte_length)

end
