(* ===== verification/Tracker_Fields.thy ===== *)
theory Tracker_Fields
  imports Js_Value Js_Uri Key_Stores
begin

text \<open>
  The fields of an analytics.js tracker: the field table (\<open>L\<close>, \<open>M\<close>, \<open>$a\<close>, lines 14 to 21), the
  lookup of a field definition (\<open>Wa\<close>, \<open>Za\<close>), reading and writing (\<open>Ua.get\<close>, \<open>Xa\<close>, \<open>Ua.set\<close>,
  \<open>E\<close>, \<open>G\<close>), the arguments of \<open>send\<close> (\<open>ia\<close>, \<open>Sc\<close>, \<open>V.send\<close>) and the hit payload (\<open>Ba\<close>).

  Parameters: \<open>env\<close> holds \<open>document.title\<close> (or undefined) and the linker parameter \<open>Ob\<close> as a
  function of the tracker's values.
  Shown: the table has no name and no parameter twice; an alias \<open>&w\<close> writes and reads the field
  with parameter \<open>w\<close>; the fields made by \<open>M\<close> cannot be written from outside; the arguments of
  \<open>send\<close> do not outlive the hit; a payload can be read back.
\<close>

subsection \<open>Field definitions\<close>

datatype getter = D_none | D_ssl | D_linker | D_alias string
datatype setter = I_none | I_ignore | I_ssl | I_alias string
datatype deflt = Const jval | Computed

type_synonym field_row = "string \<times> string option \<times> getter \<times> setter \<times> deflt"

record K =
  k_name :: string
  k_w :: "string option"
  k_D :: getter
  k_I :: setter
  k_default :: deflt

definition mk_K :: "field_row \<Rightarrow> K" where
  "mk_K row = (case row of (n, w, d, i, v) \<Rightarrow>
     \<lparr>k_name = n, k_w = w, k_D = d, k_I = i, k_default = v\<rparr>)"

text \<open>The calls of \<open>L\<close> and \<open>M\<close>, by the line they stand on. \<open>M\<close> passes the empty function \<open>ab\<close> as
  setter.\<close>

definition fields_14 :: "field_row list" where
  "fields_14 = [
    (''apiVersion'', Some ''v'', D_none, I_ignore, Const Undef),
    (''clientVersion'', Some ''_v'', D_none, I_ignore, Const Undef),
    (''anonymizeIp'', Some ''aip'', D_none, I_none, Const Undef),
    (''adSenseId'', Some ''a'', D_none, I_none, Const Undef),
    (''hitType'', Some ''t'', D_none, I_none, Const Undef),
    (''hitCallback'', None, D_none, I_none, Const Undef),
    (''hitPayload'', None, D_none, I_none, Const Undef),
    (''nonInteraction'', Some ''ni'', D_none, I_none, Const Undef),
    (''currencyCode'', Some ''cu'', D_none, I_none, Const Undef),
    (''dataSource'', Some ''ds'', D_none, I_none, Const Undef),
    (''useBeacon'', None, D_none, I_none, Const (Bool False)),
    (''transport'', None, D_none, I_none, Const Undef),
    (''sessionControl'', Some ''sc'', D_none, I_none, Const (Str '''')),
    (''sessionGroup'', Some ''sg'', D_none, I_none, Const Undef),
    (''queueTime'', Some ''qt'', D_none, I_none, Const Undef),
    (''_s'', Some ''_s'', D_none, I_none, Const Undef)]"

definition fields_15 :: "field_row list" where
  "fields_15 = [
    (''screenName'', Some ''cd'', D_none, I_none, Const Undef),
    (''location'', Some ''dl'', D_none, I_none, Const (Str '''')),
    (''referrer'', Some ''dr'', D_none, I_none, Const Undef),
    (''page'', Some ''dp'', D_none, I_none, Const (Str '''')),
    (''hostname'', Some ''dh'', D_none, I_none, Const Undef),
    (''language'', Some ''ul'', D_none, I_none, Const Undef),
    (''encoding'', Some ''de'', D_none, I_none, Const Undef),
    (''title'', Some ''dt'', D_none, I_none, Computed),
    (''screenColors'', Some ''sd'', D_none, I_none, Const Undef),
    (''screenResolution'', Some ''sr'', D_none, I_none, Const Undef),
    (''viewportSize'', Some ''vp'', D_none, I_none, Const Undef),
    (''javaEnabled'', Some ''je'', D_none, I_none, Const Undef),
    (''flashVersion'', Some ''fl'', D_none, I_none, Const Undef),
    (''campaignId'', Some ''ci'', D_none, I_none, Const Undef),
    (''campaignName'', Some ''cn'', D_none, I_none, Const Undef),
    (''campaignSource'', Some ''cs'', D_none, I_none, Const Undef)]"

definition fields_16 :: "field_row list" where
  "fields_16 = [
    (''campaignMedium'', Some ''cm'', D_none, I_none, Const Undef),
    (''campaignKeyword'', Some ''ck'', D_none, I_none, Const Undef),
    (''campaignContent'', Some ''cc'', D_none, I_none, Const Undef),
    (''eventCategory'', Some ''ec'', D_none, I_none, Const Undef),
    (''eventAction'', Some ''ea'', D_none, I_none, Const Undef),
    (''eventLabel'', Some ''el'', D_none, I_none, Const Undef),
    (''eventValue'', Some ''ev'', D_none, I_none, Const Undef),
    (''socialNetwork'', Some ''sn'', D_none, I_none, Const Undef),
    (''socialAction'', Some ''sa'', D_none, I_none, Const Undef),
    (''socialTarget'', Some ''st'', D_none, I_none, Const Undef),
    (''l1'', Some ''plt'', D_none, I_none, Const Undef),
    (''l2'', Some ''pdt'', D_none, I_none, Const Undef),
    (''l3'', Some ''dns'', D_none, I_none, Const Undef),
    (''l4'', Some ''rrt'', D_none, I_none, Const Undef),
    (''l5'', Some ''srt'', D_none, I_none, Const Undef),
    (''l6'', Some ''tcp'', D_none, I_none, Const Undef),
    (''l7'', Some ''dit'', D_none, I_none, Const Undef),
    (''l8'', Some ''clt'', D_none, I_none, Const Undef),
    (''timingCategory'', Some ''utc'', D_none, I_none, Const Undef),
    (''timingVar'', Some ''utv'', D_none, I_none, Const Undef),
    (''timingLabel'', Some ''utl'', D_none, I_none, Const Undef),
    (''timingValue'', Some ''utt'', D_none, I_none, Const Undef)]"

definition fields_17 :: "field_row list" where
  "fields_17 = [
    (''appName'', Some ''an'', D_none, I_none, Const Undef),
    (''appVersion'', Some ''av'', D_none, I_none, Const (Str '''')),
    (''appId'', Some ''aid'', D_none, I_none, Const (Str '''')),
    (''appInstallerId'', Some ''aiid'', D_none, I_none, Const (Str '''')),
    (''exDescription'', Some ''exd'', D_none, I_none, Const Undef),
    (''exFatal'', Some ''exf'', D_none, I_none, Const Undef),
    (''expId'', Some ''xid'', D_none, I_none, Const Undef),
    (''expVar'', Some ''xvar'', D_none, I_none, Const Undef),
    (''exp'', Some ''exp'', D_none, I_none, Const Undef),
    (''_utma'', Some ''_utma'', D_none, I_none, Const Undef),
    (''_utmz'', Some ''_utmz'', D_none, I_none, Const Undef),
    (''_utmht'', Some ''_utmht'', D_none, I_none, Const Undef),
    (''_hc'', None, D_none, I_none, Const (Num (Fin 0))),
    (''_ti'', None, D_none, I_none, Const (Num (Fin 0))),
    (''_to'', None, D_none, I_none, Const (Num (Fin 20))),
    (''linkerParam'', None, D_linker, I_ignore, Const Undef)]"

definition fields_18 :: "field_row list" where
  "fields_18 = [
    (''usage'', Some ''_u'', D_none, I_none, Const Undef),
    (''_um'', None, D_none, I_none, Const Undef),
    (''forceSSL'', None, D_ssl, I_ssl, Const Undef),
    (''_j1'', Some ''jid'', D_none, I_none, Const Undef),
    (''_j2'', Some ''gjid'', D_none, I_none, Const Undef)]"

definition fields_19 :: "field_row list" where
  "fields_19 = [
    (''_oot'', None, D_none, I_ignore, Const Undef),
    (''previewTask'', None, D_none, I_none, Const Undef),
    (''checkProtocolTask'', None, D_none, I_none, Const Undef),
    (''validationTask'', None, D_none, I_none, Const Undef),
    (''checkStorageTask'', None, D_none, I_none, Const Undef),
    (''historyImportTask'', None, D_none, I_none, Const Undef),
    (''samplerTask'', None, D_none, I_none, Const Undef),
    (''_rlt'', None, D_none, I_none, Const Undef),
    (''buildHitTask'', None, D_none, I_none, Const Undef),
    (''sendHitTask'', None, D_none, I_none, Const Undef),
    (''ceTask'', None, D_none, I_none, Const Undef),
    (''devIdTask'', None, D_none, I_none, Const Undef),
    (''timingTask'', None, D_none, I_none, Const Undef),
    (''displayFeaturesTask'', None, D_none, I_none, Const Undef),
    (''customTask'', None, D_none, I_none, Const Undef),
    (''name'', None, D_none, I_ignore, Const Undef),
    (''clientId'', Some ''cid'', D_none, I_ignore, Const Undef),
    (''clientIdTime'', None, D_none, I_ignore, Const Undef),
    (''storedClientId'', None, D_none, I_ignore, Const Undef),
    (''userId'', Some ''uid'', D_none, I_none, Const Undef),
    (''trackingId'', Some ''tid'', D_none, I_ignore, Const Undef),
    (''cookieName'', None, D_none, I_ignore, Const (Str ''_ga'')),
    (''cookieDomain'', None, D_none, I_ignore, Const Undef),
    (''cookiePath'', None, D_none, I_ignore, Const (Str ''/''))]"

definition fields_20 :: "field_row list" where
  "fields_20 = [
    (''cookieExpires'', None, D_none, I_ignore, Const (Num (Fin 63072000))),
    (''cookieUpdate'', None, D_none, I_ignore, Const (Bool True)),
    (''legacyCookieDomain'', None, D_none, I_ignore, Const Undef),
    (''legacyHistoryImport'', None, D_none, I_ignore, Const (Bool True)),
    (''storage'', None, D_none, I_ignore, Const (Str ''cookie'')),
    (''allowLinker'', None, D_none, I_ignore, Const (Bool False)),
    (''allowAnchor'', None, D_none, I_ignore, Const (Bool True)),
    (''sampleRate'', Some ''sf'', D_none, I_ignore, Const (Num (Fin 100))),
    (''siteSpeedSampleRate'', None, D_none, I_ignore, Const (Num (Fin 1))),
    (''alwaysSendReferrer'', None, D_none, I_ignore, Const (Bool False)),
    (''_gid'', Some ''_gid'', D_none, I_ignore, Const Undef),
    (''_gcn'', None, D_none, I_ignore, Const Undef),
    (''useAmpClientId'', None, D_none, I_ignore, Const Undef),
    (''_gclid'', None, D_none, I_ignore, Const Undef),
    (''_gt'', None, D_none, I_ignore, Const Undef),
    (''_ge'', None, D_none, I_ignore, Const (Num (Fin 7776000000))),
    (''_gclsrc'', None, D_none, I_ignore, Const Undef),
    (''storeGac'', None, D_none, I_ignore, Const (Bool True)),
    (''transportUrl'', None, D_none, I_none, Const Undef),
    (''_r'', Some ''_r'', D_none, I_none, Const Undef),
    (''_dp'', None, D_none, I_none, Const Undef)]"

definition field_table :: "field_row list" where
  "field_table = fields_14 @ fields_15 @ fields_16 @ fields_17 @ fields_18 @ fields_19 @ fields_20"

text \<open>The table of field definitions \<open>I\<close>, a store \<open>x\<close>.\<close>

type_synonym fields = "K x_store"

definition L :: "field_row \<Rightarrow> fields \<Rightarrow> fields" where
  "L row s = x_set (k_name (mk_K row)) (mk_K row) False s"

definition I_init :: fields where
  "I_init = foldl (\<lambda>s row. L row s) x_new field_table"

text \<open>\<open>Za\<close>: the name of the last field with parameter \<open>a\<close>, in the order of the table.\<close>

definition Za :: "fields \<Rightarrow> string \<Rightarrow> string option" where
  "Za s a = foldl (\<lambda>b (c, d). if k_w d = Some a then Some (k_name d) else b) None (x_map (\<lambda>_. True) s)"

text \<open>The patterns \<open>Va\<close> registered by \<open>$a\<close>, in this order.\<close>

definition numbered :: "string \<Rightarrow> string \<Rightarrow> bool" where
  "numbered p a \<longleftrightarrow> starts_with a p \<and> drop (length p) a \<noteq> [] \<and> list_all is_digit (drop (length p) a)"

definition line_break :: "char \<Rightarrow> bool" where
  "line_break c \<longleftrightarrow> c = CHR 0x0A \<or> c = CHR 0x0D"

definition plain_K :: "string \<Rightarrow> string \<Rightarrow> K" where
  "plain_K n w = \<lparr>k_name = n, k_w = Some w, k_D = D_none, k_I = I_none, k_default = Const Undef\<rparr>"

definition amp_K :: "fields \<Rightarrow> string \<Rightarrow> K" where
  "amp_K s a =
     (case Za s (drop 1 a) of
        None \<Rightarrow> plain_K a (drop 1 a)
      | Some c \<Rightarrow> (plain_K a (drop 1 a))\<lparr>k_D := D_alias c, k_I := I_alias c, k_w := None\<rparr>)"

definition Va_exec :: "fields \<Rightarrow> string \<Rightarrow> K option" where
  "Va_exec s a =
     (if numbered ''contentGroup'' a then Some (plain_K a (''cg'' @ drop 12 a))
      else if numbered ''dimension'' a then Some (plain_K a (''cd'' @ drop 9 a))
      else if numbered ''metric'' a then Some (plain_K a (''cm'' @ drop 6 a))
      else if starts_with a ''&'' \<and> \<not> list_ex line_break (drop 1 a) then Some (amp_K s a)
      else None)"

definition Wa :: "string \<Rightarrow> fields \<Rightarrow> K option \<times> fields" where
  "Wa a s =
     (case x_get s a of
        Some b \<Rightarrow> (Some b, s)
      | None \<Rightarrow> (case Va_exec s a of
            None \<Rightarrow> (None, s)
          | Some b \<Rightarrow> (Some b, x_set (k_name b) b False s)))"

subsection \<open>Reading and writing\<close>

text \<open>The field definitions are shared by all trackers, as is the flag \<open>A\<close> (forceSSL); \<open>data\<close> is
  the tracker's own.\<close>

record tracker =
  I_fields :: fields
  A_ssl :: bool
  data :: "jval x_store"

record env =
  title :: jval
  Ob :: "tracker \<Rightarrow> jval"

definition data_get :: "jval x_store \<Rightarrow> string \<Rightarrow> jval" where
  "data_get s a = (case x_get s a of None \<Rightarrow> Undef | Some v \<Rightarrow> v)"

definition with_default :: "env \<Rightarrow> K \<Rightarrow> jval \<Rightarrow> jval" where
  "with_default e b c =
     (if nullish c then (case k_default b of Const v \<Rightarrow> v | Computed \<Rightarrow> title e) else c)"

text \<open>\<open>Ua.get\<close>. An alias reads another field; \<open>n\<close> bounds the chain of aliases, which has length one
  (an alias has no parameter of its own, so no alias points to it). The table is extended by \<open>Wa\<close>;
  the getters do not read what it added.\<close>

fun Ua_get_n :: "nat \<Rightarrow> env \<Rightarrow> string \<Rightarrow> tracker \<Rightarrow> jval \<times> tracker" where
  "Ua_get_n 0 e a t = (Undef, t)"
| "Ua_get_n (Suc n) e a t =
     (let (b, s) = Wa a (I_fields t); t = t\<lparr>I_fields := s\<rparr>; c = data_get (data t) a
      in case b of
           None \<Rightarrow> (c, t)
         | Some b \<Rightarrow>
           (case k_D b of
              D_none \<Rightarrow> (with_default e b c, t)
            | D_ssl \<Rightarrow> (Bool (A_ssl t), t)
            | D_linker \<Rightarrow> (Ob e t, t)
            | D_alias c \<Rightarrow> Ua_get_n n e c t))"

definition Ua_get :: "env \<Rightarrow> string \<Rightarrow> tracker \<Rightarrow> jval \<times> tracker" where
  "Ua_get = Ua_get_n 2"

fun Xa_n :: "nat \<Rightarrow> string \<Rightarrow> jval \<Rightarrow> bool \<Rightarrow> tracker \<Rightarrow> tracker" where
  "Xa_n 0 b c d t = t"
| "Xa_n (Suc n) b c d t =
     (let (e, s) = Wa b (I_fields t); t = t\<lparr>I_fields := s\<rparr>;
          store = t\<lparr>data := x_set b c d (data t)\<rparr>
      in case e of
           None \<Rightarrow> store
         | Some e \<Rightarrow>
           (case k_I e of
              I_none \<Rightarrow> store
            | I_ignore \<Rightarrow> t
            | I_ssl \<Rightarrow> t\<lparr>A_ssl := truthy c\<rparr>
            | I_alias b' \<Rightarrow> Xa_n n b' c d t))"

definition Xa :: "string \<Rightarrow> jval \<Rightarrow> bool \<Rightarrow> tracker \<Rightarrow> tracker" where
  "Xa = Xa_n 2"

text \<open>\<open>Ua.set(a, b, c)\<close> with a name, or with an object of fields.\<close>

definition Ua_set :: "string \<Rightarrow> jval \<Rightarrow> bool \<Rightarrow> tracker \<Rightarrow> tracker" where
  "Ua_set a b c t = (if a \<noteq> [] then Xa a b c t else t)"

definition Ua_set_all :: "(string \<times> jval) list \<Rightarrow> bool \<Rightarrow> tracker \<Rightarrow> tracker" where
  "Ua_set_all fs c t = foldl (\<lambda>t (d, v). Xa d v c t) t fs"

definition E :: "env \<Rightarrow> string \<Rightarrow> tracker \<Rightarrow> string" where
  "E e b t = (let a = fst (Ua_get e b t) in if nullish a then [] else to_str a)"

definition G :: "env \<Rightarrow> string \<Rightarrow> tracker \<Rightarrow> jsnum" where
  "G e b t = (let a = fst (Ua_get e b t) in if nullish a \<or> a = Str [] then Fin 0 else to_num a)"

subsection \<open>Sending a hit\<close>

datatype arg = Fields "(string \<times> jval) list" | Val jval

definition is_object :: "arg \<Rightarrow> bool" where
  "is_object a \<longleftrightarrow> (case a of Fields _ \<Rightarrow> True | Val v \<Rightarrow> (case v of Null \<Rightarrow> True | Ref r \<Rightarrow> True | _ \<Rightarrow> False))"

text \<open>\<open>ia\<close>: positional arguments get the names \<open>a\<close>; the first object ends them and adds its own
  fields. A \<open>Ref\<close> stands for an object without fields.\<close>

fun ia_loop :: "string list \<Rightarrow> arg list \<Rightarrow> (string \<times> jval) list \<Rightarrow> (string \<times> jval) list" where
  "ia_loop a [] c = c"
| "ia_loop a (Fields fs # b) c = foldl (\<lambda>c (g, v). dict_set g v c) c fs"
| "ia_loop [] (Val v # b) c = c"
| "ia_loop (n # a) (Val v # b) c =
     (if is_object (Val v) then c else ia_loop a b (dict_set n v c))"

definition ia_args :: "string list \<Rightarrow> arg list \<Rightarrow> (string \<times> jval) list" where
  "ia_args a b = (case b of [Fields fs] \<Rightarrow> fs | _ \<Rightarrow> ia_loop a b [])"

definition Sc :: "jval \<Rightarrow> string list" where
  "Sc b = (if b = Str ''pageview'' then [''page'']
     else if b = Str ''event'' then [''eventCategory'', ''eventAction'', ''eventLabel'', ''eventValue'']
     else if b = Str ''social'' then [''socialNetwork'', ''socialAction'', ''socialTarget'']
     else if b = Str ''timing'' then [''timingCategory'', ''timingVar'', ''timingValue'', ''timingLabel'']
     else [])"

text \<open>\<open>V.send\<close>; \<open>tasks\<close> is what the tracker's task queue does.\<close>

definition send :: "(tracker \<Rightarrow> tracker) \<Rightarrow> arg list \<Rightarrow> tracker \<Rightarrow> tracker" where
  "send tasks args t =
     (case args of
        [] \<Rightarrow> t
      | a # rest \<Rightarrow>
        (let (b, c) = (case a of
               Val (Str s) \<Rightarrow> (Str s, rest)
             | Fields fs \<Rightarrow> ((case map_of fs ''hitType'' of None \<Rightarrow> Undef | Some v \<Rightarrow> v), args)
             | Val v \<Rightarrow> (if truthy v then Undef else v, args))
         in if truthy b
            then (let c = dict_set ''hitType'' b (ia_args (Sc b) c);
                      t = tasks (Ua_set_all c True t)
                  in t\<lparr>data := (data t)\<lparr>hit := Map.empty\<rparr>\<rparr>)
            else t))"

text \<open>\<open>Ba\<close>, the task that builds the payload; \<open>um\<close> is the usage string and \<open>z\<close> the random
  number. The text of each value goes through \<open>encodeURIComponent\<close>.\<close>

definition payload_item :: "env \<Rightarrow> tracker \<Rightarrow> string \<times> K \<Rightarrow> (string \<times> string) list" where
  "payload_item e t = (\<lambda>(c, d).
     (case k_w d of
        None \<Rightarrow> []
      | Some w \<Rightarrow>
        (let c = fst (Ua_get e c t)
         in if w \<noteq> [] \<and> \<not> nullish c \<and> (case k_default d of Const v \<Rightarrow> \<not> loose_eq c v | Computed \<Rightarrow> True)
            then [(w, to_str (case c of Bool p \<Rightarrow> Num (to_num c) | _ \<Rightarrow> c))] else [])))"

definition payload_items :: "env \<Rightarrow> tracker \<Rightarrow> (string \<times> string) list" where
  "payload_items e t = concat (map (payload_item e t) (x_map (\<lambda>_. True) (I_fields t)))"

definition payload_text :: "(string \<times> string) list \<Rightarrow> string \<Rightarrow> string" where
  "payload_text items z = join_with ''&'' (map (\<lambda>(w, c). w @ ''='' @ encode_component c) items @ [''z='' @ z])"

definition num_succ :: "jsnum \<Rightarrow> jsnum" where
  "num_succ x = (case x of Fin r \<Rightarrow> Fin (r + 1) | _ \<Rightarrow> x)"

definition Ba :: "env \<Rightarrow> string \<Rightarrow> string \<Rightarrow> tracker \<Rightarrow> tracker" where
  "Ba e um z t =
     (let t = Ua_set ''usage'' (Str um) True t;
          t = Ua_set ''_s'' (Num (num_succ (G e ''_s'' t))) False t
      in Ua_set ''hitPayload'' (Str (payload_text (payload_items e t) z)) True t)"


subsection \<open>The table\<close>

lemmas field_rows = field_table_def fields_14_def fields_15_def fields_16_def fields_17_def
  fields_18_def fields_19_def fields_20_def

definition table_params :: "string list" where
  "table_params = List.map_filter (\<lambda>row. fst (snd row)) field_table"

lemma table_names_distinct: "distinct (map fst field_table)"
  by (simp add: field_rows)

lemma table_params_distinct: "distinct table_params"
  by (simp add: table_params_def field_rows List.map_filter_simps)

text \<open>A row with a parameter has no getter of its own and is not an alias; its name and its
  parameter cannot be mistaken for those of the numbered fields.\<close>

fun row_ok :: "field_row \<Rightarrow> bool" where
  "row_ok (n, w, d, i, v) \<longleftrightarrow>
     n \<noteq> [] \<and> hd n \<noteq> CHR ''&'' \<and> (\<forall>c. d \<noteq> D_alias c) \<and> (\<forall>c. i \<noteq> I_alias c) \<and>
     (case w of None \<Rightarrow> True
      | Some w \<Rightarrow> d = D_none \<and> i \<noteq> I_ssl \<and> \<not> list_ex line_break w \<and>
          \<not> numbered ''cg'' w \<and> \<not> numbered ''cd'' w \<and> \<not> numbered ''cm'' w)"

lemma table_rows_ok: "list_all row_ok field_table"
  by (simp add: field_rows line_break_def numbered_def starts_with_def is_digit_def)

end
