(* ===== verification/Tracker_Laws.thy ===== *)
theory Tracker_Laws
  imports Tracker_Fields
begin

text \<open>
  The laws of the tracker fields: the invariant of the table of field definitions, what the
  aliases \<open>&w\<close> do, the fields that cannot be written from outside, the scope of the arguments of
  \<open>send\<close>, and the payload.
\<close>

subsection \<open>The invariant of the field table\<close>

text \<open>The tables that can arise: \<open>Wa\<close> is the only operation that extends the initial one.\<close>

inductive fields_reach :: "fields \<Rightarrow> bool" where
  init: "fields_reach I_init"
| look: "fields_reach s \<Longrightarrow> fields_reach (snd (Wa a s))"

text \<open>The names and parameters of the fields that \<open>Wa\<close> makes up: \<open>dimension3\<close> has \<open>cd3\<close>.\<close>

definition number_names :: "(string \<times> string) list" where
  "number_names = [(''contentGroup'', ''cg''), (''dimension'', ''cd''), (''metric'', ''cm'')]"

definition numbered_param :: "string \<Rightarrow> string \<Rightarrow> bool" where
  "numbered_param n w \<longleftrightarrow> list_ex (\<lambda>(p, q). numbered p n \<and> w = q @ drop (length p) n) number_names"

definition extra_ok :: "fields \<Rightarrow> K \<Rightarrow> bool" where
  "extra_ok s d \<longleftrightarrow>
     (case k_w d of
        Some w \<Rightarrow> w \<notin> set table_params \<and> k_D d = D_none \<and> k_I d = I_none \<and>
          (numbered_param (k_name d) w \<or> k_name d = ''&'' @ w)
      | None \<Rightarrow> (\<exists>c d' w. k_D d = D_alias c \<and> k_I d = I_alias c \<and> vals s c = Some d' \<and> k_w d' = Some w))"

definition alias_ok :: "fields \<Rightarrow> bool" where
  "alias_ok s \<longleftrightarrow> (\<forall>n w D i v d. (n, Some w, D, i, v) \<in> set field_table \<longrightarrow> vals s (''&'' @ w) = Some d \<longrightarrow>
     k_D d = D_alias n \<and> k_I d = I_alias n)"

definition fields_ok :: "fields \<Rightarrow> bool" where
  "fields_ok s \<longleftrightarrow> hit s = Map.empty \<and> dom (vals s) \<subseteq> set (keys s) \<and>
     (\<forall>row \<in> set field_table. vals s (fst row) = Some (mk_K row)) \<and>
     (\<exists>ks. keys s = map fst field_table @ ks \<and>
       (\<forall>k \<in> set ks. \<exists>d. vals s k = Some d \<and> k_name d = k \<and> extra_ok s d)) \<and>
     alias_ok s"

lemma foldl_L:
  "hit (foldl (\<lambda>s row. L row s) s rows) = hit s \<and>
   keys (foldl (\<lambda>s row. L row s) s rows) = keys s @ map fst rows \<and>
   vals (foldl (\<lambda>s row. L row s) s rows) = vals s ++ map_of (rev (map (\<lambda>row. (fst row, mk_K row)) rows))"
proof (induction rows arbitrary: s)
  case Nil
  then show ?case by simp
next
  case (Cons row rows)
  have "k_name (mk_K row) = fst row" by (cases row) (simp add: mk_K_def)
  then have L: "hit (L row s) = hit s" "keys (L row s) = keys s @ [fst row]"
    "vals (L row s) = vals s ++ [fst row \<mapsto> mk_K row]"
    by (simp_all add: L_def x_set_def Let_def)
  have "map_of (rev (map (\<lambda>row. (fst row, mk_K row)) (row # rows)))
      = [fst row \<mapsto> mk_K row] ++ map_of (rev (map (\<lambda>row. (fst row, mk_K row)) rows))"
    by simp
  with Cons [of "L row s"] L show ?case
    by (simp only: foldl_Cons list.map append_assoc append.simps map_add_assoc simp_thms)
qed

lemma row_facts:
  assumes "(n, w, d, i, v) \<in> set field_table"
  shows "row_ok (n, w, d, i, v)" and "fst (n, w, d, i, v) = n"
    and "mk_K (n, w, d, i, v) = \<lparr>k_name = n, k_w = w, k_D = d, k_I = i, k_default = v\<rparr>"
  using assms table_rows_ok by (auto simp: list_all_iff mk_K_def)

lemma fields_ok_init: "fields_ok I_init"
proof -
  let ?ps = "map (\<lambda>row. (fst row, mk_K row)) field_table"
  have init: "hit I_init = Map.empty" "keys I_init = map fst field_table" "vals I_init = map_of (rev ?ps)"
    using foldl_L [of x_new field_table] by (simp_all add: I_init_def x_new_def)
  have ps: "distinct (map fst (rev ?ps))"
    using table_names_distinct by (simp add: o_def rev_map [symmetric])
  have "map_of (rev ?ps) (fst row) = Some (mk_K row)" if "row \<in> set field_table" for row
    using that ps by (intro map_of_is_SomeI) auto
  moreover have "alias_ok I_init"
    unfolding alias_ok_def
  proof (intro allI impI)
    fix n w D i v d
    assume "vals I_init (''&'' @ w) = Some d"
    then have "''&'' @ w \<in> fst ` set field_table"
      unfolding init(3) by (force dest: map_of_SomeD)
    then have "\<exists>row \<in> set field_table. hd (fst row) = CHR ''&''" by force
    then show "k_D d = D_alias n \<and> k_I d = I_alias n"
      using table_rows_ok by (auto simp: list_all_iff)
  qed
  moreover have "dom (vals I_init) \<subseteq> set (keys I_init)"
    unfolding init by (force dest: map_of_SomeD)
  ultimately show ?thesis using init by (simp add: fields_ok_def)
qed

lemma keys_defined: "fields_ok s \<Longrightarrow> c \<in> set (keys s) \<Longrightarrow> \<exists>d. vals s c = Some d \<and> k_name d = c"
  unfolding fields_ok_def by (auto simp: mk_K_def split: prod.splits)

lemma x_map_fields:
  assumes "fields_ok s"
  shows "x_map (\<lambda>_. True) s = map (\<lambda>c. (c, the (vals s c))) (keys s)"
proof -
  have "(case x_get s c of None \<Rightarrow> [] | Some d \<Rightarrow> if True then [(c, d)] else []) = [(c, the (vals s c))]"
    if "c \<in> set (keys s)" for c
    using keys_defined [OF assms that] assms by (auto simp: x_get_def fields_ok_def)
  then have "x_map (\<lambda>_. True) s = concat (map (\<lambda>c. [(c, the (vals s c))]) (keys s))"
    unfolding x_map_def by (intro arg_cong [of _ _ concat] map_cong) auto
  then show ?thesis by (simp add: concat_map_singleton)
qed

lemma find_SomeD: "find P xs = Some x \<Longrightarrow> x \<in> set xs \<and> P x"
  by (induction xs) (auto split: if_splits)

lemma foldl_pick:
  "foldl (\<lambda>b (c, d). if P d then Some (f d) else b) b0 xs =
     (case find (\<lambda>x. P (snd x)) (rev xs) of None \<Rightarrow> b0 | Some x \<Rightarrow> Some (f (snd x)))"
proof (induction xs rule: rev_induct)
  case (snoc x xs)
  then show ?case by (cases x) auto
qed simp

lemma Za_find: "Za s a = map_option (\<lambda>x. k_name (snd x)) (find (\<lambda>x. k_w (snd x) = Some a) (rev (x_map (\<lambda>_. True) s)))"
  by (simp add: Za_def foldl_pick split: option.split)

lemma same_param:
  assumes "(n, Some w, d, i, v) \<in> set field_table" and "(n', Some w, d', i', v') \<in> set field_table"
  shows "n = n'"
proof -
  have "(n, Some w, d, i, v) = (n', Some w, d', i', v')"
    if "distinct (List.map_filter (\<lambda>row. fst (snd row)) rows)"
      "(n, Some w, d, i, v) \<in> set rows" "(n', Some w, d', i', v') \<in> set rows" for rows :: "field_row list"
    using that
  proof (induction rows)
    case (Cons r rows)
    have "w \<in> set (List.map_filter (\<lambda>row. fst (snd row)) rows)" if "(a, Some w, b) \<in> set rows" for a b
      using that by (force simp: List.map_filter_def)
    with Cons show ?case
      by (auto simp: List.map_filter_simps split: option.splits; blast)
  qed simp
  with assms table_params_distinct show ?thesis unfolding table_params_def by blast
qed

lemma table_param: "(n, Some w, d, i, v) \<in> set field_table \<Longrightarrow> w \<in> set table_params"
  by (force simp: table_params_def List.map_filter_def)

lemma Za_table:
  assumes "fields_ok s" and "(n, Some w, D, i, v) \<in> set field_table"
  shows "Za s w = Some n"
proof -
  have n: "n \<in> set (keys s)" "vals s n = Some (mk_K (n, Some w, D, i, v))"
    using assms by (force simp: fields_ok_def)+
  have "find (\<lambda>x. k_w (snd x) = Some w) (rev (x_map (\<lambda>_. True) s)) \<noteq> None"
    unfolding find_None_iff x_map_fields [OF assms(1)] using n by (auto simp: mk_K_def intro!: bexI [of _ n])
  then obtain x where x: "find (\<lambda>x. k_w (snd x) = Some w) (rev (x_map (\<lambda>_. True) s)) = Some x"
    by blast
  then have "x \<in> set (x_map (\<lambda>_. True) s)" "k_w (snd x) = Some w"
    by (auto dest: find_SomeD)
  then obtain c where c: "c \<in> set (keys s)" "x = (c, the (vals s c))" "k_w (the (vals s c)) = Some w"
    unfolding x_map_fields [OF assms(1)] by auto
  from keys_defined [OF assms(1) c(1)] obtain d where d: "vals s c = Some d" "k_name d = c" by blast
  have "c = n"
  proof (cases "c \<in> fst ` set field_table")
    case True
    then obtain w' D' i' v' where row: "(c, w', D', i', v') \<in> set field_table" by force
    with assms(1) have "vals s c = Some (mk_K (c, w', D', i', v'))" by (auto simp: fields_ok_def)
    with c(3) have "w' = Some w" by (simp add: mk_K_def)
    with row assms(2) show ?thesis by (metis same_param)
  next
    case False
    from assms(1) obtain ks where "keys s = map fst field_table @ ks"
      "\<forall>k \<in> set ks. \<exists>d. vals s k = Some d \<and> k_name d = k \<and> extra_ok s d"
      unfolding fields_ok_def by blast
    with False c(1) obtain d' where "vals s c = Some d'" "extra_ok s d'" by fastforce
    with c(3) table_param [OF assms(2)] show ?thesis by (auto simp: extra_ok_def)
  qed
  with x d c(2) show ?thesis by (simp add: Za_find)
qed

lemma Za_not_table:
  assumes "fields_ok s"
  shows "case Za s w of None \<Rightarrow> w \<notin> set table_params
    | Some c \<Rightarrow> \<exists>d. vals s c = Some d \<and> k_w d = Some w"
proof (cases "Za s w")
  case None
  have "w \<notin> set table_params"
  proof
    assume "w \<in> set table_params"
    then obtain n D i v where "(n, Some w, D, i, v) \<in> set field_table"
      by (auto simp: table_params_def List.map_filter_def)
    with Za_table [OF assms] None show False by fastforce
  qed
  with None show ?thesis by simp
next
  case (Some n)
  then obtain x where x: "find (\<lambda>x. k_w (snd x) = Some w) (rev (x_map (\<lambda>_. True) s)) = Some x" "n = k_name (snd x)"
    by (auto simp: Za_find)
  then have "x \<in> set (x_map (\<lambda>_. True) s)" "k_w (snd x) = Some w"
    by (auto dest: find_SomeD)
  then obtain c where c: "c \<in> set (keys s)" "x = (c, the (vals s c))" "k_w (the (vals s c)) = Some w"
    unfolding x_map_fields [OF assms] by auto
  from keys_defined [OF assms c(1)] c x Some show ?thesis by auto
qed

lemma digits_numbered: "numbered p a \<Longrightarrow> length q = 2 \<Longrightarrow> numbered q (q @ drop (length p) a)"
  by (simp add: numbered_def starts_with_def)

lemma numbered_not_table:
  assumes "numbered p a" and "q \<in> {''cg'', ''cd'', ''cm''}"
  shows "q @ drop (length p) a \<notin> set table_params"
proof
  assume "q @ drop (length p) a \<in> set table_params"
  then obtain n D i v where "(n, Some (q @ drop (length p) a), D, i, v) \<in> set field_table"
    by (auto simp: table_params_def List.map_filter_def)
  from row_facts(1) [OF this] have "\<not> numbered q (q @ drop (length p) a)" using assms(2) by auto
  moreover have "numbered q (q @ drop (length p) a)"
    using assms by (intro digits_numbered) auto
  ultimately show False by simp
qed

lemma amp_split: "starts_with a ''&'' \<Longrightarrow> a = ''&'' @ drop 1 a"
  by (cases a) (auto simp: starts_with_def)

lemma Va_exec_cases:
  assumes "Va_exec s a = Some b"
  obtains (num) p q where "(p, q) \<in> set number_names" "numbered p a" "b = plain_K a (q @ drop (length p) a)"
    | (amp) w where "a = ''&'' @ w" "b = amp_K s a"
proof -
  have len: "drop (length ''contentGroup'') a = drop 12 a" "drop (length ''dimension'') a = drop 9 a"
    "drop (length ''metric'') a = drop 6 a" by (simp_all add: numeral_eq_Suc)
  note n = num [of "''contentGroup''" "''cg''"] num [of "''dimension''" "''cd''"] num [of "''metric''" "''cm''"]
  show ?thesis
  proof (cases "numbered ''contentGroup'' a \<or> numbered ''dimension'' a \<or> numbered ''metric'' a")
    case True
    then show ?thesis
      using assms n [unfolded len] unfolding Va_exec_def number_names_def by (simp split: if_splits)
  next
    case False
    with assms have "starts_with a ''&''" "b = amp_K s a"
      by (simp_all add: Va_exec_def split: if_splits)
    with amp_split [of a] amp show ?thesis by blast
  qed
qed

lemma Va_exec_ok:
  assumes "fields_ok s" and "Va_exec s a = Some b"
  shows "k_name b = a \<and> extra_ok s b \<and>
    (\<forall>w. a = ''&'' @ w \<longrightarrow> (case Za s w of None \<Rightarrow> True | Some c \<Rightarrow> k_D b = D_alias c \<and> k_I b = I_alias c))"
proof -
  have no_amp: "\<not> numbered p (CHR ''&'' # w)" if "p \<in> {''contentGroup'', ''dimension'', ''metric''}" for p w
    using that by (auto simp: numbered_def starts_with_def)
  from assms(2) show ?thesis
  proof (cases rule: Va_exec_cases)
    case (num p q)
    then have pq: "p \<in> {''contentGroup'', ''dimension'', ''metric''}" "q \<in> {''cg'', ''cd'', ''cm''}"
      by (auto simp: number_names_def)
    then have "q @ drop (length p) a \<notin> set table_params" using num(2) by (intro numbered_not_table)
    moreover have "numbered_param a (q @ drop (length p) a)"
      unfolding numbered_param_def list_ex_iff using num(1,2) by blast
    moreover have "\<forall>w. a \<noteq> ''&'' @ w" using no_amp [OF pq(1)] num(2) by auto
    ultimately show ?thesis using num(3) by (simp add: plain_K_def extra_ok_def)
  next
    case (amp w)
    with Za_not_table [OF assms(1), of w] show ?thesis
      by (auto simp: amp_K_def plain_K_def extra_ok_def split: option.splits)
  qed
qed

lemma Wa_step:
  assumes "fields_ok s" and "Wa a s = (b, s')"
  shows "fields_ok s' \<and> x_get s' a = b \<and> (\<forall>k d. vals s k = Some d \<longrightarrow> vals s' k = Some d)"
proof -
  have get: "x_get u k = vals u k" if "hit u = Map.empty" for u k using that by (simp add: x_get_def)
  have hit: "hit s = Map.empty" using assms(1) by (simp add: fields_ok_def)
  show ?thesis
  proof (cases "vals s a")
    case (Some d)
    then show ?thesis using assms hit by (auto simp: Wa_def get)
  next
    case new: None
    show ?thesis
    proof (cases "Va_exec s a")
      case None
      then show ?thesis using new assms hit by (auto simp: Wa_def get)
    next
      case (Some d)
      note d = Va_exec_ok [OF assms(1) Some]
      have s': "s' = s\<lparr>keys := keys s @ [a], vals := (vals s)(a \<mapsto> d)\<rparr>" "b = Some d"
        using assms(2) Some new hit d by (auto simp: Wa_def get x_set_def Let_def)
      have old: "vals s k = Some e \<Longrightarrow> vals s' k = Some e" for k e using s' new by auto
      have extra: "extra_ok s e \<Longrightarrow> extra_ok s' e" for e
        using old by (auto simp: extra_ok_def split: option.splits)
      from assms(1) obtain ks where ks: "keys s = map fst field_table @ ks"
        "\<forall>k \<in> set ks. \<exists>d. vals s k = Some d \<and> k_name d = k \<and> extra_ok s d"
        unfolding fields_ok_def by blast
      have "\<exists>ks. keys s' = map fst field_table @ ks \<and>
          (\<forall>k \<in> set ks. \<exists>d. vals s' k = Some d \<and> k_name d = k \<and> extra_ok s' d)"
      proof (rule exI [of _ "ks @ [a]"], intro conjI ballI)
        show "keys s' = map fst field_table @ (ks @ [a])" using s' ks(1) by simp
        fix k assume "k \<in> set (ks @ [a])"
        then consider "k \<in> set ks" | "k = a" by auto
        then show "\<exists>d. vals s' k = Some d \<and> k_name d = k \<and> extra_ok s' d"
        proof cases
          case 1 with ks(2) old extra show ?thesis by blast
        next
          case 2 with s' d extra show ?thesis by auto
        qed
      qed
      moreover have "\<forall>row \<in> set field_table. vals s' (fst row) = Some (mk_K row)"
        using assms(1) old by (auto simp: fields_ok_def)
      moreover have "alias_ok s'"
        unfolding alias_ok_def
      proof (intro allI impI)
        fix n w D i v e
        assume row: "(n, Some w, D, i, v) \<in> set field_table" and e: "vals s' (''&'' @ w) = Some e"
        show "k_D e = D_alias n \<and> k_I e = I_alias n"
        proof (cases "a = ''&'' @ w")
          case True
          with e s' d Za_table [OF assms(1) row] show ?thesis by auto
        next
          case False
          with e s' have "vals s (''&'' @ w) = Some e" by (simp split: if_splits)
          with assms(1) row show ?thesis unfolding fields_ok_def alias_ok_def by blast
        qed
      qed
      ultimately have "fields_ok s'"
        using assms(1) s' by (auto simp: fields_ok_def)
      moreover have "x_get s' a = b" using s' hit by (simp add: get)
      ultimately show ?thesis using old by blast
    qed
  qed
qed

lemma Wa_ok:
  assumes "fields_ok s" and "Wa a s = (b, s')"
  shows "fields_ok s'" and "x_get s' a = b"
  using Wa_step [OF assms] by blast+

lemma fields_reach_ok: "fields_reach s \<Longrightarrow> fields_ok s"
proof (induction rule: fields_reach.induct)
  case init
  show ?case by (rule fields_ok_init)
next
  case (look s a)
  show ?case using Wa_ok(1) [OF look.IH, of a "fst (Wa a s)"] by simp
qed

subsection \<open>Aliases and protected fields\<close>

lemma Wa_row:
  assumes "fields_ok s" and "(n, w, D, i, v) \<in> set field_table"
  shows "Wa n s = (Some \<lparr>k_name = n, k_w = w, k_D = D, k_I = i, k_default = v\<rparr>, s)"
  using assms row_facts(2,3) [OF assms(2)] by (force simp: Wa_def x_get_def fields_ok_def)

lemma Wa_alias:
  assumes ok: "fields_ok s" and row: "(n, Some w, D, i, v) \<in> set field_table"
  obtains d s' where "Wa (''&'' @ w) s = (Some d, s')" "k_D d = D_alias n" "k_I d = I_alias n" "fields_ok s'"
proof -
  let ?a = "''&'' @ w"
  have amp: "\<not> numbered p ?a" if "p \<in> {''contentGroup'', ''dimension'', ''metric''}" for p
    using that by (auto simp: numbered_def starts_with_def)
  have "Va_exec s ?a \<noteq> None"
    using row_facts(1) [OF row] amp by (simp add: Va_exec_def starts_with_def)
  then obtain d where "fst (Wa ?a s) = Some d"
    by (cases "x_get s ?a") (auto simp: Wa_def)
  then obtain s' where Wa: "Wa ?a s = (Some d, s')" by (metis prod.collapse)
  note s' = Wa_ok [OF ok Wa]
  have "vals s' ?a = Some d" using s' by (simp add: x_get_def fields_ok_def)
  with s'(1) row have "k_D d = D_alias n" "k_I d = I_alias n"
    unfolding fields_ok_def alias_ok_def by blast+
  with Wa s'(1) show ?thesis using that by blast
qed

lemma Xa_row:
  assumes "fields_ok (I_fields t)" and "(n, w, D, i, v) \<in> set field_table" and "i = I_none \<or> i = I_ignore"
  shows "Xa_n (Suc k) n x c t = (if i = I_none then t\<lparr>data := x_set n x c (data t)\<rparr> else t)"
  using Wa_row [OF assms(1,2)] assms(3) by auto

lemma row_setter: "(n, Some w, D, i, v) \<in> set field_table \<Longrightarrow> D = D_none \<and> (i = I_none \<or> i = I_ignore)"
  using row_facts(1) [of n "Some w" D i v] by (cases i) auto

lemma Xa_alias:
  assumes "fields_ok (I_fields t)" and "(n, Some w, D, i, v) \<in> set field_table"
  shows "data (Xa (''&'' @ w) x c t) = (if i = I_none then x_set n x c (data t) else data t)"
proof -
  from Wa_alias [OF assms] obtain d s' where d:
    "Wa (''&'' @ w) (I_fields t) = (Some d, s')" "k_D d = D_alias n" "k_I d = I_alias n" "fields_ok s'" .
  have "Xa (''&'' @ w) x c t = Xa_n (Suc 0) n x c (t\<lparr>I_fields := s'\<rparr>)"
    using d unfolding Xa_def numeral_2_eq_2 by (subst Xa_n.simps) simp
  with Xa_row [of "t\<lparr>I_fields := s'\<rparr>" n "Some w" D i v 0 x c] d(4) assms(2) row_setter [OF assms(2)]
  show ?thesis by simp
qed

text \<open>The other fields with a parameter: two numbered fields with one parameter are the same.\<close>

lemma numbered_append: "numbered p n \<Longrightarrow> n = p @ drop (length p) n"
  by (metis append_take_drop_id numbered_def starts_with_def)

lemma numbered_param_name: "numbered_param n w \<Longrightarrow> numbered_param n' w \<Longrightarrow> n = n'"
proof -
  assume "numbered_param n w" "numbered_param n' w"
  then obtain p q p' q' where *: "(p, q) \<in> set number_names" "numbered p n" "w = q @ drop (length p) n"
    "(p', q') \<in> set number_names" "numbered p' n'" "w = q' @ drop (length p') n'"
    by (auto simp: numbered_param_def list_ex_iff)
  have "length q = length q'" using *(1,4) by (auto simp: number_names_def)
  with *(3,6) have "q = q'" "drop (length p) n = drop (length p') n'" by simp_all
  moreover from this(1) have "p = p'" using *(1,4) by (auto simp: number_names_def)
  ultimately show ?thesis using numbered_append [OF *(2)] numbered_append [OF *(5)] by metis
qed

lemma numbered_param_plain: "numbered_param n w \<Longrightarrow> \<not> list_ex line_break w"
proof -
  assume "numbered_param n w"
  then obtain p q where *: "(p, q) \<in> set number_names" "numbered p n" "w = q @ drop (length p) n"
    by (auto simp: numbered_param_def list_ex_iff)
  have "\<not> line_break c" if "is_digit c" for c using that by (auto simp: is_digit_def line_break_def)
  moreover have "list_all (\<lambda>c. \<not> line_break c) q"
    using *(1) by (auto simp: number_names_def line_break_def)
  ultimately have "list_all (\<lambda>c. \<not> line_break c) w"
    using *(2) unfolding *(3) numbered_def by (auto simp: list_all_iff)
  then show ?thesis by (auto simp: list_all_iff list_ex_iff)
qed

lemma defined_cases:
  assumes "fields_ok s" and "vals s n = Some d"
  obtains (row) w D i v where "(n, w, D, i, v) \<in> set field_table" "d = mk_K (n, w, D, i, v)"
  | (extra) "extra_ok s d" "k_name d = n"
proof (cases "n \<in> fst ` set field_table")
  case True
  then obtain w D i v where r: "(n, w, D, i, v) \<in> set field_table" by force
  with assms have "d = mk_K (n, w, D, i, v)" by (auto simp: fields_ok_def)
  with r show ?thesis by (rule row)
next
  case False
  from assms(1) obtain ks where "keys s = map fst field_table @ ks" "n \<in> set (keys s)"
    "\<forall>k \<in> set ks. \<exists>d. vals s k = Some d \<and> k_name d = k \<and> extra_ok s d"
    using assms(2) unfolding fields_ok_def by blast
  with False assms(2) have "extra_ok s d" "k_name d = n" by fastforce+
  then show ?thesis by (rule extra)
qed

lemma defined_setter:
  assumes "fields_ok s" and "vals s n = Some d" and "k_w d = Some w"
  shows "k_D d = D_none \<and> (k_I d = I_none \<or> k_I d = I_ignore)"
  using assms(1,2)
proof (cases rule: defined_cases)
  case (row w' D i v)
  with assms(3) row_setter [of n w D i v] show ?thesis by (simp add: mk_K_def)
next
  case extra
  with assms(3) show ?thesis by (simp add: extra_ok_def)
qed

lemma Za_defined:
  assumes "fields_ok s" and "vals s n = Some d" and "k_w d = Some w"
    and "w \<notin> set table_params" and "vals s (''&'' @ w) = None"
  shows "Za s w = Some n \<and> numbered_param n w"
proof -
  have num: "numbered_param c w" if "vals s c = Some e" "k_w e = Some w" for c e
    using assms(1) that(1)
  proof (cases rule: defined_cases)
    case (row w' D i v)
    with that(2) assms(4) table_param [of c w D i v] show ?thesis by (simp add: mk_K_def)
  next
    case extra
    with that assms(5) show ?thesis by (auto simp: extra_ok_def)
  qed
  have n: "n \<in> set (keys s)" using assms(1,2) by (auto simp: fields_ok_def)
  have "find (\<lambda>x. k_w (snd x) = Some w) (rev (x_map (\<lambda>_. True) s)) \<noteq> None"
    unfolding find_None_iff x_map_fields [OF assms(1)] using n assms(2,3) by (auto intro!: bexI [of _ n])
  then have "Za s w \<noteq> None" by (auto simp: Za_find)
  then obtain c where c: "Za s w = Some c" by blast
  with Za_not_table [OF assms(1), of w] obtain e where "vals s c = Some e" "k_w e = Some w" by auto
  from num [OF this] num [OF assms(2,3)] have "c = n" by (rule numbered_param_name)
  with c num [OF assms(2,3)] show ?thesis by simp
qed

lemma Wa_defined: "fields_ok s \<Longrightarrow> vals s n = Some d \<Longrightarrow> Wa n s = (Some d, s)"
  by (simp add: Wa_def x_get_def fields_ok_def)

lemma Wa_defined_alias:
  assumes ok: "fields_ok s" and n: "vals s n = Some d" "k_w d = Some w"
    and alone: "w \<in> set table_params \<or> vals s (''&'' @ w) = None"
  obtains d' s' where "Wa (''&'' @ w) s = (Some d', s')" "k_D d' = D_alias n" "k_I d' = I_alias n"
    "fields_ok s'" "vals s' n = Some d"
proof -
  have "\<exists>d' s'. Wa (''&'' @ w) s = (Some d', s') \<and> k_D d' = D_alias n \<and> k_I d' = I_alias n"
    using ok n(1)
  proof (cases rule: defined_cases)
    case (row w' D i v)
    with n(2) have "(n, Some w, D, i, v) \<in> set field_table" by (simp add: mk_K_def)
    from Wa_alias [OF ok this] show ?thesis by metis
  next
    case extra
    with n(2) have w: "w \<notin> set table_params" by (simp add: extra_ok_def)
    with alone have new: "vals s (''&'' @ w) = None" by simp
    from Za_defined [OF ok n w new] have Za: "Za s w = Some n" and num: "numbered_param n w" by simp_all
    have "\<not> numbered p (''&'' @ w)" if "p \<in> {''contentGroup'', ''dimension'', ''metric''}" for p
      using that by (auto simp: numbered_def starts_with_def)
    then have "Va_exec s (''&'' @ w) = Some (amp_K s (''&'' @ w))"
      using numbered_param_plain [OF num] by (simp add: Va_exec_def starts_with_def)
    with Za new ok show ?thesis by (simp add: Wa_def x_get_def fields_ok_def amp_K_def)
  qed
  then obtain d' s' where W: "Wa (''&'' @ w) s = (Some d', s')" "k_D d' = D_alias n" "k_I d' = I_alias n"
    by blast
  from Wa_step [OF ok W(1)] n(1) have "fields_ok s'" "vals s' n = Some d" by blast+
  with W show ?thesis using that by blast
qed

text \<open>C2. For every field with a parameter \<open>w\<close>, the name \<open>&w\<close> is the field: writing it stores the
  same data and reading it gives the same value. For the built-in fields this holds whatever
  names were looked up before; for the numbered fields (\<open>dimension1\<close> with \<open>cd1\<close>), once the field
  itself has been looked up and if \<open>&w\<close> was not looked up before (looked up first, \<open>&cd1\<close> becomes
  a field of its own).\<close>

theorem alias_is_field:
  assumes "fields_reach (I_fields t)" and "x_get (I_fields t) n = Some d" and "k_w d = Some w"
    and "w \<in> set table_params \<or> x_get (I_fields t) (''&'' @ w) = None"
  shows "data (Xa (''&'' @ w) x c t) = data (Xa n x c t) \<and>
    fst (Ua_get e (''&'' @ w) t) = fst (Ua_get e n t)"
proof -
  have ok: "fields_ok (I_fields t)" using assms(1) by (rule fields_reach_ok)
  then have vals: "x_get (I_fields t) k = vals (I_fields t) k" for k by (simp add: x_get_def fields_ok_def)
  note n = assms(2) [unfolded vals]
  from Wa_defined_alias [OF ok n assms(3) assms(4) [unfolded vals]] obtain d' s' where d:
    "Wa (''&'' @ w) (I_fields t) = (Some d', s')" "k_D d' = D_alias n" "k_I d' = I_alias n" "fields_ok s'"
    "vals s' n = Some d" .
  note setter = defined_setter [OF ok n assms(3)]
  note W = Wa_defined [OF ok n] Wa_defined [OF d(4,5)]
  have "Ua_get e (''&'' @ w) t = Ua_get_n (Suc 0) e n (t\<lparr>I_fields := s'\<rparr>)"
    using d unfolding Ua_get_def numeral_2_eq_2 by (subst Ua_get_n.simps) simp
  moreover have "fst (Ua_get_n (Suc 0) e n (t\<lparr>I_fields := s'\<rparr>)) = fst (Ua_get e n t)"
    using W setter unfolding Ua_get_def numeral_2_eq_2 by simp
  moreover have "Xa (''&'' @ w) x c t = Xa_n (Suc 0) n x c (t\<lparr>I_fields := s'\<rparr>)"
    using d unfolding Xa_def numeral_2_eq_2 by (subst Xa_n.simps) simp
  moreover have "data (Xa_n (Suc 0) n x c (t\<lparr>I_fields := s'\<rparr>)) = data (Xa n x c t)"
    using W setter unfolding Xa_def numeral_2_eq_2 by auto
  ultimately show ?thesis by simp
qed

lemma rows_witness:
  "(''location'', Some ''dl'', D_none, I_none, Const (Str '''')) \<in> set field_table"
  "(''trackingId'', Some ''tid'', D_none, I_ignore, Const Undef) \<in> set field_table"
  by (simp_all add: field_rows)

lemma location_defined: "x_get I_init ''location'' = Some (mk_K (''location'', Some ''dl'', D_none, I_none, Const (Str '''')))"
proof -
  have "\<forall>row \<in> set field_table. x_get I_init (fst row) = Some (mk_K row)"
    using fields_ok_init by (simp add: x_get_def fields_ok_def)
  with rows_witness(1) show ?thesis by force
qed

lemma not_built_in: "n \<notin> fst ` set field_table \<Longrightarrow> x_get I_init n = None"
proof -
  assume n: "n \<notin> fst ` set field_table"
  have "hit I_init = Map.empty" "keys I_init = map fst field_table" "dom (vals I_init) \<subseteq> set (keys I_init)"
    using foldl_L [of x_new field_table] fields_ok_init by (simp_all add: I_init_def x_new_def fields_ok_def)
  with n have "n \<notin> dom (vals I_init)" by (metis list.set_map subsetD)
  with \<open>hit I_init = Map.empty\<close> show ?thesis by (simp add: x_get_def domIff)
qed

lemma dimension_looked_up:
  "x_get (snd (Wa ''dimension1'' I_init)) ''dimension1'' = Some (plain_K ''dimension1'' ''cd1'')"
  "x_get (snd (Wa ''dimension1'' I_init)) (''&'' @ ''cd1'') = None"
proof -
  have "''dimension1'' \<notin> fst ` set field_table" "''&'' @ ''cd1'' \<notin> fst ` set field_table"
    by (simp_all add: field_rows)
  then have new: "x_get I_init ''dimension1'' = None" "x_get I_init (''&'' @ ''cd1'') = None"
    by (simp_all only: not_built_in not_False_eq_True)
  have "Va_exec I_init ''dimension1'' = Some (plain_K ''dimension1'' ''cd1'')"
    by (simp add: Va_exec_def numbered_def starts_with_def is_digit_def)
  with new show "x_get (snd (Wa ''dimension1'' I_init)) ''dimension1'' = Some (plain_K ''dimension1'' ''cd1'')"
    "x_get (snd (Wa ''dimension1'' I_init)) (''&'' @ ''cd1'') = None"
    by (auto simp: Wa_def plain_K_def x_get_def x_set_def Let_def split: option.splits)
qed

theorem alias_is_field_witness:
  "data (Xa (''&'' @ ''dl'') (Str ''/a'') True \<lparr>I_fields = I_init, A_ssl = False, data = x_new\<rparr>)
    = data (Xa ''location'' (Str ''/a'') True \<lparr>I_fields = I_init, A_ssl = False, data = x_new\<rparr>) \<and>
   data (Xa (''&'' @ ''cd1'') (Str ''a'') True \<lparr>I_fields = snd (Wa ''dimension1'' I_init), A_ssl = False, data = x_new\<rparr>)
    = data (Xa ''dimension1'' (Str ''a'') True \<lparr>I_fields = snd (Wa ''dimension1'' I_init), A_ssl = False, data = x_new\<rparr>)"
proof
  show "data (Xa (''&'' @ ''dl'') (Str ''/a'') True \<lparr>I_fields = I_init, A_ssl = False, data = x_new\<rparr>)
    = data (Xa ''location'' (Str ''/a'') True \<lparr>I_fields = I_init, A_ssl = False, data = x_new\<rparr>)"
    using alias_is_field [of "\<lparr>I_fields = I_init, A_ssl = False, data = x_new\<rparr>" "''location''" _ "''dl''"
      "Str ''/a''" True] location_defined fields_reach.init table_param [OF rows_witness(1)]
    by (simp add: mk_K_def)
  show "data (Xa (''&'' @ ''cd1'') (Str ''a'') True \<lparr>I_fields = snd (Wa ''dimension1'' I_init), A_ssl = False, data = x_new\<rparr>)
    = data (Xa ''dimension1'' (Str ''a'') True \<lparr>I_fields = snd (Wa ''dimension1'' I_init), A_ssl = False, data = x_new\<rparr>)"
    using alias_is_field [of "\<lparr>I_fields = snd (Wa ''dimension1'' I_init), A_ssl = False, data = x_new\<rparr>" "''dimension1''" _ "''cd1''"
      "Str ''a''" True] dimension_looked_up fields_reach.look [OF fields_reach.init]
    by (simp add: plain_K_def)
qed

text \<open>The fields made by \<open>M\<close> (client id, tracking id, cookie settings, sample rates, \<dots>) cannot
  be changed through \<open>set\<close>, neither by their name nor by their parameter.\<close>

theorem protected_fields:
  assumes "fields_reach (I_fields t)" and "(n, w, D, I_ignore, v) \<in> set field_table"
  shows "data (Ua_set n x c t) = data t \<and>
    (case w of None \<Rightarrow> True | Some w \<Rightarrow> data (Ua_set (''&'' @ w) x c t) = data t)"
proof -
  have ok: "fields_ok (I_fields t)" using assms(1) by (rule fields_reach_ok)
  have "Xa n x c t = t"
    unfolding Xa_def numeral_2_eq_2 using Xa_row [OF ok assms(2)] by simp
  moreover have "data (Xa (''&'' @ w') x c t) = data t" if "w = Some w'" for w'
    using Xa_alias [OF ok assms(2) [unfolded that]] by simp
  ultimately show ?thesis by (auto simp: Ua_set_def split: option.split)
qed

theorem protected_fields_witness:
  "data (Ua_set (''&'' @ ''tid'') (Str ''UA-1-1'') False \<lparr>I_fields = I_init, A_ssl = False, data = x_new\<rparr>) = x_new"
  using protected_fields [of "\<lparr>I_fields = I_init, A_ssl = False, data = x_new\<rparr>" "''trackingId''" "Some ''tid''"
      D_none "Const Undef" "Str ''UA-1-1''" False]
    rows_witness(2) fields_reach.init by simp

subsection \<open>The scope of a hit\<close>

lemma Xa_hit: "vals (data (Xa_n k b x True t)) = vals (data t)"
proof (induction k arbitrary: b t)
  case (Suc n)
  then show ?case
    by (auto simp: x_set_def Let_def split: prod.split option.split setter.split)
qed simp

lemma Ua_set_all_hit: "vals (data (Ua_set_all fs True t)) = vals (data t)"
  unfolding Ua_set_all_def
  by (induction fs arbitrary: t) (auto simp: Xa_def Xa_hit)

text \<open>The arguments of \<open>send\<close> live for one hit: afterwards every field reads as before the call,
  but for the fields \<open>S\<close> whose kept values the tasks of the tracker change.\<close>

theorem send_scope:
  assumes "hit (data t) = Map.empty"
    and "\<forall>u k. k \<notin> S \<longrightarrow> vals (data (tasks u)) k = vals (data u) k"
    and "k \<notin> S"
  shows "x_get (data (send tasks args t)) k = x_get (data t) k"
proof -
  have sent: "x_get ((data (tasks (Ua_set_all c True t)))\<lparr>hit := Map.empty\<rparr>) k = x_get (data t) k" for c
    using assms by (simp add: x_get_def Ua_set_all_hit)
  show ?thesis
    by (cases args) (auto simp: send_def Let_def sent split: prod.split)
qed

theorem send_scope_witness:
  "x_get (data (send id [Val (Str ''event''), Val (Str ''c'')] \<lparr>I_fields = I_init, A_ssl = False, data = x_new\<rparr>))
     ''eventCategory'' = None"
  using send_scope [of "\<lparr>I_fields = I_init, A_ssl = False, data = x_new\<rparr>" "{}" id "''eventCategory''"
      "[Val (Str ''event''), Val (Str ''c'')]"]
  by (simp add: x_new_def x_get_def)

subsection \<open>The payload\<close>

text \<open>The receiver splits at \<open>&\<close>, each piece at its first \<open>=\<close>, and decodes the value.\<close>

definition read_one :: "string \<Rightarrow> string \<times> string option" where
  "read_one p = (takeWhile (\<lambda>c. c \<noteq> CHR ''='') p, decode_component (drop 1 (dropWhile (\<lambda>c. c \<noteq> CHR ''='') p)))"

definition read_payload :: "string \<Rightarrow> (string \<times> string option) list" where
  "read_payload s = map read_one (split_on CHR ''&'' s)"

lemma payload_item_params:
  "(w, c) \<in> set (payload_items e t) \<Longrightarrow>
     \<exists>n d. (n, d) \<in> set (x_map (\<lambda>_. True) (I_fields t)) \<and> k_w d = Some w"
  unfolding payload_items_def payload_item_def
  by (fastforce simp: Let_def split: option.splits if_splits)

lemma ampersand_encoded: "CHR ''&'' \<notin> set (encode_component s)"
proof
  assume "CHR ''&'' \<in> set (encode_component s)"
  then have "CHR ''&'' = CHR ''%'' \<or> uri_unreserved CHR ''&''" by (rule encode_component_chars)
  moreover have "\<not> uri_unreserved CHR ''&''" by code_simp
  ultimately show False by simp
qed

lemma read_piece: "CHR ''='' \<notin> set w \<Longrightarrow> read_one (w @ ''='' @ encode_component c) = (w, Some c)"
  unfolding read_one_def
  by (subst takeWhile_append2, force, subst dropWhile_append2, force) (simp add: decode_encode)

text \<open>C3. A hit payload reads back as exactly the parameters that were put in, in order and with
  their values, followed by the random number: no value runs into another parameter, whatever
  characters it has, provided no parameter name has an ampersand or an equals sign.\<close>

theorem payload_readback:
  assumes z: "list_all uri_unreserved z"
    and params: "\<forall>(n, d) \<in> set (x_map (\<lambda>_. True) (I_fields t)).
      \<forall>w. k_w d = Some w \<longrightarrow> CHR ''&'' \<notin> set w \<and> CHR ''='' \<notin> set w"
  shows "read_payload (payload_text (payload_items e t) z) =
    map (\<lambda>(w, c). (w, Some c)) (payload_items e t) @ [(''z'', Some z)]"
proof -
  let ?is = "payload_items e t @ [(''z'', z)]"
  let ?pieces = "map (\<lambda>(w, c). w @ ''='' @ encode_component c) ?is"
  have items: "CHR ''&'' \<notin> set w \<and> CHR ''='' \<notin> set w" if "(w, c) \<in> set ?is" for w c
    using that payload_item_params [of w c e t] params by fastforce
  have whole: "payload_text (payload_items e t) z = join_with ''&'' ?pieces"
    using encode_component_id [OF z] by (simp add: payload_text_def)
  have "split_on CHR ''&'' (payload_text (payload_items e t) z) = ?pieces"
    unfolding whole using items ampersand_encoded by (intro split_join) auto
  then have "read_payload (payload_text (payload_items e t) z) = map (\<lambda>(w, c). (w, Some c)) ?is"
    unfolding read_payload_def using read_piece items by (auto simp del: append_Cons append_Nil)
  then show ?thesis by simp
qed

theorem payload_readback_witness:
  "read_payload (payload_text (payload_items \<lparr>title = Undef, Ob = \<lambda>_. Undef\<rparr>
      \<lparr>I_fields = L (''page'', Some ''dp'', D_none, I_none, Const (Str '''')) x_new, A_ssl = False,
        data = x_set ''page'' (Str ''/a&b'') True x_new\<rparr>) ''7'')
    = [(''dp'', Some ''/a&b''), (''z'', Some ''7'')]"
proof -
  let ?e = "\<lparr>title = Undef, Ob = \<lambda>_. Undef\<rparr>"
  let ?s = "L (''page'', Some ''dp'', D_none, I_none, Const (Str '''')) x_new"
  let ?t = "\<lparr>I_fields = ?s, A_ssl = False, data = x_set ''page'' (Str ''/a&b'') True x_new\<rparr>"
  have map: "x_map (\<lambda>_. True) ?s = [(''page'', plain_K ''page'' ''dp''\<lparr>k_default := Const (Str '''')\<rparr>)]"
    by (simp add: L_def mk_K_def x_set_def x_new_def x_map_def x_get_def plain_K_def Let_def)
  have items: "payload_items ?e ?t = [(''dp'', ''/a&b'')]"
    unfolding payload_items_def tracker.select_convs map
    by (simp add: payload_item_def plain_K_def Ua_get_def numeral_2_eq_2 Wa_def
      L_def mk_K_def x_set_def x_new_def x_get_def data_get_def with_default_def Let_def)
  have "list_all uri_unreserved ''7''" by code_simp
  then have "read_payload (payload_text (payload_items ?e ?t) ''7'')
      = map (\<lambda>(w, c). (w, Some c)) (payload_items ?e ?t) @ [(''z'', Some ''7'')]"
    by (rule payload_readback) (simp_all add: map plain_K_def)
  then show ?thesis unfolding items by simp
qed

text \<open>A custom dimension has two names with the same parameter when its alias is looked up first:
  \<open>&cd1\<close> then is a field of its own, and \<open>dimension1\<close> becomes a second field for \<open>cd1\<close>. Both are sent.\<close>

lemma dimension_twice:
  fixes s :: fields
  assumes "s = snd (Wa ''dimension1'' (snd (Wa ''&cd1'' x_new)))"
  shows "map (\<lambda>(c, d). (c, k_w d)) (x_map (\<lambda>_. True) s) = [(''&cd1'', Some ''cd1''), (''dimension1'', Some ''cd1'')]"
  unfolding assms
  by (simp add: Wa_def x_new_def x_get_def Va_exec_def numbered_def starts_with_def is_digit_def line_break_def
    amp_K_def Za_def x_map_def plain_K_def x_set_def Let_def)

end
