(* ===== verification/Command_Queue.thy ===== *)
theory Command_Queue
  imports Tracker_Fields
begin

text \<open>
  The command queue of analytics.js: parsing a command (\<open>Uc\<close>, \<open>Wc\<close>, \<open>Vc\<close>), the queue \<open>Y\<close>
  (\<open>Y.o\<close>, \<open>Y.aa\<close>, \<open>Y.T\<close>), the registry of trackers (\<open>Z.create\<close>, \<open>Z.remove\<close>, \<open>Z.C\<close>,
  \<open>Z.getAll\<close>) and of plugins (\<open>cd\<close>, \<open>hd\<close>, \<open>dd\<close>).

  A command that runs may issue commands itself (it calls the global function again, which runs
  \<open>Y.o\<close> inside \<open>Y.T\<close>); a \<open>require\<close> whose plugin is not there yet blocks the queue.
  Shown: the order of execution is the order of issue, with the commands a command issues taking
  its place, whatever blocks and whenever it is released; no command is lost or run twice; the
  queue always returns; the registry never holds two trackers of one name.
\<close>

subsection \<open>Parsing\<close>

definition wordy :: "string \<Rightarrow> bool" where
  "wordy s \<longleftrightarrow> s \<noteq> [] \<and> list_all is_word s"

text \<open>\<open>/^(?:(\w+)\.)?(?:(\w+):)?(\w+)$/\<close>: tracker, plugin and method.\<close>

definition Uc_exec :: "string \<Rightarrow> (string option \<times> string option \<times> string) option" where
  "Uc_exec s =
     (let (g, r) = (case split_on CHR ''.'' s of
            [r] \<Rightarrow> (None, Some r)
          | [g, r] \<Rightarrow> (Some g, if wordy g then Some r else None)
          | _ \<Rightarrow> (None, None))
      in case r of
           None \<Rightarrow> None
         | Some r \<Rightarrow>
           (case split_on CHR '':'' r of
              [c] \<Rightarrow> if wordy c then Some (g, None, c) else None
            | [u, c] \<Rightarrow> if wordy u \<and> wordy c then Some (g, Some u, c) else None
            | _ \<Rightarrow> None))"

definition Vc :: "string \<Rightarrow> bool" where
  "Vc a \<longleftrightarrow> contains a ''.'' \<or> contains a '':''"

datatype carg = V jval | Fn nat

definition arg_is_str :: "carg \<Rightarrow> bool" where
  "arg_is_str a = (case a of V v \<Rightarrow> is_str v | Fn _ \<Rightarrow> False)"

definition arg_truthy :: "carg \<Rightarrow> bool" where
  "arg_truthy a = (case a of V v \<Rightarrow> truthy v | Fn _ \<Rightarrow> True)"

definition arg_text :: "carg \<Rightarrow> string" where
  "arg_text a = (case a of V v \<Rightarrow> to_str v | Fn _ \<Rightarrow> ''function'')"

definition arg_at :: "carg list \<Rightarrow> nat \<Rightarrow> carg" where
  "arg_at a i = (if i < length a then a ! i else V Undef)"

text \<open>A parsed command: a function to call with the default tracker, or a method.\<close>

record meth =
  g_tracker :: string
  u_plugin :: string
  c_method :: string
  a_args :: "carg list"
  N_url :: carg
  M_config :: carg

datatype command = L_call nat | Method meth

definition is_special :: "string \<Rightarrow> meth \<Rightarrow> bool" where
  "is_special c w \<longleftrightarrow> u_plugin w = [] \<and> c_method w = c"

text \<open>\<open>Wc\<close>; \<open>None\<close> is the throw of \<open>abort\<close>.\<close>

definition or_else :: "string option \<Rightarrow> string \<Rightarrow> string" where
  "or_else x d = (case x of None \<Rightarrow> d | Some s \<Rightarrow> s)"

definition Wc :: "carg list \<Rightarrow> command option" where
  "Wc a =
     (case arg_at a 0 of
        Fn f \<Rightarrow> Some (L_call f)
      | _ \<Rightarrow>
        (case Uc_exec (arg_text (arg_at a 0)) of
           None \<Rightarrow> None
         | Some (g, u, c) \<Rightarrow>
           (let rest = drop 1 a;
                w = \<lparr>g_tracker = or_else g ''t0'', u_plugin = or_else u [], c_method = c, a_args = rest,
                     N_url = V Undef, M_config = V Undef\<rparr>;
                s = is_special ''require'' w; F = is_special ''provide'' w;
                w = (if \<not> s then w
                     else if 3 \<le> length rest then w\<lparr>N_url := rest ! 1, M_config := rest ! 2\<rparr>
                     else if \<not> arg_truthy (arg_at rest 1) then w
                     else if arg_is_str (arg_at rest 1) then w\<lparr>N_url := rest ! 1\<rparr>
                     else w\<lparr>M_config := rest ! 1\<rparr>);
                b = arg_at a 1; f = arg_at a 2; no_name = (\<not> arg_is_str b \<or> b = V (Str []))
            in if s \<and> no_name then None
               else if F \<and> (no_name \<or> (case f of Fn _ \<Rightarrow> False | _ \<Rightarrow> True)) then None
               else if Vc (g_tracker w) \<or> Vc (u_plugin w) then None
               else if F \<and> g_tracker w \<noteq> ''t0'' then None
               else Some (Method w))))"

subsection \<open>The queue\<close>

text \<open>A command as the queue sees it: what it is, and the commands it will issue when it runs (one
  call each). \<open>blocks c s\<close> says that \<open>Y.T\<close> returns \<open>true\<close> in state \<open>s\<close>; \<open>eff c\<close> is what it does
  otherwise, before it issues its commands.\<close>

datatype 'c cmd = Cmd 'c "'c cmd list"

record ('c, 's) queue =
  Y_h :: "'c cmd list"
  Y_s :: 's
  Y_log :: "'c list"

text \<open>\<open>Y.o\<close>, its loop, and the calls a command makes. The number bounds the depth of the calls; \<open>None\<close>
  means it was too small.\<close>

fun Y_o :: "('c \<Rightarrow> 's \<Rightarrow> bool) \<Rightarrow> ('c \<Rightarrow> 's \<Rightarrow> 's) \<Rightarrow> nat \<Rightarrow> 'c cmd list \<Rightarrow> ('c, 's) queue \<Rightarrow> ('c, 's) queue option"
  and Y_loop :: "('c \<Rightarrow> 's \<Rightarrow> bool) \<Rightarrow> ('c \<Rightarrow> 's \<Rightarrow> 's) \<Rightarrow> nat \<Rightarrow> 'c cmd list \<Rightarrow> ('c, 's) queue \<Rightarrow> ('c, 's) queue option"
  and Y_calls :: "('c \<Rightarrow> 's \<Rightarrow> bool) \<Rightarrow> ('c \<Rightarrow> 's \<Rightarrow> 's) \<Rightarrow> nat \<Rightarrow> 'c cmd list \<Rightarrow> ('c, 's) queue \<Rightarrow> ('c, 's) queue option"
where
  "Y_o blocks eff 0 a y = None"
| "Y_o blocks eff (Suc n) a y = Y_loop blocks eff n (Y_h y @ a) (y\<lparr>Y_h := []\<rparr>)"
| "Y_loop blocks eff 0 b y = None"
| "Y_loop blocks eff (Suc n) [] y = Some y"
| "Y_loop blocks eff (Suc n) (Cmd c ns # b) y =
     (if blocks c (Y_s y) then Some (y\<lparr>Y_h := Y_h y @ Cmd c ns # b\<rparr>)
      else (case Y_calls blocks eff n ns (y\<lparr>Y_s := eff c (Y_s y), Y_log := Y_log y @ [c]\<rparr>) of
              None \<Rightarrow> None
            | Some y \<Rightarrow>
              (if Y_h y \<noteq> [] then Some (y\<lparr>Y_h := Y_h y @ b\<rparr>) else Y_loop blocks eff n b y)))"
| "Y_calls blocks eff 0 ns y = None"
| "Y_calls blocks eff (Suc n) [] y = Some y"
| "Y_calls blocks eff (Suc n) (c # ns) y =
     (case Y_o blocks eff n [c] y of None \<Rightarrow> None | Some y \<Rightarrow> Y_calls blocks eff n ns y)"

text \<open>The order a reader of the page expects: each command, then what it issues.\<close>

fun preorder :: "'c cmd list \<Rightarrow> 'c list" where
  "preorder [] = []"
| "preorder (Cmd c ns # b) = c # preorder ns @ preorder b"

lemma preorder_append [simp]: "preorder (a @ b) = preorder a @ preorder b"
  by (induction a rule: preorder.induct) auto

lemma preorder_Cons: "preorder (c # ns) = preorder [c] @ preorder ns"
  by (cases c) simp

lemma queue_order:
  "Y_o blocks eff n a y = Some y' \<Longrightarrow> Y_log y' @ preorder (Y_h y') = Y_log y @ preorder (Y_h y) @ preorder a"
  "Y_loop blocks eff n b y = Some y' \<Longrightarrow> Y_h y = [] \<Longrightarrow> Y_log y' @ preorder (Y_h y') = Y_log y @ preorder b"
  "Y_calls blocks eff n ns y = Some y' \<Longrightarrow>
     Y_log y' @ preorder (Y_h y') = Y_log y @ preorder (Y_h y) @ preorder ns"
proof (induction blocks eff n a y and blocks eff n b y and blocks eff n ns y arbitrary: y' and y' and y'
    rule: Y_o_Y_loop_Y_calls.induct)
  case (5 blocks eff n c ns b y)
  show ?case
  proof (cases "blocks c (Y_s y)")
    case True
    with 5 show ?thesis by auto
  next
    case False
    let ?y = "y\<lparr>Y_s := eff c (Y_s y), Y_log := Y_log y @ [c]\<rparr>"
    from False "5.prems" obtain z where z: "Y_calls blocks eff n ns ?y = Some z"
      by (auto split: option.splits)
    from "5.IH"(1) [OF False z] "5.prems"(2)
    have log: "Y_log z @ preorder (Y_h z) = Y_log y @ c # preorder ns" by simp
    show ?thesis
    proof (cases "Y_h z = []")
      case True
      with False z "5.prems" have "Y_loop blocks eff n b z = Some y'" by simp
      from "5.IH"(2) [OF False z _ this] True log show ?thesis by auto
    next
      case nonempty: False
      with False z "5.prems" have "y' = z\<lparr>Y_h := Y_h z @ b\<rparr>" by simp
      with log show ?thesis by (simp flip: append_assoc)
    qed
  qed
next
  case (8 blocks eff n c ns y)
  then obtain z where z: "Y_o blocks eff n [c] y = Some z" "Y_calls blocks eff n ns z = Some y'"
    by (auto split: option.splits)
  from "8.IH"(2) [OF z] have "Y_log y' @ preorder (Y_h y') = (Y_log z @ preorder (Y_h z)) @ preorder ns"
    by simp
  with "8.IH"(1) [OF z(1)] show ?case by (simp add: preorder_Cons [of c ns])
qed auto

lemma queue_log:
  "Y_o blocks eff n a y = Some y' \<Longrightarrow> \<exists>l. Y_log y' = Y_log y @ l"
  "Y_loop blocks eff n b y = Some y' \<Longrightarrow> \<exists>l. Y_log y' = Y_log y @ l"
  "Y_calls blocks eff n ns y = Some y' \<Longrightarrow> \<exists>l. Y_log y' = Y_log y @ l"
proof (induction blocks eff n a y and blocks eff n b y and blocks eff n ns y arbitrary: y' and y' and y'
    rule: Y_o_Y_loop_Y_calls.induct)
  case (5 blocks eff n c ns b y)
  then show ?case by (force split: if_splits option.splits)
next
  case (8 blocks eff n c ns y)
  then show ?case by (force split: option.splits)
qed auto

definition load :: "'c cmd list \<Rightarrow> nat" where
  "load b = length (preorder b)"

lemma load_simps [simp]: "load [] = 0" "load (Cmd c ns # b) = Suc (load ns + load b)" "load (a @ b) = load a + load b"
  by (simp_all add: load_def)

lemma load_Cons: "load (c # b) = load [c] + load b" and load_single: "0 < load [c]"
  by (cases c; simp)+

lemma Y_o_load:
  assumes "Y_o blocks eff n a y = Some y'"
  shows "load (Y_h y') \<le> load (Y_h y) + load a"
proof -
  from queue_log(1) [OF assms] have "length (Y_log y) \<le> length (Y_log y')" by auto
  with arg_cong [OF queue_order(1) [OF assms], of length] show ?thesis by (simp add: load_def)
qed

lemma square_step: "(x + 2)^2 + x + 3 \<le> (Suc (x + y) + 2)^2" "(y + 2)^2 + 1 \<le> (Suc (x + y) + 2)^2" for x y :: nat
  by (simp_all add: power2_eq_square algebra_simps)

lemma fuel_loop:
  assumes "(load (Cmd c ns # b) + 2)^2 \<le> Suc n"
  shows "(load ns + 2)^2 + load ns + 2 \<le> n" and "(load b + 2)^2 \<le> n"
proof -
  have "(Suc (load ns + load b) + 2)^2 \<le> Suc n" using assms by simp
  moreover have "(load b + 2)^2 + 1 \<le> (Suc (load ns + load b) + 2)^2"
    using square_step(2) [of "load b" "load ns"] by (simp only: add.commute)
  ultimately show "(load ns + 2)^2 + load ns + 2 \<le> n" "(load b + 2)^2 \<le> n"
    using square_step(1) [of "load ns" "load b"] by linarith+
qed

lemma queue_fuel:
  "(load (Y_h y) + load a + 2)^2 + 1 \<le> n \<Longrightarrow> Y_o blocks eff n a y \<noteq> None"
  "(load b + 2)^2 \<le> n \<Longrightarrow> Y_h y = [] \<Longrightarrow> Y_loop blocks eff n b y \<noteq> None"
  "(load (Y_h y) + load ns + 2)^2 + load ns + 2 \<le> n \<Longrightarrow> Y_calls blocks eff n ns y \<noteq> None"
proof (induction blocks eff n a y and blocks eff n b y and blocks eff n ns y
    rule: Y_o_Y_loop_Y_calls.induct)
  case (5 blocks eff n c ns b y)
  show ?case
  proof (cases "blocks c (Y_s y)")
    case False
    let ?y = "y\<lparr>Y_s := eff c (Y_s y), Y_log := Y_log y @ [c]\<rparr>"
    note fuel = fuel_loop [OF "5.prems"(1)]
    from fuel(1) "5.IH"(1) [OF False] "5.prems"(2)
    obtain z where z: "Y_calls blocks eff n ns ?y = Some z" by auto
    show ?thesis
    proof (cases "Y_h z = []")
      case True
      with "5.IH"(2) [OF False z] fuel(2) False z show ?thesis by simp
    qed (use False z in auto)
  qed simp
next
  case (8 blocks eff n c ns y)
  let ?h = "load (Y_h y)"
  have need: "(?h + load [c] + load ns + 2)^2 + load [c] + load ns + 2 \<le> Suc n"
    using "8.prems" load_Cons [of c ns] by (simp add: add.assoc)
  have "(?h + load [c] + 2)^2 \<le> (?h + load [c] + load ns + 2)^2" by (intro power_mono) auto
  with need load_single [of c] have "(?h + load [c] + 2)^2 + 1 \<le> n" by linarith
  with "8.IH"(1) obtain z where z: "Y_o blocks eff n [c] y = Some z" by auto
  have "load (Y_h z) + load ns + 2 \<le> ?h + load [c] + load ns + 2" using Y_o_load [OF z] by simp
  then have "(load (Y_h z) + load ns + 2)^2 \<le> (?h + load [c] + load ns + 2)^2" by (rule power_mono) simp
  with need load_single [of c] have "(load (Y_h z) + load ns + 2)^2 + load ns + 2 \<le> n" by linarith
  with "8.IH"(2) [OF z] z show ?case by auto
qed (auto simp: power2_eq_square)

text \<open>C1. \<open>Y.o\<close> returns, and what has run so far, followed by what is waiting, is what was there
  before followed by the new commands, each command directly followed by the ones it issues:
  nothing is lost, repeated or overtaken, whatever blocks and is released in between.\<close>

theorem queue_in_order:
  assumes "(load (Y_h y) + load a + 2)^2 + 1 \<le> n"
  shows "\<exists>y'. Y_o blocks eff n a y = Some y' \<and>
    Y_log y' @ preorder (Y_h y') = Y_log y @ preorder (Y_h y) @ preorder a"
  using queue_fuel(1) [OF assms] queue_order(1) by blast

theorem queue_in_order_witness:
  "Y_o (\<lambda>c s. c = 2 \<and> \<not> s) (\<lambda>c s. s \<or> c = (1::nat)) 30 [Cmd 0 [Cmd 2 []], Cmd 1 []]
     \<lparr>Y_h = [], Y_s = False, Y_log = []\<rparr> \<noteq> None"
  using queue_in_order [of "\<lparr>Y_h = [], Y_s = False, Y_log = []\<rparr>" "[Cmd 0 [Cmd 2 []], Cmd 1 []]" 30
    "\<lambda>c s. c = 2 \<and> \<not> s" "\<lambda>c s. s \<or> c = (1::nat)"]
  by (auto simp: load_def power2_eq_square)

subsection \<open>Parsing is exact\<close>

definition command_text :: "string option \<Rightarrow> string option \<Rightarrow> string \<Rightarrow> string" where
  "command_text g u c =
     (case g of None \<Rightarrow> [] | Some g \<Rightarrow> g @ ''.'') @ (case u of None \<Rightarrow> [] | Some u \<Rightarrow> u @ '':'') @ c"

lemma wordy_free: "wordy s \<Longrightarrow> CHR ''.'' \<notin> set s \<and> CHR '':'' \<notin> set s"
proof -
  have "\<not> is_word CHR ''.''" "\<not> is_word CHR '':''"
    by (simp_all add: is_word_def is_digit_def is_upper_def is_lower_def)
  then show "wordy s \<Longrightarrow> ?thesis" by (auto simp: wordy_def list_all_iff)
qed

lemma wordy_no_Vc: "wordy s \<Longrightarrow> \<not> Vc s"
  using wordy_free [of s] by (simp add: Vc_def contains_def index_of_None_char)

lemma split_two: "split_on c s = [x, y] \<longleftrightarrow> s = x @ c # y \<and> c \<notin> set x \<and> c \<notin> set y"
proof
  assume l: "split_on c s = [x, y]"
  then have "c \<notin> set x" "c \<notin> set y" using split_on_pieces [of _ c s] by auto
  moreover have "s = x @ c # y" using join_split [of c s] l by simp
  ultimately show "s = x @ c # y \<and> c \<notin> set x \<and> c \<notin> set y" by blast
qed (auto simp: split_on_append_sep split_on_no_sep)

lemma split_one: "split_on c s = [x] \<longleftrightarrow> s = x \<and> c \<notin> set x"
proof
  assume l: "split_on c s = [x]"
  then show "s = x \<and> c \<notin> set x" using split_on_pieces [of x c s] join_split [of c s] by simp
qed (auto simp: split_on_no_sep)

text \<open>The part after the tracker name.\<close>

definition Uc_tail :: "string \<Rightarrow> (string option \<times> string) option" where
  "Uc_tail r = (case split_on CHR '':'' r of
      [c] \<Rightarrow> if wordy c then Some (None, c) else None
    | [u, c] \<Rightarrow> if wordy u \<and> wordy c then Some (Some u, c) else None
    | _ \<Rightarrow> None)"

lemma Uc_tail_iff: "Uc_tail r = Some (u, c) \<longleftrightarrow>
    r = command_text None u c \<and> wordy c \<and> (case u of None \<Rightarrow> True | Some u \<Rightarrow> wordy u)"
proof (cases u)
  case None
  have "Uc_tail r = Some (None, c) \<longleftrightarrow> split_on CHR '':'' r = [c] \<and> wordy c"
    by (auto simp: Uc_tail_def split: list.splits if_splits)
  with None wordy_free [of c] show ?thesis by (auto simp: split_one command_text_def)
next
  case (Some v)
  have "Uc_tail r = Some (Some v, c) \<longleftrightarrow> split_on CHR '':'' r = [v, c] \<and> wordy v \<and> wordy c"
    by (auto simp: Uc_tail_def split: list.splits if_splits)
  with Some wordy_free [of c] wordy_free [of v] show ?thesis by (auto simp: split_two command_text_def)
qed

lemma Uc_exec_alt: "Uc_exec s =
    (case split_on CHR ''.'' s of
       [r] \<Rightarrow> map_option (Pair None) (Uc_tail r)
     | [g, r] \<Rightarrow> if wordy g then map_option (Pair (Some g)) (Uc_tail r) else None
     | _ \<Rightarrow> None)"
  by (simp add: Uc_exec_def Uc_tail_def Let_def split: list.split)

lemma tail_free: "Uc_tail r = Some (u, c) \<Longrightarrow> CHR ''.'' \<notin> set r"
  unfolding Uc_tail_iff by (cases u) (auto simp: command_text_def dest: wordy_free)

lemma Uc_exec_None: "Uc_exec s = Some (None, u, c) \<longleftrightarrow> Uc_tail s = Some (u, c)"
proof -
  have "Uc_exec s = Some (None, u, c) \<longleftrightarrow> (\<exists>r. split_on CHR ''.'' s = [r] \<and> Uc_tail r = Some (u, c))"
    by (auto simp: Uc_exec_alt split: list.splits if_splits)
  then show ?thesis using tail_free [of s u c] by (simp add: split_one) blast
qed

lemma Uc_exec_Some: "Uc_exec s = Some (Some t, u, c) \<longleftrightarrow>
    (\<exists>r. s = t @ CHR ''.'' # r \<and> wordy t \<and> Uc_tail r = Some (u, c))"
proof -
  have "Uc_exec s = Some (Some t, u, c) \<longleftrightarrow>
      (\<exists>r. split_on CHR ''.'' s = [t, r] \<and> wordy t \<and> Uc_tail r = Some (u, c))"
    by (auto simp: Uc_exec_alt split: list.splits if_splits)
  then show ?thesis using tail_free [of _ u c] wordy_free [of t] by (simp add: split_two) blast
qed

lemma Uc_exec_iff: "Uc_exec s = Some (g, u, c) \<longleftrightarrow>
     s = command_text g u c \<and> wordy c \<and> (case g of None \<Rightarrow> True | Some g \<Rightarrow> wordy g) \<and>
     (case u of None \<Rightarrow> True | Some u \<Rightarrow> wordy u)"
proof (cases g)
  case None
  then show ?thesis by (simp add: Uc_exec_None Uc_tail_iff)
next
  case (Some t)
  have "command_text (Some t) u c = t @ CHR ''.'' # command_text None u c"
    by (simp add: command_text_def)
  with Some show ?thesis by (simp add: Uc_exec_Some Uc_tail_iff) blast
qed

text \<open>The pattern of commands reads exactly the texts made of an optional tracker name, an
  optional plugin name and a method name, all of them words; so the later test for dots and colons
  in the names (\<open>Vc\<close>) never fails.\<close>

theorem command_pattern:
  "(Uc_exec s = Some (g, u, c) \<longleftrightarrow>
     s = command_text g u c \<and> wordy c \<and> (case g of None \<Rightarrow> True | Some g \<Rightarrow> wordy g) \<and>
     (case u of None \<Rightarrow> True | Some u \<Rightarrow> wordy u)) \<and>
   (case Uc_exec s of None \<Rightarrow> True | Some (g, u, c) \<Rightarrow> \<not> Vc (or_else g ''t0'') \<and> \<not> Vc (or_else u []))"
proof -
  have words: "\<not> Vc (or_else g d)" if "case g of None \<Rightarrow> True | Some g \<Rightarrow> wordy g" "\<not> Vc d" for g d
    using that wordy_no_Vc by (cases g) (simp_all add: or_else_def)
  have "\<not> Vc ''t0''" "\<not> Vc []" by (simp_all add: Vc_def contains_def)
  then have "\<not> Vc (or_else g ''t0'') \<and> \<not> Vc (or_else u [])" if "Uc_exec s = Some (g, u, c)" for g u c
    using that words unfolding Uc_exec_iff by blast
  then have "case Uc_exec s of None \<Rightarrow> True | Some (g, u, c) \<Rightarrow> \<not> Vc (or_else g ''t0'') \<and> \<not> Vc (or_else u [])"
    by (cases "Uc_exec s") auto
  with Uc_exec_iff [of s g u c] show ?thesis by blast
qed

subsection \<open>Trackers and plugins\<close>

text \<open>Trackers are objects: \<open>obj\<close> gives name and plugins of the ones made so far (\<open>next\<close> is the next
  fresh one), \<open>Z_j\<close> finds them by name and \<open>Z_i\<close> lists them. The name of a tracker is a protected
  field, so it does not change. \<open>W\<close> holds the names of the plugins provided.\<close>

record ztracker =
  z_name :: string
  z_plugins :: "string list"

record world =
  obj :: "nat \<Rightarrow> ztracker"
  next_obj :: nat
  Z_j :: "string \<Rightarrow> nat option"
  Z_i :: "nat list"
  W :: "string set"

definition world_init :: world where
  "world_init = \<lparr>obj = (\<lambda>_. \<lparr>z_name = [], z_plugins = []\<rparr>), next_obj = 0, Z_j = Map.empty, Z_i = [], W = {}\<rparr>"

definition create_name :: "arg list \<Rightarrow> string" where
  "create_name args =
     (let b = ia_args [''trackingId'', ''cookieDomain'', ''name''] args;
          n = (case map_of b ''name'' of None \<Rightarrow> Undef | Some v \<Rightarrow> v)
      in if truthy n then to_str n else ''t0'')"

definition Z_create :: "arg list \<Rightarrow> world \<Rightarrow> nat \<times> world" where
  "Z_create args w =
     (let c = create_name args
      in case Z_j w c of
           Some t \<Rightarrow> (t, w)
         | None \<Rightarrow> (next_obj w,
             w\<lparr>obj := (obj w)(next_obj w := \<lparr>z_name = c, z_plugins = []\<rparr>), next_obj := next_obj w + 1,
               Z_j := (Z_j w)(c \<mapsto> next_obj w), Z_i := Z_i w @ [next_obj w]\<rparr>))"

fun remove_first :: "('a \<Rightarrow> bool) \<Rightarrow> 'a list \<Rightarrow> 'a list" where
  "remove_first p [] = []"
| "remove_first p (x # xs) = (if p x then xs else x # remove_first p xs)"

definition Z_remove :: "string \<Rightarrow> world \<Rightarrow> world" where
  "Z_remove a w =
     (if \<exists>b \<in> set (Z_i w). z_name (obj w b) = a
      then w\<lparr>Z_i := remove_first (\<lambda>b. z_name (obj w b) = a) (Z_i w), Z_j := (Z_j w)(a := None)\<rparr>
      else w)"

definition Z_C :: "world \<Rightarrow> string \<Rightarrow> nat option" where
  "Z_C w a = Z_j w a"

definition Z_getAll :: "world \<Rightarrow> nat list" where
  "Z_getAll w = Z_i w"

text \<open>\<open>cd(a, b, c)\<close> for tracker \<open>b\<close>; the truth value is the one returned.\<close>

definition cd_plugin :: "string \<Rightarrow> nat \<Rightarrow> world \<Rightarrow> bool \<times> world" where
  "cd_plugin a b w =
     (if a \<notin> W w then (False, w)
      else if a \<in> set (z_plugins (obj w b)) then (True, w)
      else (True, w\<lparr>obj := (obj w)(b := (obj w b)\<lparr>z_plugins := z_plugins (obj w b) @ [a]\<rparr>)\<rparr>))"

text \<open>\<open>hd\<close>, the provision of a plugin, and \<open>Y.T\<close>. \<open>bb\<close> is the name of the global function; methods of
  trackers and plugins, and functions given as commands, are \<open>ext\<close>. The result \<open>True\<close> keeps the
  command waiting.\<close>

definition hd_provide :: "string \<Rightarrow> world \<Rightarrow> world" where
  "hd_provide a w = w\<lparr>W := insert a (W w)\<rparr>"

definition to_arg :: "carg \<Rightarrow> arg" where
  "to_arg a = (case a of V v \<Rightarrow> Val v | Fn f \<Rightarrow> Val (Ref f))"

definition Y_T :: "string \<Rightarrow> (command \<Rightarrow> world \<Rightarrow> world) \<Rightarrow> command \<Rightarrow> world \<Rightarrow> bool \<times> world" where
  "Y_T bb ext a w =
     (case a of
        L_call f \<Rightarrow> (False, ext a w)
      | Method m \<Rightarrow>
        (if is_special ''create'' m
         then (False, if g_tracker m = ''t0'' then snd (Z_create (map to_arg (a_args m)) w) else w)
         else if is_special ''remove'' m then (False, Z_remove (g_tracker m) w)
         else if is_special ''require'' m \<and> g_tracker m \<noteq> bb
         then (case Z_C w (g_tracker m) of
                 None \<Rightarrow> (False, w)
               | Some b \<Rightarrow> (let (ok, w) = cd_plugin (arg_text (arg_at (a_args m) 0)) b w in (\<not> ok, w)))
         else if g_tracker m = bb \<or> Z_C w (g_tracker m) \<noteq> None then (False, ext a w)
         else (False, w)))"

text \<open>The worlds that arise from commands, provided plugins and direct calls of the API.\<close>

inductive world_reach :: "(command \<Rightarrow> world \<Rightarrow> world) \<Rightarrow> world \<Rightarrow> bool" for ext where
  init: "world_reach ext world_init"
| create: "world_reach ext w \<Longrightarrow> world_reach ext (snd (Z_create args w))"
| remove: "world_reach ext w \<Longrightarrow> world_reach ext (Z_remove a w)"
| provide: "world_reach ext w \<Longrightarrow> world_reach ext (hd_provide a w)"
| command: "world_reach ext w \<Longrightarrow> world_reach ext (snd (Y_T bb ext c w))"

definition registry_ok :: "world \<Rightarrow> bool" where
  "registry_ok w \<longleftrightarrow> distinct (Z_i w) \<and> (\<forall>i \<in> set (Z_i w). i < next_obj w) \<and>
     (\<forall>n i. Z_j w n = Some i \<longleftrightarrow> i \<in> set (Z_i w) \<and> z_name (obj w i) = n)"

lemma remove_first_remove1:
  "p y \<Longrightarrow> y \<in> set xs \<Longrightarrow> (\<And>x. x \<in> set xs \<Longrightarrow> p x \<Longrightarrow> x = y) \<Longrightarrow> remove_first p xs = remove1 y xs"
proof (induction xs)
  case (Cons x xs)
  show ?case
  proof (cases "p x")
    case True
    have "x = y" using True by (intro Cons.prems(3)) simp
    with True show ?thesis by simp
  next
    case False
    with Cons.prems(1,2) have y: "y \<in> set xs" "x \<noteq> y" by auto
    have "remove_first p xs = remove1 y xs"
      using Cons.prems(1) y(1) by (rule Cons.IH) (use Cons.prems(3) in \<open>blast intro: list.set_intros(2)\<close>)
    with False y(2) show ?thesis by simp
  qed
qed simp

lemma registry_okI:
  assumes "distinct (Z_i w)" and "\<And>i. i \<in> set (Z_i w) \<Longrightarrow> i < next_obj w"
    and "\<And>n i. Z_j w n = Some i \<longleftrightarrow> i \<in> set (Z_i w) \<and> z_name (obj w i) = n"
  shows "registry_ok w"
  using assms by (simp add: registry_ok_def)

lemma registry_okD:
  assumes "registry_ok w"
  shows "distinct (Z_i w)" and "\<And>i. i \<in> set (Z_i w) \<Longrightarrow> i < next_obj w"
    and "\<And>n i. Z_j w n = Some i \<longleftrightarrow> i \<in> set (Z_i w) \<and> z_name (obj w i) = n"
  using assms by (simp_all add: registry_ok_def)

lemma registry_create:
  assumes "registry_ok w"
  shows "registry_ok (snd (Z_create args w))"
proof (cases "Z_j w (create_name args)")
  case None
  let ?c = "create_name args" and ?k = "next_obj w"
  note ok = registry_okD [OF assms]
  have fresh: "?k \<notin> set (Z_i w)" using ok(2) by blast
  have new: "snd (Z_create args w) = w\<lparr>obj := (obj w)(?k := \<lparr>z_name = ?c, z_plugins = []\<rparr>),
      next_obj := ?k + 1, Z_j := (Z_j w)(?c \<mapsto> ?k), Z_i := Z_i w @ [?k]\<rparr>"
    using None by (simp add: Z_create_def Let_def)
  have unused: "\<not> (i \<in> set (Z_i w) \<and> z_name (obj w i) = ?c)" for i
    using None ok(3) [of ?c i] by simp
  have j: "((Z_j w)(?c \<mapsto> ?k)) n = Some i \<longleftrightarrow> i \<in> set (Z_i w @ [?k]) \<and>
      z_name (((obj w)(?k := \<lparr>z_name = ?c, z_plugins = []\<rparr>)) i) = n" for n i
  proof (cases "i = ?k")
    case True
    with fresh ok(3) [of n i] show ?thesis by (cases "n = ?c") auto
  next
    case False
    with unused [of i] ok(3) [of n i] show ?thesis by (cases "n = ?c") auto
  qed
  show ?thesis
    unfolding new using ok(1) fresh ok(2) j by (intro registry_okI) (auto simp: less_Suc_eq)
qed (simp add: Z_create_def assms)

lemma registry_remove:
  assumes "registry_ok w"
  shows "registry_ok (Z_remove a w)"
proof (cases "\<exists>b \<in> set (Z_i w). z_name (obj w b) = a")
  case True
  then obtain b where b: "b \<in> set (Z_i w)" "z_name (obj w b) = a" by blast
  note ok = registry_okD [OF assms]
  have only: "x = b" if "x \<in> set (Z_i w)" "z_name (obj w x) = a" for x
    using that b ok(3) [of a x] ok(3) [of a b] by simp
  have removed: "remove_first (\<lambda>b. z_name (obj w b) = a) (Z_i w) = remove1 b (Z_i w)"
    by (rule remove_first_remove1 [where y = b]) (use b only in blast)+
  have eq: "Z_remove a w = w\<lparr>Z_i := remove1 b (Z_i w), Z_j := (Z_j w)(a := None)\<rparr>"
    using True by (simp add: Z_remove_def removed)
  have j: "((Z_j w)(a := None)) n = Some i \<longleftrightarrow> i \<in> set (remove1 b (Z_i w)) \<and> z_name (obj w i) = n" for n i
    using ok(3) [of n i] only [of i] b ok(1) by (cases "n = a") auto
  show ?thesis
    unfolding eq using ok(1,2) j by (intro registry_okI) auto
qed (use assms in \<open>simp add: Z_remove_def\<close>)

lemma registry_cd: "registry_ok w \<Longrightarrow> registry_ok (snd (cd_plugin a b w))"
  by (auto simp: cd_plugin_def registry_ok_def)

definition keeps_registry :: "(command \<Rightarrow> world \<Rightarrow> world) \<Rightarrow> bool" where
  "keeps_registry ext \<longleftrightarrow> (\<forall>c w. registry_ok w \<longrightarrow> registry_ok (ext c w))"

lemma registry_T:
  "keeps_registry ext \<Longrightarrow> registry_ok w \<Longrightarrow> registry_ok (snd (Y_T bb ext c w))"
  using registry_cd [of w]
  by (auto simp: Y_T_def registry_create registry_remove keeps_registry_def split_beta Let_def
      split: command.split option.split)

lemma world_reach_ok: "world_reach ext w \<Longrightarrow> keeps_registry ext \<Longrightarrow> registry_ok w"
proof (induction rule: world_reach.induct)
  case init
  show ?case by (simp add: registry_ok_def world_init_def)
next
  case (provide w a)
  then show ?case by (simp add: registry_ok_def hd_provide_def)
qed (simp_all add: registry_create registry_remove registry_T)

text \<open>Whatever commands and calls came before, \<open>getAll\<close> lists the registered trackers, each once
  and with its own name; creating a registered name returns the registered tracker and changes
  nothing; after \<open>remove\<close> the name is free and no other tracker is affected.\<close>

theorem tracker_registry:
  assumes "world_reach ext w" and "keeps_registry ext"
  shows "distinct (map (\<lambda>i. z_name (obj w i)) (Z_getAll w)) \<and>
    (\<forall>i. i \<in> set (Z_getAll w) \<longleftrightarrow> Z_C w (z_name (obj w i)) = Some i) \<and>
    Z_create args (snd (Z_create args w)) = Z_create args w \<and>
    (\<forall>n. Z_C (Z_remove a w) n = (if n = a then None else Z_C w n))"
proof -
  have ok: "registry_ok w" using assms by (rule world_reach_ok)
  then have j: "\<And>n i. Z_j w n = Some i \<longleftrightarrow> i \<in> set (Z_i w) \<and> z_name (obj w i) = n"
    by (simp add: registry_ok_def)
  have "inj_on (\<lambda>i. z_name (obj w i)) (set (Z_i w))"
  proof (rule inj_onI)
    fix x y assume "x \<in> set (Z_i w)" "y \<in> set (Z_i w)" "z_name (obj w x) = z_name (obj w y)"
    with j [of "z_name (obj w x)" x] j [of "z_name (obj w x)" y] show "x = y" by simp
  qed
  then have "distinct (map (\<lambda>i. z_name (obj w i)) (Z_i w))"
    using ok by (simp add: distinct_map registry_ok_def)
  moreover have "Z_create args (snd (Z_create args w)) = Z_create args w"
    by (auto simp: Z_create_def Let_def split: option.split)
  moreover have "Z_j (Z_remove a w) n = (if n = a then None else Z_j w n)" for n
  proof (cases "\<exists>b \<in> set (Z_i w). z_name (obj w b) = a")
    case False
    with j [of a] have "Z_j w a = None" by (cases "Z_j w a") auto
    with False show ?thesis by (simp add: Z_remove_def)
  qed (simp add: Z_remove_def)
  ultimately show ?thesis using j by (simp add: Z_getAll_def Z_C_def)
qed

theorem tracker_registry_witness:
  "Z_C (Z_remove ''t0'' (snd (Z_create [] world_init))) ''t0'' = None"
proof -
  have "keeps_registry (\<lambda>_ w. w)" by (simp add: keeps_registry_def)
  moreover have "world_reach (\<lambda>_ w. w) (snd (Z_create [] world_init))"
    by (intro world_reach.intros)
  ultimately show ?thesis using tracker_registry [of "\<lambda>_ w. w" "snd (Z_create [] world_init)" "[]" "''t0''"] by simp
qed

end
