(* ===== verification/Relay_Sha1.thy ===== *)
theory Relay_Sha1
  imports Js_Prelude
begin

text \<open>
  The incremental SHA-1 of 25936583-postmessagerelay.js (\<open>H\<close>: reset, the block step \<open>c\<close>, update
  \<open>b\<close>, digest \<open>d\<close>, digestString) and \<open>I\<close>, the hash of a string as hexadecimal digits.

  Bytes are \<open>8 word\<close>, the numbers kept in 32 bits are \<open>32 word\<close> (\<open>& 4294967295\<close> converts to 32
  bits; sums of five such numbers are exact in a double). The buffer \<open>f\<close> is filled up to \<open>g\<close>;
  \<open>k\<close> counts the bytes.
  Shown: for a message of less than 2^29 bytes, fed in any pieces, the digest is that of FIPS 180,
  which \<open>fips_sha1\<close> states on its own: the blocks of the padded message folded into the initial
  hash value, with the standard's schedule, constants, functions and byte order.
\<close>

subsection \<open>The block step\<close>

type_synonym chain = "32 word \<times> 32 word \<times> 32 word \<times> 32 word \<times> 32 word"

definition sha_init :: chain where
  "sha_init = (1732584193, 4023233417, 2562383102, 271733878, 3285377520)"

definition rotl32 :: "nat \<Rightarrow> 32 word \<Rightarrow> 32 word" where
  "rotl32 n a = push_bit n a OR drop_bit (32 - n) a"

definition be_word :: "8 word list \<Rightarrow> nat \<Rightarrow> 32 word" where
  "be_word a b = push_bit 24 (ucast (a ! b)) OR push_bit 16 (ucast (a ! (b + 1))) OR
     push_bit 8 (ucast (a ! (b + 2))) OR ucast (a ! (b + 3))"

text \<open>The array \<open>m\<close>: 16 words of the block, then 64 derived ones.\<close>

definition c_block :: "8 word list \<Rightarrow> 32 word list" where
  "c_block a = map (\<lambda>i. be_word a (4 * i)) [0..<16]"

definition c_extend :: "32 word list \<Rightarrow> nat \<Rightarrow> 32 word list" where
  "c_extend c b = c @ [rotl32 1 (c ! (b - 3) XOR c ! (b - 8) XOR c ! (b - 14) XOR c ! (b - 16))]"

definition c_schedule :: "8 word list \<Rightarrow> 32 word list" where
  "c_schedule a = foldl c_extend (c_block a) [16..<80]"

definition c_round :: "32 word list \<Rightarrow> chain \<Rightarrow> nat \<Rightarrow> chain" where
  "c_round c = (\<lambda>(a, d, f, l, g) b.
     (let (k, n) =
        (if 40 > b
         then (if 20 > b then (l XOR (d AND (f XOR l)), 1518500249) else (d XOR f XOR l, 1859775393))
         else (if 60 > b then ((d AND f) OR (l AND (d OR f)), 2400959708) else (d XOR f XOR l, 3395469782)));
          k = rotl32 5 a + k + g + n + c ! b
      in (k, a, rotl32 30 d, f, l)))"

definition c_step :: "chain \<Rightarrow> 8 word list \<Rightarrow> chain" where
  "c_step e a =
     (case (e, foldl (c_round (c_schedule a)) e [0..<80]) of
        ((e0, e1, e2, e3, e4), (a, d, f, l, g)) \<Rightarrow> (e0 + a, e1 + d, e2 + f, e3 + l, e4 + g))"

subsection \<open>The incremental hash\<close>

record sha =
  s_e :: chain
  s_f :: "8 word list"
  s_g :: nat
  s_k :: nat

definition sha_reset :: sha where
  "sha_reset = \<lparr>s_e = sha_init, s_f = [], s_g = 0, s_k = 0\<rparr>"

text \<open>\<open>f[g] = x\<close>; the holes an assignment beyond the end leaves are filled before they are read.\<close>

definition put :: "8 word list \<Rightarrow> nat \<Rightarrow> 8 word \<Rightarrow> 8 word list" where
  "put f g x = (if g < length f then f[g := x] else f @ replicate (g - length f) 0 @ [x])"

text \<open>The loop over whole blocks, \<open>for (; e + 64 < b;)\<close>; \<open>a\<close> is what is left of the input.\<close>

function b_blocks :: "8 word list \<Rightarrow> sha \<Rightarrow> 8 word list \<times> sha" where
  "b_blocks a s =
     (if 64 < length a then b_blocks (drop 64 a) (s\<lparr>s_e := c_step (s_e s) (take 64 a), s_k := s_k s + 64\<rparr>)
      else (a, s))"
  by auto
termination by (relation "measure (\<lambda>(a, s). length a)") auto

declare b_blocks.simps [simp del]

lemma b_blocks_length: "length (fst (b_blocks a s)) \<le> length a"
proof (induction a s rule: b_blocks.induct)
  case (1 a s)
  then show ?case by (subst b_blocks.simps) (auto simp: Let_def)
qed

text \<open>The loop \<open>for (; e < b;)\<close>.\<close>

function b_bytes :: "8 word list \<Rightarrow> sha \<Rightarrow> sha" where
  "b_bytes [] s = s"
| "b_bytes (x # a) s =
     (let s = s\<lparr>s_f := put (s_f s) (s_g s) x, s_g := s_g s + 1, s_k := s_k s + 1\<rparr>
      in if s_g s = 64
         then (case b_blocks a (s\<lparr>s_g := 0, s_e := c_step (s_e s) (s_f s)\<rparr>) of (a, s) \<Rightarrow> b_bytes a s)
         else b_bytes a s)"
  by pat_completeness auto
termination
proof (relation "measure (\<lambda>(a, s). length a)")
  fix x a s xa y xb
  assume "(xa, y) = b_blocks a (xb::sha)"
  then show "((xa, y), x # a, s) \<in> measure (\<lambda>(a, s). length a)"
    using b_blocks_length [of a xb] by (metis case_prod_conv fst_conv in_measure le_imp_less_Suc length_Cons)
qed auto

definition sha_update :: "8 word list \<Rightarrow> sha \<Rightarrow> sha" where
  "sha_update a s =
     (let (a, s) = (if s_g s = 0 then b_blocks a s else (a, s)) in b_bytes a s)"

text \<open>\<open>n\<close>, and \<open>b(n, i)\<close>, which reads the first \<open>i\<close> bytes.\<close>

definition sha_pad :: "8 word list" where
  "sha_pad = 128 # replicate 63 0"

text \<open>The bytes \<open>f[63], \<dots>, f[56]\<close> are set to \<open>d & 255\<close>, and \<open>d\<close> shifted (\<open>>>>\<close>, hence in 32 bits).\<close>

fun put_length :: "nat \<Rightarrow> int \<Rightarrow> 8 word list \<Rightarrow> 8 word list" where
  "put_length 0 d f = f"
| "put_length (Suc i) d f = put_length i (drop_bit 8 (d mod 2 ^ 32)) (put f (56 + i) (word_of_int d))"

definition chain_bytes :: "32 word \<Rightarrow> 8 word list" where
  "chain_bytes w = map (\<lambda>m. ucast (drop_bit m w)) [24, 16, 8, 0]"

definition sha_digest :: "sha \<Rightarrow> 8 word list" where
  "sha_digest s =
     (let d = 8 * int (s_k s);
          s = (if 56 > s_g s then sha_update (take (56 - s_g s) sha_pad) s
               else sha_update (take (64 - (s_g s - 56)) sha_pad) s);
          e = c_step (s_e s) (put_length 8 d (s_f s))
      in case e of (e0, e1, e2, e3, e4) \<Rightarrow>
           chain_bytes e0 @ chain_bytes e1 @ chain_bytes e2 @ chain_bytes e3 @ chain_bytes e4)"

text \<open>\<open>digestString\<close>, and \<open>I\<close>: the UTF-8 bytes of a string, hashed.\<close>

definition hex_upper :: string where
  "hex_upper = ''0123456789ABCDEF''"

definition sha_hex :: "8 word list \<Rightarrow> string" where
  "sha_hex a = concat (map (\<lambda>x. [hex_upper ! (unat x div 16), hex_upper ! (unat x mod 16)]) a)"

definition utf8_char :: "char \<Rightarrow> 8 word list" where
  "utf8_char c =
     (let n = of_char c :: nat
      in if n < 128 then [of_nat n] else [of_nat (192 + n div 64), of_nat (128 + n mod 64)])"

definition utf8 :: "string \<Rightarrow> 8 word list" where
  "utf8 s = concat (map utf8_char s)"

definition I_hash :: "string \<Rightarrow> string" where
  "I_hash a = to_lower (sha_hex (sha_digest (sha_update (utf8 a) sha_reset)))"

subsection \<open>The standard\<close>

text \<open>
  FIPS 180, written from the standard and not from the code: the initial hash value, the constants
  and the functions of round \<open>t\<close>, rotation as \<open>word_rotl\<close>, the words of a block as the big-endian
  value of their bytes, the message schedule as a recursive function, the round, and the padding.
\<close>

definition fips_H0 :: chain where
  "fips_H0 = (0x67452301, 0xEFCDAB89, 0x98BADCFE, 0x10325476, 0xC3D2E1F0)"

definition fips_f :: "nat \<Rightarrow> 32 word \<Rightarrow> 32 word \<Rightarrow> 32 word \<Rightarrow> 32 word" where
  "fips_f t x y z =
     (if t < 20 then (x AND y) XOR (NOT x AND z)
      else if 40 \<le> t \<and> t < 60 then (x AND y) XOR (x AND z) XOR (y AND z)
      else x XOR y XOR z)"

definition fips_K :: "nat \<Rightarrow> 32 word" where
  "fips_K t = (if t < 20 then 0x5A827999 else if t < 40 then 0x6ED9EBA1
     else if t < 60 then 0x8F1BBCDC else 0xCA62C1D6)"

definition big_endian :: "8 word list \<Rightarrow> int" where
  "big_endian = foldl (\<lambda>v x. 256 * v + uint x) 0"

definition to_big_endian :: "nat \<Rightarrow> int \<Rightarrow> 8 word list" where
  "to_big_endian n v = map (\<lambda>i. word_of_int (v div 256 ^ (n - 1 - i))) [0..<n]"

fun fips_W :: "8 word list \<Rightarrow> nat \<Rightarrow> 32 word" where
  "fips_W M t =
     (if t < 16 then word_of_int (big_endian (take 4 (drop (4 * t) M)))
      else word_rotl 1 (fips_W M (t - 3) XOR fips_W M (t - 8) XOR fips_W M (t - 14) XOR fips_W M (t - 16)))"

declare fips_W.simps [simp del]

definition fips_round :: "(nat \<Rightarrow> 32 word) \<Rightarrow> chain \<Rightarrow> nat \<Rightarrow> chain" where
  "fips_round W = (\<lambda>(a, b, c, d, e) t.
     (word_rotl 5 a + fips_f t b c d + e + fips_K t + W t, a, word_rotl 30 b, c, d))"

definition fips_block :: "chain \<Rightarrow> 8 word list \<Rightarrow> chain" where
  "fips_block H M =
     (case (H, foldl (fips_round (fips_W M)) H [0..<80]) of
        ((h0, h1, h2, h3, h4), (a, b, c, d, e)) \<Rightarrow> (h0 + a, h1 + b, h2 + c, h3 + d, h4 + e))"

fun fips_blocks :: "chain \<Rightarrow> 8 word list \<Rightarrow> chain \<times> 8 word list" where
  "fips_blocks H M = (if length M < 64 then (H, M) else fips_blocks (fips_block H (take 64 M)) (drop 64 M))"

declare fips_blocks.simps [simp del]

definition fips_pad :: "8 word list \<Rightarrow> 8 word list" where
  "fips_pad M = M @ 128 # replicate ((119 - length M mod 64) mod 64) 0 @ to_big_endian 8 (8 * int (length M))"

definition fips_sha1 :: "8 word list \<Rightarrow> 8 word list" where
  "fips_sha1 M =
     (case fst (fips_blocks fips_H0 (fips_pad M)) of (h0, h1, h2, h3, h4) \<Rightarrow>
        concat (map (\<lambda>h. to_big_endian 4 (uint h)) [h0, h1, h2, h3, h4]))"

subsection \<open>The incremental hash is the standard's\<close>

text \<open>The bytes that \<open>put_length\<close> leaves in the buffer.\<close>

definition be64 :: "int \<Rightarrow> 8 word list" where
  "be64 d = map (\<lambda>i. word_of_int (drop_bit (8 * (7 - i)) d)) [0..<8]"

lemma choose_eq: "l XOR (d AND (f XOR l)) = (d AND f) XOR (NOT d AND l)" for d :: "32 word"
  by (rule bit_eqI) (auto simp: bit_simps)

lemma majority_eq: "(d AND f) OR (l AND (d OR f)) = (d AND f) XOR (d AND l) XOR (f AND l)" for d :: "32 word"
  by (rule bit_eqI) (auto simp: bit_simps)

lemma sha_init_fips: "sha_init = fips_H0"
  by (simp add: sha_init_def fips_H0_def)

lemma rotl_fips:
  assumes n: "0 < n" "n < 32"
  shows "rotl32 n w = word_rotl n w"
proof (rule bit_word_eqI)
  fix i assume "i < LENGTH(32)"
  then have i: "i < 32" by simp
  have l: "bit (rotl32 n w) i \<longleftrightarrow> n \<le> i \<and> bit w (i - n) \<or> bit w (32 - n + i)"
    using i by (simp add: rotl32_def bit_or_iff bit_push_bit_iff bit_drop_bit_eq)
  have r: "bit (word_rotl n w) i \<longleftrightarrow> bit w ((i + (32 - n)) mod 32)"
    using i n by (simp add: bit_word_rotl_iff)
  show "bit (rotl32 n w) i \<longleftrightarrow> bit (word_rotl n w) i"
  proof (cases "n \<le> i")
    case True
    with n have "i + (32 - n) = (i - n) + 32" "32 - n + i = 32 + (i - n)" by simp_all
    moreover have "((i - n) + 32) mod 32 = i - n" using i by simp
    moreover have "\<not> bit w (32 + (i - n))" by (auto dest: bit_imp_le_length)
    ultimately show ?thesis unfolding l r using True by simp
  next
    case False
    with n have "(i + (32 - n)) mod 32 = 32 - n + i" by simp
    then show ?thesis unfolding l r using False by simp
  qed
qed

lemma bytes_add:
  fixes a b c d :: "8 word"
  shows "push_bit 24 (ucast a) OR push_bit 16 (ucast b) OR push_bit 8 (ucast c) OR ucast d =
    (16777216 * ucast a + 65536 * ucast b + 256 * ucast c + ucast d :: 32 word)"
proof -
  have 1: "(push_bit 8 (ucast c) :: 32 word) AND ucast d = 0"
    by (rule bit_eqI) (auto simp: bit_simps dest: bit_imp_le_length)
  have 2: "(push_bit 16 (ucast b) :: 32 word) AND (push_bit 8 (ucast c) OR ucast d) = 0"
    by (rule bit_eqI) (auto simp: bit_simps dest: bit_imp_le_length)
  have 3: "(push_bit 24 (ucast a) :: 32 word) AND (push_bit 16 (ucast b) OR push_bit 8 (ucast c) OR ucast d) = 0"
    by (rule bit_eqI) (auto simp: bit_simps dest: bit_imp_le_length)
  show ?thesis
    unfolding or.assoc
    unfolding disjunctive_add_eq_or [OF 1, symmetric] disjunctive_add_eq_or [OF 2, unfolded disjunctive_add_eq_or [OF 1, symmetric], symmetric]
      disjunctive_add_eq_or [OF 3, unfolded or.assoc disjunctive_add_eq_or [OF 1, symmetric] disjunctive_add_eq_or [OF 2, unfolded disjunctive_add_eq_or [OF 1, symmetric], symmetric], symmetric]
    by (simp add: push_bit_eq_mult)
qed

lemma c_block_fips:
  assumes "length a = 64" and "t < 16"
  shows "c_block a ! t = fips_W a t"
proof -
  have four: "take 4 (drop (4 * t) a) = [a ! (4 * t), a ! (4 * t + 1), a ! (4 * t + 2), a ! (4 * t + 3)]"
    using assms by (intro nth_equalityI) (auto simp: less_Suc_eq numeral_eq_Suc)
  show ?thesis
    using assms unfolding fips_W.simps [of a t] four
    by (simp add: c_block_def be_word_def big_endian_def bytes_add)
qed

lemma c_schedule_fips:
  assumes "length a = 64"
  shows "length (foldl c_extend (c_block a) [16..<16 + n]) = 16 + n \<and>
    (\<forall>t < 16 + n. foldl c_extend (c_block a) [16..<16 + n] ! t = fips_W a t)"
proof (induction n)
  case 0
  then show ?case using c_block_fips [OF assms] by (simp add: c_block_def)
next
  case (Suc n)
  define c where "c = foldl c_extend (c_block a) [16..<16 + n]"
  have IH: "length c = 16 + n" "\<And>t. t < 16 + n \<Longrightarrow> c ! t = fips_W a t"
    using Suc.IH by (simp_all add: c_def)
  have "[16..<16 + Suc n] = [16..<16 + n] @ [16 + n]" using upt_Suc_append [of 16 "16 + n"] by simp
  then have eq: "foldl c_extend (c_block a) [16..<16 + Suc n] = c_extend c (16 + n)" by (simp add: c_def)
  have next_word: "c_extend c (16 + n) = c @ [fips_W a (16 + n)]"
    using IH(2) by (simp add: c_extend_def rotl_fips fips_W.simps [of a "16 + n"])
  show ?case
  proof (intro conjI allI impI)
    show "length (foldl c_extend (c_block a) [16..<16 + Suc n]) = 16 + Suc n"
      unfolding eq next_word using IH(1) by simp
    fix t assume "t < 16 + Suc n"
    then consider "t < 16 + n" | "t = 16 + n" by linarith
    then show "foldl c_extend (c_block a) [16..<16 + Suc n] ! t = fips_W a t"
      unfolding eq next_word using IH by cases (simp_all add: nth_append)
  qed
qed

lemma c_round_fips: "c ! t = W t \<Longrightarrow> c_round c s t = fips_round W s t"
  by (auto simp: c_round_def fips_round_def fips_f_def fips_K_def choose_eq majority_eq rotl_fips
    algebra_simps Let_def split: prod.split)

lemma c_step_fips: "length a = 64 \<Longrightarrow> c_step e a = fips_block e a"
proof -
  assume a: "length a = 64"
  have "c_schedule a ! t = fips_W a t" if "t < 80" for t
    using c_schedule_fips [OF a, of 64] that by (simp add: c_schedule_def)
  then have "foldl (c_round (c_schedule a)) e [0..<80] = foldl (fips_round (fips_W a)) e [0..<80]"
    by (intro foldl_cong) (simp_all add: c_round_fips)
  then show ?thesis by (simp add: c_step_def fips_block_def)
qed

lemma be64_fips: "be64 d = to_big_endian 8 d"
proof -
  have "drop_bit (8 * k) d = d div 256 ^ k" for k
    by (simp add: drop_bit_eq_div power_mult)
  then show ?thesis by (simp add: be64_def to_big_endian_def)
qed

lemma drop_byte: "ucast (drop_bit n w) = (word_of_int (uint w div 2 ^ n) :: 8 word)" for w :: "32 word"
proof -
  have "take_bit 32 (uint w) = uint w" using uint_lt2p [of w] by (intro take_bit_int_eq_self) simp_all
  then show ?thesis by (simp only: ucast_eq unsigned_drop_bit_eq) (simp add: drop_bit_eq_div)
qed

lemma chain_bytes_fips: "chain_bytes w = to_big_endian 4 (uint w)"
proof -
  have four: "[0..<4] = [0, 1, 2, 3 :: nat]" by (simp add: upt_rec)
  have pow: "(2::int) ^ 24 = 256 ^ (4 - 1 - 0)" "(2::int) ^ 16 = 256 ^ (4 - 1 - 1)"
    "(2::int) ^ 8 = 256 ^ (4 - 1 - 2)" "(2::int) ^ 0 = 256 ^ (4 - 1 - 3)" by simp_all
  show ?thesis
    unfolding chain_bytes_def to_big_endian_def four list.map drop_byte pow by (rule refl)
qed

lemma fips_blocks_append:
  "fips_blocks H (M @ N) = (case fips_blocks H M of (H', r) \<Rightarrow> fips_blocks H' (r @ N))"
proof (induction H M rule: fips_blocks.induct)
  case (1 H M)
  show ?case
  proof (cases "length M < 64")
    case True
    then show ?thesis by (simp add: fips_blocks.simps [of H M])
  next
    case False
    then have "fips_blocks H (M @ N) = fips_blocks (fips_block H (take 64 M)) (drop 64 M @ N)"
      by (subst fips_blocks.simps) simp
    with 1 False show ?thesis by (simp add: fips_blocks.simps [of H M])
  qed
qed

lemma fips_blocks_full: "length M = 64 \<Longrightarrow> fips_blocks H M = (fips_block H M, [])"
  by (subst fips_blocks.simps, subst fips_blocks.simps) simp

lemma fips_blocks_short: "length M < 64 \<Longrightarrow> fips_blocks H M = (H, M)"
  by (subst fips_blocks.simps) simp

text \<open>The state after the message \<open>M\<close>.\<close>

definition sha_ok :: "sha \<Rightarrow> 8 word list \<Rightarrow> bool" where
  "sha_ok s M \<longleftrightarrow> fips_blocks fips_H0 M = (s_e s, take (s_g s) (s_f s)) \<and> s_k s = length M \<and>
     s_g s < 64 \<and> s_g s \<le> length (s_f s) \<and> length (s_f s) \<le> 64"

lemma sha_ok_reset: "sha_ok sha_reset []"
  by (simp add: sha_ok_def sha_reset_def sha_init_fips fips_blocks_short)

lemma sha_okD:
  assumes "sha_ok s M"
  shows "fips_blocks fips_H0 M = (s_e s, take (s_g s) (s_f s))" and "s_k s = length M"
    and "s_g s < 64" and "s_g s \<le> length (s_f s)" and "length (s_f s) \<le> 64"
  using assms unfolding sha_ok_def by blast+

lemma sha_okI:
  assumes "fips_blocks fips_H0 M = (s_e s, take (s_g s) (s_f s))" and "s_k s = length M"
    and "s_g s < 64" and "s_g s \<le> length (s_f s)" and "length (s_f s) \<le> 64"
  shows "sha_ok s M"
  using assms unfolding sha_ok_def by blast

lemma b_blocks_step:
  assumes "sha_ok s M" and "s_g s = 0" and "length a = 64"
  shows "sha_ok (s\<lparr>s_e := c_step (s_e s) a, s_k := s_k s + 64\<rparr>) (M @ a)"
proof (rule sha_okI)
  note ok = sha_okD [OF assms(1)]
  have "fips_blocks fips_H0 (M @ a) = fips_blocks (s_e s) a"
    by (subst fips_blocks_append) (simp add: ok(1) assms(2))
  then show "fips_blocks fips_H0 (M @ a) = (s_e (s\<lparr>s_e := c_step (s_e s) a, s_k := s_k s + 64\<rparr>),
      take (s_g (s\<lparr>s_e := c_step (s_e s) a, s_k := s_k s + 64\<rparr>)) (s_f (s\<lparr>s_e := c_step (s_e s) a, s_k := s_k s + 64\<rparr>)))"
    unfolding fips_blocks_full [OF assms(3)] c_step_fips [OF assms(3)] using assms(2) by simp
qed (use assms sha_okD [OF assms(1)] in simp_all)

lemma b_blocks_ok:
  "sha_ok s M \<Longrightarrow> s_g s = 0 \<Longrightarrow>
     \<exists>p. a = p @ fst (b_blocks a s) \<and> sha_ok (snd (b_blocks a s)) (M @ p) \<and> s_g (snd (b_blocks a s)) = 0"
proof (induction a s arbitrary: M rule: b_blocks.induct)
  case (1 a s)
  show ?case
  proof (cases "64 < length a")
    case False
    then have "b_blocks a s = (a, s)" by (subst b_blocks.simps) simp
    with "1.prems" show ?thesis by (intro exI [of _ "[]"]) simp
  next
    case True
    let ?s = "s\<lparr>s_e := c_step (s_e s) (take 64 a), s_k := s_k s + 64\<rparr>"
    have eq: "b_blocks a s = b_blocks (drop 64 a) ?s" using True by (subst b_blocks.simps) simp
    have "sha_ok ?s (M @ take 64 a)" using "1.prems" True by (intro b_blocks_step) simp_all
    moreover have "s_g ?s = 0" using "1.prems"(2) by simp
    ultimately obtain p where p: "drop 64 a = p @ fst (b_blocks (drop 64 a) ?s)"
      "sha_ok (snd (b_blocks (drop 64 a) ?s)) ((M @ take 64 a) @ p)" "s_g (snd (b_blocks (drop 64 a) ?s)) = 0"
      using "1.IH" [OF True] by blast
    have "a = (take 64 a @ p) @ fst (b_blocks a s)"
      unfolding eq append_assoc p(1) [symmetric] by (rule append_take_drop_id [symmetric])
    moreover have "sha_ok (snd (b_blocks a s)) (M @ take 64 a @ p)"
      using p(2) unfolding eq append_assoc .
    ultimately show ?thesis using p(3) unfolding eq [symmetric] by (intro exI [of _ "take 64 a @ p"] conjI)
  qed
qed

lemma take_put: "g \<le> length f \<Longrightarrow> take (Suc g) (put f g x) = take g f @ [x]"
  by (auto simp: put_def take_Suc_conv_app_nth)

lemma length_put: "g \<le> length f \<Longrightarrow> length (put f g x) = max (length f) (Suc g)"
  by (auto simp: put_def)

lemma sha_ok_byte:
  assumes "sha_ok s M"
  shows "if s_g s + 1 = 64
    then sha_ok (s\<lparr>s_f := put (s_f s) (s_g s) x, s_k := s_k s + 1, s_g := 0,
      s_e := c_step (s_e s) (put (s_f s) (s_g s) x)\<rparr>) (M @ [x])
    else sha_ok (s\<lparr>s_f := put (s_f s) (s_g s) x, s_g := s_g s + 1, s_k := s_k s + 1\<rparr>) (M @ [x])"
proof -
  let ?f = "put (s_f s) (s_g s) x"
  note ok = sha_okD [OF assms]
  have rest: "take (Suc (s_g s)) ?f = take (s_g s) (s_f s) @ [x]" using ok(4) by (rule take_put)
  have len: "length ?f = max (length (s_f s)) (Suc (s_g s))" using ok(4) by (rule length_put)
  have more: "fips_blocks fips_H0 (M @ [x]) = fips_blocks (s_e s) (take (Suc (s_g s)) ?f)"
    by (subst fips_blocks_append) (simp add: ok(1) rest)
  show ?thesis
  proof (cases "s_g s + 1 = 64")
    case False
    then have short: "length (take (Suc (s_g s)) ?f) < 64" using ok(3) by simp
    have "sha_ok (s\<lparr>s_f := ?f, s_g := s_g s + 1, s_k := s_k s + 1\<rparr>) (M @ [x])"
      unfolding sha_ok_def more fips_blocks_short [OF short] using False ok(2-5) len by simp
    with False show ?thesis by (simp only: if_False)
  next
    case True
    then have full: "length ?f = 64" "take (Suc (s_g s)) ?f = ?f" using ok(5) len by simp_all
    have "sha_ok (s\<lparr>s_f := ?f, s_k := s_k s + 1, s_g := 0, s_e := c_step (s_e s) ?f\<rparr>) (M @ [x])"
      unfolding sha_ok_def more full(2) fips_blocks_full [OF full(1)] c_step_fips [OF full(1)]
      using ok(2) full(1) by simp
    then show ?thesis using True by presburger
  qed
qed

lemma b_bytes_ok: "sha_ok s M \<Longrightarrow> sha_ok (b_bytes a s) (M @ a)"
proof (induction a s arbitrary: M rule: b_bytes.induct)
  case (1 s)
  then show ?case by simp
next
  case (2 x a s)
  let ?s = "s\<lparr>s_f := put (s_f s) (s_g s) x, s_g := s_g s + 1, s_k := s_k s + 1\<rparr>"
  show ?case
  proof (cases "s_g s + 1 = 64")
    case False
    with sha_ok_byte [OF "2.prems", of x] have "sha_ok ?s (M @ [x])" by simp
    with "2.IH"(2) [OF refl _ this] False show ?thesis by simp
  next
    case True
    let ?t = "?s\<lparr>s_g := 0, s_e := c_step (s_e ?s) (s_f ?s)\<rparr>"
    have "sha_ok ?t (M @ [x])" using sha_ok_byte [OF "2.prems", of x] True by simp
    from b_blocks_ok [OF this, of a] obtain p where
      p: "a = p @ fst (b_blocks a ?t)" "sha_ok (snd (b_blocks a ?t)) ((M @ [x]) @ p)" by auto
    have "sha_ok (b_bytes (fst (b_blocks a ?t)) (snd (b_blocks a ?t))) (((M @ [x]) @ p) @ fst (b_blocks a ?t))"
      using "2.IH"(1) [of ?s "fst (b_blocks a ?t)" "snd (b_blocks a ?t)", OF refl _ _ p(2)] True by simp
    moreover have "b_bytes (x # a) s = b_bytes (fst (b_blocks a ?t)) (snd (b_blocks a ?t))"
      using True by (simp add: split_beta Let_def)
    moreover have "((M @ [x]) @ p) @ fst (b_blocks a ?t) = M @ x # a"
      unfolding append_assoc p(1) [symmetric] by simp
    ultimately show ?thesis by simp
  qed
qed

lemma sha_update_ok: "sha_ok s M \<Longrightarrow> sha_ok (sha_update a s) (M @ a)"
proof (cases "s_g s = 0")
  case True
  assume ok: "sha_ok s M"
  from b_blocks_ok [OF ok True, of a] obtain p where
    p: "a = p @ fst (b_blocks a s)" "sha_ok (snd (b_blocks a s)) (M @ p)" by blast
  from b_bytes_ok [OF p(2), of "fst (b_blocks a s)"] p(1) True show ?thesis
    by (simp add: sha_update_def split_beta)
qed (simp add: sha_update_def b_bytes_ok)

lemma put_length_nth:
  assumes "length f = 64" and "i \<le> 8" and "0 \<le> d" and "d < 2 ^ 32"
  shows "length (put_length i d f) = 64 \<and> (\<forall>j < 64. put_length i d f ! j =
    (if 56 \<le> j \<and> j < 56 + i then word_of_int (drop_bit (8 * (55 + i - j)) d) else f ! j))"
  using assms
proof (induction i arbitrary: d f)
  case 0
  then show ?case by auto
next
  case (Suc i)
  let ?f = "put f (56 + i) (word_of_int d)"
  have f: "?f = f[56 + i := word_of_int d]" "length ?f = 64" using Suc.prems by (simp_all add: put_def)
  have d: "d mod 2 ^ 32 = d" using Suc.prems(3,4) by simp
  have "0 \<le> drop_bit 8 d" "drop_bit 8 d < 2 ^ 32"
    using Suc.prems(3,4) by (auto simp: drop_bit_eq_div)
  from Suc.IH [OF f(2) _ this] Suc.prems(2)
  have IH: "length (put_length i (drop_bit 8 d) ?f) = 64" "\<And>j. j < 64 \<Longrightarrow> put_length i (drop_bit 8 d) ?f ! j =
    (if 56 \<le> j \<and> j < 56 + i then word_of_int (drop_bit (8 * (55 + i - j)) (drop_bit 8 d)) else ?f ! j)"
    by simp_all
  have eq: "put_length (Suc i) d f = put_length i (drop_bit 8 d) ?f" by (simp only: put_length.simps d)
  have shift: "drop_bit (8 * (55 + i - j)) (drop_bit 8 d) = drop_bit (8 * (55 + Suc i - j)) d" if "j < 56 + i" for j
  proof -
    from that have "8 * (55 + i - j) + 8 = 8 * (55 + Suc i - j)" by linarith
    then show ?thesis by (simp add: drop_bit_drop_bit)
  qed
  show ?case
    unfolding eq using IH(1) IH(2) shift f(1) Suc.prems(1) by (auto simp: nth_list_update)
qed

lemma put_length_be64:
  assumes "length f \<le> 64" and "56 \<le> length f" and "0 \<le> d" and "d < 2 ^ 32"
  shows "put_length 8 d f = take 56 f @ be64 d"
proof -
  let ?g = "put f 63 (word_of_int d)"
  have g: "length ?g = 64" using assms(1) by (auto simp: put_def)
  have low: "?g ! j = f ! j" if "j < 56" for j
    using that assms(2) by (auto simp: put_def nth_append)
  have d: "d mod 2 ^ 32 = d" using assms(3,4) by simp
  have "0 \<le> drop_bit 8 d" "drop_bit 8 d < 2 ^ 32" using assms(3,4) by (auto simp: drop_bit_eq_div)
  from put_length_nth [OF g _ this, of 7]
  have nth: "length (put_length 7 (drop_bit 8 d) ?g) = 64" "\<And>j. j < 64 \<Longrightarrow> put_length 7 (drop_bit 8 d) ?g ! j =
    (if 56 \<le> j \<and> j < 63 then word_of_int (drop_bit (8 * (62 - j)) (drop_bit 8 d)) else ?g ! j)" by simp_all
  have eq: "put_length 8 d f = put_length 7 (drop_bit 8 d) ?g"
    using put_length.simps(2) [of 7 d f, unfolded d] by simp
  have last: "?g ! 63 = word_of_int d" using assms(1) by (auto simp: put_def nth_append)
  show ?thesis
    unfolding eq
  proof (rule nth_equalityI)
    show "length (put_length 7 (drop_bit 8 d) ?g) = length (take 56 f @ be64 d)"
      using nth(1) assms(2) by (simp add: be64_def)
  next
    fix j assume "j < length (put_length 7 (drop_bit 8 d) ?g)"
    then have j: "j < 64" using nth(1) by simp
    consider "j < 56" | "56 \<le> j" "j < 63" | "j = 63" using j by linarith
    then show "put_length 7 (drop_bit 8 d) ?g ! j = (take 56 f @ be64 d) ! j"
    proof cases
      case 1
      then show ?thesis using nth(2) [OF j] low assms(2) by (simp add: nth_append)
    next
      case 2
      then have "8 * (62 - j) + 8 = 8 * (7 - (j - 56))" by linarith
      moreover have "[0..<8] ! (j - 56) = j - 56" using 2 by (subst nth_upt) simp_all
      ultimately show ?thesis using nth(2) [OF j] 2 assms(2)
        by (simp add: nth_append be64_def drop_bit_drop_bit del: upt_rec_numeral)
    next
      case 3
      then show ?thesis using nth(2) [OF j] last assms(2) by (simp add: nth_append be64_def)
    qed
  qed
qed

lemma fips_blocks_rest: "length (snd (fips_blocks H M)) = length M mod 64"
proof (induction H M rule: fips_blocks.induct)
  case (1 H M)
  show ?case
  proof (cases "length M < 64")
    case True
    then show ?thesis by (subst fips_blocks.simps) simp
  next
    case False
    with 1 show ?thesis by (subst fips_blocks.simps) (simp add: mod_if [of "length M"])
  qed
qed

lemma sha_ok_g: "sha_ok s M \<Longrightarrow> s_g s = length M mod 64"
  using fips_blocks_rest [of fips_H0 M] by (simp add: sha_okD)

definition pad_count :: "nat \<Rightarrow> nat" where
  "pad_count n = (119 - n mod 64) mod 64"

lemma pad_count:
  "n < 64 \<Longrightarrow> pad_count n = (if n < 56 then 55 - n else 119 - n)" "pad_count (n mod 64) = pad_count n"
proof -
  assume n: "n < 64"
  show "pad_count n = (if n < 56 then 55 - n else 119 - n)"
  proof (cases "n < 56")
    case True
    then have "119 - n = (55 - n) + 64" by simp
    then have "(119 - n) mod 64 = (55 - n) mod 64" by (simp only: mod_add_self2)
    also have "\<dots> = 55 - n" by simp
    finally show ?thesis using True n by (simp only: pad_count_def mod_less if_True)
  qed (use n in \<open>simp add: pad_count_def\<close>)
qed (simp add: pad_count_def)

lemma pad_total: "(n + 1 + pad_count n) mod 64 = 56"
proof -
  define r where "r = n mod 64"
  have r: "r < 64" "pad_count n = pad_count r" by (simp_all add: r_def pad_count(2))
  have "(n + 1 + pad_count n) mod 64 = (r + 1 + pad_count r) mod 64"
    unfolding r(2) r_def add.assoc by (simp only: mod_add_left_eq)
  also have "\<dots> = 56" using pad_count(1) [OF r(1)] r(1) by (cases "r < 56") simp_all
  finally show ?thesis .
qed

lemma sha_digest_pad:
  assumes "sha_ok s M"
  shows "(if 56 > s_g s then sha_update (take (56 - s_g s) sha_pad) s
     else sha_update (take (64 - (s_g s - 56)) sha_pad) s) = sha_update (128 # replicate (pad_count (length M)) 0) s"
proof -
  have g: "s_g s < 64" "pad_count (length M) = pad_count (s_g s)"
    using sha_okD(3) [OF assms] sha_ok_g [OF assms] pad_count(2) [of "length M"] by simp_all
  show ?thesis
  proof (cases "s_g s < 56")
    case True
    then have "56 - s_g s = Suc (55 - s_g s)" "55 - s_g s \<le> 63" by simp_all
    then have "take (56 - s_g s) sha_pad = 128 # replicate (55 - s_g s) 0" by (simp add: sha_pad_def)
    then show ?thesis using True g pad_count(1) [OF g(1)] by simp
  next
    case False
    with g(1) have "64 - (s_g s - 56) = Suc (119 - s_g s)" "119 - s_g s \<le> 63" by simp_all
    then have "take (64 - (s_g s - 56)) sha_pad = 128 # replicate (119 - s_g s) 0" by (simp add: sha_pad_def)
    then show ?thesis using False g pad_count(1) [OF g(1)] by simp
  qed
qed

lemma sha_digest_ok:
  assumes "sha_ok s M" and "length M < 2 ^ 29"
  shows "sha_digest s = fips_sha1 M"
proof -
  let ?P = "M @ 128 # replicate (pad_count (length M)) 0"
  let ?d = "8 * int (length M)"
  define t where "t = sha_update (128 # replicate (pad_count (length M)) 0) s"
  have ok: "sha_ok t ?P" unfolding t_def by (rule sha_update_ok [OF assms(1)])
  have "length ?P = length M + 1 + pad_count (length M)" by simp
  with sha_ok_g [OF ok] pad_total [of "length M"] have t: "s_g t = 56" by (simp only:)
  have len: "56 \<le> length (s_f t)" "length (s_f t) \<le> 64" using sha_okD(4,5) [OF ok] t by simp_all
  have f: "put_length 8 ?d (s_f t) = take 56 (s_f t) @ be64 ?d"
    using len assms(2) by (intro put_length_be64) simp_all
  have full: "length (take 56 (s_f t) @ be64 ?d) = 64" using len by (simp add: be64_def)
  have "fips_pad M = ?P @ be64 ?d" by (simp add: fips_pad_def pad_count_def be64_fips)
  then have "fips_blocks fips_H0 (fips_pad M) = fips_blocks fips_H0 (?P @ be64 ?d)" by (simp only:)
  also have "\<dots> = fips_blocks (s_e t) (take 56 (s_f t) @ be64 ?d)"
    by (subst fips_blocks_append) (simp only: sha_okD(1) [OF ok] t prod.case)
  also have "\<dots> = (c_step (s_e t) (put_length 8 ?d (s_f t)), [])"
    unfolding f fips_blocks_full [OF full] c_step_fips [OF full] by (rule refl)
  finally have "fst (fips_blocks fips_H0 (fips_pad M)) = c_step (s_e t) (put_length 8 ?d (s_f t))"
    by (simp only: fst_conv)
  moreover have "s_k s = length M" using sha_okD(2) [OF assms(1)] .
  ultimately show ?thesis
    unfolding sha_digest_def fips_sha1_def Let_def sha_digest_pad [OF assms(1)] t_def [symmetric]
    by (simp add: chain_bytes_fips split: prod.split)
qed

text \<open>C7. A message of less than 2^29 bytes (the code keeps only 32 bits of the length in bits), fed
  to the incremental hash in any pieces, has the SHA-1 digest of FIPS 180: \<open>fips_sha1\<close>, whose
  initial value, constants, round functions, rotations, message schedule, padding and byte order
  are written from the standard and share no definition with the code's model.\<close>

theorem sha_pieces:
  assumes "length (concat ps) < 2 ^ 29"
  shows "sha_digest (foldl (\<lambda>s p. sha_update p s) sha_reset ps) = fips_sha1 (concat ps)"
proof -
  have "sha_ok (foldl (\<lambda>s p. sha_update p s) s ps) (M @ concat ps)" if "sha_ok s M" for s M
    using that
  proof (induction ps arbitrary: s M)
    case (Cons p ps)
    from Cons.IH [OF sha_update_ok [OF Cons.prems, of p]] show ?case by simp
  qed simp
  from this [OF sha_ok_reset] sha_digest_ok assms show ?thesis by simp
qed

theorem sha_pieces_witness:
  "sha_digest (foldl (\<lambda>s p. sha_update p s) sha_reset [[97], [98, 99]]) = fips_sha1 [97, 98, 99]"
  using sha_pieces [of "[[97], [98, 99]]"] by simp

end
