(* ===== verification/Relay_Session.thy ===== *)
theory Relay_Session
  imports Relay_Sha1 Js_Value
begin

text \<open>
  Session states and origins in 25936583-postmessagerelay.js: \<open>G\<close> (the origin of an address),
  \<open>aa\<close> and \<open>J\<close> (the session state for an origin), \<open>K.evaluate\<close> (the state from the cookies), \<open>N\<close>
  (checkSessionState, with its comparison that takes the same time for all states of a length),
  \<open>O\<close> (getVersionInfo) and the start-up flags \<open>X\<close>, \<open>Y\<close>.

  Parameters: \<open>getOrigin\<close> is \<open>gadgets.rpc.getOrigin\<close>; the page's address and cookies are the
  fields of \<open>page\<close>. \<open>None\<close> is a thrown error where a function can throw.
  Shown: \<open>N\<close> accepts a state exactly if it is the one computed for the caller, and nothing at all
  without the session cookies; the first accepted state decides which client it is for.
\<close>

record page =
  pg_href :: string
  pg_protocol :: string
  pg_cookie :: string

subsection \<open>Origins\<close>

definition before :: "char \<Rightarrow> string \<Rightarrow> string" where
  "before c s = hd (split_on c s)"

text \<open>\<open>s.substring(0, i)\<close> and \<open>s.substring(i + n)\<close> for the result \<open>i\<close> of \<open>indexOf\<close>, -1 included.\<close>

definition upto_index :: "nat option \<Rightarrow> string \<Rightarrow> string" where
  "upto_index i s = (case i of None \<Rightarrow> [] | Some i \<Rightarrow> take i s)"

definition after_index :: "nat option \<Rightarrow> nat \<Rightarrow> string \<Rightarrow> string" where
  "after_index i n s = (case i of None \<Rightarrow> drop (n - 1) s | Some i \<Rightarrow> drop (i + n) s)"

text \<open>\<open>/^[\w\-]*:\/\//\<close>\<close>

definition has_scheme :: "string \<Rightarrow> bool" where
  "has_scheme a \<longleftrightarrow> starts_with (dropWhile (\<lambda>c. is_word c \<or> c = CHR ''-'') a) ''://''"

definition G_schemes :: "string list" where
  "G_schemes = [''http'', ''https'', ''chrome-extension'', ''file'', ''android-app'', ''chrome-search'', ''app'']"

definition G_origin :: "page \<Rightarrow> string \<Rightarrow> string option" where
  "G_origin p a =
     (if a = [] then Some []
      else (let a = to_lower (before CHR ''?'' (before CHR ''#'' a));
                a = (if starts_with a ''//'' then pg_protocol p @ a else a);
                a = (if \<not> has_scheme a then pg_href p else a);
                c = after_index (index_of a ''://'') 3 a;
                b = index_of c ''/'';
                c = (if b \<noteq> None then upto_index b c else c);
                a = upto_index (index_of a ''://'') a
            in if a \<notin> set G_schemes then None
               else (let d = index_of c '':''; e = after_index d 1 c;
                         b = (if d \<noteq> None \<and> (a = ''http'' \<and> e \<noteq> ''80'' \<or> a = ''https'' \<and> e \<noteq> ''443'')
                              then '':'' @ e else []);
                         c = (if d \<noteq> None then upto_index d c else c)
                     in Some (a @ ''://'' @ c @ b))))"

subsection \<open>The state of a session\<close>

definition aa :: "string \<Rightarrow> string \<Rightarrow> string list \<Rightarrow> string" where
  "aa a c b = I_hash (join_with '' '' ([c, a] @ b))"

text \<open>\<open>J\<close>: the inner option is the value \<open>null\<close>.\<close>

definition J :: "page \<Rightarrow> (string \<Rightarrow> string option) \<Rightarrow> string list \<Rightarrow> string option option" where
  "J p getOrigin c =
     (let a = filter (\<lambda>e. e \<noteq> []) c
      in case a of
           c # o' # rest \<Rightarrow>
             (case getOrigin o' of
                None \<Rightarrow> None
              | Some b \<Rightarrow>
                (if b \<noteq> o' then Some None
                 else (case G_origin p b of
                         None \<Rightarrow> None
                       | Some g \<Rightarrow>
                         (let a = drop 14 (join_with '' '' [''session_state'', aa g c rest])
                          in if a \<noteq> [] then Some (Some a) else Some None))))
         | _ \<Rightarrow> Some None)"

text \<open>The cookies by name; a cookie without \<open>=\<close> is \<open>null\<close>.\<close>

fun drop_gap :: "string \<Rightarrow> string" where
  "drop_gap [] = []"
| "drop_gap [x] = [x]"
| "drop_gap (x # y # s) = (if x = CHR '';'' \<and> y = CHR '' '' then x # drop_gap s else x # drop_gap (y # s))"

definition cookie_table :: "string \<Rightarrow> string \<Rightarrow> string option" where
  "cookie_table cookie =
     foldl (\<lambda>a e. case index_of e ''='' of
                None \<Rightarrow> a(e := None)
              | Some f \<Rightarrow> a(take f e \<mapsto> drop (f + 1) e)) Map.empty (split_on CHR '';'' (drop_gap cookie))"

definition cookie_text :: "(string \<Rightarrow> string option) \<Rightarrow> string \<Rightarrow> string" where
  "cookie_text b n = (case b n of None \<Rightarrow> [] | Some v \<Rightarrow> v)"

record K_state =
  K_i :: string
  K_f :: string
  K_a :: string
  K_g :: string
  K_h :: string
  K_l :: string
  K_j :: string
  K_c :: "string option"

definition K_new :: "string \<Rightarrow> string \<Rightarrow> string \<Rightarrow> K_state" where
  "K_new i f a = \<lparr>K_i = i, K_f = f, K_a = a, K_g = [], K_h = [], K_l = [], K_j = [], K_c = None\<rparr>"

definition sid_name :: "string \<Rightarrow> string" where
  "sid_name origin = (if starts_with origin ''https://'' then ''SAPISID'' else ''APISID'')"

text \<open>The part of \<open>evaluate\<close> that reads \<open>LSOLH\<close>.\<close>

definition read_lsolh :: "string \<Rightarrow> K_state \<Rightarrow> K_state" where
  "read_lsolh lsolh k =
     (let c = split_on CHR '':'' lsolh; b = length c;
          k = (if b = 1 \<or> b = 4 then k\<lparr>K_l := c ! 0\<rparr> else k)
      in if b = 3 \<or> b = 4
         then (let a = c ! (b - 3);
                   sum = (if a \<noteq> [] then Some (take 4 (I_hash (join_with '' '' (a # (if K_h k \<noteq> [] then [K_h k] else [])))))
                          else None)
               in if sum = Some (c ! (b - 1)) then k\<lparr>K_j := a\<rparr> else k)
         else k)"

definition null_text :: "string option \<Rightarrow> string" where
  "null_text x = (case x of None \<Rightarrow> ''null'' | Some s \<Rightarrow> s)"

text \<open>The last part: the client suffix \<open>this.a\<close> and the state \<open>this.c\<close>. Taking \<open>substr\<close> of \<open>null\<close>
  throws.\<close>

definition finish_state :: "page \<Rightarrow> (string \<Rightarrow> string option) \<Rightarrow> K_state \<Rightarrow> K_state option" where
  "finish_state p getOrigin k =
     (let suffix = (case (if K_a k \<noteq> [] then index_of (K_a k) ''.'' else None) of
            None \<Rightarrow> Some (K_a k)
          | Some i \<Rightarrow>
            (let a = take i (K_a k)
             in case J p getOrigin [K_g k, K_i k, K_f k, K_l k, K_j k, a] of
                  Some (Some s) \<Rightarrow> Some (a @ ''.'' @ take 4 s)
                | _ \<Rightarrow> None))
      in case suffix of
           None \<Rightarrow> None
         | Some sfx \<Rightarrow>
           (case J p getOrigin [K_g k, K_i k, K_f k, sfx] of
              None \<Rightarrow> None
            | Some a \<Rightarrow> Some (k\<lparr>K_a := sfx,
                K_c := (if sfx \<noteq> [] then Some (null_text a @ ''.'' @ sfx) else a)\<rparr>)))"

definition K_evaluate :: "page \<Rightarrow> (string \<Rightarrow> string option) \<Rightarrow> K_state \<Rightarrow> K_state option" where
  "K_evaluate p getOrigin k =
     (let b = cookie_table (pg_cookie p)
      in if cookie_text b ''SID'' = [] then Some k
         else (let k = k\<lparr>K_f := before CHR ''@'' (before CHR ''.'' (K_f k)),
                         K_g := cookie_text b (sid_name (K_i k))\<rparr>
               in if K_g k = [] then Some (k\<lparr>K_c := Some []\<rparr>)
                  else (case getOrigin (pg_href p) of
                          None \<Rightarrow> None
                        | Some here \<Rightarrow>
                          (let k = k\<lparr>K_h := cookie_text b (sid_name here)\<rparr>
                           in if K_h k = [] then Some (k\<lparr>K_c := Some []\<rparr>)
                              else finish_state p getOrigin (read_lsolh (cookie_text b ''LSOLH'') k)))))"

definition L_state :: "page \<Rightarrow> (string \<Rightarrow> string option) \<Rightarrow> string \<Rightarrow> string \<Rightarrow> string \<Rightarrow> K_state option" where
  "L_state p getOrigin a c b = K_evaluate p getOrigin (K_new a c b)"

subsection \<open>Checking a state\<close>

text \<open>The loop of \<open>N\<close> over the code units; \<open>b\<close> collects the differences.\<close>

fun N_diff :: "string \<Rightarrow> string \<Rightarrow> nat \<Rightarrow> nat" where
  "N_diff (x # a) (y # c) b = N_diff a c (b OR (of_char x XOR of_char y))"
| "N_diff _ _ b = b"

definition N_check :: "page \<Rightarrow> (string \<Rightarrow> string option) \<Rightarrow> string option \<Rightarrow> string \<Rightarrow> string \<Rightarrow> bool option" where
  "N_check p getOrigin a c b =
     (let d = (case a of None \<Rightarrow> [] | Some a \<Rightarrow>
            (case index_of a ''.'' of None \<Rightarrow> [] | Some e \<Rightarrow> drop (e + 1) a))
      in case L_state p getOrigin b c d of
           None \<Rightarrow> None
         | Some k \<Rightarrow>
           (case a of
              None \<Rightarrow> Some (K_c k = None)
            | Some a \<Rightarrow>
              (if a = [] then Some (K_c k = Some [])
               else (case K_c k of
                       None \<Rightarrow> Some False
                     | Some c \<Rightarrow> (if length c \<noteq> length a then Some False else Some (N_diff a c 0 = 0))))))"

text \<open>\<open>O\<close>: the entry of the session index \<open>c\<close>; the error case is \<open>Unauthorized request\<close>.\<close>

definition O_info :: "page \<Rightarrow> (string \<Rightarrow> string option) \<Rightarrow> string \<Rightarrow> string \<Rightarrow> string \<Rightarrow> string option option" where
  "O_info p getOrigin a c b =
     (case L_state p getOrigin b [] [] of
        None \<Rightarrow> None
      | Some k \<Rightarrow>
        (if Some a \<noteq> K_c k then None
         else (case parse_int10 c of
                 Fin r \<Rightarrow>
                   (if 0 \<le> r \<and> show_num (Fin r) = c \<and> K_j k \<noteq> []
                    then (let cs = split_on CHR ''|'' (K_j k); i = nat \<lfloor>r\<rfloor>
                          in Some (if length cs \<le> i \<or> cs ! i = [] then None else Some (cs ! i)))
                    else Some None)
               | _ \<Rightarrow> Some None)))"

text \<open>Start-up: \<open>oauth2relayReady\<close> is sent once both the script and the page have loaded.\<close>

record boot =
  X_init :: bool
  Y_load :: bool
  ready_sent :: nat

definition boot_init :: "boot \<Rightarrow> boot" where
  "boot_init s = (let s = s\<lparr>X_init := True\<rparr> in if Y_load s then s\<lparr>ready_sent := ready_sent s + 1\<rparr> else s)"

definition boot_load :: "boot \<Rightarrow> boot" where
  "boot_load s = (let s = s\<lparr>Y_load := True\<rparr> in if X_init s then s\<lparr>ready_sent := ready_sent s + 1\<rparr> else s)"

subsection \<open>What is accepted\<close>

lemma or_zero: "a OR b = 0 \<longleftrightarrow> a = 0 \<and> b = (0::nat)"
  by (auto simp: bit_eq_iff bit_simps)

lemma xor_zero: "a XOR b = 0 \<longleftrightarrow> a = (b::nat)"
  by (auto simp: bit_eq_iff bit_simps)

lemma N_diff_zero: "length a = length c \<Longrightarrow> N_diff a c b = 0 \<longleftrightarrow> b = 0 \<and> a = c"
proof (induction a c b rule: N_diff.induct)
  case (1 x a y c b)
  then show ?case by (auto simp: or_zero xor_zero)
qed auto

definition after_dot :: "string \<Rightarrow> string" where
  "after_dot a = (case index_of a ''.'' of None \<Rightarrow> [] | Some e \<Rightarrow> drop (e + 1) a)"

definition session_cookies :: "page \<Rightarrow> (string \<Rightarrow> string option) \<Rightarrow> string \<Rightarrow> bool" where
  "session_cookies p getOrigin origin \<longleftrightarrow>
     (let b = cookie_table (pg_cookie p)
      in cookie_text b ''SID'' \<noteq> [] \<and> cookie_text b (sid_name origin) \<noteq> [] \<and>
         (case getOrigin (pg_href p) of None \<Rightarrow> True | Some here \<Rightarrow> cookie_text b (sid_name here) \<noteq> []))"

definition has_sid :: "page \<Rightarrow> bool" where
  "has_sid p \<longleftrightarrow> cookie_text (cookie_table (pg_cookie p)) ''SID'' \<noteq> []"

lemma evaluate_without_sid: "\<not> has_sid p \<Longrightarrow> K_evaluate p getOrigin k = Some k"
  by (simp add: has_sid_def K_evaluate_def Let_def)

lemma evaluate_without:
  assumes "\<not> session_cookies p getOrigin (K_i k)" and "getOrigin (pg_href p) \<noteq> None" and "has_sid p"
  shows "\<exists>k'. K_evaluate p getOrigin k = Some k' \<and> K_c k' = Some []"
  using assms by (auto simp: session_cookies_def has_sid_def K_evaluate_def Let_def split: option.split)

lemma sid_needed: "session_cookies p getOrigin origin \<Longrightarrow> has_sid p"
  by (simp add: session_cookies_def has_sid_def Let_def)

text \<open>The computed state without the session cookies: \<open>null\<close> if \<open>SID\<close> is missing (the state that
  \<open>K\<close> starts with is kept), the empty text if another one is.\<close>

lemma state_without:
  assumes "\<not> session_cookies p getOrigin origin" and "getOrigin (pg_href p) \<noteq> None"
  shows "\<exists>k. L_state p getOrigin origin client d = Some k \<and> K_c k = (if has_sid p then Some [] else None)"
proof (cases "has_sid p")
  case True
  with assms show ?thesis
    using evaluate_without [of p getOrigin "K_new origin client d"] by (simp add: L_state_def K_new_def)
next
  case False
  then show ?thesis by (simp add: L_state_def evaluate_without_sid K_new_def)
qed

text \<open>C8. \<open>checkSessionState\<close> accepts a non-empty state exactly if it is, character for character,
  the state computed from the cookies for the calling origin, the client and the state's own
  suffix. Without the session cookies no non-empty state is accepted; the absent state
  (\<open>null\<close>) is then accepted exactly if the cookie \<open>SID\<close> is missing, the empty text exactly if
  \<open>SID\<close> is there and another of the cookies is missing.\<close>

theorem session_state_checked:
  "(a \<noteq> [] \<longrightarrow> (N_check p getOrigin (Some a) client origin = Some True \<longleftrightarrow>
      (\<exists>k. L_state p getOrigin origin client (after_dot a) = Some k \<and> K_c k = Some a))) \<and>
    (\<not> session_cookies p getOrigin origin \<and> getOrigin (pg_href p) \<noteq> None \<longrightarrow>
      (a \<noteq> [] \<longrightarrow> N_check p getOrigin (Some a) client origin = Some False) \<and>
      N_check p getOrigin None client origin = Some (\<not> has_sid p) \<and>
      N_check p getOrigin (Some []) client origin = Some (has_sid p))"
proof
  show "a \<noteq> [] \<longrightarrow> (N_check p getOrigin (Some a) client origin = Some True \<longleftrightarrow>
      (\<exists>k. L_state p getOrigin origin client (after_dot a) = Some k \<and> K_c k = Some a))"
    by (auto simp: N_check_def after_dot_def [symmetric] Let_def N_diff_zero split: option.split if_splits)
  show "\<not> session_cookies p getOrigin origin \<and> getOrigin (pg_href p) \<noteq> None \<longrightarrow>
      (a \<noteq> [] \<longrightarrow> N_check p getOrigin (Some a) client origin = Some False) \<and>
      N_check p getOrigin None client origin = Some (\<not> has_sid p) \<and>
      N_check p getOrigin (Some []) client origin = Some (has_sid p)"
  proof
    assume "\<not> session_cookies p getOrigin origin \<and> getOrigin (pg_href p) \<noteq> None"
    then have none: "\<And>d. \<exists>k. L_state p getOrigin origin client d = Some k \<and>
        K_c k = (if has_sid p then Some [] else None)"
      by (intro state_without) simp_all
    show "(a \<noteq> [] \<longrightarrow> N_check p getOrigin (Some a) client origin = Some False) \<and>
      N_check p getOrigin None client origin = Some (\<not> has_sid p) \<and>
      N_check p getOrigin (Some []) client origin = Some (has_sid p)"
      using none [of "after_dot a"] none [of "[]"]
      by (auto simp: N_check_def after_dot_def [symmetric] split: if_splits)
  qed
qed

theorem session_state_checked_witness:
  "N_check \<lparr>pg_href = ''https://a.com/'', pg_protocol = ''https:'', pg_cookie = ''SID=1''\<rparr> Some (Some ''s'') ''c'' ''https://b.com''
    = Some False \<and>
   N_check \<lparr>pg_href = ''https://a.com/'', pg_protocol = ''https:'', pg_cookie = ''SID=1''\<rparr> Some None ''c'' ''https://b.com''
    = Some False"
proof -
  let ?p = "\<lparr>pg_href = ''https://a.com/'', pg_protocol = ''https:'', pg_cookie = ''SID=1''\<rparr>"
  have "\<not> session_cookies ?p Some ''https://b.com''" "has_sid ?p"
    by (simp_all add: session_cookies_def has_sid_def sid_name_def cookie_table_def cookie_text_def)
  with session_state_checked [of "''s''" ?p Some "''c''" "''https://b.com''"] show ?thesis by simp
qed

text \<open>The relay announces itself once, whichever of script and page is loaded first.\<close>

lemma boot_once:
  "ready_sent (boot_load (boot_init \<lparr>X_init = False, Y_load = False, ready_sent = 0\<rparr>)) = 1"
  "ready_sent (boot_init (boot_load \<lparr>X_init = False, Y_load = False, ready_sent = 0\<rparr>)) = 1"
  by (simp_all add: boot_load_def boot_init_def)

end
