(* ===== verification/Js_Regex.thy ===== *)
theory Js_Regex
  imports Js_Prelude
begin

text \<open>
  The uses of regular expressions that several scripts share: global replacement of a fixed text,
  the number of its matches, and prefixes and suffixes of strings.
\<close>

text \<open>\<open>s.replace(/p/g, r)\<close> for a non-empty fixed text, and the number of matches of \<open>/p/g\<close>.\<close>

function replace_all :: "string \<Rightarrow> string \<Rightarrow> string \<Rightarrow> string" where
  "replace_all p r [] = []"
| "replace_all p r (c # s) =
     (if p \<noteq> [] \<and> starts_with (c # s) p then r @ replace_all p r (drop (length p) (c # s))
      else c # replace_all p r s)"
  by pat_completeness auto
termination
  by (relation "measure (\<lambda>(p, r, s). length s)") auto

function count_matches :: "string \<Rightarrow> string \<Rightarrow> nat" where
  "count_matches p [] = 0"
| "count_matches p (c # s) =
     (if p \<noteq> [] \<and> starts_with (c # s) p then Suc (count_matches p (drop (length p) (c # s)))
      else count_matches p s)"
  by pat_completeness auto
termination
  by (relation "measure (\<lambda>(p, s). length s)") auto

definition ends_with :: "string \<Rightarrow> string \<Rightarrow> bool" where
  "ends_with s p \<longleftrightarrow> length p \<le> length s \<and> drop (length s - length p) s = p"

lemma replace_all_other: "p \<noteq> [] \<Longrightarrow> c \<noteq> hd p \<Longrightarrow> replace_all p r (c # s) = c # replace_all p r s"
  by (cases p) (auto simp: starts_with_def)

lemma replace_all_id: "p \<noteq> [] \<Longrightarrow> hd p \<notin> set s \<Longrightarrow> replace_all p r s = s"
  by (induction s) (auto simp: replace_all_other simp del: replace_all.simps(2))

lemma replace_all_char: "replace_all [c] r s = concat (map (\<lambda>x. if x = c then r else [x]) s)"
  by (induction s) (auto simp: starts_with_def)

lemma count_skip: "p \<noteq> [] \<Longrightarrow> hd p \<notin> set x \<Longrightarrow> count_matches p (x @ s) = count_matches p s"
proof (induction x)
  case (Cons a x)
  then show ?case by (cases p) (auto simp: starts_with_def)
qed simp

end
