(* ===== verification/Gapi_Url.thy ===== *)
theory Gapi_Url
  imports Js_Uri Js_Regex
begin

text \<open>
  The addresses of the gapi loader (\<open>client.js\<close>, lines 3 to 6): the class tests, the parsing of a
  hint path (\<open>ma\<close>), the module list (\<open>P_mods\<close>), the address (\<open>na_url\<close>) and the sanity checks (\<open>la\<close>).
  A thrown error is \<open>Inl\<close> with its message. \<open>decodeURIComponent\<close> of a parameter counts as a thrown
  \<open>URIError\<close> also when the text would have a code point above 255.

  Shown: an address built from a hint always passes the three sanity checks of \<open>la\<close>.
\<close>

type_synonym 'a thrown = "string + 'a"

definition N_err :: "string \<Rightarrow> 'a thrown" where
  "N_err a = Inl (''Bad hint'' @ (if a \<noteq> [] then '': '' @ a else []))"

subsection \<open>Patterns\<close>

text \<open>The character classes of \<open>ea\<close>, \<open>ha\<close> and \<open>da\<close>.\<close>

definition ea_test :: "string \<Rightarrow> bool" where
  "ea_test s \<longleftrightarrow> s \<noteq> [] \<and> list_all (\<lambda>c. is_alnum c \<or> c \<in> set ''-_.,!'') s"

definition ha_test :: "string \<Rightarrow> bool" where
  "ha_test s \<longleftrightarrow> s \<noteq> [] \<and> list_all (\<lambda>c. is_alnum c \<or> c \<in> set '',._-'') s"

definition fa_test :: "string \<Rightarrow> bool" where
  "fa_test s \<longleftrightarrow> starts_with s ''gapi.loaded_'' \<and> drop 12 s \<noteq> [] \<and> list_all is_digit (drop 12 s)"

definition da_class :: "char \<Rightarrow> bool" where
  "da_class c \<longleftrightarrow> is_alnum c \<or> c = CHR ''_'' \<or> c = CHR ''-''"

definition da_test :: "string \<Rightarrow> bool" where
  "da_test s = (case s of
       [] \<Rightarrow> False
     | c # r \<Rightarrow> c = CHR ''/'' \<and> list_all (\<lambda>p. p \<noteq> [] \<and> list_all da_class p) (split_on CHR ''/'' r))"

definition O_test :: "string \<Rightarrow> bool" where
  "O_test b \<longleftrightarrow> contains b ''/amp/'' \<or> ends_with b ''/amp'' \<or> b = ''/amp''"

text \<open>\<open>ka\<close>: scheme, a Google host, an optional port, a path in the class.\<close>

definition ka_host :: "string \<Rightarrow> bool" where
  "ka_host h \<longleftrightarrow>
     (\<exists>z \<in> set [''.google.com'', ''.googlers.com''].
        ends_with h z \<and> (let x = take (length h - length z) h
          in x \<noteq> [] \<and> list_all (\<lambda>c. is_lower c \<or> is_digit c \<or> c \<in> set ''_.-'') x))"

definition ka_path_class :: "char \<Rightarrow> bool" where
  "ka_path_class c \<longleftrightarrow> is_alnum c \<or> c \<in> set ''_.,!=-/''"

definition ka_test :: "string \<Rightarrow> bool" where
  "ka_test s =
     (case (if starts_with s ''https://'' then Some (drop 8 s)
            else if starts_with s ''http://'' then Some (drop 7 s) else None) of
        None \<Rightarrow> False
      | Some t \<Rightarrow>
        (let h = takeWhile (\<lambda>c. c \<noteq> CHR ''/'') t; p = dropWhile (\<lambda>c. c \<noteq> CHR ''/'') t;
             host = takeWhile (\<lambda>c. c \<noteq> CHR '':'') h; port = dropWhile (\<lambda>c. c \<noteq> CHR '':'') h
         in ka_host host \<and> (port \<noteq> [] \<longrightarrow> tl port \<noteq> [] \<and> list_all is_digit (tl port)) \<and>
            p \<noteq> [] \<and> tl p \<noteq> [] \<and> list_all ka_path_class (tl p)))"

subsection \<open>Parsing a hint path\<close>

text \<open>The directories up to the first piece with a \<open>=\<close> after its first character.\<close>

fun ma_dirs :: "string list \<Rightarrow> (string list \<times> string list) thrown" where
  "ma_dirs [] = Inr ([], [])"
| "ma_dirs (a # b) =
     (if a = [] \<or> hd a = CHR ''.'' then N_err ''empty/relative directory''
      else if (case index_of a ''='' of Some i \<Rightarrow> 0 < i | None \<Rightarrow> False) then Inr ([], a # b)
      else (case ma_dirs b of Inl e \<Rightarrow> Inl e | Inr (c, rest) \<Rightarrow> Inr (a # c, rest)))"

text \<open>The parameters: the first non-empty value of a name counts.\<close>

definition ma_param :: "(string \<Rightarrow> string option) \<Rightarrow> string \<Rightarrow> (string \<Rightarrow> string option) thrown" where
  "ma_param a x =
     (let f = split_on CHR ''='' x
      in case (decode_component (f ! 0), decode_component (if 1 < length f then f ! 1 else ''undefined'')) of
           (Some l, Some k) \<Rightarrow>
             Inr (if length f = 2 \<and> l \<noteq> [] \<and> k \<noteq> [] \<and> a l = None then a(l \<mapsto> k) else a)
         | _ \<Rightarrow> Inl ''URIError'')"

fun ma_params :: "(string \<Rightarrow> string option) \<Rightarrow> string list \<Rightarrow> (string \<Rightarrow> string option) thrown" where
  "ma_params a [] = Inr a"
| "ma_params a (x # xs) = (case ma_param a x of Inl e \<Rightarrow> Inl e | Inr a' \<Rightarrow> ma_params a' xs)"

definition Q_param :: "(string \<Rightarrow> string option) \<Rightarrow> string \<Rightarrow> bool \<Rightarrow> string option thrown" where
  "Q_param a b c =
     (case a b of
        None \<Rightarrow> (if c then N_err (''missing: '' @ b) else Inr None)
      | Some v \<Rightarrow> (if ea_test v then Inr (Some v) else N_err (''invalid: '' @ b)))"

record hint =
  pathPrefix :: string
  version :: "string option"
  h_am :: "string option"
  h_rs :: "string option"
  h_t :: "string option"

definition ma :: "string \<Rightarrow> hint thrown" where
  "ma a =
     (if a = [] \<or> hd a \<noteq> CHR ''/'' then N_err ''relative path''
      else case ma_dirs (split_on CHR ''/'' (tl a)) of
        Inl e \<Rightarrow> Inl e
      | Inr (c, rest) \<Rightarrow>
        (case ma_params Map.empty rest of
           Inl e \<Rightarrow> Inl e
         | Inr ps \<Rightarrow>
           (let b = ''/'' @ join_with ''/'' c
            in if \<not> da_test b then N_err ''invalid_prefix''
               else if O_test b then N_err ''invalid_prefix''
               else case (Q_param ps ''k'' True, Q_param ps ''am'' False, Q_param ps ''rs'' False, Q_param ps ''t'' False) of
                   (Inr k, Inr am, Inr rs, Inr t) \<Rightarrow>
                     Inr \<lparr>pathPrefix = b, version = k, h_am = am, h_rs = rs, h_t = t\<rparr>
                 | (Inl e, _) \<Rightarrow> Inl e
                 | (_, Inl e, _) \<Rightarrow> Inl e
                 | (_, _, Inl e, _) \<Rightarrow> Inl e
                 | (_, _, _, Inl e) \<Rightarrow> Inl e)))"

subsection \<open>The address\<close>

definition P_mods :: "string list \<Rightarrow> string" where
  "P_mods a = join_with '','' (filter ha_test (map (\<lambda>c. replace_all ''-'' ''_'' (replace_all ''.'' ''_'' c)) a))"

definition na_e :: "string \<Rightarrow> string" where
  "na_e a = replace_all ''%2C'' '','' (encode_component a)"

definition opt_param :: "string \<Rightarrow> string option \<Rightarrow> string" where
  "opt_param key v = (case v of None \<Rightarrow> [] | Some v \<Rightarrow> if v \<noteq> [] then key @ na_e v else [])"

definition na_url :: "string \<Rightarrow> string list \<Rightarrow> string \<Rightarrow> string list \<Rightarrow> string thrown" where
  "na_url a b c d =
     (case ma a of
        Inl e \<Rightarrow> Inl e
      | Inr a \<Rightarrow>
        (if \<not> fa_test c then N_err ''invalid_callback''
         else Inr (replace_all ''%2F'' ''/'' (replace_all ''%2C'' '','' (encode_component (pathPrefix a))) @
           ''/k='' @ na_e (case version a of None \<Rightarrow> ''null'' | Some v \<Rightarrow> v) @
           ''/m='' @ na_e (P_mods b) @
           opt_param ''/exm='' (if d \<noteq> [] then Some (P_mods d) else None) @
           ''/rt=j/sv=1/d=1/ed=1'' @
           opt_param ''/am='' (h_am a) @ opt_param ''/rs='' (h_rs a) @ opt_param ''/t='' (h_t a) @
           ''/cb='' @ na_e c)))"

definition L_m :: "string list \<Rightarrow> string list \<Rightarrow> string \<Rightarrow> string list \<Rightarrow> string thrown" where
  "L_m a b c d =
     (if a = [] \<or> hd a = [] then N_err ''missing_hint''
      else case na_url (hd a) b c d of Inl e \<Rightarrow> Inl e | Inr u \<Rightarrow> Inr (''https://apis.google.com'' @ u))"

definition sane :: "string \<Rightarrow> bool" where
  "sane b \<longleftrightarrow> count_matches ''/cb='' b = 1 \<and> ka_test b \<and> count_matches ''//'' b = 1"

definition la :: "string \<Rightarrow> string list \<Rightarrow> string \<Rightarrow> string list \<Rightarrow> string thrown" where
  "la a b c d =
     (let e = split_on CHR '';'' a; f = hd e; e = tl e
      in if f \<noteq> ''m'' then N_err (''no hint processor for: '' @ f)
         else case L_m e b c d of
             Inl m \<Rightarrow> Inl m
           | Inr k \<Rightarrow> (if k = [] then N_err ''failed to generate load url''
               else if \<not> sane k then N_err (''failed sanity: '' @ a) else Inr k))"

subsection \<open>Sanity of the built addresses\<close>

text \<open>The encoder leaves the characters of the hint classes alone.\<close>

lemma encode_component_Cons: "encode_component (c # s) = encode_char uri_unreserved c @ encode_component s"
  by (simp add: encode_component_def)

lemma encode_comma: "encode_char uri_unreserved CHR '','' = ''%2C''"
  by code_simp

lemma encode_slash: "encode_char uri_unreserved CHR ''/'' = ''%2F''"
  by code_simp

lemma encode_plain: "uri_unreserved c \<Longrightarrow> encode_char uri_unreserved c = [c]"
  by (simp add: encode_char_def)

lemma unreserved_percent: "uri_unreserved c \<Longrightarrow> c \<noteq> CHR ''%''"
  using percent_escaped by blast

lemma na_e_id: "list_all (\<lambda>c. uri_unreserved c \<or> c = CHR '','') s \<Longrightarrow> na_e s = s"
proof (induction s)
  case Nil
  then show ?case by (simp add: na_e_def encode_component_def)
next
  case (Cons c s)
  then have IH: "replace_all ''%2C'' '','' (encode_component s) = s" by (simp add: na_e_def)
  from Cons.prems consider "uri_unreserved c" | "c = CHR '',''" by auto
  then show ?case
  proof cases
    case 1
    with unreserved_percent [OF 1] IH show ?thesis
      by (simp add: na_e_def encode_component_Cons encode_plain replace_all_other del: replace_all.simps)
  next
    case 2
    with IH show ?thesis by (simp add: na_e_def encode_component_Cons encode_comma starts_with_def)
  qed
qed

lemma prefix_id:
  "list_all (\<lambda>c. uri_unreserved c \<or> c = CHR ''/'') s \<Longrightarrow>
     replace_all ''%2F'' ''/'' (replace_all ''%2C'' '','' (encode_component s)) = s"
proof (induction s)
  case Nil
  then show ?case by (simp add: encode_component_def)
next
  case (Cons c s)
  then have IH: "replace_all ''%2F'' ''/'' (replace_all ''%2C'' '','' (encode_component s)) = s" by simp
  from Cons.prems consider "uri_unreserved c" | "c = CHR ''/''" by auto
  then show ?case
  proof cases
    case 1
    with unreserved_percent [OF 1] IH show ?thesis
      by (simp add: encode_component_Cons encode_plain replace_all_other del: replace_all.simps)
  next
    case 2
    with IH show ?thesis by (simp add: encode_component_Cons encode_slash starts_with_def)
  qed
qed

text \<open>An address is a list of pieces, each after a slash; the counts of \<open>la\<close> in terms of the pieces.\<close>

definition pieces :: "string list \<Rightarrow> string" where
  "pieces segs = concat (map ((#) CHR ''/'') segs)"

lemma pieces_simps [simp]:
  "pieces [] = []" "pieces (x # xs) = CHR ''/'' # x @ pieces xs" "pieces (xs @ ys) = pieces xs @ pieces ys"
  by (simp_all add: pieces_def)

lemma pieces_split: "pieces (split_on CHR ''/'' s) = CHR ''/'' # s"
proof (induction s)
  case (Cons x s)
  then show ?case by (cases "split_on CHR ''/'' s") auto
qed simp

lemma pieces_hd: "pieces xs = [] \<or> hd (pieces xs) = CHR ''/''"
  by (cases xs) simp_all

lemma count_slashes:
  "\<forall>x \<in> set segs. x \<noteq> [] \<and> CHR ''/'' \<notin> set x \<Longrightarrow> count_matches ''//'' (pieces segs) = 0"
proof (induction segs)
  case (Cons x segs)
  then obtain a y where x: "x = a # y" "a \<noteq> CHR ''/''" by (cases x) auto
  with Cons count_skip [of "''//''" x "pieces segs"] show ?case
    by (simp add: starts_with_def)
qed simp

lemma starts_cb:
  assumes "s = [] \<or> hd s = CHR ''/''" and "CHR ''/'' \<notin> set x"
  shows "starts_with (CHR ''/'' # x @ s) ''/cb='' \<longleftrightarrow> starts_with x ''cb=''"
proof -
  have "x = [] \<or> (\<exists>a. x = [a]) \<or> (\<exists>a b. x = [a, b]) \<or> (\<exists>a b c y. x = a # b # c # y)"
    by (metis neq_Nil_conv)
  with assms show ?thesis by (cases s) (auto simp: starts_with_def)
qed

lemma count_cb:
  "\<forall>x \<in> set segs. CHR ''/'' \<notin> set x \<Longrightarrow>
     count_matches ''/cb='' (pieces segs) = length (filter (\<lambda>x. starts_with x ''cb='') segs)"
proof (induction segs)
  case (Cons x segs)
  let ?s = "pieces segs"
  have x: "CHR ''/'' \<notin> set x" using Cons.prems by simp
  have s: "starts_with (CHR ''/'' # x @ ?s) ''/cb='' \<longleftrightarrow> starts_with x ''cb=''"
    by (rule starts_cb [OF pieces_hd x])
  have "count_matches ''/cb='' (CHR ''/'' # x @ ?s) =
      (if starts_with x ''cb='' then Suc (count_matches ''/cb='' ?s) else count_matches ''/cb='' ?s)"
  proof (cases "starts_with x ''cb=''")
    case True
    then obtain y where "x = ''cb='' @ y"
      by (metis starts_with_def append_take_drop_id)
    with x s True count_skip [of "''/cb=''" y ?s] show ?thesis by simp
  next
    case False
    with s x count_skip [of "''/cb=''" x ?s] show ?thesis by simp
  qed
  with Cons show ?case by simp
qed simp

text \<open>The pieces of an address built by \<open>na\<close>: none empty, none with a slash, one callback.\<close>

definition piece_ok :: "string \<Rightarrow> bool" where
  "piece_ok x \<longleftrightarrow> x \<noteq> [] \<and> CHR ''/'' \<notin> set x \<and> list_all ka_path_class x"

definition hint_class :: "char \<Rightarrow> bool" where
  "hint_class c \<longleftrightarrow> is_alnum c \<or> c \<in> set ''-_.,!''"

lemma hint_class_path: "hint_class c \<Longrightarrow> ka_path_class c \<and> (uri_unreserved c \<or> c = CHR '','') \<and> c \<noteq> CHR ''/''"
proof -
  have no: "\<not> is_alnum CHR ''/''" by code_simp
  assume "hint_class c"
  with no show ?thesis by (auto simp: hint_class_def ka_path_class_def uri_unreserved_def)
qed

lemma hint_text: "list_all hint_class s \<Longrightarrow> na_e s = s \<and> CHR ''/'' \<notin> set s \<and> list_all ka_path_class s"
proof -
  assume s: "list_all hint_class s"
  then have "list_all (\<lambda>c. uri_unreserved c \<or> c = CHR '','') s"
    using hint_class_path by (simp add: list_all_iff)
  with s na_e_id hint_class_path show ?thesis by (auto simp: list_all_iff)
qed

lemma P_mods_class: "list_all hint_class (P_mods a)"
proof -
  have "list_all hint_class (join_with '','' xs)" if "\<forall>x \<in> set xs. ha_test x" for xs
    using that by (induction "'',''" xs rule: join_with.induct)
      (auto simp: ha_test_def hint_class_def list_all_iff)
  then show ?thesis by (simp add: P_mods_def)
qed

lemma digit_class: "is_digit c \<Longrightarrow> hint_class c"
  by (simp add: hint_class_def is_alnum_def)

lemma callback_class: "fa_test c \<Longrightarrow> list_all hint_class c"
proof -
  assume c: "fa_test c"
  then have "take 12 c = ''gapi.loaded_''" and d: "list_all is_digit (drop 12 c)"
    by (simp_all add: fa_test_def starts_with_def eval_nat_numeral)
  moreover have "list_all hint_class ''gapi.loaded_''" by code_simp
  ultimately have "list_all hint_class (take 12 c)" by simp
  moreover have "list_all hint_class (drop 12 c)"
    using d by (rule list.pred_mono_strong) (rule digit_class)
  ultimately have "list_all hint_class (take 12 c @ drop 12 c)" by (simp only: list_all_append simp_thms)
  then show ?thesis by (simp only: append_take_drop_id)
qed

definition opt_ok :: "string option \<Rightarrow> bool" where
  "opt_ok v \<longleftrightarrow> (\<forall>x. v = Some x \<longrightarrow> list_all hint_class x)"

lemma Q_param_ok: "Q_param a b c = Inr v \<Longrightarrow> opt_ok v \<and> (c \<longrightarrow> v \<noteq> None)"
  by (cases "a b"; cases v)
    (auto simp: Q_param_def N_err_def ea_test_def opt_ok_def hint_class_def list_all_iff split: if_splits)

lemma ma_ok:
  assumes "ma a = Inr h"
  shows "da_test (pathPrefix h)" "version h \<noteq> None"
    "opt_ok (version h)" "opt_ok (h_am h)" "opt_ok (h_rs h)" "opt_ok (h_t h)"
proof -
  obtain ps k am rs t b where "Q_param ps ''k'' True = Inr k" "Q_param ps ''am'' False = Inr am"
    "Q_param ps ''rs'' False = Inr rs" "Q_param ps ''t'' False = Inr t" "da_test b"
    "h = \<lparr>pathPrefix = b, version = k, h_am = am, h_rs = rs, h_t = t\<rparr>"
    using assms by (auto simp: ma_def N_err_def Let_def split: if_splits sum.splits prod.splits)
  then show "da_test (pathPrefix h)" "version h \<noteq> None"
    "opt_ok (version h)" "opt_ok (h_am h)" "opt_ok (h_rs h)" "opt_ok (h_t h)"
    using Q_param_ok by auto
qed

lemma opt_param_pieces:
  assumes "opt_ok v" and "piece_ok (key @ ''='')"
  shows "\<exists>xs. opt_param (CHR ''/'' # key @ ''='') v = pieces xs \<and>
    (\<forall>x \<in> set xs. piece_ok x \<and> starts_with x (key @ ''=''))"
proof (cases "v = None \<or> v = Some []")
  case True
  then have "opt_param (CHR ''/'' # key @ ''='') v = pieces []" by (auto simp: opt_param_def)
  then show ?thesis by (metis empty_iff list.set(1))
next
  case False
  then obtain x where x: "v = Some x" "x \<noteq> []" by auto
  with assms hint_text [of x] have "piece_ok (key @ ''='' @ x)"
    by (auto simp: piece_ok_def opt_ok_def)
  moreover have "starts_with (key @ ''='' @ x) (key @ ''='')"
    using starts_with_append [of "key @ ''=''" x] by simp
  moreover have "opt_param (CHR ''/'' # key @ ''='') v = pieces [key @ ''='' @ x]"
    using x assms hint_text [of x] by (simp add: opt_param_def opt_ok_def)
  ultimately show ?thesis by (metis empty_iff list.set(1) set_ConsD)
qed

lemma piece_okI: "list_all hint_class x \<Longrightarrow> x \<noteq> [] \<Longrightarrow> piece_ok x"
  using hint_text [of x] by (simp add: piece_ok_def)

lemma key_piece:
  "piece_ok key \<Longrightarrow> list_all hint_class v \<Longrightarrow> piece_ok (key @ v) \<and> na_e v = v"
  using hint_text [of v] by (auto simp: piece_ok_def)

lemma da_class_hint: "da_class c \<Longrightarrow> hint_class c"
  by (auto simp: da_class_def hint_class_def)

lemma prefix_pieces:
  assumes "da_test b"
  obtains xs where "b = pieces xs" "\<forall>x \<in> set xs. piece_ok x \<and> \<not> starts_with x ''cb=''" "xs \<noteq> []"
    "replace_all ''%2F'' ''/'' (replace_all ''%2C'' '','' (encode_component b)) = b"
proof -
  from assms obtain r where b: "b = CHR ''/'' # r"
    and xs: "\<forall>x \<in> set (split_on CHR ''/'' r). x \<noteq> [] \<and> list_all da_class x"
    by (auto simp: da_test_def list_all_iff split: list.splits)
  let ?xs = "split_on CHR ''/'' r"
  have b': "b = pieces ?xs" by (simp add: b pieces_split)
  have ok: "piece_ok x \<and> \<not> starts_with x ''cb=''" if "x \<in> set ?xs" for x
  proof
    from xs that have x: "x \<noteq> []" "list_all da_class x" by auto
    then show "piece_ok x"
      by (intro piece_okI) (auto intro: da_class_hint simp: list_all_iff)
    have "\<not> da_class CHR ''=''" by code_simp
    with x show "\<not> starts_with x ''cb=''"
      by (auto simp: starts_with_def list_all_iff dest!: arg_cong [of _ _ set] in_set_takeD)
  qed
  have "da_class c \<or> c = CHR ''/''" if "c \<in> set b" for c
    using that xs unfolding b' by (auto simp: pieces_def list_all_iff)
  then have "list_all (\<lambda>c. uri_unreserved c \<or> c = CHR ''/'') b"
    by (auto simp: list_all_iff da_class_def uri_unreserved_def)
  from that [OF b' _ _ prefix_id [OF this]] ok show thesis by simp
qed

lemma keys_ok: "\<forall>k \<in> set [''k='', ''m='', ''exm='', ''rt=j'', ''sv=1'', ''d=1'', ''ed=1'', ''am='', ''rs='', ''t='', ''cb=''].
    piece_ok k"
  by code_simp

lemma not_cb: "starts_with x k \<Longrightarrow> k \<noteq> [] \<Longrightarrow> hd k \<noteq> CHR ''c'' \<Longrightarrow> \<not> starts_with x ''cb=''"
  by (cases x; cases k) (auto simp: starts_with_def)

lemma opt_pieces:
  assumes "opt_ok v" and "piece_ok (key @ ''='')" and "key \<noteq> []" and "hd key \<noteq> CHR ''c''"
  obtains xs where "opt_param (CHR ''/'' # key @ ''='') v = pieces xs"
    and "\<forall>x \<in> set xs. piece_ok x \<and> \<not> starts_with x ''cb=''"
proof -
  from opt_param_pieces [OF assms(1,2)] obtain xs where xs: "opt_param (CHR ''/'' # key @ ''='') v = pieces xs"
    "\<forall>x \<in> set xs. piece_ok x \<and> starts_with x (key @ ''='')" by blast
  moreover have "\<not> starts_with x ''cb=''" if "starts_with x (key @ ''='')" for x
    using not_cb [OF that] assms(3,4) by simp
  ultimately show thesis using that by blast
qed

lemma na_pieces:
  assumes "na_url a b c d = Inr u"
  obtains segs where "u = pieces segs" "segs \<noteq> []" "\<forall>x \<in> set segs. piece_ok x"
    "length (filter (\<lambda>x. starts_with x ''cb='') segs) = 1"
proof -
  from assms obtain h where h: "ma a = Inr h" and c: "fa_test c"
    by (auto simp: na_url_def N_err_def split: sum.splits if_splits)
  note ok = ma_ok [OF h]
  from ok(2,3) obtain v where v: "version h = Some v" "list_all hint_class v"
    by (auto simp: opt_ok_def)
  from prefix_pieces [OF ok(1)] obtain xs where xs: "pathPrefix h = pieces xs" "xs \<noteq> []"
    "\<forall>x \<in> set xs. piece_ok x \<and> \<not> starts_with x ''cb=''"
    "replace_all ''%2F'' ''/'' (replace_all ''%2C'' '','' (encode_component (pathPrefix h))) = pathPrefix h"
    by metis
  have exm: "opt_ok (if d \<noteq> [] then Some (P_mods d) else None)"
    by (simp add: opt_ok_def P_mods_class)
  from opt_pieces [OF exm, of "''exm''"] keys_ok obtain es where
    es: "opt_param ''/exm='' (if d \<noteq> [] then Some (P_mods d) else None) = pieces es"
      "\<forall>x \<in> set es. piece_ok x \<and> \<not> starts_with x ''cb=''" by auto
  from opt_pieces [OF ok(4), of "''am''"] keys_ok obtain ams where
    ams: "opt_param ''/am='' (h_am h) = pieces ams" "\<forall>x \<in> set ams. piece_ok x \<and> \<not> starts_with x ''cb=''" by auto
  from opt_pieces [OF ok(5), of "''rs''"] keys_ok obtain rss where
    rss: "opt_param ''/rs='' (h_rs h) = pieces rss" "\<forall>x \<in> set rss. piece_ok x \<and> \<not> starts_with x ''cb=''" by auto
  from opt_pieces [OF ok(6), of "''t''"] keys_ok obtain ts where
    ts: "opt_param ''/t='' (h_t h) = pieces ts" "\<forall>x \<in> set ts. piece_ok x \<and> \<not> starts_with x ''cb=''" by auto
  let ?mid = "xs @ [''k='' @ v, ''m='' @ P_mods b] @ es @ [''rt=j'', ''sv=1'', ''d=1'', ''ed=1''] @ ams @ rss @ ts"
  have "na_e v = v" "na_e (P_mods b) = P_mods b" "na_e c = c"
    using v hint_text P_mods_class callback_class [OF c] by auto
  with assms h c v xs es ams rss ts have u: "u = pieces (?mid @ [''cb='' @ c])"
    by (simp add: na_url_def)
  have pk: "piece_ok (k @ w)" if "piece_ok k" "list_all hint_class w" for k w
    using key_piece [OF that] by simp
  have kv: "piece_ok (''k='' @ v)" "piece_ok (''m='' @ P_mods b)" "piece_ok (''cb='' @ c)"
    by (rule pk; use keys_ok v P_mods_class callback_class [OF c] in simp)+
  have mid: "piece_ok x \<and> \<not> starts_with x ''cb=''" if "x \<in> set ?mid" for x
    using that xs(3) es(2) ams(2) rss(2) ts(2) kv keys_ok by (auto simp: starts_with_def)
  show thesis
  proof (rule that [OF u])
    show "\<forall>x \<in> set (?mid @ [''cb='' @ c]). piece_ok x" using mid kv(3) by auto
    have "filter (\<lambda>x. starts_with x ''cb='') ?mid = []" using mid unfolding filter_empty_conv by blast
    moreover have "starts_with (''cb='' @ c) ''cb=''" by (rule starts_with_append)
    ultimately show "length (filter (\<lambda>x. starts_with x ''cb='') (?mid @ [''cb='' @ c])) = 1"
      unfolding filter_append [of _ ?mid] by simp
  qed simp
qed

lemma google_host: "ka_host ''apis.google.com''"
  by code_simp

lemma ka_google:
  assumes "r \<noteq> []" and "list_all ka_path_class r"
  shows "ka_test (''https://apis.google.com/'' @ r)"
  using assms google_host by (simp add: ka_test_def starts_with_def Let_def)

lemma pieces_class:
  "\<forall>x \<in> set segs. piece_ok x \<Longrightarrow> list_all ka_path_class (pieces segs)"
proof (induction segs)
  case (Cons x segs)
  moreover have "ka_path_class CHR ''/''" by code_simp
  ultimately show ?case by (simp add: piece_ok_def)
qed simp

lemma sane_pieces:
  assumes "segs \<noteq> []" and "\<forall>x \<in> set segs. piece_ok x"
    and "length (filter (\<lambda>x. starts_with x ''cb='') segs) = 1"
  shows "sane (''https://apis.google.com'' @ pieces segs)"
proof -
  from assms obtain x xs where segs: "segs = x # xs" by (cases segs) auto
  let ?r = "x @ pieces xs"
  have all: "list_all ka_path_class (pieces segs)" by (rule pieces_class [OF assms(2)])
  from segs have p: "pieces segs = CHR ''/'' # ?r" by simp
  have "?r \<noteq> []" using assms(2) segs by (simp add: piece_ok_def)
  moreover have "list_all ka_path_class ?r" using all p by simp
  ultimately have "ka_test (''https://apis.google.com/'' @ ?r)" by (rule ka_google)
  moreover have "count_matches ''//'' (''apis.google.com'' @ pieces segs) = 0"
    using count_slashes [of segs] count_skip [of "''//''" "''apis.google.com''" "pieces segs"] assms(2)
    by (simp add: piece_ok_def del: count_matches.simps)
  then have "count_matches ''//'' (''https://apis.google.com'' @ pieces segs) = 1"
    by (simp add: starts_with_def)
  moreover have "count_matches ''/cb='' (''apis.google.com'' @ pieces segs) = 1"
    using count_cb [of segs] count_skip [of "''/cb=''" "''apis.google.com''" "pieces segs"] assms(2,3)
    by (simp add: piece_ok_def del: count_matches.simps)
  then have "count_matches ''/cb='' (''https://apis.google.com'' @ pieces segs) = 1"
    by (simp add: starts_with_def)
  ultimately show ?thesis by (simp add: sane_def p)
qed

text \<open>For a hint of the only kind that has a processor, an address that can be built at all
  passes all three sanity checks: the error \<open>failed sanity\<close> of \<open>la\<close> is never thrown, whatever the
  hint, the modules and those already loaded.\<close>

theorem address_sane:
  assumes "hd (split_on CHR '';'' a) = ''m''"
  shows "la a b c d = L_m (tl (split_on CHR '';'' a)) b c d \<and>
    (\<forall>u. la a b c d = Inr u \<longrightarrow> sane u)"
proof -
  have built: "u \<noteq> [] \<and> sane u" if "L_m e b c d = Inr u" for e u
  proof -
    from that obtain t where "na_url (hd e) b c d = Inr t" and u: "u = ''https://apis.google.com'' @ t"
      by (auto simp: L_m_def N_err_def split: if_splits sum.splits)
    from na_pieces [OF this(1)] obtain segs where "t = pieces segs" "segs \<noteq> []" "\<forall>x \<in> set segs. piece_ok x"
      "length (filter (\<lambda>x. starts_with x ''cb='') segs) = 1" .
    with sane_pieces [of segs] u show ?thesis by simp
  qed
  with assms have "la a b c d = L_m (tl (split_on CHR '';'' a)) b c d"
    by (auto simp: la_def Let_def split: sum.split)
  with built show ?thesis by metis
qed

theorem address_sane_witness:
  "sane ''https://apis.google.com/js/k=v.1/m=client,a_b/rt=j/sv=1/d=1/ed=1/am=QQE/cb=gapi.loaded_0''"
proof -
  have "la ''m;/js/k=v.1/m=f/am=QQE'' [''client'', ''a-b''] ''gapi.loaded_0'' [] =
      Inr ''https://apis.google.com/js/k=v.1/m=client,a_b/rt=j/sv=1/d=1/ed=1/am=QQE/cb=gapi.loaded_0''"
    by code_simp
  moreover have "hd (split_on CHR '';'' ''m;/js/k=v.1/m=f/am=QQE'') = ''m''" by simp
  ultimately show ?thesis
    using address_sane [of "''m;/js/k=v.1/m=f/am=QQE''" "[''client'', ''a-b'']" "''gapi.loaded_0''" "[]"] by simp
qed

end
