(* ===== verification/Gapi_Loader.thy ===== *)
theory Gapi_Loader
  imports Gapi_Url Js_Number "HOL-Library.Char_ord" "HOL-Library.List_Lexorder" "HOL-Library.Multiset"
begin

text \<open>
  The module loader of \<open>client.js\<close> (lines 3 to 11): the sorted set of names \<open>aa\<close>, the difference
  \<open>T\<close>, the names of performance marks \<open>J\<close> and \<open>K\<close>, the grouping of modules by hint (\<open>Z\<close>), one
  load (\<open>Y\<close>) and the chain \<open>CP\<close> that runs the scripts in the order of the loads, whatever the
  order in which they arrive; and the error counter of \<open>X\<close>.

  The state \<open>jsl\<close> has the parts of \<open>___jsl\<close> a load uses. A script that arrives, and a timer that
  fires, are steps. Assumed: \<open>___jsl.PQ\<close> is empty (nothing in this program fills it), and a module's
  code returns. A chain of waiting loads with its callbacks is one step: a load that a module or a callback
  starts in the middle of a chain is not modelled (it is a step after the chain here). \<open>urls\<close>, \<open>ran\<close>, \<open>called\<close> and \<open>fired\<close> record what the page sees: script addresses
  with their modules, modules run, callbacks, timeout callbacks.

  Shown: no module is asked for twice under one hint; scripts run in the order of the loads; if no
  timeout fires, nothing is left behind once all scripts are there; but a load whose timeout has
  fired leaves a waiting later load waiting for ever.
\<close>

subsection \<open>Names\<close>

fun aa_loop :: "string option \<Rightarrow> string list \<Rightarrow> string list" where
  "aa_loop c [] = []"
| "aa_loop c (e # a) = (if Some e \<noteq> c then e # aa_loop (Some e) a else aa_loop (Some e) a)"

definition aa_names :: "string list \<Rightarrow> string list" where
  "aa_names a = aa_loop None (sort a)"

definition T_diff :: "string list \<Rightarrow> string list \<Rightarrow> string list" where
  "T_diff a b = filter (\<lambda>e. e \<noteq> [] \<and> e \<notin> set b) a"

definition J_mark :: "string list \<Rightarrow> string" where
  "J_mark a = map (\<lambda>c. if c \<in> set ''.-,'' then CHR ''_'' else c) (join_with ''__'' a)"

definition K_mark :: "string list \<Rightarrow> string list \<Rightarrow> string" where
  "K_mark b c =
     (if b = [] then []
      else (let b = J_mark b; b = (if c \<noteq> [] then b @ ''___'' @ J_mark c else b)
            in if 28 < length b then take 28 b @ show_nat (length b - 28) else b))"

text \<open>\<open>Z\<close>: the hint of a module from the table \<open>ah\<close>, and the grouping of adjacent modules with
  the same hint. The loop ends at the first empty name.\<close>

definition hint_of :: "(string \<Rightarrow> string) \<Rightarrow> string \<Rightarrow> string \<Rightarrow> string" where
  "hint_of e d f =
     (let l = split_on CHR ''.'' f;
          ns = (if 1 < length l \<and> l ! 1 \<noteq> [] then ''ns:'' @ l ! 0 else [])
      in if e f \<noteq> [] then e f else if e ns \<noteq> [] then e ns else d)"

definition add_module :: "string \<Rightarrow> string \<Rightarrow> (string \<times> string list) list \<Rightarrow> (string \<times> string list) list" where
  "add_module l f a =
     (if a \<noteq> [] \<and> fst (last a) = l then butlast a @ [(l, snd (last a) @ [f])] else a @ [(l, [f])])"

fun Z_groups :: "(string \<Rightarrow> string) \<Rightarrow> string \<Rightarrow> string list \<Rightarrow> (string \<times> string list) list \<Rightarrow> (string \<times> string list) list" where
  "Z_groups e d [] a = a"
| "Z_groups e d (f # b) a = (if f = [] then a else Z_groups e d b (add_module (hint_of e d f) f a))"

text \<open>\<open>b = a ? a.split(":") : []\<close>; without a table of hints one load of all the names.\<close>

definition Z_plan :: "(string \<Rightarrow> string) \<Rightarrow> string \<Rightarrow> string \<Rightarrow> (string \<times> string list) list" where
  "Z_plan e d a =
     (let b = (if a \<noteq> [] then split_on CHR '':'' a else [])
      in if e ''::'' \<noteq> [] \<and> b \<noteq> [] then Z_groups e d b [] else [(d, b)])"

subsection \<open>Loads\<close>

record request =
  rq_hint :: string
  rq_mods :: "string list"
  rq_callback :: nat
  rq_timeout :: bool

datatype slot = Gone | Waits request | Deferred request

record jsl =
  A_I :: nat
  A_r :: "string \<Rightarrow> string list"
  A_L :: "string \<Rightarrow> string list"
  A_CP :: "slot list"
  expired :: "nat list"
  urls :: "(nat \<times> string \<times> string list \<times> string) list"
  ran :: "(nat \<times> string list) list"
  called :: "nat list"
  fired :: "nat list"

definition jsl_init :: jsl where
  "jsl_init = \<lparr>A_I = 0, A_r = (\<lambda>_. []), A_L = (\<lambda>_. []), A_CP = [], expired = [], urls = [],
     ran = [], called = [], fired = []\<rparr>"

text \<open>\<open>W\<close> of the slot \<open>t\<close> with the callback after it, and the chain of \<open>r[t]\<close>, \<open>r[t+1]\<close>, ...: an
  expired slot is emptied but neither runs nor goes on.\<close>

definition W_run :: "nat \<times> request \<Rightarrow> jsl \<Rightarrow> jsl" where
  "W_run = (\<lambda>(t, q) s. s\<lparr>A_L := (A_L s)(rq_hint q := A_L s (rq_hint q) @ rq_mods q),
     ran := ran s @ [(t, rq_mods q)], called := called s @ [rq_callback q]\<rparr>)"

fun run_chain :: "nat list \<Rightarrow> nat \<Rightarrow> slot list \<Rightarrow> slot list \<times> (nat \<times> request) list" where
  "run_chain y t (Deferred q # ss) =
     (if t \<in> set y then (Gone # ss, [])
      else (let (ss', lg) = run_chain y (Suc t) ss in (Gone # ss', (t, q) # lg)))"
| "run_chain y t ss = (ss, [])"

text \<open>\<open>r[t](a)\<close>, for a slot that still has its first function.\<close>

definition arrive :: "nat \<Rightarrow> jsl \<Rightarrow> jsl" where
  "arrive t s =
     (case A_CP s ! t of
        Waits q \<Rightarrow>
          (if 0 < t \<and> A_CP s ! (t - 1) \<noteq> Gone then s\<lparr>A_CP := (A_CP s)[t := Deferred q]\<rparr>
           else (let (ss, lg) = run_chain (expired s) t (Deferred q # drop (Suc t) (A_CP s))
                 in foldl (\<lambda>s x. W_run x s) (s\<lparr>A_CP := take t (A_CP s) @ ss\<rparr>) lg))
      | _ \<Rightarrow> s)"

text \<open>\<open>Y(a, b, c)\<close>; \<open>timeout\<close> and \<open>ontimeout\<close> say which of the two parameters are given.\<close>

definition Y_load :: "string list \<Rightarrow> nat \<Rightarrow> bool \<Rightarrow> bool \<Rightarrow> string \<Rightarrow> jsl \<Rightarrow> unit thrown \<times> jsl" where
  "Y_load a d timeout ontimeout c s =
     (let a = aa_names a
      in if timeout \<noteq> ontimeout
         then (Inl ''Timeout requires both the timeout parameter and ontimeout parameter to be set'', s)
         else (let k = sort (A_r s c);
                   s = s\<lparr>A_r := (A_r s)(c := k), A_L := (A_L s)(c := sort (A_L s c))\<rparr>
               in if T_diff a (A_L s c) = [] then (Inr (), s\<lparr>called := called s @ [d]\<rparr>)
                  else (let p = T_diff a k; t = length (A_CP s);
                            s = s\<lparr>A_CP := A_CP s @ [Waits \<lparr>rq_hint = c, rq_mods = p, rq_callback = d, rq_timeout = timeout\<rparr>]\<rparr>
                        in if p = [] then (Inr (), arrive t s)
                           else (let i = A_I s; s = s\<lparr>A_I := Suc i\<rparr>
                                 in case la c p (''gapi.loaded_'' @ show_nat i) k of
                                      Inl e \<Rightarrow> (Inl e, s)
                                    | Inr u \<Rightarrow> (Inr (), s\<lparr>A_r := (A_r s)(c := k @ p), urls := urls s @ [(t, c, p, u)]\<rparr>)))))"

definition timeout_fires :: "nat \<Rightarrow> jsl \<Rightarrow> jsl" where
  "timeout_fires t s = s\<lparr>expired := t # expired s, fired := fired s @ [t]\<rparr>"

definition has_timer :: "slot \<Rightarrow> bool" where
  "has_timer x = (case x of Gone \<Rightarrow> False | Waits q \<Rightarrow> rq_timeout q | Deferred q \<Rightarrow> rq_timeout q)"

inductive loader_step :: "jsl \<Rightarrow> jsl \<Rightarrow> bool" where
  load: "loader_step s (snd (Y_load a d f l c s))"
| script: "t < length (A_CP s) \<Longrightarrow> A_CP s ! t = Waits q \<Longrightarrow> t \<in> fst ` set (urls s) \<Longrightarrow> loader_step s (arrive t s)"
| timer: "t < length (A_CP s) \<Longrightarrow> has_timer (A_CP s ! t) \<Longrightarrow> t \<notin> set (expired s) \<Longrightarrow> loader_step s (timeout_fires t s)"

inductive loader_steps :: "jsl \<Rightarrow> jsl \<Rightarrow> bool" where
  start: "loader_steps s s"
| more: "loader_steps s t \<Longrightarrow> loader_step t u \<Longrightarrow> loader_steps s u"

text \<open>\<open>X\<close>: an error is swallowed, with the error callback and the module \<open>debug_error\<close>, as long as
  the counter \<open>hel\<close> lasts; otherwise it is thrown on.\<close>

definition X_call :: "bool \<Rightarrow> nat \<Rightarrow> 'a thrown \<Rightarrow> 'a option thrown \<times> nat" where
  "X_call hee hel r =
     (case r of
        Inr x \<Rightarrow> (Inr (Some x), hel)
      | Inl c \<Rightarrow> (if hee \<and> 0 < hel then (Inr None, hel - 1) else (Inl c, hel)))"

subsection \<open>Names: laws\<close>

lemma aa_loop_set: "set (aa_loop c a) \<union> (case c of Some x \<Rightarrow> {x} | None \<Rightarrow> {}) = set a \<union> (case c of Some x \<Rightarrow> {x} | None \<Rightarrow> {})"
  by (induction c a rule: aa_loop.induct) (auto split: option.splits)

lemma aa_loop_sorted:
  "sorted a \<Longrightarrow> \<forall>x \<in> set a. (case c of Some y \<Rightarrow> y \<le> x | None \<Rightarrow> True) \<Longrightarrow>
     sorted_wrt (<) (aa_loop c a) \<and> (\<forall>x \<in> set (aa_loop c a). case c of Some y \<Rightarrow> y < x | None \<Rightarrow> True)"
proof (induction c a rule: aa_loop.induct)
  case (2 c e a)
  then show ?case by (cases c) (auto, fastforce+)
qed simp

lemma aa_names_props: "set (aa_names a) = set a" "distinct (aa_names a)"
proof -
  show "set (aa_names a) = set a" using aa_loop_set [of None "sort a"] by (simp add: aa_names_def)
  have "sorted_wrt (<) (aa_names a)" using aa_loop_sorted [of "sort a" None] by (simp add: aa_names_def)
  then show "distinct (aa_names a)" using strict_sorted_iff by blast
qed

lemma T_diff_props: "set (T_diff a b) = {e \<in> set a. e \<noteq> [] \<and> e \<notin> set b}" "distinct a \<Longrightarrow> distinct (T_diff a b)"
  by (auto simp: T_diff_def)

text \<open>The groups of \<open>Z\<close> hold the names in order, each under its own hint, and neighbouring groups
  have different hints.\<close>

definition groups_ok :: "(string \<Rightarrow> string) \<Rightarrow> string \<Rightarrow> (string \<times> string list) list \<Rightarrow> bool" where
  "groups_ok e d a \<longleftrightarrow> (\<forall>(l, fs) \<in> set a. fs \<noteq> [] \<and> (\<forall>f \<in> set fs. hint_of e d f = l)) \<and>
     successively (\<noteq>) (map fst a)"

lemma add_module_ok:
  assumes "groups_ok e d a" and "hint_of e d f = l"
  shows "groups_ok e d (add_module l f a) \<and> concat (map snd (add_module l f a)) = concat (map snd a) @ [f]"
proof (cases a rule: rev_cases)
  case Nil
  with assms show ?thesis by (simp add: groups_ok_def add_module_def)
next
  case (snoc b x)
  with assms show ?thesis
    by (cases x) (auto simp: groups_ok_def add_module_def successively_append_iff)
qed

lemma Z_groups_ok:
  "groups_ok e d a \<Longrightarrow> groups_ok e d (Z_groups e d b a) \<and>
     concat (map snd (Z_groups e d b a)) = concat (map snd a) @ takeWhile (\<lambda>f. f \<noteq> []) b"
proof (induction e d b a rule: Z_groups.induct)
  case (2 e d f b a)
  show ?case
  proof (cases "f = []")
    case False
    from add_module_ok [OF "2.prems" refl] "2.IH" [OF False] False show ?thesis by fastforce
  qed (use "2.prems" in simp)
qed simp

subsection \<open>The chain\<close>

text \<open>The chain empties the leading deferred slots and runs those that have not expired; it stops
  early only at an expired one.\<close>

lemma chain_shape:
  "run_chain y t ss = (ss', lg) \<Longrightarrow>
     \<exists>k. k \<le> length ss \<and> ss' = replicate k Gone @ drop k ss \<and>
       (\<forall>i < k. \<exists>q. ss ! i = Deferred q) \<and>
       map fst lg = filter (\<lambda>i. i \<notin> set y) [t ..< t + k] \<and>
       (\<forall>(i, q) \<in> set lg. t \<le> i \<and> i < t + k \<and> ss ! (i - t) = Deferred q) \<and>
       (y = [] \<longrightarrow> k < length ss \<longrightarrow> (\<forall>q. ss ! k \<noteq> Deferred q))"
proof (induction y t ss arbitrary: ss' lg rule: run_chain.induct)
  case (1 y t q ss)
  show ?case
  proof (cases "t \<in> set y")
    case True
    with "1.prems" show ?thesis by (intro exI [of _ 1]) auto
  next
    case False
    obtain ss1 lg1 where c: "run_chain y (Suc t) ss = (ss1, lg1)" by fastforce
    with "1.prems" False have r: "ss' = Gone # ss1" "lg = (t, q) # lg1" by auto
    from "1.IH" [OF False c] obtain k where k: "k \<le> length ss" "ss1 = replicate k Gone @ drop k ss"
      "\<forall>i < k. \<exists>q. ss ! i = Deferred q" "map fst lg1 = filter (\<lambda>i. i \<notin> set y) [Suc t ..< Suc t + k]"
      "\<forall>(i, q) \<in> set lg1. Suc t \<le> i \<and> i < Suc t + k \<and> ss ! (i - Suc t) = Deferred q"
      "y = [] \<longrightarrow> k < length ss \<longrightarrow> (\<forall>q. ss ! k \<noteq> Deferred q)" by blast
    have up: "[t ..< t + Suc k] = t # [Suc t ..< Suc t + k]" by (simp add: upt_conv_Cons)
    have nth: "(Deferred q # ss) ! (i - t) = ss ! (i - Suc t)" if "Suc t \<le> i" for i
      using that by (simp add: nth_Cons')
    show ?thesis
    proof (intro exI [of _ "Suc k"] conjI)
      show "Suc k \<le> length (Deferred q # ss)" using k(1) by simp
      show "ss' = replicate (Suc k) Gone @ drop (Suc k) (Deferred q # ss)" using r(1) k(2) by simp
      show "\<forall>i < Suc k. \<exists>q'. (Deferred q # ss) ! i = Deferred q'"
        using k(3) by (auto simp: less_Suc_eq_0_disj)
      show "map fst lg = filter (\<lambda>i. i \<notin> set y) [t ..< t + Suc k]"
        unfolding up using r(2) k(4) False by simp
      show "\<forall>(i, q') \<in> set lg. t \<le> i \<and> i < t + Suc k \<and> (Deferred q # ss) ! (i - t) = Deferred q'"
        unfolding r(2) using k(5) nth by fastforce
      show "y = [] \<longrightarrow> Suc k < length (Deferred q # ss) \<longrightarrow> (\<forall>q'. (Deferred q # ss) ! Suc k \<noteq> Deferred q')"
        using k(6) by simp
    qed
  qed
qed (auto intro: exI [of _ 0])

lemma W_run_frame:
  "A_CP (foldl (\<lambda>s x. W_run x s) s lg) = A_CP s" "A_r (foldl (\<lambda>s x. W_run x s) s lg) = A_r s"
  "expired (foldl (\<lambda>s x. W_run x s) s lg) = expired s" "urls (foldl (\<lambda>s x. W_run x s) s lg) = urls s"
  "A_I (foldl (\<lambda>s x. W_run x s) s lg) = A_I s" "fired (foldl (\<lambda>s x. W_run x s) s lg) = fired s"
  by (induction lg arbitrary: s) (auto simp: W_run_def split: prod.splits)

lemma W_run_ran:
  "ran (foldl (\<lambda>s x. W_run x s) s lg) = ran s @ map (\<lambda>(t, q). (t, rq_mods q)) lg"
  by (induction lg arbitrary: s) (auto simp: W_run_def split: prod.splits)

lemma W_run_L:
  "A_L (foldl (\<lambda>s x. W_run x s) s lg) c = A_L s c @ concat (map (\<lambda>(t, q). if rq_hint q = c then rq_mods q else []) lg)"
  by (induction lg arbitrary: s) (auto simp: W_run_def split: prod.splits)

text \<open>\<open>arrive\<close>, in one fact.\<close>

lemma arrive_cases:
  assumes "t < length (A_CP s)" and "A_CP s ! t = Waits q"
  obtains (deferred) "0 < t" "A_CP s ! (t - 1) \<noteq> Gone" "arrive t s = s\<lparr>A_CP := (A_CP s)[t := Deferred q]\<rparr>"
  | (run) k lg where "t = 0 \<or> A_CP s ! (t - 1) = Gone" "0 < k" "t + k \<le> length (A_CP s)"
      "A_CP (arrive t s) = take t (A_CP s) @ replicate k Gone @ drop (t + k) (A_CP s)"
      "\<forall>i. 0 < i \<longrightarrow> i < k \<longrightarrow> (\<exists>q. A_CP s ! (t + i) = Deferred q)"
      "arrive t s = foldl (\<lambda>s x. W_run x s) (s\<lparr>A_CP := A_CP (arrive t s)\<rparr>) lg"
      "map fst lg = filter (\<lambda>i. i \<notin> set (expired s)) [t ..< t + k]"
      "\<forall>(i, q') \<in> set lg. i = t \<and> q' = q \<or> i < length (A_CP s) \<and> A_CP s ! i = Deferred q'"
      "expired s = [] \<longrightarrow> t + k < length (A_CP s) \<longrightarrow> (\<forall>q. A_CP s ! (t + k) \<noteq> Deferred q)"
proof (cases "0 < t \<and> A_CP s ! (t - 1) \<noteq> Gone")
  case True
  with assms show ?thesis by (intro deferred) (auto simp: arrive_def)
next
  case False
  let ?ss = "Deferred q # drop (Suc t) (A_CP s)"
  obtain ss lg where c: "run_chain (expired s) t ?ss = (ss, lg)" by fastforce
  from chain_shape [OF c] obtain k where k: "k \<le> length ?ss" "ss = replicate k Gone @ drop k ?ss"
    "\<forall>i < k. \<exists>q. ?ss ! i = Deferred q" "map fst lg = filter (\<lambda>i. i \<notin> set (expired s)) [t ..< t + k]"
    "\<forall>(i, q') \<in> set lg. t \<le> i \<and> i < t + k \<and> ?ss ! (i - t) = Deferred q'"
    "expired s = [] \<longrightarrow> k < length ?ss \<longrightarrow> (\<forall>q. ?ss ! k \<noteq> Deferred q)" by blast
  from c have k0: "0 < k" using k(2) by (cases k) (auto split: if_splits prod.splits)
  have nth: "?ss ! i = A_CP s ! (t + i)" if "0 < i" for i
    using that assms by (cases i) auto
  have drop: "drop k ?ss = drop (t + k) (A_CP s)" using k0 by (cases k) (auto simp: add.commute)
  have ar: "arrive t s = foldl (\<lambda>s x. W_run x s) (s\<lparr>A_CP := take t (A_CP s) @ ss\<rparr>) lg"
    using assms False by (auto simp: arrive_def c simp del: run_chain.simps)
  have cp: "A_CP (arrive t s) = take t (A_CP s) @ ss" by (simp add: ar W_run_frame)
  show ?thesis
  proof (rule run [of k lg])
    show "t = 0 \<or> A_CP s ! (t - 1) = Gone" using False by auto
    show "t + k \<le> length (A_CP s)" using k(1) assms by auto
    show "A_CP (arrive t s) = take t (A_CP s) @ replicate k Gone @ drop (t + k) (A_CP s)"
      by (simp add: cp k(2) drop)
    show "\<forall>i. 0 < i \<longrightarrow> i < k \<longrightarrow> (\<exists>q. A_CP s ! (t + i) = Deferred q)" using k(3) nth by metis
    show "arrive t s = foldl (\<lambda>s x. W_run x s) (s\<lparr>A_CP := A_CP (arrive t s)\<rparr>) lg"
      unfolding cp by (rule ar)
    show "map fst lg = filter (\<lambda>i. i \<notin> set (expired s)) [t ..< t + k]" by (rule k(4))
    have "i = t \<and> q' = q \<or> i < length (A_CP s) \<and> A_CP s ! i = Deferred q'" if "(i, q') \<in> set lg" for i q'
    proof -
      from that k(5) have i: "t \<le> i" "i < t + k" "?ss ! (i - t) = Deferred q'" by auto
      with nth [of "i - t"] k(1) assms show ?thesis by (cases "i = t") auto
    qed
    then show "\<forall>(i, q') \<in> set lg. i = t \<and> q' = q \<or> i < length (A_CP s) \<and> A_CP s ! i = Deferred q'" by blast
    show "expired s = [] \<longrightarrow> t + k < length (A_CP s) \<longrightarrow> (\<forall>q. A_CP s ! (t + k) \<noteq> Deferred q)"
      using k(6) nth [OF k0] assms by auto
  qed (rule k0)
qed

subsection \<open>Order\<close>

text \<open>The emptied slots are a prefix, the runs so far lie in it in increasing order; and unless a
  timer has fired no deferred slot follows an emptied one.\<close>

definition slots_ok :: "jsl \<Rightarrow> bool" where
  "slots_ok s \<longleftrightarrow>
     (\<forall>i j. i < j \<longrightarrow> j < length (A_CP s) \<longrightarrow> A_CP s ! j = Gone \<longrightarrow> A_CP s ! i = Gone) \<and>
     sorted_wrt (<) (map fst (ran s)) \<and>
     (\<forall>i m. (i, m) \<in> set (ran s) \<longrightarrow> i < length (A_CP s) \<and> A_CP s ! i = Gone) \<and>
     (expired s = [] \<longrightarrow>
       (\<forall>i q. i < length (A_CP s) \<longrightarrow> A_CP s ! i = Deferred q \<longrightarrow> 0 < i \<and> A_CP s ! (i - 1) \<noteq> Gone) \<and>
       (\<forall>i < length (A_CP s). A_CP s ! i = Gone \<longrightarrow> i \<in> fst ` set (ran s)))"

lemma slots_okI:
  assumes "\<And>i j. i < j \<Longrightarrow> j < length (A_CP s) \<Longrightarrow> A_CP s ! j = Gone \<Longrightarrow> A_CP s ! i = Gone"
    and "sorted_wrt (<) (map fst (ran s))"
    and "\<And>i m. (i, m) \<in> set (ran s) \<Longrightarrow> i < length (A_CP s) \<and> A_CP s ! i = Gone"
    and "\<And>i q. expired s = [] \<Longrightarrow> i < length (A_CP s) \<Longrightarrow> A_CP s ! i = Deferred q \<Longrightarrow>
      0 < i \<and> A_CP s ! (i - 1) \<noteq> Gone"
    and "\<And>i. expired s = [] \<Longrightarrow> i < length (A_CP s) \<Longrightarrow> A_CP s ! i = Gone \<Longrightarrow> i \<in> fst ` set (ran s)"
  shows "slots_ok s"
  unfolding slots_ok_def using assms by blast

lemma slots_okD:
  assumes "slots_ok s"
  shows "\<And>i j. i < j \<Longrightarrow> j < length (A_CP s) \<Longrightarrow> A_CP s ! j = Gone \<Longrightarrow> A_CP s ! i = Gone"
    and "sorted_wrt (<) (map fst (ran s))"
    and "\<And>i m. (i, m) \<in> set (ran s) \<Longrightarrow> i < length (A_CP s) \<and> A_CP s ! i = Gone"
    and "\<And>i q. expired s = [] \<Longrightarrow> i < length (A_CP s) \<Longrightarrow> A_CP s ! i = Deferred q \<Longrightarrow>
      0 < i \<and> A_CP s ! (i - 1) \<noteq> Gone"
    and "\<And>i. expired s = [] \<Longrightarrow> i < length (A_CP s) \<Longrightarrow> A_CP s ! i = Gone \<Longrightarrow> i \<in> fst ` set (ran s)"
  using assms unfolding slots_ok_def by blast+

lemma slots_ok_cong:
  "A_CP s' = A_CP s \<Longrightarrow> ran s' = ran s \<Longrightarrow> expired s' = expired s \<Longrightarrow> slots_ok s' = slots_ok s"
  by (simp add: slots_ok_def)

lemma slots_ok_wait:
  assumes "slots_ok s" and "A_CP s' = A_CP s @ [Waits q]" and "ran s' = ran s" and "expired s' = expired s"
  shows "slots_ok s'"
  using slots_okD [OF assms(1)]
  by (intro slots_okI) (auto simp: assms(2-4) nth_append intro: less_SucI split: if_splits)

lemma slots_ok_arrive:
  assumes ok: "slots_ok s" and t: "t < length (A_CP s)" and w: "A_CP s ! t = Waits q"
  shows "slots_ok (arrive t s)"
  using t w
proof (cases rule: arrive_cases)
  case deferred
  then show ?thesis using slots_okD [OF ok] t w
    by (intro slots_okI) (auto simp: nth_list_update split: if_splits)
next
  case (run k lg)
  let ?s = "arrive t s"
  have gone: "A_CP s ! i = Gone" if "i < t" for i
  proof (cases "i = t - 1")
    case True with run(1) that show ?thesis by auto
  next
    case False
    with that have "i < t - 1" by simp
    from slots_okD(1) [OF ok this] run(1) that t show ?thesis by auto
  qed
  have early: "i < t" if "i < length (A_CP s)" "A_CP s ! i = Gone" for i
  proof (rule ccontr)
    assume "\<not> i < t"
    with that w slots_okD(1) [OF ok, of t i] show False by (cases "i = t") auto
  qed
  have len: "length (A_CP ?s) = length (A_CP s)" using run(3) by (simp add: run(4))
  have nth: "A_CP ?s ! i = (if i < t + k then Gone else A_CP s ! i)" if "i < length (A_CP s)" for i
    using that gone run(3) t by (auto simp: run(4) nth_append)
  have ran: "map fst (ran ?s) = map fst (ran s) @ filter (\<lambda>i. i \<notin> set (expired s)) [t ..< t + k]"
  proof -
    have "map fst (ran ?s) = map fst (ran s) @ map fst lg"
      by (subst run(6)) (simp add: W_run_ran split_beta comp_def)
    then show ?thesis using run(7) by simp
  qed
  have ex: "expired ?s = expired s" by (subst run(6)) (simp add: W_run_frame)
  show ?thesis
  proof (rule slots_okI)
    show "A_CP ?s ! i = Gone" if "i < j" "j < length (A_CP ?s)" "A_CP ?s ! j = Gone" for i j
      using that slots_okD(1) [OF ok, of i j] by (auto simp: len nth split: if_splits)
    have "\<forall>i \<in> set (map fst (ran s)). i < t" using slots_okD(3) [OF ok] early by fastforce
    then show "sorted_wrt (<) (map fst (ran ?s))"
      unfolding ran using slots_okD(2) [OF ok]
      by (auto simp: sorted_wrt_append intro!: sorted_wrt_filter intro: less_le_trans)
    show "i < length (A_CP ?s) \<and> A_CP ?s ! i = Gone" if "(i, m) \<in> set (ran ?s)" for i m
    proof -
      from that have "i \<in> fst ` set (ran ?s)" by force
      with arg_cong [OF ran, of set] have "(\<exists>m. (i, m) \<in> set (ran s)) \<or> t \<le> i \<and> i < t + k" by auto
      then show ?thesis using slots_okD(3) [OF ok] run(3) by (auto simp: len nth)
    qed
    show "i \<in> fst ` set (ran ?s)" if "expired ?s = []" "i < length (A_CP ?s)" "A_CP ?s ! i = Gone" for i
    proof (cases "A_CP s ! i = Gone")
      case True
      with that slots_okD(5) [OF ok, of i] arg_cong [OF ran, of set] show ?thesis by (auto simp: len ex)
    next
      case False
      with that gone have "t \<le> i" "i < t + k" "expired s = []"
        by (auto simp: len nth ex not_less [symmetric] split: if_splits)
      with arg_cong [OF ran, of set] show ?thesis by auto
    qed
    show "0 < i \<and> A_CP ?s ! (i - 1) \<noteq> Gone"
      if "expired ?s = []" "i < length (A_CP ?s)" "A_CP ?s ! i = Deferred q'" for i q'
    proof -
      from that have i: "expired s = []" "i < length (A_CP s)" "t + k \<le> i" "A_CP s ! i = Deferred q'"
        by (auto simp: len nth ex split: if_splits)
      with run(9) have "i \<noteq> t + k" by auto
      with i slots_okD(4) [OF ok i(1,2,4)] run(2) show ?thesis by (auto simp: nth)
    qed
  qed
qed

subsection \<open>Requests\<close>

text \<open>The modules asked for under a hint, over all scripts.\<close>

definition requested :: "string \<Rightarrow> jsl \<Rightarrow> string list" where
  "requested c s = concat (map (\<lambda>(t, h, p, u). if h = c then p else []) (urls s))"

definition requests_ok :: "jsl \<Rightarrow> bool" where
  "requests_ok s \<longleftrightarrow> (\<forall>c. mset (A_r s c) = mset (requested c s) \<and> distinct (A_r s c))"

text \<open>The ways one load can end.\<close>

lemma Y_load_cases:
  obtains (same) "snd (Y_load a d f l c s) = s"
  | (loaded) s1 where "snd (Y_load a d f l c s) = s1\<lparr>called := called s1 @ [d]\<rparr>"
      "s1 = s\<lparr>A_r := (A_r s)(c := sort (A_r s c)), A_L := (A_L s)(c := sort (A_L s c))\<rparr>"
  | (empty) s1 q where "snd (Y_load a d f l c s) = arrive (length (A_CP s)) s1"
      "s1 = s\<lparr>A_r := (A_r s)(c := sort (A_r s c)), A_L := (A_L s)(c := sort (A_L s c)), A_CP := A_CP s @ [Waits q]\<rparr>"
  | (bad) s1 q where "snd (Y_load a d f l c s) = s1\<lparr>A_I := Suc (A_I s1)\<rparr>"
      "s1 = s\<lparr>A_r := (A_r s)(c := sort (A_r s c)), A_L := (A_L s)(c := sort (A_L s c)), A_CP := A_CP s @ [Waits q]\<rparr>"
  | (asked) s1 q p u where "snd (Y_load a d f l c s) =
        s1\<lparr>A_I := Suc (A_I s1), A_r := (A_r s)(c := sort (A_r s c) @ p), urls := urls s @ [(length (A_CP s), c, p, u)]\<rparr>"
      "s1 = s\<lparr>A_L := (A_L s)(c := sort (A_L s c)), A_CP := A_CP s @ [Waits q]\<rparr>"
      "p = T_diff (aa_names a) (sort (A_r s c))"
proof -
  let ?a = "aa_names a"
  let ?p = "T_diff ?a (sort (A_r s c))"
  consider "f \<noteq> l" | "f = l" "T_diff ?a (sort (A_L s c)) = []"
    | "f = l" "T_diff ?a (sort (A_L s c)) \<noteq> []" "?p = []"
    | e where "f = l" "T_diff ?a (sort (A_L s c)) \<noteq> []" "?p \<noteq> []"
        "la c ?p (''gapi.loaded_'' @ show_nat (A_I s)) (sort (A_r s c)) = Inl e"
    | u where "f = l" "T_diff ?a (sort (A_L s c)) \<noteq> []" "?p \<noteq> []"
        "la c ?p (''gapi.loaded_'' @ show_nat (A_I s)) (sort (A_r s c)) = Inr u"
    by (metis sum.exhaust)
  then show thesis
  proof cases
    case 1 then show ?thesis by (intro same) (simp add: Y_load_def Let_def)
  next
    case 2 then show ?thesis by (intro loaded) (auto simp: Y_load_def Let_def)
  next
    case 3 then show ?thesis by (intro empty) (auto simp: Y_load_def Let_def)
  next
    case 4 then show ?thesis by (intro bad) (auto simp: Y_load_def Let_def)
  next
    case 5 then show ?thesis by (intro asked) (auto simp: Y_load_def Let_def)
  qed
qed

lemma arrive_frame:
  assumes "t < length (A_CP s)" and "A_CP s ! t = Waits q"
  shows "A_r (arrive t s) = A_r s \<and> urls (arrive t s) = urls s \<and> expired (arrive t s) = expired s \<and>
    length (A_CP (arrive t s)) = length (A_CP s)"
  using assms
proof (cases rule: arrive_cases)
  case deferred
  then show ?thesis by simp
next
  case (run k lg)
  have "A_r (arrive t s) = A_r s" "urls (arrive t s) = urls s" "expired (arrive t s) = expired s"
    by (subst run(6), simp add: W_run_frame)+
  moreover have "length (A_CP (arrive t s)) = length (A_CP s)" using run(3) by (simp add: run(4))
  ultimately show ?thesis by simp
qed

lemma loader_step_ok:
  assumes "loader_step s s'" and "slots_ok s" and "requests_ok s"
  shows "slots_ok s' \<and> requests_ok s'"
  using assms(1)
proof cases
  case (load a d f l c)
  show ?thesis
  proof (cases a d f l c s rule: Y_load_cases)
    case same
    with load assms show ?thesis by simp
  next
    case (loaded s1)
    have "slots_ok s'" using slots_ok_cong [of s' s] assms load loaded by simp
    moreover have "requests_ok s'" using assms(3) load loaded by (simp add: requests_ok_def requested_def)
    ultimately show ?thesis ..
  next
    case (empty s1 q)
    have s1: "length (A_CP s) < length (A_CP s1)" "A_CP s1 ! length (A_CP s) = Waits q"
      using empty(2) by simp_all
    have "slots_ok s1" using slots_ok_wait [OF assms(2), of s1 q] empty(2) by simp
    from slots_ok_arrive [OF this s1] have "slots_ok s'" using load empty(1) by simp
    moreover have "requests_ok s'" using assms(3) load empty arrive_frame [OF s1]
      by (simp add: requests_ok_def requested_def)
    ultimately show ?thesis ..
  next
    case (bad s1 q)
    have "slots_ok s'" using slots_ok_wait [OF assms(2), of s' q] load bad by simp
    moreover have "requests_ok s'" using assms(3) load bad by (simp add: requests_ok_def requested_def)
    ultimately show ?thesis ..
  next
    case (asked s1 q p u)
    have "slots_ok s'" using slots_ok_wait [OF assms(2), of s' q] load asked by simp
    moreover have "distinct (sort (A_r s c) @ p)"
      using assms(3) aa_names_props(2) [of a] T_diff_props unfolding asked(3) requests_ok_def by auto
    then have "requests_ok s'" using assms(3) load asked by (auto simp: requests_ok_def requested_def)
    ultimately show ?thesis ..
  qed
next
  case (script t q)
  with assms slots_ok_arrive [OF assms(2) script(2,3)] arrive_frame [OF script(2,3)] show ?thesis
    by (simp add: requests_ok_def requested_def)
next
  case (timer t)
  then have "A_CP s' = A_CP s" "ran s' = ran s" "expired s' \<noteq> []" by (simp_all add: timeout_fires_def)
  then have "slots_ok s'" using assms(2) unfolding slots_ok_def by auto
  moreover have "requests_ok s'" using assms(3) timer by (simp add: requests_ok_def requested_def timeout_fires_def)
  ultimately show ?thesis ..
qed

lemma loader_reach_ok: "loader_steps jsl_init s \<Longrightarrow> slots_ok s \<and> requests_ok s"
proof (induction jsl_init s rule: loader_steps.induct)
  case start
  then show ?case by (simp add: slots_ok_def requests_ok_def requested_def jsl_init_def)
next
  case (more t u)
  then show ?case using loader_step_ok by blast
qed

subsection \<open>Properties\<close>

text \<open>C9. Modules run in the order of the loads, whatever the order in which their scripts arrive;
  no module is asked for twice under one hint; and if no timeout has fired and no script is missing,
  every load has run.\<close>

theorem loads_in_order:
  assumes "loader_steps jsl_init s"
  shows "sorted_wrt (<) (map fst (ran s)) \<and> distinct (requested c s) \<and>
    (expired s = [] \<and> (\<forall>q. Waits q \<notin> set (A_CP s)) \<longrightarrow> map fst (ran s) = [0 ..< length (A_CP s)])"
proof (intro conjI impI)
  from loader_reach_ok [OF assms] have ok: "slots_ok s" and req: "requests_ok s" by simp_all
  show sorted: "sorted_wrt (<) (map fst (ran s))" by (rule slots_okD(2) [OF ok])
  have "mset (A_r s c) = mset (requested c s)" "distinct (A_r s c)" using req by (simp_all add: requests_ok_def)
  then show "distinct (requested c s)" by (metis mset_eq_imp_distinct_iff)
  assume all: "expired s = [] \<and> (\<forall>q. Waits q \<notin> set (A_CP s))"
  have gone: "i < length (A_CP s) \<Longrightarrow> A_CP s ! i = Gone" for i
  proof (induction i)
    case 0
    then show ?case using all slots_okD(4) [OF ok, of 0] by (cases "A_CP s ! 0") (auto simp: in_set_conv_nth)
  next
    case (Suc i)
    then show ?case using all slots_okD(4) [OF ok, of "Suc i"]
      by (cases "A_CP s ! Suc i") (auto simp: in_set_conv_nth)
  qed
  have "set (map fst (ran s)) = set [0 ..< length (A_CP s)]"
  proof (intro set_eqI iffI)
    fix i assume "i \<in> set (map fst (ran s))"
    then show "i \<in> set [0 ..< length (A_CP s)]" using slots_okD(3) [OF ok] by auto
  next
    fix i assume "i \<in> set [0 ..< length (A_CP s)]"
    then show "i \<in> set (map fst (ran s))" using all gone slots_okD(5) [OF ok] by simp
  qed
  moreover have "sorted_wrt (<) [0 ..< length (A_CP s)]" by simp
  ultimately show "map fst (ran s) = [0 ..< length (A_CP s)]"
    using sorted by (metis strict_sorted_equal)
qed

lemma Y_load_asked:
  assumes "T_diff (aa_names a) (sort (A_L s c)) \<noteq> []" and "T_diff (aa_names a) (sort (A_r s c)) = p" and "p \<noteq> []"
    and "la c p (''gapi.loaded_'' @ show_nat (A_I s)) (sort (A_r s c)) = Inr u"
  shows "snd (Y_load a d f f c s) = s\<lparr>A_r := (A_r s)(c := sort (A_r s c) @ p), A_L := (A_L s)(c := sort (A_L s c)),
    A_CP := A_CP s @ [Waits \<lparr>rq_hint = c, rq_mods = p, rq_callback = d, rq_timeout = f\<rparr>],
    A_I := Suc (A_I s), urls := urls s @ [(length (A_CP s), c, p, u)]\<rparr>"
  using assms by (auto simp: Y_load_def Let_def)

text \<open>Two loads; the second script comes first and waits, the timer of the first fires, its script
  comes.\<close>

abbreviation (input) "js_hint \<equiv> ''m;/js/k=v''"

definition two_loads :: jsl where
  "two_loads = snd (Y_load [''b''] 1 False False js_hint (snd (Y_load [''a''] 0 True True js_hint jsl_init)))"

definition late_load :: jsl where
  "late_load = arrive 0 (timeout_fires 0 (arrive 1 two_loads))"

lemma loads_addresses:
  "la js_hint [''a''] ''gapi.loaded_0'' [] = Inr ''https://apis.google.com/js/k=v/m=a/rt=j/sv=1/d=1/ed=1/cb=gapi.loaded_0''"
  "la js_hint [''b''] ''gapi.loaded_1'' [''a''] =
     Inr ''https://apis.google.com/js/k=v/m=b/exm=a/rt=j/sv=1/d=1/ed=1/cb=gapi.loaded_1''"
  by code_simp+

lemma two_loads_eq:
  "two_loads = \<lparr>A_I = 2, A_r = (\<lambda>_. [])(js_hint := [''a'', ''b'']), A_L = (\<lambda>_. [])(js_hint := []),
     A_CP = [Waits \<lparr>rq_hint = js_hint, rq_mods = [''a''], rq_callback = 0, rq_timeout = True\<rparr>,
       Waits \<lparr>rq_hint = js_hint, rq_mods = [''b''], rq_callback = 1, rq_timeout = False\<rparr>],
     expired = [],
     urls = [(0, js_hint, [''a''], ''https://apis.google.com/js/k=v/m=a/rt=j/sv=1/d=1/ed=1/cb=gapi.loaded_0''),
       (1, js_hint, [''b''], ''https://apis.google.com/js/k=v/m=b/exm=a/rt=j/sv=1/d=1/ed=1/cb=gapi.loaded_1'')],
     ran = [], called = [], fired = []\<rparr>"
proof -
  have ab: "aa_names [''a''] = [''a'']" "aa_names [''b''] = [''b'']" by (simp_all add: aa_names_def)
  have n: "show_nat 0 = ''0''" "show_nat (Suc 0) = ''1''" by code_simp+
  have one: "snd (Y_load [''a''] 0 True True js_hint jsl_init) = jsl_init\<lparr>A_I := 1,
      A_r := (\<lambda>_. [])(js_hint := [''a'']), A_L := (\<lambda>_. [])(js_hint := []),
      A_CP := [Waits \<lparr>rq_hint = js_hint, rq_mods = [''a''], rq_callback = 0, rq_timeout = True\<rparr>],
      urls := [(0, js_hint, [''a''], ''https://apis.google.com/js/k=v/m=a/rt=j/sv=1/d=1/ed=1/cb=gapi.loaded_0'')]\<rparr>"
    using Y_load_asked [of "[''a'']" jsl_init js_hint "[''a'']" _ 0 True]
    by (simp add: ab n T_diff_def jsl_init_def loads_addresses)
  show ?thesis
    unfolding two_loads_def one
    using Y_load_asked [of "[''b'']" _ js_hint "[''b'']" _ 1 False]
    by (simp add: ab n T_diff_def jsl_init_def loads_addresses)
qed

lemma two_loads_reached: "loader_steps jsl_init two_loads"
  unfolding two_loads_def
  by (rule loader_steps.more [OF loader_steps.more [OF start load] load])

lemma late_load_reached: "loader_steps jsl_init late_load"
proof -
  note 1 = two_loads_reached
  have 2: "loader_steps jsl_init (arrive 1 two_loads)"
    by (rule loader_steps.more [OF 1 loader_step.script]) (simp_all add: two_loads_eq)
  have 3: "loader_steps jsl_init (timeout_fires 0 (arrive 1 two_loads))"
    by (rule loader_steps.more [OF 2 loader_step.timer]) (simp_all add: two_loads_eq arrive_def has_timer_def)
  show ?thesis unfolding late_load_def
    by (rule loader_steps.more [OF 3 loader_step.script]) (simp_all add: two_loads_eq arrive_def timeout_fires_def)
qed

lemma late_load_values:
  "A_CP late_load = [Gone, Deferred \<lparr>rq_hint = js_hint, rq_mods = [''b''], rq_callback = 1, rq_timeout = False\<rparr>]"
  "ran late_load = []" "expired late_load = [0]"
  by (simp_all add: late_load_def two_loads_eq arrive_def timeout_fires_def)

theorem loads_in_order_witness: "distinct (requested js_hint two_loads) \<and> requested js_hint two_loads = [''a'', ''b'']"
  using loads_in_order [OF two_loads_reached, of js_hint] by (simp add: requested_def two_loads_eq)

lemma loader_step_deferred:
  assumes "loader_step s s'" and ok: "slots_ok s" and t: "t < length (A_CP s)" "A_CP s ! t = Deferred q"
    "0 < t" "A_CP s ! (t - 1) = Gone"
  shows "t < length (A_CP s') \<and> A_CP s' ! t = Deferred q \<and> A_CP s' ! (t - 1) = Gone"
proof -
  have arrive: "t < length (A_CP (arrive n u)) \<and> A_CP (arrive n u) ! t = Deferred q \<and> A_CP (arrive n u) ! (t - 1) = Gone"
    if u: "n < length (A_CP u)" "A_CP u ! n = Waits p" "t < length (A_CP u)" "A_CP u ! t = Deferred q"
      "A_CP u ! (t - 1) = Gone" "slots_ok u" for n u p
  proof -
    have "A_CP u ! i = Gone" if "i < t" for i
      using that u(3,5) slots_okD(1) [OF u(6), of i "t - 1"] by (cases "i = t - 1") auto
    with u(2,4) have n: "t < n" by (metis linorder_neqE_nat slot.distinct(1) slot.distinct(5))
    from u(1,2) show ?thesis
    proof (cases rule: arrive_cases)
      case deferred
      with n u t(3) show ?thesis by simp
    next
      case (run k lg)
      with n u t(3) show ?thesis by (simp add: nth_append)
    qed
  qed
  from assms(1) show ?thesis
  proof cases
    case (load a d f l c)
    show ?thesis
    proof (cases a d f l c s rule: Y_load_cases)
      case (empty s1 q')
      have "slots_ok s1" using slots_ok_wait [OF ok, of s1 q'] empty(2) by simp
      with arrive [of "length (A_CP s)" s1 q'] empty load t show ?thesis by (simp add: nth_append)
    qed (use load t in \<open>auto simp: nth_append\<close>)
  next
    case (script n p)
    with arrive [of n s p] ok t show ?thesis by simp
  next
    case (timer n)
    with t show ?thesis by (simp add: timeout_fires_def)
  qed
qed

text \<open>C10. A load whose turn came after an expired one never runs: a slot that is deferred behind an
  emptied slot stays deferred through every further load, script and timer. Such a state is reached
  when the script of a later load comes first and the timer of the earlier load fires.\<close>

theorem late_loads_stuck:
  assumes "loader_steps jsl_init s" and "t < length (A_CP s)" and "A_CP s ! t = Deferred q"
    and "0 < t" and "A_CP s ! (t - 1) = Gone" and "loader_steps s s'"
  shows "A_CP s' ! t = Deferred q \<and> t \<notin> fst ` set (ran s')"
proof -
  have "slots_ok s' \<and> requests_ok s' \<and> t < length (A_CP s') \<and> A_CP s' ! t = Deferred q \<and> A_CP s' ! (t - 1) = Gone"
    using assms(6) loader_reach_ok [OF assms(1)] assms(2-5)
  proof (induction s s' rule: loader_steps.induct)
    case (more s u v)
    then show ?case using loader_step_ok [of u v] loader_step_deferred [of u v t q] by blast
  qed simp
  then show ?thesis using slots_okD(3) [of s' t] by fastforce
qed

theorem late_loads_stuck_witness:
  "A_CP (snd (Y_load [''c''] 2 False False js_hint late_load)) ! 1 =
    Deferred \<lparr>rq_hint = js_hint, rq_mods = [''b''], rq_callback = 1, rq_timeout = False\<rparr>"
proof -
  have "loader_steps late_load (snd (Y_load [''c''] 2 False False js_hint late_load))"
    by (rule loader_steps.more [OF start load])
  from late_loads_stuck [OF late_load_reached _ _ _ _ this, of 1] late_load_values show ?thesis by simp
qed

end
