(* ===== verification/Closure_Events.thy ===== *)
theory Closure_Events
  imports Js_Prelude "HOL-Library.AList"
begin

text \<open>
  Events of the survey script (\<open>prompt_embed_static.js\<close>, lines 51 to 61): listener objects \<open>be\<close>, the
  listener map \<open>de\<close> of an event target (\<open>add\<close>, \<open>remove\<close>, \<open>fe\<close>, \<open>oc\<close>, \<open>Pf\<close>, \<open>hasListener\<close>, the
  search \<open>ee\<close>), and \<open>dispatchEvent\<close> with its capture and bubble phases (\<open>we\<close>).

  Listener objects are shared between a map and a running dispatch, so they live in a store under
  their \<open>key\<close>. Event types are strings; a listener map is an association list from types to keys. The
  code of a handler is a parameter: it gets the listener, the state and the event, and returns both
  with its result. \<open>trace\<close> records each call of a handler with the target it is called for.

  Shown: the listener map counts its types, never holds a removed listener, and never two equal
  ones; handlers that only look are called in the order of the phases.
\<close>

record be =
  be_listener :: nat
  be_src :: nat
  be_type :: string
  be_capture :: bool
  be_wh :: nat
  be_nf :: bool
  be_Qg :: bool

record de =
  La :: "(string \<times> nat list) list"
  Ig :: nat

record 'w events =
  listeners :: "nat \<Rightarrow> be"
  ae :: nat
  Nb :: "nat \<Rightarrow> de"
  Gk :: "nat \<Rightarrow> nat option"
  trace :: "(nat \<times> nat) list"
  outside :: 'w

definition de_new :: de where
  "de_new = \<lparr>La = [], Ig = 0\<rparr>"

text \<open>\<open>ee\<close>: the index of a live listener with this function, phase and scope.\<close>

fun ee :: "(nat \<Rightarrow> be) \<Rightarrow> nat list \<Rightarrow> nat \<Rightarrow> bool \<Rightarrow> nat \<Rightarrow> nat option" where
  "ee st [] b c d = None"
| "ee st (k # ks) b c d =
     (if \<not> be_nf (st k) \<and> be_listener (st k) = b \<and> be_capture (st k) = c \<and> be_wh (st k) = d then Some 0
      else map_option Suc (ee st ks b c d))"

definition ce :: "nat \<Rightarrow> 'w events \<Rightarrow> 'w events" where
  "ce k s = s\<lparr>listeners := (listeners s)(k := (listeners s k)\<lparr>be_nf := True\<rparr>)\<rparr>"

definition set_list :: "nat \<Rightarrow> string \<Rightarrow> nat list \<Rightarrow> 'w events \<Rightarrow> 'w events" where
  "set_list t a ks s = s\<lparr>Nb := (Nb s)(t := (Nb s t)\<lparr>La := AList.update a ks (La (Nb s t))\<rparr>)\<rparr>"

definition drop_type :: "nat \<Rightarrow> string \<Rightarrow> 'w events \<Rightarrow> 'w events" where
  "drop_type t a s = s\<lparr>Nb := (Nb s)(t := \<lparr>La = AList.delete a (La (Nb s t)), Ig = Ig (Nb s t) - 1\<rparr>)\<rparr>"

text \<open>\<open>add\<close>: an equal listener is kept; adding it again without \<open>once\<close> makes it permanent.\<close>

definition de_add :: "nat \<Rightarrow> string \<Rightarrow> nat \<Rightarrow> bool \<Rightarrow> bool \<Rightarrow> nat \<Rightarrow> 'w events \<Rightarrow> nat \<times> 'w events" where
  "de_add t g b c d e s =
     (let s = (case map_of (La (Nb s t)) g of
            None \<Rightarrow> s\<lparr>Nb := (Nb s)(t := \<lparr>La = AList.update g [] (La (Nb s t)), Ig = Ig (Nb s t) + 1\<rparr>)\<rparr>
          | Some _ \<Rightarrow> s);
          a = the (map_of (La (Nb s t)) g)
      in case ee (listeners s) a b d e of
           Some h \<Rightarrow> (a ! h, if c then s
             else s\<lparr>listeners := (listeners s)(a ! h := (listeners s (a ! h))\<lparr>be_Qg := False\<rparr>)\<rparr>)
         | None \<Rightarrow>
           (let k = Suc (ae s);
                s = s\<lparr>ae := k, listeners := (listeners s)(k :=
                  \<lparr>be_listener = b, be_src = t, be_type = g, be_capture = d, be_wh = e, be_nf = False, be_Qg = c\<rparr>)\<rparr>
            in (k, set_list t g (a @ [k]) s)))"

definition drop_nth :: "nat \<Rightarrow> 'a list \<Rightarrow> 'a list" where
  "drop_nth i xs = take i xs @ drop (Suc i) xs"

definition de_remove :: "nat \<Rightarrow> string \<Rightarrow> nat \<Rightarrow> bool \<Rightarrow> nat \<Rightarrow> 'w events \<Rightarrow> bool \<times> 'w events" where
  "de_remove t a b c d s =
     (case map_of (La (Nb s t)) a of
        None \<Rightarrow> (False, s)
      | Some e \<Rightarrow>
        (case ee (listeners s) e b c d of
           None \<Rightarrow> (False, s)
         | Some i \<Rightarrow>
           (let s = ce (e ! i) s; e = drop_nth i e
            in (True, if e = [] then drop_type t a s else set_list t a e s))))"

text \<open>\<open>fe\<close>: a listener object is taken out of its map.\<close>

fun index_nat :: "nat list \<Rightarrow> nat \<Rightarrow> nat option" where
  "index_nat [] k = None"
| "index_nat (x # xs) k = (if x = k then Some 0 else map_option Suc (index_nat xs k))"

definition fe :: "nat \<Rightarrow> nat \<Rightarrow> 'w events \<Rightarrow> bool \<times> 'w events" where
  "fe t k s =
     (let c = be_type (listeners s k)
      in case map_of (La (Nb s t)) c of
           None \<Rightarrow> (False, s)
         | Some e \<Rightarrow>
           (case index_nat e k of
              None \<Rightarrow> (False, s)
            | Some i \<Rightarrow>
              (let e = drop_nth i e; s = ce k (set_list t c e s)
               in (True, if e = [] then drop_type t c s else s))))"

text \<open>\<open>oc\<close>: all listeners, or all of one type, are removed.\<close>

definition oc_one :: "nat \<Rightarrow> string \<times> nat list \<Rightarrow> 'w events \<Rightarrow> 'w events" where
  "oc_one t = (\<lambda>(c, ks) s. drop_type t c (foldl (\<lambda>s k. ce k s) s ks))"

definition de_oc :: "nat \<Rightarrow> string option \<Rightarrow> 'w events \<Rightarrow> 'w events" where
  "de_oc t a s =
     foldl (\<lambda>s x. if (case a of None \<Rightarrow> True | Some b \<Rightarrow> b = [] \<or> fst x = b) then oc_one t x s else s) s (La (Nb s t))"

definition de_Pf :: "nat \<Rightarrow> string \<Rightarrow> nat \<Rightarrow> bool \<Rightarrow> nat \<Rightarrow> 'w events \<Rightarrow> nat option" where
  "de_Pf t a b c d s =
     (case map_of (La (Nb s t)) a of
        None \<Rightarrow> None
      | Some ks \<Rightarrow> map_option ((!) ks) (ee (listeners s) ks b c d))"

definition has_listener :: "nat \<Rightarrow> string option \<Rightarrow> bool option \<Rightarrow> 'w events \<Rightarrow> bool" where
  "has_listener t a b s =
     list_ex (\<lambda>(c, ks). list_ex (\<lambda>k. (case a of None \<Rightarrow> True | Some x \<Rightarrow> be_type (listeners s k) = x) \<and>
       (case b of None \<Rightarrow> True | Some x \<Rightarrow> be_capture (listeners s k) = x)) ks) (La (Nb s t))"

subsection \<open>Dispatch\<close>

record event =
  ev_type :: string
  ev_oe :: bool
  ev_no :: bool

type_synonym 'w handler = "be \<Rightarrow> 'w events \<Rightarrow> event \<Rightarrow> 'w events \<times> event \<times> bool"

text \<open>The loop of \<open>we\<close> over a copy of the list: a listener removed meanwhile is skipped, one that is
  to run once is removed before it runs; \<open>run\<close> returns whether the result is not \<open>false\<close>.\<close>

fun we_loop :: "'w handler \<Rightarrow> nat \<Rightarrow> bool \<Rightarrow> nat list \<Rightarrow> 'w events \<Rightarrow> event \<Rightarrow> bool \<Rightarrow> 'w events \<times> event \<times> bool" where
  "we_loop run t c [] s ev e = (s, ev, e)"
| "we_loop run t c (k # ks) s ev e =
     (let h = listeners s k
      in if \<not> be_nf h \<and> be_capture h = c
         then (let s = (if be_Qg h then snd (fe t k s) else s);
                   (s, ev, r) = run h (s\<lparr>trace := trace s @ [(t, k)]\<rparr>) ev
               in we_loop run t c ks s ev (r \<and> e))
         else we_loop run t c ks s ev e)"

definition we :: "'w handler \<Rightarrow> nat \<Rightarrow> bool \<Rightarrow> 'w events \<Rightarrow> event \<Rightarrow> 'w events \<times> event \<times> bool" where
  "we run t c s ev =
     (case map_of (La (Nb s t)) (ev_type ev) of
        None \<Rightarrow> (s, ev, True)
      | Some ks \<Rightarrow> (case we_loop run t c ks s ev True of (s, ev, e) \<Rightarrow> (s, ev, e \<and> ev_no ev)))"

text \<open>The parents of a target, nearest first; the assertion stops at a chain of 999.\<close>

fun ancestors :: "nat \<Rightarrow> (nat \<Rightarrow> nat option) \<Rightarrow> nat option \<Rightarrow> nat list option" where
  "ancestors n up None = Some []"
| "ancestors 0 up (Some b) = None"
| "ancestors (Suc n) up (Some b) = map_option ((#) b) (ancestors n up (up b))"

fun phase :: "'w handler \<Rightarrow> bool \<Rightarrow> nat list \<Rightarrow> 'w events \<times> event \<times> bool \<Rightarrow> 'w events \<times> event \<times> bool" where
  "phase run c [] x = x"
| "phase run c (t # ts) (s, ev, e) =
     (if ev_oe ev then (s, ev, e)
      else (case we run t c s ev of (s, ev, r) \<Rightarrow> phase run c ts (s, ev, r \<and> e)))"

definition dispatch_event :: "'w handler \<Rightarrow> nat \<Rightarrow> string \<Rightarrow> 'w events \<Rightarrow> ('w events \<times> event \<times> bool) option" where
  "dispatch_event run b a s =
     (case ancestors 998 (Gk s) (Gk s b) of
        None \<Rightarrow> None
      | Some c \<Rightarrow>
        (let x = phase run True (rev c) (s, \<lparr>ev_type = a, ev_oe = False, ev_no = True\<rparr>, True);
             x = phase run False [b] (phase run True [b] x)
         in Some (phase run False c x)))"

subsection \<open>The listener maps\<close>

definition view :: "be \<Rightarrow> nat \<times> nat \<times> string \<times> bool \<times> nat \<times> bool" where
  "view b = (be_listener b, be_src b, be_type b, be_capture b, be_wh b, be_nf b)"

definition list_ok :: "'w events \<Rightarrow> nat \<Rightarrow> string \<Rightarrow> nat list \<Rightarrow> bool" where
  "list_ok s t c ks \<longleftrightarrow> distinct ks \<and>
     (\<forall>k \<in> set ks. k \<le> ae s \<and> \<not> be_nf (listeners s k) \<and> be_type (listeners s k) = c \<and> be_src (listeners s k) = t) \<and>
     inj_on (\<lambda>k. (be_listener (listeners s k), be_capture (listeners s k), be_wh (listeners s k))) (set ks)"

definition target_ok :: "'w events \<Rightarrow> nat \<Rightarrow> bool" where
  "target_ok s t \<longleftrightarrow> distinct (map fst (La (Nb s t))) \<and> Ig (Nb s t) = length (La (Nb s t)) \<and>
     (\<forall>c ks. map_of (La (Nb s t)) c = Some ks \<longrightarrow> ks \<noteq> [] \<and> list_ok s t c ks)"

definition events_ok :: "'w events \<Rightarrow> bool" where
  "events_ok s \<longleftrightarrow> (\<forall>t. target_ok s t)"

lemma target_okI:
  assumes "distinct (map fst (La (Nb s t)))" and "Ig (Nb s t) = length (La (Nb s t))"
    and "\<And>c ks. map_of (La (Nb s t)) c = Some ks \<Longrightarrow> ks \<noteq> [] \<and> list_ok s t c ks"
  shows "target_ok s t"
  using assms by (simp add: target_ok_def)

lemma target_okD:
  assumes "target_ok s t"
  shows "distinct (map fst (La (Nb s t)))" "Ig (Nb s t) = length (La (Nb s t))"
    "\<And>c ks. map_of (La (Nb s t)) c = Some ks \<Longrightarrow> ks \<noteq> [] \<and> list_ok s t c ks"
  using assms by (auto simp: target_ok_def)

lemma events_okD: "events_ok s \<Longrightarrow> target_ok s t"
  by (simp add: events_ok_def)

lemma list_ok_frame:
  assumes "list_ok s t c ks" and "\<forall>k \<in> set ks. view (listeners s' k) = view (listeners s k)" and "ae s \<le> ae s'"
  shows "list_ok s' t c ks"
  using assms unfolding list_ok_def view_def inj_on_def by (auto dest: order_trans)

lemma length_AList_update:
  "length (AList.update a b xs) = (if a \<in> fst ` set xs then length xs else Suc (length xs))"
  by (induction xs) auto

lemma length_AList_delete:
  "distinct (map fst xs) \<Longrightarrow> length (AList.delete a xs) = (if a \<in> fst ` set xs then length xs - 1 else length xs)"
proof (induction xs)
  case (Cons x xs)
  then show ?case by (cases "xs = []") (auto simp: AList.delete_eq)
qed (simp add: AList.delete_eq)

lemma map_of_keys: "map_of xs c = Some ks \<Longrightarrow> c \<in> fst ` set xs"
  by (metis domI dom_map_of_conv_image_fst)

lemma set_drop_nth: "i < length ks \<Longrightarrow> distinct ks \<Longrightarrow> set (drop_nth i ks) = set ks - {ks ! i} \<and> distinct (drop_nth i ks)"
proof -
  assume i: "i < length ks" and d: "distinct ks"
  then have "ks = take i ks @ ks ! i # drop (Suc i) ks" by (simp add: id_take_nth_drop)
  with d have "distinct (take i ks @ ks ! i # drop (Suc i) ks)"
    and "set ks = set (take i ks @ ks ! i # drop (Suc i) ks)" by metis+
  then show ?thesis by (auto simp: drop_nth_def)
qed

text \<open>Taking out one listener: the common part of \<open>remove\<close> and \<open>fe\<close>.\<close>

definition take_out :: "nat \<Rightarrow> string \<Rightarrow> nat list \<Rightarrow> nat \<Rightarrow> 'w events \<Rightarrow> 'w events" where
  "take_out t c ks i s =
     (let s = ce (ks ! i) s in if drop_nth i ks = [] then drop_type t c s else set_list t c (drop_nth i ks) s)"

lemma take_out_ok:
  assumes ok: "events_ok s" and ks: "map_of (La (Nb s t)) c = Some ks" and i: "i < length ks"
  shows "events_ok (take_out t c ks i s)"
  unfolding events_ok_def
proof
  fix u
  let ?k = "ks ! i"
  let ?s = "take_out t c ks i s"
  note T = target_okD [OF events_okD [OF ok, of u]]
  have L: "list_ok s t c ks" using target_okD(3) [OF events_okD [OF ok] ks] by simp
  then have k: "be_src (listeners s ?k) = t" "be_type (listeners s ?k) = c" and d: "distinct ks"
    using i by (auto simp: list_ok_def)
  have st: "listeners ?s = (listeners s)(?k := (listeners s ?k)\<lparr>be_nf := True\<rparr>)" "ae ?s = ae s"
    by (simp_all add: take_out_def ce_def drop_type_def set_list_def Let_def)
  have other: "list_ok ?s u c' ks'" if "map_of (La (Nb s u)) c' = Some ks'" "\<not> (u = t \<and> c' = c)" for c' ks'
  proof -
    have L': "list_ok s u c' ks'" using T(3) that(1) by simp
    with k that(2) have "?k \<notin> set ks'" by (auto simp: list_ok_def)
    with L' show ?thesis by (intro list_ok_frame [OF L']) (auto simp: st)
  qed
  have rest: "list_ok ?s t c (drop_nth i ks)"
  proof -
    have "list_ok s t c (drop_nth i ks)"
      using L set_drop_nth [OF i d] by (auto simp: list_ok_def intro: inj_on_subset)
    then show ?thesis by (rule list_ok_frame) (auto simp: st set_drop_nth [OF i d])
  qed
  have nb: "Nb ?s u = (if u \<noteq> t then Nb s u
      else if drop_nth i ks = [] then \<lparr>La = AList.delete c (La (Nb s t)), Ig = Ig (Nb s t) - 1\<rparr>
      else (Nb s t)\<lparr>La := AList.update c (drop_nth i ks) (La (Nb s t))\<rparr>)"
    by (simp add: take_out_def ce_def drop_type_def set_list_def Let_def)
  show "target_ok ?s u"
  proof (rule target_okI)
    show "distinct (map fst (La (Nb ?s u)))"
      using T(1) by (auto simp: nb distinct_update distinct_delete)
    show "Ig (Nb ?s u) = length (La (Nb ?s u))"
      using T(2) target_okD(1,2) [OF events_okD [OF ok, of t]] map_of_keys [OF ks]
      unfolding nb by (simp add: length_AList_update length_AList_delete)
    show "ks' \<noteq> [] \<and> list_ok ?s u c' ks'" if "map_of (La (Nb ?s u)) c' = Some ks'" for c' ks'
      using that other [of c' ks'] rest T(3) [of c' ks']
      by (auto simp: nb update_conv' delete_conv' split: if_splits)
  qed
qed

lemma ee_Some: "ee st ks b c d = Some i \<Longrightarrow> i < length ks \<and> be_listener (st (ks ! i)) = b \<and> be_capture (st (ks ! i)) = c \<and> be_wh (st (ks ! i)) = d"
  by (induction ks arbitrary: i) (auto split: if_splits)

lemma ee_None:
  "ee st ks b c d = None \<Longrightarrow> k \<in> set ks \<Longrightarrow> \<not> be_nf (st k) \<Longrightarrow>
     \<not> (be_listener (st k) = b \<and> be_capture (st k) = c \<and> be_wh (st k) = d)"
  by (induction ks) (auto split: if_splits)

lemma index_nat_Some: "index_nat ks k = Some i \<Longrightarrow> i < length ks \<and> ks ! i = k"
  by (induction ks arbitrary: i) (auto split: if_splits)

lemma de_remove_take_out:
  "de_remove t a b c d s = (case map_of (La (Nb s t)) a of
       None \<Rightarrow> (False, s)
     | Some e \<Rightarrow> (case ee (listeners s) e b c d of
           None \<Rightarrow> (False, s)
         | Some i \<Rightarrow> (True, take_out t a e i s)))"
  by (auto simp: de_remove_def take_out_def Let_def split: option.split)

lemma de_remove_ok: "events_ok s \<Longrightarrow> events_ok (snd (de_remove t a b c d s))"
  using take_out_ok [of s t a] by (auto simp: de_remove_take_out dest!: ee_Some split: option.split)

lemma fe_take_out:
  "fe t k s = (case map_of (La (Nb s t)) (be_type (listeners s k)) of
       None \<Rightarrow> (False, s)
     | Some e \<Rightarrow> (case index_nat e k of
           None \<Rightarrow> (False, s)
         | Some i \<Rightarrow> (True, take_out t (be_type (listeners s k)) e i s)))"
  by (auto simp: fe_def take_out_def Let_def ce_def set_list_def drop_type_def AList.delete_update_same
      dest!: index_nat_Some split: option.split)

lemma fe_ok: "events_ok s \<Longrightarrow> events_ok (snd (fe t k s))"
  using take_out_ok [of s t "be_type (listeners s k)"]
  by (auto simp: fe_take_out dest!: index_nat_Some split: option.split)

lemma de_add_ok:
  assumes ok: "events_ok s"
  shows "events_ok (snd (de_add t g b c d e s))"
proof -
  let ?L = "La (Nb s t)"
  define a where "a = (case map_of ?L g of None \<Rightarrow> [] | Some a \<Rightarrow> a)"
  have a_ok: "list_ok s t g a"
    using target_okD(3) [OF events_okD [OF ok, of t]] by (auto simp: a_def list_ok_def split: option.split)
  show ?thesis
  proof (cases "ee (listeners s) a b d e")
    case (Some h)
    then obtain a' where g: "map_of ?L g = Some a'" and a: "a' = a"
      by (auto simp: a_def split: option.splits)
    let ?s = "s\<lparr>listeners := (listeners s)(a ! h := (listeners s (a ! h))\<lparr>be_Qg := False\<rparr>)\<rparr>"
    have add: "snd (de_add t g b c d e s) = (if c then s else ?s)"
      using g a Some by (simp add: de_add_def Let_def)
    have "view (listeners ?s k) = view (listeners s k)" for k by (simp add: view_def)
    then have "list_ok ?s u x ks" if "list_ok s u x ks" for u x ks
      by (intro list_ok_frame [OF that]) simp_all
    then have "events_ok ?s" using ok by (simp add: events_ok_def target_ok_def)
    with ok add show ?thesis by simp
  next
    case None
    let ?k = "Suc (ae s)"
    let ?s = "snd (de_add t g b c d e s)"
    have st: "ae ?s = ?k" "listeners ?s = (listeners s)(?k := \<lparr>be_listener = b, be_src = t, be_type = g,
        be_capture = d, be_wh = e, be_nf = False, be_Qg = c\<rparr>)"
      using None by (auto simp: de_add_def a_def Let_def set_list_def update_conv' split: option.split)
    have nb: "Nb ?s u = (if u \<noteq> t then Nb s u
        else \<lparr>La = AList.update g (a @ [?k]) ?L, Ig = (if g \<in> fst ` set ?L then Ig (Nb s t) else Suc (Ig (Nb s t)))\<rparr>)" for u
      using None by (auto simp: de_add_def a_def Let_def set_list_def map_of_eq_None_iff update_conv'
        dest: map_of_keys split: option.split)
    have old: "list_ok ?s u x ks" if "list_ok s u x ks" for u x ks
    proof -
      have "?k \<notin> set ks" using that by (auto simp: list_ok_def)
      then show ?thesis by (intro list_ok_frame [OF that]) (auto simp: st)
    qed
    have a': "\<forall>k \<in> set a. k \<noteq> ?k \<and> \<not> be_nf (listeners s k)" using a_ok by (auto simp: list_ok_def)
    have "inj_on (\<lambda>k. (be_listener (listeners ?s k), be_capture (listeners ?s k), be_wh (listeners ?s k))) (insert ?k (set a))"
      unfolding inj_on_insert
    proof
      show "inj_on (\<lambda>k. (be_listener (listeners ?s k), be_capture (listeners ?s k), be_wh (listeners ?s k))) (set a)"
        using old [OF a_ok] by (simp add: list_ok_def)
      show "(be_listener (listeners ?s ?k), be_capture (listeners ?s ?k), be_wh (listeners ?s ?k)) \<notin>
          (\<lambda>k. (be_listener (listeners ?s k), be_capture (listeners ?s k), be_wh (listeners ?s k))) ` (set a - {?k})"
        unfolding st using ee_None [OF None] a' by fastforce
    qed
    with old [OF a_ok] a' have new: "list_ok ?s t g (a @ [?k])"
      by (auto simp: list_ok_def st)
    show ?thesis unfolding events_ok_def
    proof
      fix u
      note T = target_okD [OF events_okD [OF ok, of u]]
      show "target_ok ?s u"
      proof (rule target_okI)
        show "distinct (map fst (La (Nb ?s u)))"
          using T(1) target_okD(1) [OF events_okD [OF ok, of t]] by (simp add: nb distinct_update)
        show "Ig (Nb ?s u) = length (La (Nb ?s u))"
          using T(2) target_okD(2) [OF events_okD [OF ok, of t]] by (simp add: nb length_AList_update)
        show "ks \<noteq> [] \<and> list_ok ?s u x ks" if "map_of (La (Nb ?s u)) x = Some ks" for x ks
          using that new T(3) [of x ks] old by (auto simp: nb update_conv' split: if_splits)
      qed
    qed
  qed
qed

lemma drop_type_fold: "Nb (foldl (\<lambda>s k. ce k s) s ks) = Nb s" "ae (foldl (\<lambda>s k. ce k s) s ks) = ae s"
  "k \<notin> set ks \<Longrightarrow> listeners (foldl (\<lambda>s k. ce k s) s ks) k = listeners s k"
  by (induction ks arbitrary: s) (auto simp: ce_def)

lemma oc_one_ok:
  assumes ok: "events_ok s" and x: "map_of (La (Nb s t)) c = Some ks"
  shows "events_ok (oc_one t (c, ks) s)"
  unfolding events_ok_def
proof
  fix u
  let ?s = "oc_one t (c, ks) s"
  note T = target_okD [OF events_okD [OF ok, of u]]
  have L: "list_ok s t c ks" using target_okD(3) [OF events_okD [OF ok] x] by simp
  have st: "ae ?s = ae s" "k \<notin> set ks \<Longrightarrow> listeners ?s k = listeners s k" for k
    by (simp_all add: oc_one_def drop_type_def drop_type_fold)
  have nb: "Nb ?s u = (if u \<noteq> t then Nb s u else \<lparr>La = AList.delete c (La (Nb s t)), Ig = Ig (Nb s t) - 1\<rparr>)"
    by (simp add: oc_one_def drop_type_def drop_type_fold)
  have other: "list_ok ?s u c' ks'" if "map_of (La (Nb s u)) c' = Some ks'" "\<not> (u = t \<and> c' = c)" for c' ks'
  proof -
    have L': "list_ok s u c' ks'" using T(3) that(1) by simp
    with L that(2) have "k \<notin> set ks" if "k \<in> set ks'" for k using that by (auto simp: list_ok_def)
    then show ?thesis by (intro list_ok_frame [OF L']) (simp_all add: st)
  qed
  show "target_ok ?s u"
  proof (rule target_okI)
    show "distinct (map fst (La (Nb ?s u)))"
      using T(1) target_okD(1) [OF events_okD [OF ok, of t]] by (simp add: nb distinct_delete)
    show "Ig (Nb ?s u) = length (La (Nb ?s u))"
      using T(2) target_okD(1,2) [OF events_okD [OF ok, of t]] map_of_keys [OF x]
      unfolding nb by (simp add: length_AList_delete)
    show "ks' \<noteq> [] \<and> list_ok ?s u c' ks'" if "map_of (La (Nb ?s u)) c' = Some ks'" for c' ks'
      using that other [of c' ks'] T(3) [of c' ks'] by (auto simp: nb delete_conv' split: if_splits)
  qed
qed

lemma oc_fold_ok:
  "events_ok s \<Longrightarrow> distinct (map fst xs) \<Longrightarrow> (\<forall>(c, ks) \<in> set xs. map_of (La (Nb s t)) c = Some ks) \<Longrightarrow>
     events_ok (foldl (\<lambda>s x. if P x then oc_one t x s else s) s xs)"
proof (induction xs arbitrary: s)
  case (Cons x xs)
  obtain c ks where x: "x = (c, ks)" by fastforce
  let ?s = "if P x then oc_one t x s else s"
  have "events_ok ?s" using Cons.prems oc_one_ok [of s t c ks] by (simp add: x)
  moreover have "La (Nb ?s t) = (if P x then AList.delete c (La (Nb s t)) else La (Nb s t))"
    by (simp add: x oc_one_def drop_type_def drop_type_fold)
  then have "\<forall>(c, ks) \<in> set xs. map_of (La (Nb ?s t)) c = Some ks"
    using Cons.prems x by (auto simp: delete_conv' rev_image_eqI split: if_splits)
  ultimately show ?case using Cons by simp
qed simp

lemma de_oc_ok: "events_ok s \<Longrightarrow> events_ok (de_oc t a s)"
  unfolding de_oc_def using target_okD(1) [OF events_okD, of s t]
  by (intro oc_fold_ok) auto

inductive events_step :: "'w events \<Rightarrow> 'w events \<Rightarrow> bool" where
  add: "events_step s (snd (de_add t g b c d e s))"
| remove: "events_step s (snd (de_remove t a b c d s))"
| unlisten: "events_step s (snd (fe t k s))"
| clear: "events_step s (de_oc t a s)"
| outer: "events_step s (s\<lparr>trace := tr, outside := w, Gk := up\<rparr>)"

inductive events_steps :: "'w events \<Rightarrow> 'w events \<Rightarrow> bool" where
  none: "events_steps s s"
| more: "events_steps s t \<Longrightarrow> events_step t u \<Longrightarrow> events_steps s u"

lemma events_outer_ok: "events_ok s \<Longrightarrow> events_ok (s\<lparr>trace := tr, outside := w, Gk := up\<rparr>)"
  by (simp add: events_ok_def target_ok_def list_ok_def)

lemma events_step_ok: "events_step s s' \<Longrightarrow> events_ok s \<Longrightarrow> events_ok s'"
  by (cases rule: events_step.cases) (auto intro: de_add_ok de_remove_ok fe_ok de_oc_ok events_outer_ok)

lemma events_steps_ok: "events_steps s s' \<Longrightarrow> events_ok s \<Longrightarrow> events_ok s'"
  by (induction rule: events_steps.induct) (auto intro: events_step_ok)

definition events_start :: "'w events \<Rightarrow> bool" where
  "events_start s \<longleftrightarrow> Nb s = (\<lambda>_. de_new) \<and> ae s = 0"

text \<open>C11. Through every sequence of additions and removals the listener map of each target counts
  exactly its types with listeners (no empty list is kept), holds only live listeners of that target
  and type, and never two with the same function, phase and scope.\<close>

theorem listener_maps:
  assumes "events_start s" and "events_steps s s'"
  shows "Ig (Nb s' t) = card (dom (map_of (La (Nb s' t)))) \<and>
    (\<forall>c ks. map_of (La (Nb s' t)) c = Some ks \<longrightarrow> ks \<noteq> [] \<and>
      (\<forall>k \<in> set ks. \<not> be_nf (listeners s' k) \<and> be_src (listeners s' k) = t \<and> be_type (listeners s' k) = c) \<and>
      (\<forall>b d e. card {k \<in> set ks. be_listener (listeners s' k) = b \<and> be_capture (listeners s' k) = d \<and>
        be_wh (listeners s' k) = e} \<le> 1))"
proof -
  have "events_ok s" using assms(1) by (simp add: events_start_def events_ok_def target_ok_def de_new_def)
  from events_okD [OF events_steps_ok [OF assms(2) this]] have ok: "target_ok s' t" .
  have "Ig (Nb s' t) = card (dom (map_of (La (Nb s' t))))"
    using target_okD(1,2) [OF ok] by (metis dom_map_of_conv_image_fst distinct_card length_map set_map)
  moreover have "card {k \<in> set ks. be_listener (listeners s' k) = b \<and> be_capture (listeners s' k) = d \<and>
      be_wh (listeners s' k) = e} \<le> 1" if "map_of (La (Nb s' t)) c = Some ks" for c ks b d e
  proof -
    let ?K = "{k \<in> set ks. be_listener (listeners s' k) = b \<and> be_capture (listeners s' k) = d \<and> be_wh (listeners s' k) = e}"
    have "k = l" if "k \<in> ?K" "l \<in> ?K" for k l
      using that target_okD(3) [OF ok \<open>map_of (La (Nb s' t)) c = Some ks\<close>]
      by (auto simp: list_ok_def inj_on_def)
    then show ?thesis by (metis (no_types, lifting) One_nat_def card_le_Suc0_iff_eq finite_set finite_subset mem_Collect_eq subsetI)
  qed
  ultimately show ?thesis using target_okD(3) [OF ok] by (auto simp: list_ok_def)
qed

theorem listener_maps_witness:
  fixes s :: "unit events"
  defines "s \<equiv> \<lparr>listeners = (\<lambda>_. undefined), ae = 0, Nb = (\<lambda>_. de_new), Gk = (\<lambda>_. None), trace = [], outside = ()\<rparr>"
  shows "Ig (Nb (snd (de_add 0 ''click'' 7 False False 0 s)) 0) = card {''click''}"
proof -
  let ?s = "snd (de_add 0 ''click'' 7 False False 0 s)"
  have "events_start s" by (simp add: s_def events_start_def)
  moreover have "events_steps s ?s" by (rule events_steps.more [OF none events_step.add])
  ultimately have "Ig (Nb ?s 0) = card (dom (map_of (La (Nb ?s 0))))"
    by (rule listener_maps [THEN conjunct1])
  moreover have "map_of (La (Nb ?s 0)) = [''click'' \<mapsto> [1]]"
    by (auto simp: s_def de_add_def de_new_def set_list_def Let_def)
  ultimately show ?thesis by simp
qed

subsection \<open>The phases\<close>

text \<open>The calls of one target in one phase, and the plan of a dispatch.\<close>

definition calls :: "'w events \<Rightarrow> string \<Rightarrow> bool \<times> nat \<Rightarrow> (nat \<times> nat) list" where
  "calls s a = (\<lambda>(c, t). map (Pair t)
     (filter (\<lambda>k. \<not> be_nf (listeners s k) \<and> be_capture (listeners s k) = c)
       (case map_of (La (Nb s t)) a of None \<Rightarrow> [] | Some ks \<Rightarrow> ks)))"

definition plan :: "nat \<Rightarrow> nat list \<Rightarrow> (bool \<times> nat) list" where
  "plan b anc = map (Pair True) (rev anc) @ [(True, b), (False, b)] @ map (Pair False) anc"

text \<open>A handler that changes neither the listeners nor the type of the event.\<close>

definition quiet :: "'w handler \<Rightarrow> bool" where
  "quiet run \<longleftrightarrow> (\<forall>h s ev. fst (run h s ev) = s \<and> ev_type (fst (snd (run h s ev))) = ev_type ev)"

definition with_trace :: "'w events \<Rightarrow> (nat \<times> nat) list \<Rightarrow> 'w events" where
  "with_trace s tr = s\<lparr>trace := tr\<rparr>"

lemma with_trace_simps [simp]:
  "listeners (with_trace s tr) = listeners s" "Nb (with_trace s tr) = Nb s" "Gk (with_trace s tr) = Gk s"
  "trace (with_trace s tr) = tr" "with_trace (with_trace s tr) tr' = with_trace s tr'"
  "calls (with_trace s tr) = calls s"
  by (auto simp: with_trace_def calls_def fun_eq_iff)

lemma we_loop_quiet:
  assumes "quiet run" and "\<forall>k \<in> set ks. \<not> be_Qg (listeners s k)"
  shows "\<exists>ev' e'. we_loop run t c ks s ev e =
    (with_trace s (trace s @ map (Pair t) (filter (\<lambda>k. \<not> be_nf (listeners s k) \<and> be_capture (listeners s k) = c) ks)), ev', e') \<and>
    ev_type ev' = ev_type ev"
  using assms(2)
proof (induction ks arbitrary: s ev e)
  case Nil
  then show ?case by (simp add: with_trace_def)
next
  case (Cons k ks)
  show ?case
  proof (cases "\<not> be_nf (listeners s k) \<and> be_capture (listeners s k) = c")
    case True
    let ?s = "with_trace s (trace s @ [(t, k)])"
    obtain ev1 r where r: "run (listeners s k) ?s ev = (?s, ev1, r)" "ev_type ev1 = ev_type ev"
      using assms(1) by (metis quiet_def prod.collapse)
    have "we_loop run t c (k # ks) s ev e = we_loop run t c ks ?s ev1 (r \<and> e)"
      using True Cons.prems r(1) by (simp add: Let_def with_trace_def)
    with Cons.IH [of ?s ev1 "r \<and> e"] Cons.prems True r(2) show ?thesis by (auto simp: with_trace_def)
  next
    case False
    with Cons show ?thesis by (auto simp: Let_def)
  qed
qed

definition no_once :: "'w events \<Rightarrow> bool" where
  "no_once s \<longleftrightarrow> (\<forall>k. \<not> be_Qg (listeners s k))"

lemma we_quiet:
  assumes "quiet run" and "no_once s"
  shows "\<exists>ev' e'. we run t c s ev = (with_trace s (trace s @ calls s (ev_type ev) (c, t)), ev', e') \<and> ev_type ev' = ev_type ev"
proof (cases "map_of (La (Nb s t)) (ev_type ev)")
  case None
  then show ?thesis by (auto simp: we_def calls_def with_trace_def)
next
  case (Some ks)
  from we_loop_quiet [OF assms(1), of ks s t c ev True] assms(2) obtain ev' e' where
    "we_loop run t c ks s ev True = (with_trace s (trace s @ calls s (ev_type ev) (c, t)), ev', e')" "ev_type ev' = ev_type ev"
    by (auto simp: no_once_def calls_def Some)
  with Some show ?thesis by (simp add: we_def)
qed

text \<open>The four loops are one walk over the plan.\<close>

fun walk :: "'w handler \<Rightarrow> (bool \<times> nat) list \<Rightarrow> 'w events \<times> event \<times> bool \<Rightarrow> 'w events \<times> event \<times> bool" where
  "walk run [] x = x"
| "walk run ((c, t) # ps) (s, ev, e) =
     (if ev_oe ev then (s, ev, e)
      else (case we run t c s ev of (s, ev, r) \<Rightarrow> walk run ps (s, ev, r \<and> e)))"

lemma walk_stopped: "ev_oe ev \<Longrightarrow> walk run ps (s, ev, e) = (s, ev, e)"
  by (cases ps) auto

lemma walk_append: "walk run (ps @ qs) x = walk run qs (walk run ps x)"
  by (induction run ps x rule: walk.induct) (auto simp: walk_stopped split: prod.splits)

lemma phase_walk: "phase run c ts x = walk run (map (Pair c) ts) x"
  by (induction run c ts x rule: phase.induct) (auto split: prod.splits)

lemma dispatch_walk:
  "dispatch_event run b a s = map_option (\<lambda>anc. walk run (plan b anc) (s, \<lparr>ev_type = a, ev_oe = False, ev_no = True\<rparr>, True))
     (ancestors 998 (Gk s) (Gk s b))"
proof -
  have "plan b anc = map (Pair True) (rev anc) @ map (Pair True) [b] @ map (Pair False) [b] @ map (Pair False) anc" for anc
    by (simp add: plan_def)
  then show ?thesis
    by (simp add: dispatch_event_def phase_walk walk_append Let_def del: walk.simps list.map split: option.split)
qed

lemma walk_quiet:
  assumes "quiet run" and "no_once s"
  shows "\<exists>n ev' e'. walk run ps (s, ev, e) =
      (with_trace s (trace s @ concat (take n (map (calls s (ev_type ev)) ps))), ev', e') \<and> (ev_oe ev' \<or> n = length ps)"
  using assms(2)
proof (induction ps arbitrary: s ev e)
  case Nil
  then show ?case by (auto simp: with_trace_def)
next
  case (Cons p ps)
  obtain c t where p: "p = (c, t)" by fastforce
  show ?case
  proof (cases "ev_oe ev")
    case True
    then show ?thesis by (intro exI [of _ 0]) (auto simp: with_trace_def p)
  next
    case False
    let ?s = "with_trace s (trace s @ calls s (ev_type ev) p)"
    from we_quiet [OF assms(1) Cons.prems] obtain ev1 r where
      w: "we run t c s ev = (?s, ev1, r)" "ev_type ev1 = ev_type ev" unfolding p by blast
    have "no_once ?s" using Cons.prems by (simp add: no_once_def)
    from Cons.IH [OF this, of ev1 "r \<and> e"] obtain n ev2 e2 where
      IH: "walk run ps (?s, ev1, r \<and> e) = (with_trace s (trace s @ calls s (ev_type ev) p @
          concat (take n (map (calls s (ev_type ev)) ps))), ev2, e2)" "ev_oe ev2 \<or> n = length ps"
      by (auto simp: w(2))
    have "walk run (p # ps) (s, ev, e) = walk run ps (?s, ev1, r \<and> e)" using w False by (simp add: p)
    then show ?thesis using IH by (intro exI [of _ "Suc n"]) auto
  qed
qed

text \<open>C12. Handlers that leave the listeners alone are called in the order of the plan: the capture
  listeners of the outermost ancestor first, down to the target, then the other listeners from the
  target outwards; an early end is always at a target's end and only after propagation has been stopped.\<close>

theorem dispatch_order:
  assumes "quiet run" and "no_once s" and "ancestors 998 (Gk s) (Gk s b) = Some anc"
  shows "\<exists>s' ev e n. dispatch_event run b a s = Some (s', ev, e) \<and>
    trace s' = trace s @ concat (take n (map (calls s a) (plan b anc))) \<and>
    (ev_oe ev \<or> n = length (plan b anc))"
proof -
  from walk_quiet [OF assms(1,2), of "plan b anc" "\<lparr>ev_type = a, ev_oe = False, ev_no = True\<rparr>" True]
  obtain n ev e where w: "walk run (plan b anc) (s, \<lparr>ev_type = a, ev_oe = False, ev_no = True\<rparr>, True) =
      (with_trace s (trace s @ concat (take n (map (calls s a) (plan b anc)))), ev, e)"
    and n: "ev_oe ev \<or> n = length (plan b anc)" by auto
  from w have "dispatch_event run b a s =
      Some (with_trace s (trace s @ concat (take n (map (calls s a) (plan b anc)))), ev, e)"
    by (simp add: dispatch_walk assms(3))
  with n with_trace_simps(4) show ?thesis by blast
qed

definition family :: "unit events" where
  "family = \<lparr>listeners = (\<lambda>k. \<lparr>be_listener = k, be_src = k mod 2, be_type = ''x'', be_capture = (k = 3), be_wh = 0,
     be_nf = False, be_Qg = False\<rparr>), ae = 3,
     Nb = (\<lambda>t. \<lparr>La = [(''x'', if t = 0 then [2] else [1, 3])], Ig = 1\<rparr>),
     Gk = (\<lambda>t. if t = 0 then Some 1 else None), trace = [], outside = ()\<rparr>"

theorem dispatch_order_witness:
  "\<exists>ev e s'. dispatch_event (\<lambda>h s ev. (s, ev, True)) 0 ''x'' family = Some (s', ev, e) \<and>
     (ev_oe ev \<or> trace s' = [(1, 3), (0, 2), (1, 1)])"
proof -
  have anc: "ancestors 998 (Gk family) (Gk family 0) = Some [1]"
    by (simp add: family_def numeral_eq_Suc)
  have "quiet (\<lambda>h s ev. (s, ev, True))" "no_once family" by (simp_all add: quiet_def no_once_def family_def)
  from dispatch_order [OF this anc, of "''x''"] obtain s' ev e n where
    d: "dispatch_event (\<lambda>h s ev. (s, ev, True)) 0 ''x'' family = Some (s', ev, e)"
      "trace s' = trace family @ concat (take n (map (calls family ''x'') (plan 0 [1])))"
      "ev_oe ev \<or> n = length (plan 0 [1])" by blast
  have "concat (map (calls family ''x'') (plan 0 [1])) = [(1, 3), (0, 2), (1, 1)]"
    by (simp add: plan_def calls_def family_def)
  with d show ?thesis by (auto simp: family_def)
qed

end
