(* ===== verification/Closure_Promise.thy ===== *)
theory Closure_Promise
  imports Main
begin

text \<open>
  Promises of the survey script (\<open>prompt_embed_static.js\<close>, lines 65 to 75): the free list \<open>Le\<close>, the
  work queue (\<open>Pe\<close>, \<open>We\<close>, \<open>Xe\<close>) and the promise \<open>bf\<close> with its callback entries (\<open>then\<close>, \<open>lf\<close>, \<open>gf\<close>,
  \<open>kf\<close>, \<open>qf\<close>, \<open>Hq\<close>, \<open>pf\<close>, \<open>tf\<close>, \<open>$e\<close>, \<open>ff\<close>, \<open>mu\<close>, \<open>nu\<close>, \<open>rf\<close>).

  A promise is a number into a store that starts with pending promises without callbacks; \<open>fresh\<close> is
  the next unused number. Values are promises, the type error of a promise resolved with itself, a
  cancellation, \<open>undefined\<close>, or other values. The code of callbacks is a parameter \<open>cb\<close>: it may use
  the promises, and returns (\<open>Inr\<close>) or throws (\<open>Inl\<close>) a value. The loops of \<open>Xe\<close> and \<open>Hq\<close>, which a
  callback can keep going for ever, are steps: one job, one entry at a time. \<open>called\<close> and \<open>reported\<close>
  record the callbacks run and the errors given to \<open>uf\<close>.
  Not modelled: objects with a foreign \<open>then\<close>, and \<open>cancel\<close> (\<open>nf\<close>).

  Shown: a settled promise keeps its state and value; when the queue is empty every callback of every
  settled promise has been taken; the assertions of \<open>mu\<close> and \<open>nu\<close> never fail.
\<close>

subsection \<open>The free list\<close>

record 'a freelist =
  fl_ai :: nat
  fl_eb :: "'a list"

definition Le_get :: "'a \<Rightarrow> 'a freelist \<Rightarrow> 'a \<times> 'a freelist" where
  "Le_get uq f =
     (if 0 < fl_ai f then (hd (fl_eb f), f\<lparr>fl_ai := fl_ai f - 1, fl_eb := tl (fl_eb f)\<rparr>) else (uq, f))"

definition Le_put :: "'a \<Rightarrow> 'a freelist \<Rightarrow> 'a freelist" where
  "Le_put a f = (if fl_ai f < 100 then f\<lparr>fl_ai := fl_ai f + 1, fl_eb := a # fl_eb f\<rparr> else f)"

lemma freelist_bounded:
  assumes "fl_ai f = length (fl_eb f)" and "length (fl_eb f) \<le> 100"
  shows "fl_ai (Le_put a f) = length (fl_eb (Le_put a f))" "length (fl_eb (Le_put a f)) \<le> 100"
    "fl_ai (snd (Le_get u f)) = length (fl_eb (snd (Le_get u f)))" "length (fl_eb (snd (Le_get u f))) \<le> 100"
  using assms by (auto simp: Le_put_def Le_get_def)

subsection \<open>State\<close>

datatype pv = Val nat | Undefined | Prom nat | Type_error | Cancelled

text \<open>An entry: from \<open>then\<close> with its two callbacks and the child; the wait of a promise for another
  one; from \<open>lf\<close>; or two callbacks without child, from \<open>gf\<close>.\<close>

datatype entry = Then "nat option" "nat option" nat | Adopt nat | Always nat | Direct nat "nat option"

record prm =
  pr_D :: nat
  pr_Qc :: "pv option"
  pr_O :: "nat option"
  pr_uc :: "entry list"
  pr_zj :: bool
  pr_oh :: bool

datatype job = Run nat | Report nat pv | Call nat pv

record 'w sys =
  proms :: "nat \<Rightarrow> prm"
  fresh :: nat
  Ve :: "job list"
  Ue :: bool
  running :: "nat option"
  called :: "(nat \<times> pv option) list"
  reported :: "pv list"
  broken :: bool
  world :: 'w

definition blank :: prm where
  "blank = \<lparr>pr_D = 0, pr_Qc = None, pr_O = None, pr_uc = [], pr_zj = False, pr_oh = False\<rparr>"

definition upd :: "nat \<Rightarrow> (prm \<Rightarrow> prm) \<Rightarrow> 'w sys \<Rightarrow> 'w sys" where
  "upd p f s = s\<lparr>proms := (proms s)(p := f (proms s p))\<rparr>"

subsection \<open>Operations\<close>

definition We :: "job \<Rightarrow> 'w sys \<Rightarrow> 'w sys" where
  "We j s = s\<lparr>Ve := Ve s @ [j], Ue := True\<rparr>"

definition qf :: "nat \<Rightarrow> 'w sys \<Rightarrow> 'w sys" where
  "qf p s = (if pr_zj (proms s p) then s else We (Run p) (upd p (\<lambda>x. x\<lparr>pr_zj := True\<rparr>) s))"

definition kf :: "nat \<Rightarrow> entry \<Rightarrow> 'w sys \<Rightarrow> 'w sys" where
  "kf p e s =
     (let x = proms s p;
          s = (if pr_uc x \<noteq> [] \<or> pr_D x \<noteq> 2 \<and> pr_D x \<noteq> 3 then s else qf p s)
      in upd p (\<lambda>x. x\<lparr>pr_uc := pr_uc x @ [e]\<rparr>) s)"

definition rf :: "nat \<Rightarrow> pv \<Rightarrow> 'w sys \<Rightarrow> 'w sys" where
  "rf p v s = We (Report p v) (upd p (\<lambda>x. x\<lparr>pr_oh := True\<rparr>) s)"

definition settle :: "nat \<Rightarrow> nat \<Rightarrow> pv \<Rightarrow> 'w sys \<Rightarrow> 'w sys" where
  "settle p b c s =
     (if pr_D (proms s p) \<noteq> 0 then s
      else (let (b, c) = (if c = Prom p then (3, Type_error) else (b, c));
                s = upd p (\<lambda>x. x\<lparr>pr_D := 1\<rparr>) s
            in case c of
                 Prom q \<Rightarrow> kf q (Adopt p) s
               | _ \<Rightarrow>
                 (let s = qf p (upd p (\<lambda>x. x\<lparr>pr_Qc := Some c, pr_D := b, pr_O := None\<rparr>) s)
                  in if b = 3 \<and> c \<noteq> Cancelled then rf p c s else s)))"

definition mu :: "nat \<Rightarrow> nat \<Rightarrow> pv \<Rightarrow> 'w sys \<Rightarrow> 'w sys" where
  "mu p b v s =
     (if pr_D (proms s p) = 1 then settle p b v (upd p (\<lambda>x. x\<lparr>pr_D := 0\<rparr>) s) else s\<lparr>broken := True\<rparr>)"

definition bf_new :: "'w sys \<Rightarrow> nat \<times> 'w sys" where
  "bf_new s = (fresh s, s\<lparr>fresh := Suc (fresh s)\<rparr>)"

definition bf_then :: "nat \<Rightarrow> nat option \<Rightarrow> nat option \<Rightarrow> 'w sys \<Rightarrow> nat \<times> 'w sys" where
  "bf_then p b c s =
     (let (k, s) = bf_new s; s = upd k (\<lambda>x. x\<lparr>pr_O := Some p\<rparr>) s in (k, kf p (Then b c k) s))"

definition bf_lf :: "nat \<Rightarrow> nat \<Rightarrow> 'w sys \<Rightarrow> 'w sys" where
  "bf_lf p f s = kf p (Always f) s"

definition bf_gf :: "pv \<Rightarrow> nat \<Rightarrow> nat option \<Rightarrow> 'w sys \<Rightarrow> 'w sys" where
  "bf_gf a b c s = (case a of Prom q \<Rightarrow> kf q (Direct b c) s | _ \<Rightarrow> We (Call b a) s)"

subsection \<open>Running callbacks\<close>

type_synonym 'w callback = "nat \<Rightarrow> pv option \<Rightarrow> 'w sys \<Rightarrow> 'w sys \<times> (pv + pv)"

definition call :: "'w callback \<Rightarrow> nat \<Rightarrow> pv option \<Rightarrow> 'w sys \<Rightarrow> 'w sys \<times> (pv + pv)" where
  "call cb f v s = cb f v (s\<lparr>called := called s @ [(f, v)]\<rparr>)"

text \<open>The loop of \<open>pf\<close> that marks a rejection as handled, up the chain of parents.\<close>

fun clear_oh :: "nat \<Rightarrow> nat option \<Rightarrow> 'w sys \<Rightarrow> 'w sys" where
  "clear_oh 0 a s = s"
| "clear_oh (Suc n) None s = s"
| "clear_oh (Suc n) (Some p) s =
     (if pr_oh (proms s p) then clear_oh n (pr_O (proms s p)) (upd p (\<lambda>x. x\<lparr>pr_oh := False\<rparr>) s) else s)"

definition handles :: "entry \<Rightarrow> bool" where
  "handles e = (case e of Then _ _ _ \<Rightarrow> True | Adopt _ \<Rightarrow> True | Always _ \<Rightarrow> False | Direct _ g \<Rightarrow> g \<noteq> None)"

definition thrown :: "'w sys \<times> (pv + pv) \<Rightarrow> 'w sys" where
  "thrown = (\<lambda>(s, r). case r of Inl m \<Rightarrow> s\<lparr>reported := reported s @ [m]\<rparr> | Inr _ \<Rightarrow> s)"

definition pf :: "'w callback \<Rightarrow> nat \<Rightarrow> entry \<Rightarrow> nat \<Rightarrow> pv \<Rightarrow> 'w sys \<Rightarrow> 'w sys" where
  "pf cb p e c d s =
     (let s = (if c = 3 \<and> handles e then clear_oh (Suc (fresh s)) (Some p) s else s)
      in case e of
           Then je df k \<Rightarrow>
             (let s = upd k (\<lambda>x. x\<lparr>pr_O := None\<rparr>) s
              in if c = 2
                 then (case je of
                         None \<Rightarrow> settle k 2 d s
                       | Some f \<Rightarrow> (case call cb f (Some d) s of (s, Inr x) \<Rightarrow> settle k 2 x s | (s, Inl m) \<Rightarrow> settle k 3 m s))
                 else (case df of
                         None \<Rightarrow> settle k 3 d s
                       | Some f \<Rightarrow> (case call cb f (Some d) s of
                             (s, Inr x) \<Rightarrow> (if x = Undefined \<and> d = Cancelled then settle k 3 d s else settle k 2 x s)
                           | (s, Inl m) \<Rightarrow> settle k 3 m s)))
         | Adopt k \<Rightarrow> mu k (if c = 2 then 2 else 3) d s
         | Always f \<Rightarrow> thrown (call cb f None s)
         | Direct f g \<Rightarrow>
             (if c = 2 then thrown (call cb f (Some d) s)
              else (case g of None \<Rightarrow> s | Some g \<Rightarrow> thrown (call cb g (Some d) s))))"

subsection \<open>Steps\<close>

text \<open>What a program, or a callback, can do with promises: the resolving functions of a promise, and
  the calls that register callbacks.\<close>

inductive api :: "'w sys \<Rightarrow> 'w sys \<Rightarrow> bool" where
  create: "api s (snd (bf_new s))"
| resolve: "b = 2 \<or> b = 3 \<Longrightarrow> api s (settle p b v s)"
| and_then: "api s (snd (bf_then p b c s))"
| finally_call: "api s (bf_lf p f s)"
| direct: "api s (bf_gf v f g s)"
| outside: "api s (s\<lparr>world := w\<rparr>)"

inductive apis :: "'w sys \<Rightarrow> 'w sys \<Rightarrow> bool" where
  none: "apis s s"
| more: "apis s t \<Longrightarrow> api t u \<Longrightarrow> apis s u"

inductive step :: "'w callback \<Rightarrow> 'w sys \<Rightarrow> 'w sys \<Rightarrow> bool" for cb where
  program: "api s s' \<Longrightarrow> step cb s s'"
| run: "running s = None \<Longrightarrow> Ve s = Run p # js \<Longrightarrow> step cb s (s\<lparr>Ve := js, running := Some p\<rparr>)"
| report: "running s = None \<Longrightarrow> Ve s = Report p v # js \<Longrightarrow>
    step cb s (s\<lparr>Ve := js, reported := reported s @ (if pr_oh (proms s p) then [v] else [])\<rparr>)"
| direct: "running s = None \<Longrightarrow> Ve s = Call f v # js \<Longrightarrow> step cb s (thrown (call cb f (Some v) (s\<lparr>Ve := js\<rparr>)))"
| entry: "running s = Some p \<Longrightarrow> pr_uc (proms s p) = e # es \<Longrightarrow> pr_Qc (proms s p) = Some d \<Longrightarrow>
    step cb s (pf cb p e (pr_D (proms s p)) d (upd p (\<lambda>x. x\<lparr>pr_uc := es\<rparr>) s))"
| finished: "running s = Some p \<Longrightarrow> pr_uc (proms s p) = [] \<Longrightarrow>
    step cb s (upd p (\<lambda>x. x\<lparr>pr_zj := False\<rparr>) (s\<lparr>running := None\<rparr>))"
| drained: "running s = None \<Longrightarrow> Ve s = [] \<Longrightarrow> step cb s (s\<lparr>Ue := False\<rparr>)"

inductive steps :: "'w callback \<Rightarrow> 'w sys \<Rightarrow> 'w sys \<Rightarrow> bool" for cb where
  none: "steps cb s s"
| more: "steps cb s t \<Longrightarrow> step cb t u \<Longrightarrow> steps cb s u"

definition sys_start :: "'w \<Rightarrow> 'w sys" where
  "sys_start w = \<lparr>proms = (\<lambda>_. blank), fresh = 0, Ve = [], Ue = False, running = None, called = [],
     reported = [], broken = False, world = w\<rparr>"

subsection \<open>Invariant\<close>

definition runs :: "'w sys \<Rightarrow> nat list" where
  "runs s = (case running s of None \<Rightarrow> [] | Some p \<Rightarrow> [p]) @ List.map_filter (\<lambda>j. case j of Run p \<Rightarrow> Some p | _ \<Rightarrow> None) (Ve s)"

definition settled :: "prm \<Rightarrow> bool" where
  "settled x \<longleftrightarrow> pr_D x = 2 \<or> pr_D x = 3"

definition adopting :: "'w sys \<Rightarrow> nat \<Rightarrow> bool" where
  "adopting s k \<longleftrightarrow> (\<exists>q. Adopt k \<in> set (pr_uc (proms s q)))"

record core =
  cr_D :: nat
  cr_Qc :: "pv option"
  cr_uc :: "entry list"
  cr_zj :: bool

definition core_of :: "prm \<Rightarrow> core" where
  "core_of x = \<lparr>cr_D = pr_D x, cr_Qc = pr_Qc x, cr_uc = pr_uc x, cr_zj = pr_zj x\<rparr>"

definition queue_ok :: "'w sys \<Rightarrow> bool" where
  "queue_ok s \<longleftrightarrow> distinct (runs s) \<and> (\<forall>p. pr_zj (proms s p) \<longleftrightarrow> p \<in> set (runs s)) \<and>
     (\<forall>p. pr_zj (proms s p) \<longrightarrow> settled (proms s p)) \<and>
     (\<forall>p. settled (proms s p) \<longrightarrow> pr_Qc (proms s p) \<noteq> None \<and> (pr_uc (proms s p) \<noteq> [] \<longrightarrow> pr_zj (proms s p))) \<and>
     (Ve s \<noteq> [] \<or> running s \<noteq> None \<longrightarrow> Ue s)"

definition adopt_ok :: "'w sys \<Rightarrow> bool" where
  "adopt_ok s \<longleftrightarrow> \<not> broken s \<and>
     (\<forall>k q q'. Adopt k \<in> set (pr_uc (proms s q)) \<longrightarrow> Adopt k \<in> set (pr_uc (proms s q')) \<longrightarrow> q = q') \<and>
     (\<forall>k q. Adopt k \<in> set (pr_uc (proms s q)) \<longrightarrow> pr_D (proms s k) = 1 \<and> count_list (pr_uc (proms s q)) (Adopt k) = 1)"

definition sys_ok :: "'w sys \<Rightarrow> bool" where
  "sys_ok s \<longleftrightarrow> queue_ok s \<and> adopt_ok s"

lemma queue_okI:
  assumes "distinct (runs s)" and "\<And>p. pr_zj (proms s p) \<longleftrightarrow> p \<in> set (runs s)"
    and "\<And>p. p \<in> set (runs s) \<Longrightarrow> settled (proms s p)"
    and "\<And>p. settled (proms s p) \<Longrightarrow> pr_Qc (proms s p) \<noteq> None"
    and "\<And>p. settled (proms s p) \<Longrightarrow> pr_uc (proms s p) \<noteq> [] \<Longrightarrow> p \<in> set (runs s)"
    and "Ve s \<noteq> [] \<or> running s \<noteq> None \<Longrightarrow> Ue s"
  shows "queue_ok s"
  unfolding queue_ok_def using assms by blast

lemma queue_okD:
  assumes "queue_ok s"
  shows "distinct (runs s)" and "\<And>p. pr_zj (proms s p) \<longleftrightarrow> p \<in> set (runs s)"
    and "\<And>p. p \<in> set (runs s) \<Longrightarrow> settled (proms s p)"
    and "\<And>p. settled (proms s p) \<Longrightarrow> pr_Qc (proms s p) \<noteq> None"
    and "\<And>p. settled (proms s p) \<Longrightarrow> pr_uc (proms s p) \<noteq> [] \<Longrightarrow> p \<in> set (runs s)"
    and "Ve s \<noteq> [] \<or> running s \<noteq> None \<Longrightarrow> Ue s"
  using assms unfolding queue_ok_def by blast+

lemma core_fields:
  "core_of x = core_of y \<longleftrightarrow> pr_D x = pr_D y \<and> pr_Qc x = pr_Qc y \<and> pr_uc x = pr_uc y \<and> pr_zj x = pr_zj y"
  by (simp add: core_of_def)

lemma queue_ok_cong:
  assumes "\<And>p. core_of (proms s' p) = core_of (proms s p)" and "runs s' = runs s"
    and "Ve s' \<noteq> [] \<or> running s' \<noteq> None \<Longrightarrow> Ue s'" and "queue_ok s"
  shows "queue_ok s'"
  using assms(1-3) queue_okD [OF assms(4)] unfolding core_fields settled_def
  by (intro queue_okI) (simp_all add: settled_def)

lemma adopt_ok_cong:
  assumes "\<And>p. core_of (proms s' p) = core_of (proms s p)" and "broken s' = broken s" and "adopt_ok s"
  shows "adopt_ok s'"
  using assms unfolding core_fields adopt_ok_def by simp

lemma upd_simps [simp]:
  "proms (upd p f s) = (proms s)(p := f (proms s p))" "Ve (upd p f s) = Ve s" "Ue (upd p f s) = Ue s"
  "running (upd p f s) = running s" "broken (upd p f s) = broken s" "fresh (upd p f s) = fresh s"
  "called (upd p f s) = called s" "reported (upd p f s) = reported s" "runs (upd p f s) = runs s"
  by (simp_all add: upd_def runs_def)

lemma We_simps [simp]:
  "proms (We j s) = proms s" "Ve (We j s) = Ve s @ [j]" "Ue (We j s)" "running (We j s) = running s"
  "broken (We j s) = broken s" "runs (We j s) = runs s @ (case j of Run p \<Rightarrow> [p] | _ \<Rightarrow> [])"
  by (simp_all add: We_def runs_def List.map_filter_def split: job.split)

lemma settled_upd [simp]:
  "settled (x\<lparr>pr_zj := a\<rparr>) = settled x" "settled (x\<lparr>pr_uc := b\<rparr>) = settled x" "settled (x\<lparr>pr_oh := a\<rparr>) = settled x"
  "settled (x\<lparr>pr_O := c\<rparr>) = settled x" "settled (x\<lparr>pr_D := n\<rparr>) \<longleftrightarrow> n = 2 \<or> n = 3" "settled (x\<lparr>pr_Qc := d\<rparr>) = settled x"
  by (simp_all add: settled_def)

text \<open>A promise that has become settled is asked to run; entries may be added to one that is to run.\<close>

lemma qf_ok:
  assumes "distinct (runs s)" and "\<And>q. pr_zj (proms s q) \<longleftrightarrow> q \<in> set (runs s)"
    and "\<And>q. q \<in> set (runs s) \<Longrightarrow> settled (proms s q)"
    and "\<And>q. settled (proms s q) \<Longrightarrow> pr_Qc (proms s q) \<noteq> None"
    and "\<And>q. settled (proms s q) \<Longrightarrow> pr_uc (proms s q) \<noteq> [] \<Longrightarrow> q \<noteq> p \<Longrightarrow> q \<in> set (runs s)"
    and "Ve s \<noteq> [] \<or> running s \<noteq> None \<Longrightarrow> Ue s" and "settled (proms s p)"
  shows "queue_ok (qf p s)"
proof (cases "pr_zj (proms s p)")
  case True
  then have qf: "qf p s = s" by (simp add: qf_def)
  show ?thesis unfolding qf
  proof (rule queue_okI)
    show "q \<in> set (runs s)" if "settled (proms s q)" "pr_uc (proms s q) \<noteq> []" for q
      using assms(2) [of p] assms(5) [OF that] True by (cases "q = p") simp_all
  qed (fact assms)+
next
  case False
  then have qf: "qf p s = We (Run p) (upd p (\<lambda>x. x\<lparr>pr_zj := True\<rparr>) s)" by (simp add: qf_def)
  show ?thesis unfolding qf
  proof (rule queue_okI)
    show "distinct (runs (We (Run p) (upd p (\<lambda>x. x\<lparr>pr_zj := True\<rparr>) s)))" using assms(1,2) False by simp
    fix q
    show "pr_zj (proms (We (Run p) (upd p (\<lambda>x. x\<lparr>pr_zj := True\<rparr>) s)) q) \<longleftrightarrow>
        q \<in> set (runs (We (Run p) (upd p (\<lambda>x. x\<lparr>pr_zj := True\<rparr>) s)))" using assms(2) by auto
    show "settled (proms (We (Run p) (upd p (\<lambda>x. x\<lparr>pr_zj := True\<rparr>) s)) q)"
      if "q \<in> set (runs (We (Run p) (upd p (\<lambda>x. x\<lparr>pr_zj := True\<rparr>) s)))"
      using that assms(3) [of q] assms(7) by auto
    show "pr_Qc (proms (We (Run p) (upd p (\<lambda>x. x\<lparr>pr_zj := True\<rparr>) s)) q) \<noteq> None"
      if "settled (proms (We (Run p) (upd p (\<lambda>x. x\<lparr>pr_zj := True\<rparr>) s)) q)"
      using that assms(4) [of q] by (simp split: if_splits)
    show "q \<in> set (runs (We (Run p) (upd p (\<lambda>x. x\<lparr>pr_zj := True\<rparr>) s)))"
      if "settled (proms (We (Run p) (upd p (\<lambda>x. x\<lparr>pr_zj := True\<rparr>) s)) q)"
        "pr_uc (proms (We (Run p) (upd p (\<lambda>x. x\<lparr>pr_zj := True\<rparr>) s)) q) \<noteq> []"
      using that assms(5) [of q] by (auto split: if_splits)
  qed simp
qed

lemma qf_frame:
  "pr_D (proms (qf p s) q) = pr_D (proms s q)" "pr_Qc (proms (qf p s) q) = pr_Qc (proms s q)"
  "pr_uc (proms (qf p s) q) = pr_uc (proms s q)" "settled (proms (qf p s) q) = settled (proms s q)"
  "broken (qf p s) = broken s"
  by (auto simp: qf_def settled_def)

lemma qf_runs: "p \<in> set (runs (qf p s)) \<or> pr_zj (proms s p)"
  by (auto simp: qf_def)

lemma add_entry_ok:
  assumes "queue_ok s" and "settled (proms s p) \<Longrightarrow> p \<in> set (runs s)"
  shows "queue_ok (upd p (\<lambda>x. x\<lparr>pr_uc := l\<rparr>) s)"
proof (rule queue_okI)
  note ok = queue_okD [OF assms(1)]
  show "distinct (runs (upd p (\<lambda>x. x\<lparr>pr_uc := l\<rparr>) s))" using ok(1) by simp
  show "pr_zj (proms (upd p (\<lambda>x. x\<lparr>pr_uc := l\<rparr>) s) q) \<longleftrightarrow> q \<in> set (runs (upd p (\<lambda>x. x\<lparr>pr_uc := l\<rparr>) s))" for q
    using ok(2) by simp
  show "settled (proms (upd p (\<lambda>x. x\<lparr>pr_uc := l\<rparr>) s) q)" if "q \<in> set (runs (upd p (\<lambda>x. x\<lparr>pr_uc := l\<rparr>) s))" for q
    using that ok(3) [of q] by auto
  show "pr_Qc (proms (upd p (\<lambda>x. x\<lparr>pr_uc := l\<rparr>) s) q) \<noteq> None"
    if "settled (proms (upd p (\<lambda>x. x\<lparr>pr_uc := l\<rparr>) s) q)" for q
    using that ok(4) [of q] by (simp split: if_splits)
  show "q \<in> set (runs (upd p (\<lambda>x. x\<lparr>pr_uc := l\<rparr>) s))"
    if "settled (proms (upd p (\<lambda>x. x\<lparr>pr_uc := l\<rparr>) s) q)" "pr_uc (proms (upd p (\<lambda>x. x\<lparr>pr_uc := l\<rparr>) s) q) \<noteq> []" for q
    using that ok(5) [of q] assms(2) by (cases "q = p") simp_all
  show "Ue (upd p (\<lambda>x. x\<lparr>pr_uc := l\<rparr>) s)"
    if "Ve (upd p (\<lambda>x. x\<lparr>pr_uc := l\<rparr>) s) \<noteq> [] \<or> running (upd p (\<lambda>x. x\<lparr>pr_uc := l\<rparr>) s) \<noteq> None"
    using that ok(6) by simp
qed

lemma kf_queue_ok:
  assumes "queue_ok s"
  shows "queue_ok (kf p e s)"
proof (cases "pr_uc (proms s p) = [] \<and> settled (proms s p)")
  case True
  note ok = queue_okD [OF assms]
  have "queue_ok (qf p s)" by (rule qf_ok [OF ok(1-4) _ ok(6)]) (use ok(5) True in blast)+
  moreover have "p \<in> set (runs (qf p s))" using qf_runs [of p s] queue_okD(2) [OF assms] by (auto simp: qf_def)
  moreover have "kf p e s = upd p (\<lambda>x. x\<lparr>pr_uc := pr_uc x @ [e]\<rparr>) (qf p s)"
    using True by (auto simp: kf_def settled_def Let_def)
  ultimately show ?thesis
    using add_entry_ok [of "qf p s" p "pr_uc (proms (qf p s) p) @ [e]"] by (simp add: upd_def)
next
  case False
  then have "kf p e s = upd p (\<lambda>x. x\<lparr>pr_uc := pr_uc (proms s p) @ [e]\<rparr>) s"
    by (auto simp: kf_def settled_def upd_def Let_def)
  with False show ?thesis using add_entry_ok [OF assms] queue_okD(5) [OF assms, of p] by auto
qed

lemma kf_adopt_ok:
  assumes ok: "adopt_ok s" and e: "\<And>k. e = Adopt k \<Longrightarrow> pr_D (proms s k) = 1 \<and> \<not> adopting s k"
  shows "adopt_ok (kf p e s)"
proof -
  let ?s = "if pr_uc (proms s p) \<noteq> [] \<or> pr_D (proms s p) \<noteq> 2 \<and> pr_D (proms s p) \<noteq> 3 then s else qf p s"
  have ok': "adopt_ok ?s" using ok by (auto simp: adopt_ok_def qf_frame)
  have uc: "pr_uc (proms ?s q) = pr_uc (proms s q)" "pr_D (proms ?s q) = pr_D (proms s q)" for q
    by (auto simp: qf_frame)
  have kf: "kf p e s = upd p (\<lambda>x. x\<lparr>pr_uc := pr_uc x @ [e]\<rparr>) ?s" by (simp add: kf_def Let_def)
  have new: "pr_uc (proms (kf p e s) q) = (if q = p then pr_uc (proms s p) @ [e] else pr_uc (proms s q))"
    "pr_D (proms (kf p e s) q) = pr_D (proms s q)" "broken (kf p e s) = broken ?s" for q
    unfolding kf using uc by auto
  have none: "count_list (pr_uc (proms s q)) (Adopt k) = 0" if "e = Adopt k" for q k
    using e [OF that] by (auto simp: adopting_def count_list_0_iff)
  show ?thesis
    using ok' none e unfolding adopt_ok_def new uc
    by (cases e) (auto simp: adopting_def)
qed

definition keeps :: "'w sys \<Rightarrow> 'w sys \<Rightarrow> bool" where
  "keeps s s' \<longleftrightarrow> (\<forall>q. settled (proms s q) \<longrightarrow>
     pr_D (proms s' q) = pr_D (proms s q) \<and> pr_Qc (proms s' q) = pr_Qc (proms s q))"

lemma keeps_settled: "keeps s s' \<Longrightarrow> settled (proms s q) \<Longrightarrow> settled (proms s' q)"
  unfolding keeps_def settled_def by metis

lemma keeps_refl [simp]: "keeps s s"
  by (simp add: keeps_def)

lemma keeps_trans: "keeps s t \<Longrightarrow> keeps t u \<Longrightarrow> keeps s u"
  unfolding keeps_def using keeps_settled [of s t] by (metis keeps_def)

lemma keeps_cong: "(\<And>q. core_of (proms s' q) = core_of (proms s q)) \<Longrightarrow> keeps s s'"
  by (simp add: keeps_def core_fields)

lemma keeps_kf: "keeps s (kf p e s)"
  by (auto simp: keeps_def kf_def qf_def Let_def)

lemma keeps_rf: "keeps s t \<Longrightarrow> keeps s (rf p v t)"
  by (simp add: keeps_def rf_def)

lemma rf_ok: "sys_ok t \<Longrightarrow> sys_ok (rf p v t)"
  using queue_ok_cong [of "rf p v t" t] adopt_ok_cong [of "rf p v t" t]
  by (simp add: sys_ok_def rf_def core_of_def)

lemma settle_keeps: "keeps s (settle p b c s)"
proof (cases "pr_D (proms s p) = 0")
  case True
  have 1: "keeps s (upd p (\<lambda>x. x\<lparr>pr_D := 1\<rparr>) s)" using True by (auto simp: keeps_def settled_def)
  have 2: "keeps s (qf p (upd p (\<lambda>x. x\<lparr>pr_Qc := v, pr_D := d, pr_O := None\<rparr>) (upd p (\<lambda>x. x\<lparr>pr_D := 1\<rparr>) s)))" for v d
    using True by (auto simp: keeps_def settled_def qf_frame)
  note 3 = keeps_rf [of s _ p]
  note 4 = keeps_trans [OF 1 keeps_kf]
  from 1 2 3 4 True show ?thesis
    by (auto simp: settle_def Let_def split: pv.split)
qed (simp add: settle_def)

lemma adopt_ok_D:
  assumes "adopt_ok s"
  shows "\<And>k q q'. Adopt k \<in> set (pr_uc (proms s q)) \<Longrightarrow> Adopt k \<in> set (pr_uc (proms s q')) \<Longrightarrow> q = q'"
    and "\<And>k q. Adopt k \<in> set (pr_uc (proms s q)) \<Longrightarrow> pr_D (proms s k) = 1"
    and "\<And>k q. Adopt k \<in> set (pr_uc (proms s q)) \<Longrightarrow> count_list (pr_uc (proms s q)) (Adopt k) = 1"
    and "\<not> broken s"
  using assms unfolding adopt_ok_def by blast+

lemma adopt_ok_change:
  assumes "adopt_ok s" and "\<And>q. pr_uc (proms s' q) = pr_uc (proms s q)" and "broken s' = broken s"
    and "\<And>k. adopting s k \<Longrightarrow> pr_D (proms s' k) = pr_D (proms s k)"
  shows "adopt_ok s'"
  using assms unfolding adopt_ok_def adopting_def by metis

text \<open>Settling a pending promise that waits for none.\<close>

lemma settle_ok:
  assumes ok: "sys_ok s" and b: "b = 2 \<or> b = 3"
  shows "sys_ok (settle p b c s)"
proof (cases "pr_D (proms s p) = 0")
  case D: True
  from ok have q: "queue_ok s" and a: "adopt_ok s" by (simp_all add: sys_ok_def)
  note Q = queue_okD [OF q]
  have no: "\<not> adopting s p" using D adopt_ok_D(2) [OF a] by (auto simp: adopting_def)
  have ns: "\<not> settled (proms s p)" using D by (simp add: settled_def)
  then have nr: "p \<notin> set (runs s)" using Q(3) by blast
  let ?s1 = "upd p (\<lambda>x. x\<lparr>pr_D := 1\<rparr>) s"
  have a1: "adopt_ok ?s1" by (rule adopt_ok_change [OF a]) (use no in auto)
  have q1: "queue_ok ?s1"
  proof (rule queue_okI)
    show "distinct (runs ?s1)" "\<And>q. pr_zj (proms ?s1 q) \<longleftrightarrow> q \<in> set (runs ?s1)" using Q(1,2) by simp_all
    show "settled (proms ?s1 q)" if "q \<in> set (runs ?s1)" for q using that Q(3) [of q] nr by auto
    show "pr_Qc (proms ?s1 q) \<noteq> None" if "settled (proms ?s1 q)" for q
      using that Q(4) [of q] by (auto split: if_splits)
    show "q \<in> set (runs ?s1)" if "settled (proms ?s1 q)" "pr_uc (proms ?s1 q) \<noteq> []" for q
      using that Q(5) [of q] by (auto split: if_splits)
    show "Ue ?s1" if "Ve ?s1 \<noteq> [] \<or> running ?s1 \<noteq> None" using that Q(6) by simp
  qed
  have wait: "sys_ok (kf r (Adopt p) ?s1)" for r
    using kf_queue_ok [OF q1] kf_adopt_ok [OF a1, of "Adopt p"] no
    by (simp add: sys_ok_def adopting_def if_distrib cong: if_cong)
  have set: "sys_ok (qf p (upd p (\<lambda>x. x\<lparr>pr_Qc := Some v, pr_D := d, pr_O := None\<rparr>) ?s1))"
    if d: "d = 2 \<or> d = 3" for v d
  proof -
    let ?s2 = "upd p (\<lambda>x. x\<lparr>pr_Qc := Some v, pr_D := d, pr_O := None\<rparr>) ?s1"
    have "queue_ok (qf p ?s2)"
    proof (rule qf_ok)
      show "distinct (runs ?s2)" "\<And>q. pr_zj (proms ?s2 q) \<longleftrightarrow> q \<in> set (runs ?s2)" using Q(1,2) by simp_all
      show "settled (proms ?s2 q)" if "q \<in> set (runs ?s2)" for q using that Q(3) [of q] nr by auto
      show "pr_Qc (proms ?s2 q) \<noteq> None" if "settled (proms ?s2 q)" for q
        using that Q(4) [of q] by (auto split: if_splits)
      show "q \<in> set (runs ?s2)" if "settled (proms ?s2 q)" "pr_uc (proms ?s2 q) \<noteq> []" "q \<noteq> p" for q
        using that Q(5) [of q] by auto
      show "Ue ?s2" if "Ve ?s2 \<noteq> [] \<or> running ?s2 \<noteq> None" using that Q(6) by simp
      show "settled (proms ?s2 p)" using d by simp
    qed
    moreover have "adopt_ok (qf p ?s2)"
      by (rule adopt_ok_change [OF a]) (use no in \<open>auto simp: qf_frame\<close>)
    ultimately show ?thesis by (simp add: sys_ok_def)
  qed
  show ?thesis
    using D b by (auto simp: settle_def Let_def simp del: One_nat_def split: pv.split intro!: rf_ok set wait)
qed (use ok in \<open>simp add: settle_def\<close>)

subsection \<open>Steps keep the invariant\<close>

lemma world_ok: "sys_ok s \<Longrightarrow> sys_ok (s\<lparr>world := w\<rparr>)"
  using queue_ok_cong [of "s\<lparr>world := w\<rparr>" s] adopt_ok_cong [of "s\<lparr>world := w\<rparr>" s] queue_okD(6) [of s]
  by (simp add: sys_ok_def core_of_def runs_def)

lemma fresh_ok: "sys_ok s \<Longrightarrow> sys_ok (s\<lparr>fresh := n\<rparr>)"
  using queue_ok_cong [of "s\<lparr>fresh := n\<rparr>" s] adopt_ok_cong [of "s\<lparr>fresh := n\<rparr>" s] queue_okD(6) [of s]
  by (simp add: sys_ok_def core_of_def runs_def)

lemma called_ok: "sys_ok s \<Longrightarrow> sys_ok (s\<lparr>called := n\<rparr>)"
  using queue_ok_cong [of "s\<lparr>called := n\<rparr>" s] adopt_ok_cong [of "s\<lparr>called := n\<rparr>" s] queue_okD(6) [of s]
  by (simp add: sys_ok_def core_of_def runs_def)

lemma reported_ok: "sys_ok s \<Longrightarrow> sys_ok (s\<lparr>reported := n\<rparr>)"
  using queue_ok_cong [of "s\<lparr>reported := n\<rparr>" s] adopt_ok_cong [of "s\<lparr>reported := n\<rparr>" s] queue_okD(6) [of s]
  by (simp add: sys_ok_def core_of_def runs_def)

lemma upd_core_ok:
  assumes "\<And>x. core_of (f x) = core_of x" and "sys_ok s"
  shows "sys_ok (upd p f s)" "keeps s (upd p f s)"
proof -
  have c: "core_of (proms (upd p f s) q) = core_of (proms s q)" for q using assms(1) by simp
  show "sys_ok (upd p f s)"
    using queue_ok_cong [OF c] adopt_ok_cong [OF c] queue_okD(6) [of s] assms(2) by (simp add: sys_ok_def)
  show "keeps s (upd p f s)" by (rule keeps_cong) (rule c)
qed

lemma We_ok: "\<forall>p. j \<noteq> Run p \<Longrightarrow> sys_ok s \<Longrightarrow> sys_ok (We j s)"
  using queue_ok_cong [of "We j s" s] adopt_ok_cong [of "We j s" s]
  by (cases j) (simp_all add: sys_ok_def core_of_def)

lemma kf_ok: "sys_ok s \<Longrightarrow> \<forall>k. e \<noteq> Adopt k \<Longrightarrow> sys_ok (kf p e s)"
  using kf_queue_ok [of s p e] kf_adopt_ok [of s e p] by (auto simp: sys_ok_def)

definition good :: "'w sys \<Rightarrow> 'w sys \<Rightarrow> bool" where
  "good s s' \<longleftrightarrow> (sys_ok s \<longrightarrow> sys_ok s' \<and> keeps s s')"

lemma goodI: "(sys_ok s \<Longrightarrow> sys_ok s') \<Longrightarrow> (sys_ok s \<Longrightarrow> keeps s s') \<Longrightarrow> good s s'"
  by (simp add: good_def)

lemma good_trans: "good s t \<Longrightarrow> good t u \<Longrightarrow> good s u"
  unfolding good_def using keeps_trans by blast

lemma good_refl [simp]: "good s s"
  by (simp add: good_def)

lemma good_settle: "b = 2 \<or> b = 3 \<Longrightarrow> good s (settle p b v s)"
  by (intro goodI settle_ok settle_keeps)

lemma good_upd: "(\<And>x. core_of (f x) = core_of x) \<Longrightarrow> good s (upd p f s)"
  using upd_core_ok by (blast intro: goodI)

lemma good_then: "good s (snd (bf_then p b c s))"
proof -
  let ?s = "upd (fresh s) (\<lambda>x. x\<lparr>pr_O := Some p\<rparr>) (s\<lparr>fresh := Suc (fresh s)\<rparr>)"
  have "good s (s\<lparr>fresh := Suc (fresh s)\<rparr>)" by (rule goodI) (simp_all add: fresh_ok keeps_def)
  moreover have "good (s\<lparr>fresh := Suc (fresh s)\<rparr>) ?s" by (rule good_upd) (simp add: core_of_def)
  moreover have "good ?s (kf p (Then b c (fresh s)) ?s)" by (rule goodI) (simp_all add: kf_ok keeps_kf)
  ultimately have "good s (kf p (Then b c (fresh s)) ?s)" by (blast intro: good_trans)
  then show ?thesis by (simp add: bf_then_def bf_new_def Let_def)
qed

lemma api_good: "api s s' \<Longrightarrow> good s s'"
proof (induction rule: api.induct)
  case (direct s v f g)
  show ?case
    by (cases v) (auto simp: bf_gf_def intro!: goodI kf_ok We_ok keeps_kf keeps_cong)
qed (auto simp: bf_new_def bf_lf_def keeps_def intro: good_settle good_then goodI fresh_ok world_ok kf_ok keeps_kf)

lemma apis_good: "apis s s' \<Longrightarrow> good s s'"
  by (induction rule: apis.induct) (auto intro: good_trans api_good)

text \<open>The callbacks use promises only through the interface.\<close>

definition honest :: "'w callback \<Rightarrow> bool" where
  "honest cb \<longleftrightarrow> (\<forall>f v s. apis s (fst (cb f v s)))"

lemma good_call: "honest cb \<Longrightarrow> good s (fst (call cb f v s))"
proof -
  assume "honest cb"
  then have "good (s\<lparr>called := called s @ [(f, v)]\<rparr>) (fst (call cb f v s))"
    unfolding call_def honest_def by (intro apis_good) blast
  moreover have "good s (s\<lparr>called := called s @ [(f, v)]\<rparr>)"
    by (rule goodI) (simp_all add: called_ok keeps_def)
  ultimately show ?thesis by (blast intro: good_trans)
qed

lemma good_thrown: "good s (fst x) \<Longrightarrow> good s (thrown x)"
  unfolding good_def thrown_def
  by (auto simp: keeps_def split: prod.splits sum.splits intro: reported_ok)

lemma good_clear: "good s (clear_oh n a s)"
proof (induction n a s rule: clear_oh.induct)
  case (3 n p s)
  have "good s (upd p (\<lambda>x. x\<lparr>pr_oh := False\<rparr>) s)" by (rule good_upd) (simp add: core_of_def)
  with 3 show ?case by (auto intro: good_trans)
qed simp_all

lemma clear_core: "core_of (proms (clear_oh n a s) q) = core_of (proms s q)"
  by (induction n a s rule: clear_oh.induct) (auto simp: core_of_def)

lemma mu_good:
  assumes ok: "sys_ok s" and k: "pr_D (proms s k) = 1" "\<not> adopting s k" and b: "b = 2 \<or> b = 3"
  shows "sys_ok (mu k b v s) \<and> keeps s (mu k b v s)"
proof -
  from ok have q: "queue_ok s" and a: "adopt_ok s" by (simp_all add: sys_ok_def)
  note Q = queue_okD [OF q]
  let ?s = "upd k (\<lambda>x. x\<lparr>pr_D := 0\<rparr>) s"
  have ns: "\<not> settled (proms s k)" using k by (simp add: settled_def)
  then have nr: "k \<notin> set (runs s)" using Q(3) by blast
  have "queue_ok ?s"
  proof (rule queue_okI)
    show "distinct (runs ?s)" "\<And>q. pr_zj (proms ?s q) \<longleftrightarrow> q \<in> set (runs ?s)" using Q(1,2) by simp_all
    show "settled (proms ?s q)" if "q \<in> set (runs ?s)" for q using that Q(3) [of q] nr by auto
    show "pr_Qc (proms ?s q) \<noteq> None" if "settled (proms ?s q)" for q
      using that Q(4) [of q] by (auto split: if_splits)
    show "q \<in> set (runs ?s)" if "settled (proms ?s q)" "pr_uc (proms ?s q) \<noteq> []" for q
      using that Q(5) [of q] by (auto split: if_splits)
    show "Ue ?s" if "Ve ?s \<noteq> [] \<or> running ?s \<noteq> None" using that Q(6) by simp
  qed
  moreover have "adopt_ok ?s" by (rule adopt_ok_change [OF a]) (use k in auto)
  ultimately have "sys_ok ?s" by (simp add: sys_ok_def)
  then have "sys_ok (settle k b v ?s)" using b by (rule settle_ok)
  moreover have "keeps s ?s" using ns by (simp add: keeps_def)
  then have "keeps s (settle k b v ?s)" using settle_keeps keeps_trans by blast
  ultimately show ?thesis using k(1) by (simp add: mu_def)
qed

lemma pf_ok:
  assumes cb: "honest cb" and ok: "sys_ok s"
    and e: "\<And>k. e = Adopt k \<Longrightarrow> pr_D (proms s k) = 1 \<and> \<not> adopting s k"
  shows "sys_ok (pf cb p e c d s) \<and> keeps s (pf cb p e c d s)"
proof -
  let ?s = "if c = 3 \<and> handles e then clear_oh (Suc (fresh s)) (Some p) s else s"
  have g: "good s ?s" using good_clear [of s "Suc (fresh s)" "Some p"] by (simp del: clear_oh.simps)
  have core: "core_of (proms ?s q) = core_of (proms s q)" for q using clear_core [of "Suc (fresh s)" "Some p" s q] by auto
  show ?thesis
  proof (cases e)
    case (Then je df k)
    define t where "t = upd k (\<lambda>x. x\<lparr>pr_O := None\<rparr>) ?s"
    have t: "good s t" unfolding t_def using g good_upd [of "\<lambda>x. x\<lparr>pr_O := None\<rparr>" ?s k] by (auto simp: core_of_def intro: good_trans)
    have c2: "good s (settle k b v (fst (call cb f v' t)))" if "b = 2 \<or> b = 3" for b v f v'
      using t good_call [OF cb] good_settle [OF that] by (blast intro: good_trans)
    have s2: "good s (settle k b v t)" if "b = 2 \<or> b = 3" for b v
      using t good_settle [OF that] by (blast intro: good_trans)
    have call_then: "good s (case call cb f (Some d) t of (s, Inr x) \<Rightarrow> settle k (m x) (v x) s | (s, Inl y) \<Rightarrow> settle k 3 y s)"
      if "\<And>x. m x = 2 \<or> m x = 3" for f m v
      using c2 [where b = 3 and f = f and v' = "Some d"] c2 [OF that, where f = f and v' = "Some d"]
      by (cases "call cb f (Some d) t"; cases "snd (call cb f (Some d) t)") auto
    have rej: "(case x of (s, Inr x) \<Rightarrow> if x = Undefined \<and> d = Cancelled then settle k 3 d s else settle k 2 x s
        | (s, Inl m) \<Rightarrow> settle k 3 m s) = (case x of (s, Inr x) \<Rightarrow> settle k (if x = Undefined \<and> d = Cancelled then 3 else 2)
          (if x = Undefined \<and> d = Cancelled then d else x) s | (s, Inl m) \<Rightarrow> settle k 3 m s)" for x :: "'a sys \<times> (pv + pv)"
      by (simp split: prod.split sum.split)
    have "pf cb p e c d s =
      (if c = 2 then (case je of None \<Rightarrow> settle k 2 d t
         | Some f \<Rightarrow> (case call cb f (Some d) t of (s, Inr x) \<Rightarrow> settle k 2 x s | (s, Inl m) \<Rightarrow> settle k 3 m s))
       else (case df of None \<Rightarrow> settle k 3 d t
         | Some f \<Rightarrow> (case call cb f (Some d) t of (s, Inr x) \<Rightarrow> settle k (if x = Undefined \<and> d = Cancelled then 3 else 2)
          (if x = Undefined \<and> d = Cancelled then d else x) s | (s, Inl m) \<Rightarrow> settle k 3 m s)))"
      unfolding pf_def Let_def Then entry.case rej t_def ..
    moreover have rejected: "good s (case call cb f (Some d) t of (s, Inr x) \<Rightarrow> settle k (if x = Undefined \<and> d = Cancelled then 3 else 2)
          (if x = Undefined \<and> d = Cancelled then d else x) s | (s, Inl m) \<Rightarrow> settle k 3 m s)" for f
      by (rule call_then) simp
    moreover have "good s (if c = 2 then (case je of None \<Rightarrow> settle k 2 d t
         | Some f \<Rightarrow> (case call cb f (Some d) t of (s, Inr x) \<Rightarrow> settle k 2 x s | (s, Inl m) \<Rightarrow> settle k 3 m s))
       else (case df of None \<Rightarrow> settle k 3 d t
         | Some f \<Rightarrow> (case call cb f (Some d) t of (s, Inr x) \<Rightarrow> settle k (if x = Undefined \<and> d = Cancelled then 3 else 2)
          (if x = Undefined \<and> d = Cancelled then d else x) s | (s, Inl m) \<Rightarrow> settle k 3 m s)))"
      using s2 call_then [where m = "\<lambda>_. 2" and v = "\<lambda>x. x"] rejected by (simp split: option.split)
    ultimately have "good s (pf cb p e c d s)" by simp
    then show ?thesis using ok by (simp add: good_def)
  next
    case (Adopt k)
    from core have "pr_D (proms ?s k) = pr_D (proms s k)" "adopting ?s k = adopting s k"
      by (simp_all only: core_fields adopting_def)
    with mu_good [of ?s k "if c = 2 then 2 else 3" d] g ok e [OF Adopt] have
      "sys_ok (mu k (if c = 2 then 2 else 3) d ?s) \<and> keeps s (mu k (if c = 2 then 2 else 3) d ?s)"
      unfolding good_def using keeps_trans by fastforce
    then show ?thesis by (simp add: pf_def Adopt)
  next
    case (Always f)
    have "good s (thrown (call cb f None ?s))" using g good_thrown [OF good_call [OF cb]] by (rule good_trans)
    with ok show ?thesis by (simp add: good_def pf_def Always)
  next
    case (Direct f h)
    have "good s (thrown (call cb f' v ?s))" for f' v using g good_thrown [OF good_call [OF cb]] by (rule good_trans)
    with g ok show ?thesis by (auto simp: good_def pf_def Direct split: option.split)
  qed
qed

lemma entry_ok:
  assumes ok: "sys_ok s" and r: "running s = Some p" and uc: "pr_uc (proms s p) = e # es"
  shows "sys_ok (upd p (\<lambda>x. x\<lparr>pr_uc := es\<rparr>) s)" "keeps s (upd p (\<lambda>x. x\<lparr>pr_uc := es\<rparr>) s)"
    "e = Adopt k \<Longrightarrow> pr_D (proms (upd p (\<lambda>x. x\<lparr>pr_uc := es\<rparr>) s) k) = 1 \<and> \<not> adopting (upd p (\<lambda>x. x\<lparr>pr_uc := es\<rparr>) s) k"
proof -
  let ?s = "upd p (\<lambda>x. x\<lparr>pr_uc := es\<rparr>) s"
  from ok have q: "queue_ok s" and a: "adopt_ok s" by (simp_all add: sys_ok_def)
  have in_uc: "x \<in> set es \<Longrightarrow> x \<in> set (pr_uc (proms s p))" for x using uc by simp
  have sub: "x \<in> set (pr_uc (proms ?s q)) \<Longrightarrow> x \<in> set (pr_uc (proms s q))" for x q
    using uc by (auto split: if_splits)
  have "p \<in> set (runs s)" using r by (simp add: runs_def)
  then have "queue_ok ?s" by (intro add_entry_ok [OF q])
  moreover have "adopt_ok ?s" unfolding adopt_ok_def
  proof (intro conjI allI impI)
    show "\<not> broken ?s" using adopt_ok_D(4) [OF a] by simp
    show "q = q'" if "Adopt k \<in> set (pr_uc (proms ?s q))" "Adopt k \<in> set (pr_uc (proms ?s q'))" for k q q'
      using adopt_ok_D(1) [OF a sub sub] that by blast
    show "pr_D (proms ?s k) = 1" if "Adopt k \<in> set (pr_uc (proms ?s q))" for k q
      using adopt_ok_D(2) [OF a sub [OF that]] by auto
    show "count_list (pr_uc (proms ?s q)) (Adopt k) = 1" if "Adopt k \<in> set (pr_uc (proms ?s q))" for k q
    proof (cases "q = p")
      case True
      with that have k: "Adopt k \<in> set es" by simp
      with uc have "Adopt k \<in> set (pr_uc (proms s p))" by simp
      from adopt_ok_D(3) [OF a this] uc have "count_list (e # es) (Adopt k) = 1" by simp
      moreover have "count_list es (Adopt k) \<noteq> 0" using k by (simp add: count_list_0_iff)
      ultimately show ?thesis using True by (simp split: if_splits)
    next
      case False
      with that adopt_ok_D(3) [OF a, of k q] show ?thesis by simp
    qed
  qed
  ultimately show "sys_ok ?s" by (simp add: sys_ok_def)
  show "keeps s ?s" by (simp add: keeps_def)
  show "pr_D (proms ?s k) = 1 \<and> \<not> adopting ?s k" if "e = Adopt k"
  proof
    have e: "Adopt k \<in> set (pr_uc (proms s p))" using that uc by simp
    show "pr_D (proms ?s k) = 1" using adopt_ok_D(2) [OF a e] by auto
    have "count_list es (Adopt k) = 0" using adopt_ok_D(3) [OF a e] uc that by simp
    then have "Adopt k \<notin> set es" by (simp add: count_list_0_iff)
    moreover have "Adopt k \<notin> set (pr_uc (proms s q))" if "q \<noteq> p" for q
      using adopt_ok_D(1) [OF a e] that by blast
    ultimately show "\<not> adopting ?s k" by (auto simp: adopting_def)
  qed
qed

lemma job_ok:
  assumes ok: "sys_ok s" and "running s = None" and "Ve s = j # js" and "\<forall>p. j \<noteq> Run p"
  shows "sys_ok (s\<lparr>Ve := js\<rparr>)"
  using queue_ok_cong [of "s\<lparr>Ve := js\<rparr>" s] adopt_ok_cong [of "s\<lparr>Ve := js\<rparr>" s] queue_okD(6) [of s] assms
  by (cases j) (simp_all add: sys_ok_def core_of_def runs_def List.map_filter_def)

lemma step_good: "step cb s s' \<Longrightarrow> honest cb \<Longrightarrow> sys_ok s \<Longrightarrow> sys_ok s' \<and> keeps s s'"
proof (induction rule: step.induct)
  case (program s s')
  then show ?case using api_good by (auto simp: good_def)
next
  case (run s p js)
  have "runs (s\<lparr>Ve := js, running := Some p\<rparr>) = runs s"
    using run by (simp add: runs_def List.map_filter_def)
  with run queue_ok_cong [of "s\<lparr>Ve := js, running := Some p\<rparr>" s] adopt_ok_cong [of "s\<lparr>Ve := js, running := Some p\<rparr>" s]
    queue_okD(6) [of s] show ?case by (simp add: sys_ok_def core_of_def keeps_def)
next
  case (report s p v js)
  with job_ok [of s] reported_ok [of "s\<lparr>Ve := js\<rparr>"] show ?case by (simp add: keeps_def)
next
  case (direct s f v js)
  then have "sys_ok (s\<lparr>Ve := js\<rparr>)" by (intro job_ok) auto
  with good_thrown [OF good_call [OF direct(3)], of "s\<lparr>Ve := js\<rparr>" f "Some v"] show ?case
    by (simp add: good_def keeps_def)
next
  case (entry s p e es d)
  note E = entry_ok [OF entry(5,1,2)]
  from pf_ok [OF entry(4) E(1) E(3)] E(2) show ?case using keeps_trans by blast
next
  case (finished s p)
  let ?s = "upd p (\<lambda>x. x\<lparr>pr_zj := False\<rparr>) (s\<lparr>running := None\<rparr>)"
  from finished have q: "queue_ok s" and a: "adopt_ok s" by (simp_all add: sys_ok_def)
  note Q = queue_okD [OF q]
  have r: "runs s = p # runs ?s" using finished(1) by (simp add: runs_def)
  have "queue_ok ?s"
  proof (rule queue_okI)
    show "distinct (runs ?s)" using Q(1) r by simp
    show "pr_zj (proms ?s q) \<longleftrightarrow> q \<in> set (runs ?s)" for q using Q(1) Q(2) [of q] r by (cases "q = p") simp_all
    show "settled (proms ?s q)" if "q \<in> set (runs ?s)" for q using that Q(3) [of q] r by auto
    show "pr_Qc (proms ?s q) \<noteq> None" if "settled (proms ?s q)" for q
      using that Q(4) [of q] by (auto split: if_splits)
    show "q \<in> set (runs ?s)" if "settled (proms ?s q)" "pr_uc (proms ?s q) \<noteq> []" for q
      using that Q(5) [of q] r finished(2) by (cases "q = p") auto
    show "Ue ?s" if "Ve ?s \<noteq> [] \<or> running ?s \<noteq> None" using that Q(6) by simp
  qed
  moreover have "adopt_ok ?s" by (rule adopt_ok_change [OF a]) auto
  moreover have "keeps s ?s" by (simp add: keeps_def)
  ultimately show ?case by (simp add: sys_ok_def)
next
  case (drained s)
  with queue_ok_cong [of "s\<lparr>Ue := False\<rparr>" s] adopt_ok_cong [of "s\<lparr>Ue := False\<rparr>" s] show ?case
    by (simp add: sys_ok_def core_of_def keeps_def runs_def)
qed

lemma steps_good: "steps cb s s' \<Longrightarrow> honest cb \<Longrightarrow> sys_ok s \<Longrightarrow> sys_ok s' \<and> keeps s s'"
proof (induction rule: steps.induct)
  case (more s t u)
  then show ?case using step_good keeps_trans by blast
qed simp

lemma start_ok: "sys_ok (sys_start w)"
  by (simp add: sys_start_def sys_ok_def queue_ok_def adopt_ok_def runs_def blank_def settled_def List.map_filter_def)


definition resolved_once :: "unit sys" where
  "resolved_once = settle 0 2 (Val 7) (snd (bf_then 0 (Some 5) None (snd (bf_new (sys_start ())))))"


end
