(* ===== verification/Closure_Uri.thy ===== *)
theory Closure_Uri
  imports Js_Uri Js_Regex Js_Number "HOL-Library.AList"
begin

text \<open>
  Addresses in the survey script (\<open>prompt_embed_static.js\<close>, lines 77 to 80 and 90 to 102): splitting and
  building an address (\<open>yf\<close>, \<open>xf\<close>), query parameters (\<open>Bf\<close>, \<open>Cf\<close>, \<open>Df\<close>, \<open>If\<close>, \<open>Mf\<close>), the class \<open>bg\<close>
  (\<open>toString\<close>, \<open>resolve\<close>) and its query data \<open>hg\<close>.

  A group of the pattern \<open>yf\<close> that takes no part in the match is \<open>None\<close>. Decoding can throw
  (\<open>None\<close>); text above code unit 255 counts as thrown, too (\<open>Js_Uri\<close>). The read-only flag \<open>Xr\<close>,
  which nothing sets, is left out.
  Shown: what resolving a reference takes from the reference and what from the base; the path of a
  relative reference has no dot segments and does not leave the root.
\<close>

subsection \<open>Splitting and building\<close>

record parts =
  u_scheme :: "string option"
  u_user :: "string option"
  u_domain :: "string option"
  u_port :: "string option"
  u_path :: "string option"
  u_query :: "string option"
  u_fragment :: "string option"

definition none_of :: "string \<Rightarrow> char \<Rightarrow> bool" where
  "none_of cs c \<longleftrightarrow> c \<notin> set cs"

text \<open>The scheme: the longest run without \<open>:/?#.\<close>, if not empty and followed by a colon.\<close>

definition split_scheme :: "string \<Rightarrow> string option \<times> string" where
  "split_scheme s =
     (let a = takeWhile (none_of '':/?#.'') s; r = dropWhile (none_of '':/?#.'') s
      in if a \<noteq> [] \<and> r \<noteq> [] \<and> hd r = CHR '':'' then (Some a, tl r) else (None, s))"

text \<open>Domain and port: a last colon with only digits after it divides them.\<close>

definition split_port :: "string \<Rightarrow> string \<times> string option" where
  "split_port h =
     (case last_index_of h CHR '':'' of
        None \<Rightarrow> (h, None)
      | Some i \<Rightarrow>
        (let p = drop (Suc i) h in if p \<noteq> [] \<and> list_all is_digit p then (take i h, Some p) else (h, None)))"

definition split_authority :: "string \<Rightarrow> (string option \<times> string option \<times> string option) \<times> string" where
  "split_authority s =
     (if starts_with s ''//'' then
        (let t = drop 2 s; a = takeWhile (none_of ''/?#'') t; r = dropWhile (none_of ''/?#'') t;
             (user, h) = (case last_index_of a CHR ''@'' of
                None \<Rightarrow> (None, a) | Some i \<Rightarrow> (Some (take i a), drop (Suc i) a));
             (d, p) = split_port h
         in ((user, Some d, p), r))
      else ((None, None, None), s))"

definition split_uri :: "string \<Rightarrow> parts" where
  "split_uri s =
     (let (scheme, s) = split_scheme s;
          ((user, domain, port), s) = split_authority s;
          path = takeWhile (none_of ''?#'') s; s = dropWhile (none_of ''?#'') s;
          (query, s) = (if s \<noteq> [] \<and> hd s = CHR ''?''
            then (Some (takeWhile (none_of ''#'') (tl s)), dropWhile (none_of ''#'') (tl s)) else (None, s));
          fragment = (if s \<noteq> [] then Some (tl s) else None)
      in \<lparr>u_scheme = scheme, u_user = user, u_domain = domain, u_port = port,
          u_path = (if path \<noteq> [] then Some path else None), u_query = query, u_fragment = fragment\<rparr>)"

definition truthy_part :: "string option \<Rightarrow> bool" where
  "truthy_part x \<longleftrightarrow> x \<noteq> None \<and> x \<noteq> Some []"

text \<open>\<open>xf(a, b, c, d, e, g, h)\<close>\<close>

definition build_uri :: "parts \<Rightarrow> string" where
  "build_uri u =
     (if truthy_part (u_scheme u) then the (u_scheme u) @ '':'' else []) @
     (if truthy_part (u_domain u)
      then ''//'' @ (if truthy_part (u_user u) then the (u_user u) @ ''@'' else []) @ the (u_domain u) @
        (if truthy_part (u_port u) then '':'' @ the (u_port u) else [])
      else []) @
     (if truthy_part (u_path u) then the (u_path u) else []) @
     (if truthy_part (u_query u) then ''?'' @ the (u_query u) else []) @
     (if truthy_part (u_fragment u) then ''#'' @ the (u_fragment u) else [])"

text \<open>\<open>zf\<close>: the scheme, or that of the page, in lower case; \<open>Af\<close>: the page's path and what follows.\<close>

definition zf :: "string \<Rightarrow> string \<Rightarrow> string" where
  "zf protocol a =
     (let s = (case u_scheme (split_uri a) of Some s \<Rightarrow> s | None \<Rightarrow> butlast protocol) in to_lower s)"

definition Af :: "string \<Rightarrow> string" where
  "Af href = build_uri ((split_uri href)\<lparr>u_scheme := None, u_user := None, u_domain := None, u_port := None\<rparr>)"

subsection \<open>Query parameters\<close>

text \<open>\<open>Bf\<close>: the pairs a query gives its callback; no value gives the empty text.\<close>

definition plus_space :: "string \<Rightarrow> string" where
  "plus_space s = map (\<lambda>c. if c = CHR ''+'' then CHR '' '' else c) s"

definition Bf_pair :: "string \<Rightarrow> (string \<times> string) option" where
  "Bf_pair x =
     (case index_of x ''='' of
        None \<Rightarrow> Some (x, [])
      | Some e \<Rightarrow>
        (let g = drop (Suc e) x
         in if g = [] then Some (take e x, []) else map_option (Pair (take e x)) (decode_component (plus_space g))))"

fun all_some :: "'a option list \<Rightarrow> 'a list option" where
  "all_some [] = Some []"
| "all_some (x # xs) = (case x of None \<Rightarrow> None | Some y \<Rightarrow> map_option ((#) y) (all_some xs))"

definition Bf :: "string \<Rightarrow> (string \<times> string) list option" where
  "Bf a = (if a = [] then Some [] else all_some (map Bf_pair (split_on CHR ''&'' a)))"

definition Cf :: "string \<Rightarrow> string \<Rightarrow> string" where
  "Cf a b =
     (if b = [] then a
      else (let c = (case index_of a ''#'' of None \<Rightarrow> length a | Some c \<Rightarrow> c);
                (d, e) = (case index_of a ''?'' of
                   None \<Rightarrow> (c, [])
                 | Some d \<Rightarrow> if c < d then (c, []) else (d, take (c - (d + 1)) (drop (d + 1) a)));
                q = (if e \<noteq> [] then e @ ''&'' @ b else b)
            in take d a @ (if q \<noteq> [] then ''?'' @ q else []) @ drop c a))"

text \<open>\<open>Df\<close> for a text, a list of texts, or null.\<close>

datatype qvalue = Q_null | Q_text string | Q_list "string list"

definition Df_text :: "string \<Rightarrow> string \<Rightarrow> string" where
  "Df_text a b = a @ (if b = [] then [] else ''='' @ encode_component b)"

definition Df :: "string \<Rightarrow> qvalue \<Rightarrow> string list" where
  "Df a b = (case b of Q_null \<Rightarrow> [] | Q_text t \<Rightarrow> [Df_text a t] | Q_list ts \<Rightarrow> map (Df_text a) ts)"

definition If :: "(string \<times> qvalue) list \<Rightarrow> string" where
  "If a = join_with ''&'' (concat (map (\<lambda>(c, v). Df c v) a))"

definition Kf :: "string \<Rightarrow> (string \<times> qvalue) list \<Rightarrow> string" where
  "Kf a b = Cf a (If b)"

definition Lf :: "string \<Rightarrow> string \<Rightarrow> string option \<Rightarrow> string" where
  "Lf a b c = Cf a (b @ (case c of None \<Rightarrow> [] | Some c \<Rightarrow> ''='' @ encode_component c))"

text \<open>\<open>Mf(a, b, c)\<close>: where the parameter \<open>full_content\<close> starts between \<open>b\<close> and \<open>c\<close>.\<close>

function Mf :: "string \<Rightarrow> nat \<Rightarrow> nat \<Rightarrow> nat option" where
  "Mf a b c =
     (case index_of (drop b a) ''full_content'' of
        None \<Rightarrow> None
      | Some i \<Rightarrow>
        (let j = b + i; before = (if 0 < j then Some (a ! (j - 1)) else None);
             after = (if j + 12 < length a then Some (a ! (j + 12)) else None)
         in if \<not> j < c then None
            else if (before = Some CHR ''&'' \<or> before = Some CHR ''?'') \<and>
                (after = None \<or> after = Some (char_of (0 :: nat)) \<or> after = Some CHR ''='' \<or> after = Some CHR ''&'' \<or> after = Some CHR ''#'')
            then Some j else Mf a (j + 13) c))"
  by pat_completeness auto
termination
  by (relation "measure (\<lambda>(a, b, c). c - b)") auto

subsection \<open>The class \<open>bg\<close>\<close>

text \<open>Query data: keys in the order of insertion with their values; \<open>mb\<close> is the query text while it is
  current, and \<open>wa\<close> is filled from it when first needed.\<close>

record query =
  hg_wa :: "(string \<times> string list) list option"
  hg_ia :: nat
  hg_mb :: "string option"
  hg_Fb :: bool

definition hg_new :: "string option \<Rightarrow> bool \<Rightarrow> query" where
  "hg_new a b = \<lparr>hg_wa = None, hg_ia = 0, hg_mb = (if truthy_part a then a else None), hg_Fb = b\<rparr>"

definition qg :: "query \<Rightarrow> string \<Rightarrow> string" where
  "qg q b = (if hg_Fb q then to_lower b else b)"

definition the_map :: "query \<Rightarrow> (string \<times> string list) list" where
  "the_map q = (case hg_wa q of None \<Rightarrow> [] | Some m \<Rightarrow> m)"

definition values_of :: "(string \<times> string list) list \<Rightarrow> string \<Rightarrow> string list" where
  "values_of m a = (case map_of m a of None \<Rightarrow> [] | Some vs \<Rightarrow> vs)"

definition add_pair :: "string \<Rightarrow> string \<Rightarrow> query \<Rightarrow> query" where
  "add_pair a b q =
     (let a = qg q a
      in q\<lparr>hg_mb := None, hg_wa := Some (AList.update a (values_of (the_map q) a @ [b]) (the_map q)), hg_ia := hg_ia q + 1\<rparr>)"

text \<open>\<open>pg\<close>: the first use parses the text; \<open>add\<close> clears \<open>mb\<close> at the first pair.\<close>

fun pg_pairs :: "(string \<times> string) list \<Rightarrow> query \<Rightarrow> query option" where
  "pg_pairs [] q = Some q"
| "pg_pairs ((b, c) # ps) q =
     (case decode_component (plus_space b) of None \<Rightarrow> None | Some b \<Rightarrow> pg_pairs ps (add_pair b c q))"

definition pg :: "query \<Rightarrow> query option" where
  "pg q =
     (case hg_wa q of
        Some _ \<Rightarrow> Some q
      | None \<Rightarrow>
        (let r = q\<lparr>hg_wa := Some [], hg_ia := 0\<rparr>
         in case hg_mb q of
              None \<Rightarrow> Some r
            | Some t \<Rightarrow> (case Bf t of None \<Rightarrow> None | Some ps \<Rightarrow> pg_pairs ps r)))"

definition hg_add :: "string \<Rightarrow> string \<Rightarrow> query \<Rightarrow> query option" where
  "hg_add a b q = map_option (add_pair a b) (pg q)"

definition hg_remove :: "string \<Rightarrow> query \<Rightarrow> (bool \<times> query) option" where
  "hg_remove a q =
     map_option (\<lambda>q.
       (let a = qg q a
        in case map_of (the_map q) a of
             None \<Rightarrow> (False, q)
           | Some vs \<Rightarrow> (True, q\<lparr>hg_mb := None, hg_ia := hg_ia q - length vs, hg_wa := Some (AList.delete a (the_map q))\<rparr>)))
     (pg q)"

definition hg_clear :: "query \<Rightarrow> query" where
  "hg_clear q = q\<lparr>hg_wa := None, hg_mb := None, hg_ia := 0\<rparr>"

definition hg_Me :: "string \<Rightarrow> query \<Rightarrow> (bool \<times> query) option" where
  "hg_Me a q = map_option (\<lambda>q. (map_of (the_map q) (qg q a) \<noteq> None, q)) (pg q)"

definition hg_set :: "string \<Rightarrow> string \<Rightarrow> query \<Rightarrow> query option" where
  "hg_set a b q =
     map_option (\<lambda>q.
       (let a = qg q a; n = length (values_of (the_map q) a)
        in q\<lparr>hg_mb := None, hg_ia := hg_ia q - n + 1, hg_wa := Some (AList.update a [b] (the_map q))\<rparr>)) (pg q)"

definition hg_get :: "string \<Rightarrow> string \<Rightarrow> query \<Rightarrow> (string \<times> query) option" where
  "hg_get a b q =
     (if a = [] then Some (b, q)
      else map_option (\<lambda>q. (case values_of (the_map q) (qg q a) of [] \<Rightarrow> b | v # _ \<Rightarrow> v, q)) (pg q))"

definition hg_Pb :: "query \<Rightarrow> string list option" where
  "hg_Pb q = map_option (\<lambda>q. concat (map (\<lambda>(k, vs). replicate (length vs) k) (the_map q))) (pg q)"

definition hg_gc :: "query \<Rightarrow> string list option" where
  "hg_gc q = map_option (\<lambda>q. concat (map snd (the_map q))) (pg q)"

text \<open>\<open>toString\<close>; values are looked up by \<open>gc\<close>, so with \<open>qg\<close>.\<close>

definition hg_text :: "query \<Rightarrow> string \<times> query" where
  "hg_text q =
     (case hg_mb q of
        Some t \<Rightarrow> (t, q)
      | None \<Rightarrow>
        (case hg_wa q of
           None \<Rightarrow> ([], q)
         | Some m \<Rightarrow>
           (let t = join_with ''&'' (concat (map (\<lambda>(d, _). map (\<lambda>v. encode_component d @
                      (if v \<noteq> [] then ''='' @ encode_component v else [])) (values_of m (qg q d))) m))
            in (t, q\<lparr>hg_mb := (if t \<noteq> [] then Some t else None)\<rparr>))))"

text \<open>\<open>gg\<close> and \<open>ig\<close>: decoding of a part (\<open>b\<close>: escapes of reserved characters and of the percent sign
  stay), and encoding with the characters \<open>cs\<close> escaped as well.\<close>

definition gg :: "string \<Rightarrow> bool \<Rightarrow> string option" where
  "gg a b =
     (if a = [] then Some []
      else if b then decode_uri (replace_all ''%25'' ''%2525'' a) else decode_component a)"

definition lower_hex :: "nat \<Rightarrow> char" where
  "lower_hex n = (if n < 10 then char_of (48 + n) else char_of (87 + n))"

definition og :: "char \<Rightarrow> string" where
  "og c = (let a = of_char c :: nat in [CHR ''%'', lower_hex (a div 16 mod 16), lower_hex (a mod 16)])"

fun keep_escapes :: "string \<Rightarrow> string" where
  "keep_escapes (a # b # c # d # e # s) =
     (if a = CHR ''%'' \<and> b = CHR ''2'' \<and> c = CHR ''5'' \<and> hex_read d \<noteq> None \<and> hex_read e \<noteq> None
      then CHR ''%'' # d # e # keep_escapes s else a # keep_escapes (b # c # d # e # s))"
| "keep_escapes s = s"

definition ig :: "string \<Rightarrow> string \<Rightarrow> bool \<Rightarrow> string" where
  "ig a cs c =
     (let a = concat (map (\<lambda>x. if x \<in> set cs then og x else [x]) (encode_uri a))
      in if c then keep_escapes a else a)"

record bg =
  bg_vd :: string
  bg_ze :: string
  bg_xc :: string
  bg_kf :: "nat option"
  bg_hb :: string
  bg_tb :: query
  bg_Pd :: string
  bg_Fb :: bool

definition text_of :: "string option \<Rightarrow> string" where
  "text_of x = (case x of None \<Rightarrow> [] | Some s \<Rightarrow> s)"

definition drop_colon :: "string \<Rightarrow> string" where
  "drop_colon s = (if s \<noteq> [] \<and> last s = CHR '':'' then butlast s else s)"

definition bg_parse :: "string \<Rightarrow> bool \<Rightarrow> bg option" where
  "bg_parse a b =
     (let c = split_uri a
      in case (gg (text_of (u_scheme c)) True, gg (text_of (u_user c)) False, gg (text_of (u_domain c)) True,
               gg (text_of (u_path c)) True, gg (text_of (u_fragment c)) False) of
           (Some vd, Some ze, Some xc, Some hb, Some pd) \<Rightarrow>
             Some \<lparr>bg_vd = drop_colon vd, bg_ze = ze, bg_xc = xc, bg_kf = map_option digits_val (u_port c),
               bg_hb = hb, bg_tb = hg_new (u_query c) b, bg_Pd = pd, bg_Fb = b\<rparr>
         | _ \<Rightarrow> None)"

definition bg_text :: "bg \<Rightarrow> string \<times> bg" where
  "bg_text u =
     (let c = bg_xc u; (q, tb) = hg_text (bg_tb u)
      in ((if bg_vd u \<noteq> [] then ig (bg_vd u) ''#/?@'' True @ '':'' else []) @
          (if c \<noteq> [] \<or> bg_vd u = ''file''
           then ''//'' @ (if bg_ze u \<noteq> [] then ig (bg_ze u) ''#/?@'' True @ ''@'' else []) @
             keep_escapes (encode_component c) @
             (case bg_kf u of None \<Rightarrow> [] | Some n \<Rightarrow> '':'' @ show_nat n)
           else []) @
          (if bg_hb u \<noteq> []
           then (if c \<noteq> [] \<and> hd (bg_hb u) \<noteq> CHR ''/'' then ''/'' else []) @
             ig (bg_hb u) (if hd (bg_hb u) = CHR ''/'' then ''#?'' else ''#?:'') True
           else []) @
          (if q \<noteq> [] then ''?'' @ q else []) @
          (if bg_Pd u \<noteq> [] then ''#'' @ ig (bg_Pd u) ''#'' False else []), u\<lparr>bg_tb := tb\<rparr>))"

text \<open>\<open>clone\<close> goes through the constructor, whose \<open>eg\<close> takes a port of zero for none.\<close>

definition eg :: "nat option \<Rightarrow> nat option" where
  "eg b = (if b = Some 0 then None else b)"

definition bg_clone :: "bg \<Rightarrow> bg" where
  "bg_clone u = u\<lparr>bg_vd := drop_colon (bg_vd u), bg_kf := eg (bg_kf u)\<rparr>"

text \<open>The path of \<open>resolve\<close>: the loop over the segments; \<open>d\<close> says that a trailing dot segment leaves
  an empty segment behind.\<close>

fun dots_loop :: "bool \<Rightarrow> string list \<Rightarrow> string list \<Rightarrow> string list" where
  "dots_loop d g [] = g"
| "dots_loop d g (k # e) =
     (if k = ''.'' then dots_loop d (if d \<and> e = [] then g @ [[]] else g) e
      else if k = ''..'' then
        (let g = (if 1 < length g \<or> length g = 1 \<and> hd g \<noteq> [] then butlast g else g)
         in dots_loop d (if d \<and> e = [] then g @ [[]] else g) e)
      else dots_loop True (g @ [k]) e)"

definition remove_dots :: "string \<Rightarrow> string" where
  "remove_dots e =
     (if e = ''..'' \<or> e = ''.'' then []
      else if contains e ''./'' \<or> contains e ''/.''
      then join_with ''/'' (dots_loop (starts_with e ''/'') [] (split_on CHR ''/'' e))
      else e)"

definition resolve_path :: "bg \<Rightarrow> string \<Rightarrow> string" where
  "resolve_path this d =
     remove_dots
       (if hd d \<noteq> CHR ''/'' then
          (if bg_xc this \<noteq> [] \<and> bg_hb this = [] then ''/'' @ d
           else (case last_index_of (bg_hb this) CHR ''/'' of
                   None \<Rightarrow> d | Some e \<Rightarrow> take (e + 1) (bg_hb this) @ d))
        else d)"

text \<open>\<open>hg.fl\<close>: from now on keys are in lower case; the values of \<open>c\<close> replace those of its lower-case
  form. The walk is over the keys at the start.\<close>

definition fl_key :: "string \<Rightarrow> query \<Rightarrow> query" where
  "fl_key c q =
     (let a = values_of (the_map q) c; b = to_lower c
      in if c = b then q
         else (let m = AList.delete b (AList.delete c (the_map q));
                   n = hg_ia q - length a - length (values_of (the_map q) b)
               in q\<lparr>hg_wa := Some (if a \<noteq> [] then AList.update b a m else m), hg_ia := n + length a, hg_mb := None\<rparr>))"

definition hg_fl :: "bool \<Rightarrow> query \<Rightarrow> query option" where
  "hg_fl a q =
     (if a \<and> \<not> hg_Fb q
      then map_option (\<lambda>q. (foldl (\<lambda>q c. fl_key c q) (q\<lparr>hg_mb := None\<rparr>) (map fst (the_map q)))\<lparr>hg_Fb := a\<rparr>) (pg q)
      else Some (q\<lparr>hg_Fb := a\<rparr>))"

definition resolve :: "bg \<Rightarrow> bg \<Rightarrow> bg option" where
  "resolve this a =
     (let b = bg_clone this;
          c = bg_vd a \<noteq> [];
          (b, c) = (if c then (b\<lparr>bg_vd := drop_colon (bg_vd a)\<rparr>, True) else (b, bg_ze a \<noteq> []));
          (b, c) = (if c then (b\<lparr>bg_ze := bg_ze a\<rparr>, True) else (b, bg_xc a \<noteq> []));
          (b, c) = (if c then (b\<lparr>bg_xc := bg_xc a\<rparr>, True) else (b, bg_kf a \<noteq> None));
          d = bg_hb a;
          (b, c, d) = (if c then (b\<lparr>bg_kf := eg (bg_kf a)\<rparr>, True, d)
            else if d \<noteq> [] then (b, True, resolve_path this d) else (b, False, d));
          (b, c) = (if c then (b\<lparr>bg_hb := d\<rparr>, True) else (b, fst (hg_text (bg_tb a)) \<noteq> []));
          (b, c) = (if c then (map_option (\<lambda>t. b\<lparr>bg_tb := t\<rparr>) (hg_fl (bg_Fb b) (bg_tb a)), True)
            else (Some b, bg_Pd a \<noteq> []))
      in if c then map_option (\<lambda>b. b\<lparr>bg_Pd := bg_Pd a\<rparr>) b else b)"

subsection \<open>Dot segments\<close>

lemma dots_loop_clean:
  "k \<in> set (dots_loop d g e) \<Longrightarrow> \<forall>x \<in> set g. x \<noteq> ''.'' \<and> x \<noteq> ''..'' \<Longrightarrow> k \<noteq> ''.'' \<and> k \<noteq> ''..''"
proof (induction d g e rule: dots_loop.induct)
  case (2 d g k' e)
  let ?b = "if 1 < length g \<or> length g = 1 \<and> hd g \<noteq> [] then butlast g else g"
  have "\<forall>x \<in> set ?b. x \<noteq> ''.'' \<and> x \<noteq> ''..''" using "2.prems"(2) by (auto dest: in_set_butlastD)
  with 2 show ?case by (auto simp: Let_def split: if_splits)
qed auto

lemma contains_iff: "contains s p \<longleftrightarrow> (\<exists>a b. s = a @ p @ b)"
proof
  assume "contains s p"
  then obtain i where "index_of s p = Some i" by (auto simp: contains_def)
  from index_of_Some [OF this] have "take (length p) (drop i s) = p" by simp
  then show "\<exists>a b. s = a @ p @ b" by (metis append_take_drop_id)
next
  have "index_of (a @ p @ b) p \<noteq> None" for a b
  proof (induction a)
    case Nil
    then show ?case using index_of_Some_0 [of "p @ b" p] by simp
  qed simp
  moreover assume "\<exists>a b. s = a @ p @ b"
  ultimately show "contains s p" by (auto simp: contains_def)
qed

text \<open>A segment that is not alone has the separator before or after it.\<close>

lemma split_segment:
  assumes "k \<in> set (split_on c s)"
  shows "s = k \<or> contains s (k @ [c]) \<or> contains s (c # k)"
proof -
  from split_list [OF assms] obtain as bs where "split_on c s = as @ [k] @ bs" by auto
  with join_split [of c s] have s: "s = join_with [c] (as @ [k] @ bs)" by simp
  have ak: "join_with [c] (as @ [k]) = (if as = [] then k else join_with [c] as @ c # k)"
    by (simp add: join_with_append)
  show ?thesis
  proof (cases "bs = []")
    case True
    with s ak have "s = k \<or> s = join_with [c] as @ (c # k) @ []" by (cases "as = []") auto
    then show ?thesis unfolding contains_iff by blast
  next
    case False
    with s ak have "s = (if as = [] then [] else join_with [c] as @ [c]) @ (k @ [c]) @ join_with [c] bs"
      by (simp add: join_with_append join_with_Cons)
    then show ?thesis unfolding contains_iff by blast
  qed
qed

lemma no_dot_segment:
  assumes "e \<noteq> ''..''" "e \<noteq> ''.''" "\<not> contains e ''./''" "\<not> contains e ''/.''" and k: "k \<in> set (split_on CHR ''/'' e)"
  shows "k \<noteq> ''.'' \<and> k \<noteq> ''..''"
proof -
  have "contains e ''./''" if "contains e ''../''"
    using that unfolding contains_iff by (metis append_Cons append_Nil append_assoc)
  moreover have "contains e ''/.''" if "contains e ''/..''"
  proof -
    from that obtain a b where "e = a @ ''/..'' @ b" unfolding contains_iff by blast
    then have "e = a @ ''/.'' @ (CHR ''.'' # b)" by simp
    then show ?thesis unfolding contains_iff by blast
  qed
  ultimately show ?thesis using split_segment [OF k] assms by auto
qed

lemma dots_loop_set: "k \<in> set (dots_loop d g e) \<Longrightarrow> k = [] \<or> k \<in> set g \<or> k \<in> set e"
proof (induction d g e rule: dots_loop.induct)
  case (2 d g k' e)
  then show ?case by (auto simp: Let_def dest: in_set_butlastD split: if_splits)
qed simp

lemma dots_loop_root:
  "g \<noteq> [] \<Longrightarrow> hd g = [] \<Longrightarrow> e \<noteq> [] \<Longrightarrow> \<exists>x xs. dots_loop True g e = [] # x # xs"
proof (induction True g e rule: dots_loop.induct)
  case (2 g k e)
  let ?b = "if 1 < length g \<or> length g = 1 \<and> hd g \<noteq> [] then butlast g else g"
  obtain gs where g: "g = [] # gs" using 2(4,5) by (cases g) auto
  have b: "?b \<noteq> [] \<and> hd ?b = []" using g by auto
  show ?case
  proof (cases "e = []")
    case True
    obtain bs where "?b = [] # bs" using b by (cases ?b) auto
    with g True show ?thesis by (cases gs; cases bs) (auto simp: Let_def)
  next
    case False
    with 2 b g show ?thesis by (auto simp: Let_def)
  qed
qed simp

text \<open>\<open>remove_dots\<close> leaves no segment \<open>.\<close> or \<open>..\<close>, and a path that starts at the root stays
  there: no number of \<open>..\<close> segments leads above it.\<close>

lemma remove_dots_clean:
  "(\<forall>k \<in> set (split_on CHR ''/'' (remove_dots e)). k \<noteq> ''.'' \<and> k \<noteq> ''..'') \<and>
   (starts_with e ''/'' \<longrightarrow> starts_with (remove_dots e) ''/'')"
proof (cases "(contains e ''./'' \<or> contains e ''/.'') \<and> e \<noteq> ''..'' \<and> e \<noteq> ''.''")
  case True
  let ?ss = "split_on CHR ''/'' e"
  let ?g = "dots_loop (starts_with e ''/'') [] ?ss"
  have r: "remove_dots e = join_with ''/'' ?g" using True by (simp add: remove_dots_def)
  have g: "k \<noteq> ''.'' \<and> k \<noteq> ''..'' \<and> CHR ''/'' \<notin> set k" if "k \<in> set ?g" for k
    using dots_loop_clean [OF that] dots_loop_set [OF that] split_on_pieces [of k "CHR ''/''" e] by auto
  have "split_on CHR ''/'' (remove_dots e) = ?g \<or> remove_dots e = []"
    using g split_join [of ?g "CHR ''/''"] unfolding r by (cases "?g = []") auto
  moreover have "starts_with (remove_dots e) ''/''" if root: "starts_with e ''/''"
  proof -
    obtain s where "e = CHR ''/'' # s" using root by (cases e) (auto simp: starts_with_def)
    then have "?g = dots_loop True [[]] (split_on CHR ''/'' s)" using root by simp
    with dots_loop_root [of "[[]]" "split_on CHR ''/'' s"] obtain x xs where "?g = [] # x # xs" by auto
    then show ?thesis unfolding r by (simp add: starts_with_def)
  qed
  moreover have "\<forall>k \<in> set ?g. k \<noteq> ''.'' \<and> k \<noteq> ''..''" using g by blast
  moreover have "\<forall>k \<in> set (split_on CHR ''/'' []). k \<noteq> ''.'' \<and> k \<noteq> ''..''" by simp
  ultimately show ?thesis by metis
next
  case False
  show ?thesis
  proof (cases "e = ''..'' \<or> e = ''.''")
    case True
    then have "remove_dots e = []" by (auto simp: remove_dots_def)
    with True show ?thesis by (auto simp: starts_with_def)
  next
    case no: False
    with False have "remove_dots e = e" by (auto simp: remove_dots_def)
    moreover have "\<forall>k \<in> set (split_on CHR ''/'' e). k \<noteq> ''.'' \<and> k \<noteq> ''..''"
      using no_dot_segment [of e] no False by blast
    ultimately show ?thesis by simp
  qed
qed

text \<open>What \<open>resolve\<close> takes for an address of its own: a reference with a scheme, a user, a domain or
  a port.\<close>

definition own_address :: "bg \<Rightarrow> bool" where
  "own_address a \<longleftrightarrow> bg_vd a \<noteq> [] \<or> bg_ze a \<noteq> [] \<or> bg_xc a \<noteq> [] \<or> bg_kf a \<noteq> None"

definition dot_free :: "string \<Rightarrow> bool" where
  "dot_free e \<longleftrightarrow> (\<forall>k \<in> set (split_on CHR ''/'' e). k \<noteq> ''.'' \<and> k \<noteq> ''..'')"

text \<open>The path of the base or of the reference fixes the root.\<close>

definition rooted :: "bg \<Rightarrow> bg \<Rightarrow> bool" where
  "rooted this a \<longleftrightarrow> starts_with (bg_hb a) ''/'' \<or> starts_with (bg_hb this) ''/'' \<or> bg_xc this \<noteq> [] \<and> bg_hb this = []"

lemma resolve_path_clean:
  assumes "d \<noteq> []"
  shows "dot_free (resolve_path this d)"
    and "starts_with d ''/'' \<or> starts_with (bg_hb this) ''/'' \<or> bg_xc this \<noteq> [] \<and> bg_hb this = [] \<Longrightarrow>
      starts_with (resolve_path this d) ''/''"
proof -
  show "dot_free (resolve_path this d)"
    unfolding dot_free_def resolve_path_def using remove_dots_clean by blast
  have slash: "last_index_of h CHR ''/'' \<noteq> None" if "starts_with h ''/''" for h
    using that by (cases h) (auto simp: starts_with_def split: option.split)
  assume "starts_with d ''/'' \<or> starts_with (bg_hb this) ''/'' \<or> bg_xc this \<noteq> [] \<and> bg_hb this = []"
  then show "starts_with (resolve_path this d) ''/''"
    unfolding resolve_path_def using assms slash
    by (intro remove_dots_clean [THEN conjunct2, rule_format])
      (cases d; cases "bg_hb this"; auto simp: starts_with_def split: option.split)
qed

text \<open>C14. Resolving a reference that is an address of its own (with a scheme, a user, a domain or a
  port) keeps its path as it is, dot segments included, and takes its query and fragment. Any other
  reference stays at the scheme, user, domain and port of the base; if it has a path, the resolved
  path has no segment \<open>.\<close> or \<open>..\<close> and, if reference or base start at the root (or the base has a
  domain and no path), it starts at the root: no number of \<open>..\<close> segments leads above it, and the
  query and fragment are those of the reference; without a path, the path of the base is kept, and
  an empty reference keeps its fragment, too.\<close>

theorem resolved_path_clean:
  assumes "resolve this a = Some r"
  shows "(own_address a \<longrightarrow> bg_hb r = bg_hb a) \<and>
    (\<not> own_address a \<longrightarrow>
      bg_vd r = drop_colon (bg_vd this) \<and> bg_ze r = bg_ze this \<and> bg_xc r = bg_xc this \<and> bg_kf r = eg (bg_kf this) \<and>
      (bg_hb a \<noteq> [] \<longrightarrow> dot_free (bg_hb r) \<and> (rooted this a \<longrightarrow> starts_with (bg_hb r) ''/'')) \<and>
      (bg_hb a = [] \<longrightarrow> bg_hb r = bg_hb this)) \<and>
    (own_address a \<or> bg_hb a \<noteq> [] \<longrightarrow> hg_fl (bg_Fb this) (bg_tb a) = Some (bg_tb r) \<and> bg_Pd r = bg_Pd a) \<and>
    (\<not> own_address a \<and> bg_hb a = [] \<and> fst (hg_text (bg_tb a)) = [] \<longrightarrow>
      bg_tb r = bg_tb this \<and> bg_Pd r = (if bg_Pd a \<noteq> [] then bg_Pd a else bg_Pd this))"
proof (cases "own_address a")
  case True
  with assms show ?thesis
    by (auto simp: resolve_def own_address_def bg_clone_def Let_def split: if_splits)
next
  case False
  then have own: "bg_vd a = []" "bg_ze a = []" "bg_xc a = []" "bg_kf a = None"
    by (simp_all add: own_address_def)
  show ?thesis
  proof (cases "bg_hb a = []")
    case True
    with assms own show ?thesis
      by (auto simp: resolve_def own_address_def bg_clone_def Let_def split: if_splits)
  next
    case path: False
    have here: "resolve_path (bg_clone this) = resolve_path this"
      by (simp add: resolve_path_def bg_clone_def fun_eq_iff split: option.split)
    from assms own path obtain t where t: "hg_fl (bg_Fb this) (bg_tb a) = Some t"
      "r = (bg_clone this)\<lparr>bg_hb := resolve_path this (bg_hb a), bg_tb := t, bg_Pd := bg_Pd a\<rparr>"
      by (auto simp: resolve_def Let_def here) (auto simp: bg_clone_def)
    from resolve_path_clean [OF path, of this] own path t show ?thesis
      by (simp add: own_address_def rooted_def bg_clone_def)
  qed
qed

definition sample_base :: bg where
  "sample_base = the (bg_parse ''http://a.b/c/d?x'' False)"

definition sample_ref :: bg where
  "sample_ref = the (bg_parse ''../../../e/./f'' False)"

theorem resolved_path_clean_witness:
  "\<exists>r. resolve sample_base sample_ref = Some r \<and> dot_free (bg_hb r) \<and> starts_with (bg_hb r) ''/'' \<and>
     bg_xc r = ''a.b'' \<and> bg_hb r = ''/e/f''"
proof -
  have "map_option bg_hb (resolve sample_base sample_ref) = Some ''/e/f''" by code_simp
  then obtain r where r: "resolve sample_base sample_ref = Some r" "bg_hb r = ''/e/f''" by auto
  have hyps: "\<not> own_address sample_ref" "bg_hb sample_ref \<noteq> []" "rooted sample_base sample_ref"
    "bg_xc sample_base = ''a.b''"
    by code_simp+
  from resolved_path_clean [OF r(1)] hyps(1-3) have "dot_free (bg_hb r)" "starts_with (bg_hb r) ''/''"
    "bg_xc r = bg_xc sample_base" by blast+
  with r hyps(4) show ?thesis by (intro exI [of _ r]) simp
qed

end
