(* ===== verification/Tag_Values.thy ===== *)
theory Tag_Values
  imports Js_Value
begin

text \<open>
  The values of gtm.js: primitive values and host objects (\<open>Prim\<close>), functions (\<open>Fn\<close>), and arrays,
  plain objects and arguments objects with their own enumerable fields in the order of
  assignment. The type tests, small helpers, and the deep merge \<open>Ta\<close> (jQuery's \<open>extend\<close>).

  An inherited property (of a prototype or a host object) comes from an argument \<open>inh\<close>; the own
  enumerable fields of a host object from \<open>h\<close>. The special name \<open>__proto__\<close> is not treated.
  The lemmas describe a merge through the fields of the result.
\<close>

datatype jv = Prim jval | Fn nat | Arr "(string \<times> jv) list" | Obj "(string \<times> jv) list" | Args "(string \<times> jv) list"

type_synonym fields = "(string \<times> jv) list"

abbreviation Undefd :: jv where "Undefd \<equiv> Prim Undef"

abbreviation Text :: "string \<Rightarrow> jv" where "Text s \<equiv> Prim (Str s)"

fun own_fields :: "(nat \<Rightarrow> fields) \<Rightarrow> jv \<Rightarrow> fields" where
  "own_fields h (Prim (Str s)) = map (\<lambda>i. (show_nat i, Text [s ! i])) [0..<length s]"
| "own_fields h (Prim (Ref n)) = h n"
| "own_fields h (Prim v) = []"
| "own_fields h (Fn n) = []"
| "own_fields h (Arr f) = f"
| "own_fields h (Obj f) = f"
| "own_fields h (Args f) = f"

definition get_prop :: "(jv \<Rightarrow> string \<Rightarrow> jv) \<Rightarrow> (nat \<Rightarrow> fields) \<Rightarrow> jv \<Rightarrow> string \<Rightarrow> jv" where
  "get_prop inh h v k = (case map_of (own_fields h v) k of Some w \<Rightarrow> w | None \<Rightarrow> inh v k)"

fun is_true :: "jv \<Rightarrow> bool" where
  "is_true (Prim v) = truthy v"
| "is_true _ = True"

definition null_or_undef :: "jv \<Rightarrow> bool" where
  "null_or_undef v \<longleftrightarrow> v = Undefd \<or> v = Prim Null"

text \<open>\<open>Zb\<close>: the class of a value; what is neither listed nor null is an \<open>object\<close>.\<close>

fun Zb :: "jv \<Rightarrow> string" where
  "Zb (Prim Undef) = ''undefined''"
| "Zb (Prim Null) = ''null''"
| "Zb (Prim (Bool b)) = ''boolean''"
| "Zb (Prim (Num n)) = ''number''"
| "Zb (Prim (Str s)) = ''string''"
| "Zb (Prim (Ref n)) = ''object''"
| "Zb (Fn n) = ''function''"
| "Zb (Arr f) = ''array''"
| "Zb (Obj f) = ''object''"
| "Zb (Args f) = ''object''"

text \<open>\<open>Wa\<close>: a plain object. Host objects are not; an object with a \<open>nodeType\<close> is taken for a node.\<close>

definition no_node :: "fields \<Rightarrow> bool" where
  "no_node f \<longleftrightarrow> (case map_of f ''nodeType'' of None \<Rightarrow> True | Some v \<Rightarrow> \<not> is_true v)"

fun plain :: "jv \<Rightarrow> bool" where
  "plain (Obj f) = no_node f"
| "plain (Args f) = no_node f"
| "plain _ = False"

definition S_function :: "jv \<Rightarrow> bool" where
  "S_function v \<longleftrightarrow> (case v of Fn n \<Rightarrow> True | _ \<Rightarrow> False)"

definition sb :: "jv \<Rightarrow> bool" where
  "sb v \<longleftrightarrow> (case v of Arr f \<Rightarrow> True | _ \<Rightarrow> False)"

definition Fb :: "jv \<Rightarrow> bool" where
  "Fb v \<longleftrightarrow> Zb v = ''string''"

definition eg_number :: "jv \<Rightarrow> bool" where
  "eg_number v \<longleftrightarrow> Zb v = ''number'' \<and> v \<noteq> Prim (Num NaN)"

subsection \<open>The deep merge\<close>

text \<open>\<open>Ta(a, c)\<close> copies the fields of \<open>a\<close> into \<open>c\<close>: an array goes into the array already there or
  into a new one, a plain object likewise, anything else replaces the field.\<close>

fun Ta :: "fields \<Rightarrow> fields \<Rightarrow> fields"
  and merge_in :: "jv \<Rightarrow> jv option \<Rightarrow> jv" where
  "Ta [] c = c"
| "Ta ((d, e) # a) c = Ta a (dict_set d (merge_in e (map_of c d)) c)"
| "merge_in (Arr f) old = Arr (Ta f (case old of Some (Arr g) \<Rightarrow> g | _ \<Rightarrow> []))"
| "merge_in (Obj f) old =
     (if no_node f
      then (case old of
          Some (Obj g) \<Rightarrow> Obj (Ta f (if no_node g then g else []))
        | Some (Args g) \<Rightarrow> (if no_node g then Args (Ta f g) else Obj (Ta f []))
        | _ \<Rightarrow> Obj (Ta f []))
      else Obj f)"
| "merge_in (Args f) old =
     (if no_node f
      then (case old of
          Some (Obj g) \<Rightarrow> Obj (Ta f (if no_node g then g else []))
        | Some (Args g) \<Rightarrow> (if no_node g then Args (Ta f g) else Obj (Ta f []))
        | _ \<Rightarrow> Obj (Ta f []))
      else Args f)"
| "merge_in (Prim v) old = Prim v"
| "merge_in (Fn n) old = Fn n"

text \<open>\<open>Ta(a, void 0)\<close>.\<close>

definition Ta_copy :: "jv \<Rightarrow> jv" where
  "Ta_copy v = (case v of Arr f \<Rightarrow> Arr (Ta f []) | _ \<Rightarrow> Obj (Ta (own_fields (\<lambda>_. []) v) []))"

lemma map_of_Ta:
  "distinct (map fst a) \<Longrightarrow>
   map_of (Ta a c) k = (case map_of a k of None \<Rightarrow> map_of c k | Some e \<Rightarrow> Some (merge_in e (map_of c k)))"
proof (induction a arbitrary: c)
  case (Cons p a)
  obtain d e where p: "p = (d, e)" by force
  have "map_of a d = None" using Cons.prems p by (simp add: map_of_eq_None_iff)
  with Cons show ?case by (auto simp: p map_of_dict_set split: option.splits)
qed simp

lemma map_of_Ta_single: "map_of (Ta [(d, e)] c) k = (if k = d then Some (merge_in e (map_of c d)) else map_of c k)"
  by (simp add: map_of_dict_set)

lemma Ta_distinct: "distinct (map fst c) \<Longrightarrow> distinct (map fst (Ta a c))"
  by (induction a arbitrary: c) (auto simp: dict_set_keys)

lemma Ta_keys: "fst ` set (Ta a c) = fst ` set a \<union> fst ` set c"
proof (induction a arbitrary: c)
  case (Cons p a)
  then show ?case by (cases p) (simp add: dict_set_fst)
qed simp

text \<open>Values that the deep merge takes over as they are.\<close>

fun is_leaf :: "jv \<Rightarrow> bool" where
  "is_leaf (Prim v) = True"
| "is_leaf (Fn n) = True"
| "is_leaf _ = False"

lemma merge_in_leaf [simp]: "is_leaf v \<Longrightarrow> merge_in v old = v"
  by (cases v) auto

subsection \<open>Small helpers\<close>

text \<open>The elements of a dense array; \<open>fg\<close>, \<open>W\<close> (with \<open>Math.round\<close>), \<open>Ya\<close>, \<open>mg\<close>, \<open>Xa\<close> and \<open>Qa\<close>, whose random number \<open>r\<close> lies in
  \<open>[0, 1)\<close>. \<open>f\<close> gives the text of functions and host objects.\<close>

definition fg :: "string \<Rightarrow> bool" where
  "fg s \<longleftrightarrow> s \<noteq> [] \<and> list_all is_digit s"

fun js_round :: "jsnum \<Rightarrow> jsnum" where
  "js_round (Fin r) = Fin (of_int \<lfloor>r + 1 / 2\<rfloor>)"
| "js_round x = x"

definition W_num :: "jsnum \<Rightarrow> jsnum" where
  "W_num x = (let r = js_round x in if r = NaN then Fin 0 else r)"

definition Ya_bool :: "(jv \<Rightarrow> string) \<Rightarrow> jv \<Rightarrow> bool" where
  "Ya_bool f v = (if to_lower (f v) = ''false'' then False else is_true v)"

definition arr_list :: "fields \<Rightarrow> jv list" where
  "arr_list f = map (\<lambda>i. case map_of f (show_nat i) of Some v \<Rightarrow> v | None \<Rightarrow> Undefd) [0..<length f]"

definition mg_last :: "jv list \<Rightarrow> jv" where
  "mg_last a = (if a = [] then Text [] else last a)"

definition Xa_own :: "fields option \<Rightarrow> string \<Rightarrow> jv \<Rightarrow> jv" where
  "Xa_own a b c = (case a of None \<Rightarrow> c | Some f \<Rightarrow> (case map_of f b of Some v \<Rightarrow> v | None \<Rightarrow> c))"

definition Qa_random :: "int option \<Rightarrow> int option \<Rightarrow> rat \<Rightarrow> int" where
  "Qa_random a b r =
     (let (a, b) = (case (a, b) of
           (Some a, Some b) \<Rightarrow> if a > b then (0, 2147483647) else (a, b)
         | _ \<Rightarrow> (0, 2147483647))
      in \<lfloor>r * of_int (b - a + 1)\<rfloor> + a)"

text \<open>\<open>gg\<close>: the first index of an element, or -1; \<open>hg\<close>: the first true element that passes a test.\<close>

fun gg_from :: "int \<Rightarrow> 'a list \<Rightarrow> 'a \<Rightarrow> int" where
  "gg_from d [] b = - 1"
| "gg_from d (x # a) b = (if x = b then d else gg_from (d + 1) a b)"

definition gg_index :: "'a list \<Rightarrow> 'a \<Rightarrow> int" where
  "gg_index a b = gg_from 0 a b"

fun hg_find :: "(jv \<Rightarrow> bool) \<Rightarrow> jv list \<Rightarrow> jv option" where
  "hg_find p [] = None"
| "hg_find p (x # a) = (if is_true x \<and> p x then Some x else hg_find p a)"

lemma gg_from_less: "0 \<le> d \<Longrightarrow> gg_from d a b < 0 \<longleftrightarrow> b \<notin> set a"
  by (induction a arbitrary: d) auto

lemma gg_index_less [simp]: "gg_index a b < 0 \<longleftrightarrow> b \<notin> set a"
  by (simp add: gg_index_def gg_from_less)

lemma Qa_random_range:
  assumes "0 \<le> r" and "r < 1"
  shows "0 \<le> Qa_random None b r" and "Qa_random None b r \<le> 2147483647"
proof -
  have "Qa_random None b r = \<lfloor>r * 2147483648\<rfloor>"
    by (simp add: Qa_random_def)
  moreover have "r * 2147483648 < 2147483648" using assms by simp
  ultimately show "0 \<le> Qa_random None b r" "Qa_random None b r \<le> 2147483647"
    using assms by (simp_all add: floor_le_iff)
qed

text \<open>\<open>lg\<close>: a query string as a store of lists; a parameter without \<open>=\<close> has the value \<open>1\<close>.\<close>

definition lg_pair :: "string \<Rightarrow> string \<times> string" where
  "lg_pair d = (case index_of d ''='' of None \<Rightarrow> (d, ''1'') | Some f \<Rightarrow> (take f d, drop (f + 1) d))"

definition lg_add :: "string \<times> string \<Rightarrow> (string \<Rightarrow> string list option) \<Rightarrow> (string \<Rightarrow> string list option)" where
  "lg_add p a = a(fst p \<mapsto> (case a (fst p) of None \<Rightarrow> [] | Some l \<Rightarrow> l) @ [snd p])"

definition lg :: "string \<Rightarrow> (string \<Rightarrow> string list option) \<Rightarrow> (string \<Rightarrow> string list option)" where
  "lg b a = foldl (\<lambda>a d. if d \<noteq> [] then lg_add (lg_pair d) a else a) a (split_on CHR ''&'' (trim b))"

end
