(* ===== verification/Tag_Layer.thy ===== *)
theory Tag_Layer
  imports Tag_Values Key_Stores "HOL-Library.AList"
begin

text \<open>
  The data layer of gtm.js: the two models of the page's data (the flat store \<open>Dh\<close> and the merged
  object \<open>Eh\<close>), commands given as arguments objects (\<open>Ch\<close>), and the queue \<open>Th\<close> worked off by \<open>ei\<close>.

  Functions and methods the page pushes, host objects, the zone of the container and the firing of
  tags (\<open>Sh\<close>) enter through the record \<open>page_env\<close>. What such code does to the data layer is a list of
  actions (\<open>act\<close>): it can set a key, reset the flat store, push, or call the callback of an event.
  The trace \<open>g_done\<close> lists the items taken from the queue, \<open>g_events\<close> the events given to \<open>Sh\<close>.
  The loop \<open>ei\<close> has fuel, as a page may push from every function it pushes.
\<close>

record layer =
  g_Dh :: "jv nf"
  g_Eh :: fields
  g_Th :: "jv list"
  g_Uh :: bool
  g_La :: jv
  g_seq :: nat
  g_bc :: jv
  g_onces :: "(jv \<times> bool) list"
  g_tasks :: "jv list"
  g_timers :: "(nat \<times> jv) list"
  g_page :: "jv list"
  g_done :: "jv list"
  g_events :: "(jv \<times> jv) list"

datatype act = Gh_set string jv | Gh_reset | Push "jv list" | Call_back nat

record page_env =
  p_inh :: "jv \<Rightarrow> string \<Rightarrow> jv"
  p_host :: "nat \<Rightarrow> fields"
  p_time :: "jv \<Rightarrow> jv"
  p_fn :: "nat \<Rightarrow> layer \<Rightarrow> act list"
  p_meth :: "string list \<Rightarrow> string \<Rightarrow> jv list \<Rightarrow> layer \<Rightarrow> fields \<times> act list"
  p_zone :: "jv \<Rightarrow> bool"
  p_Sh :: "jv \<Rightarrow> jv \<Rightarrow> nat \<Rightarrow> layer \<Rightarrow> act list \<times> bool"

abbreviation prop_of :: "page_env \<Rightarrow> jv \<Rightarrow> string \<Rightarrow> jv" where
  "prop_of E \<equiv> get_prop (p_inh E) (p_host E)"

subsection \<open>The two models\<close>

text \<open>\<open>Fh\<close>: an object with the value at a dotted path.\<close>

fun nest :: "string list \<Rightarrow> jv \<Rightarrow> fields" where
  "nest [] b = []"
| "nest [k] b = [(k, b)]"
| "nest (k # ks) b = [(k, Obj (nest ks b))]"

definition Fh :: "string \<Rightarrow> jv \<Rightarrow> fields" where
  "Fh a b = nest (split_on CHR ''.'' a) b"

definition Ih :: "string \<Rightarrow> jv \<Rightarrow> layer \<Rightarrow> layer" where
  "Ih a b s = s\<lparr>g_Dh := nf_set a b (g_Dh s), g_Eh := Ta (Fh a b) (g_Eh s)\<rparr>"

text \<open>\<open>Hh\<close>: first the model of the current event; its second loop.\<close>

fun event_loop :: "(jv \<Rightarrow> string \<Rightarrow> jv) \<Rightarrow> jv \<Rightarrow> nat \<Rightarrow> string list \<Rightarrow> jv option" where
  "event_loop get d c [] = (if d \<noteq> Undefd \<or> 1 < c then Some d else None)"
| "event_loop get d c (k # b) =
     (if d = Undefd then (if 1 < c then Some d else None)
      else if d = Prim Null then Some (Prim (Bool False))
      else event_loop get (get d k) (Suc c) b)"

fun model_loop :: "(jv \<Rightarrow> string \<Rightarrow> jv) \<Rightarrow> jv \<Rightarrow> string list \<Rightarrow> jv" where
  "model_loop get e [] = e"
| "model_loop get e (k # b) =
     (if e = Prim Null then Prim (Bool False)
      else if get e k = Undefd then Undefd
      else model_loop get (get e k) b)"

definition Hh :: "(jv \<Rightarrow> string \<Rightarrow> jv) \<Rightarrow> fields \<Rightarrow> string \<Rightarrow> jv" where
  "Hh get Eh a =
     (let b = split_on CHR ''.'' a
      in case event_loop get (get (Obj Eh) ''eventModel'') 0 b of
           Some d \<Rightarrow> d
         | None \<Rightarrow> model_loop get (Obj Eh) b)"

definition Z_get :: "(jv \<Rightarrow> string \<Rightarrow> jv) \<Rightarrow> layer \<Rightarrow> string \<Rightarrow> nat \<Rightarrow> jv" where
  "Z_get get s a b =
     (if b \<noteq> 2 then (case nf_get (g_Dh s) a of Some v \<Rightarrow> v | None \<Rightarrow> Undefd) else Hh get (g_Eh s) a)"

subsection \<open>Commands\<close>

datatype cmd_result = Cmd_throws | Cmd_none | Cmd_item jv

definition arg_count :: "page_env \<Rightarrow> jv \<Rightarrow> jval" where
  "arg_count E a =
     (case a of
        Args f \<Rightarrow> Num (Fin (of_nat (length f)))
      | _ \<Rightarrow> (case prop_of E a ''length'' of Prim v \<Rightarrow> v | _ \<Rightarrow> Num NaN))"

definition count_is :: "page_env \<Rightarrow> nat \<Rightarrow> jv \<Rightarrow> bool" where
  "count_is E n a \<longleftrightarrow> loose_eq (Num (Fin (of_nat n))) (arg_count E a)"

definition count_above :: "page_env \<Rightarrow> nat \<Rightarrow> jv \<Rightarrow> bool" where
  "count_above E n a \<longleftrightarrow> num_less (Fin (of_nat n)) (to_num (arg_count E a))"

definition Ch_event :: "page_env \<Rightarrow> jv \<Rightarrow> cmd_result" where
  "Ch_event E a =
     (let b = prop_of E a ''1''; d = prop_of E a ''2''
      in if Fb b \<and> \<not> count_above E 3 a
         then (if count_above E 2 a
               then (if plain d
                     then (let d = Ta_copy d
                           in Cmd_item (Obj [(''event'', b), (''eventModel'', d), (''eventCallback'', prop_of E d ''eventCallback'')]))
                     else Cmd_none)
               else Cmd_item (Obj [(''event'', b)]))
         else Cmd_none)"

definition Ch_set :: "page_env \<Rightarrow> jv \<Rightarrow> cmd_result" where
  "Ch_set E a =
     (let b = prop_of E a ''1''; c = prop_of E a ''2''
      in if count_is E 2 a \<and> plain b then Cmd_item (Obj (dict_set ''_clear'' (Prim (Bool True)) (own_fields (p_host E) (Ta_copy b))))
         else if count_is E 3 a \<and> Fb b
         then Cmd_item (Obj (dict_set ''_clear'' (Prim (Bool True)) [(case b of Prim v \<Rightarrow> to_str v | _ \<Rightarrow> [], c)]))
         else Cmd_none)"

definition Ch_js :: "page_env \<Rightarrow> jv \<Rightarrow> cmd_result" where
  "Ch_js E a =
     (let b = prop_of E a ''1''
      in if \<not> count_is E 2 a then Cmd_none
         else if null_or_undef b then Cmd_throws
         else if is_true (prop_of E b ''getTime'')
         then Cmd_item (Obj [(''event'', Text ''gtm.js''), (''gtm.start'', p_time E b)])
         else Cmd_none)"

definition command_like :: "page_env \<Rightarrow> jv \<Rightarrow> bool" where
  "command_like E k \<longleftrightarrow>
     is_true k \<and> ((case k of Args f \<Rightarrow> True | _ \<Rightarrow> False) \<or> map_of (own_fields (p_host E) k) ''callee'' \<noteq> None)"

definition Ch :: "page_env \<Rightarrow> jv \<Rightarrow> cmd_result" where
  "Ch E l =
     (if truthy (arg_count E l)
      then (case prop_of E l ''0'' of
          Prim (Str m) \<Rightarrow>
            (if m = ''event'' then Ch_event E l else if m = ''set'' then Ch_set E l
             else if m = ''js'' then Ch_js E l else Cmd_none)
        | _ \<Rightarrow> Cmd_none)
      else Cmd_none)"

subsection \<open>Working off the queue\<close>

text \<open>\<open>Wh\<close>: the callback runs at most once, as a task of its own; and the actions of foreign code
  while \<open>ei\<close> is at work, where a push only queues (and keeps 300 items in the page's array).\<close>

definition Wh_call :: "nat \<Rightarrow> layer \<Rightarrow> layer" where
  "Wh_call i s =
     (if i < length (g_onces s)
      then (case g_onces s ! i of (a, b) \<Rightarrow>
        s\<lparr>g_onces := (g_onces s)[i := (a, True)],
          g_tasks := g_tasks s @ (if \<not> b \<and> S_function a then [a] else [])\<rparr>)
      else s)"

definition push_only :: "jv list \<Rightarrow> layer \<Rightarrow> layer" where
  "push_only b s =
     (let p = g_page s @ b in s\<lparr>g_page := drop (length p - 300) p, g_Th := g_Th s @ b\<rparr>)"

fun do_act :: "act \<Rightarrow> layer \<Rightarrow> layer" where
  "do_act (Gh_set a b) s = s\<lparr>g_Eh := Ta (Fh a b) (g_Eh s)\<rparr>"
| "do_act Gh_reset s = s\<lparr>g_Dh := jg_new\<rparr>"
| "do_act (Push b) s = push_only b s"
| "do_act (Call_back i) s = Wh_call i s"

definition do_acts :: "act list \<Rightarrow> layer \<Rightarrow> layer" where
  "do_acts as s = fold do_act as s"

text \<open>The path of a command array: \<open>Some False\<close> when a step of it is missing, \<open>None\<close> when a step
  goes through null.\<close>

fun path_there :: "(jv \<Rightarrow> string \<Rightarrow> jv) \<Rightarrow> jv \<Rightarrow> string list \<Rightarrow> bool option" where
  "path_there get g [] = Some True"
| "path_there get g (k # d) =
     (if g = Prim Null then None
      else if get g k = Undefd then Some False else path_there get (get g k) d)"

definition run_method :: "page_env \<Rightarrow> fields \<Rightarrow> layer \<Rightarrow> bool option \<times> layer" where
  "run_method E c s =
     (case map_of c ''0'' of
        Some (Prim (Str m)) \<Rightarrow>
          (let d = split_on CHR ''.'' m; e = last d; d = butlast d; f = tl (arr_list c)
           in case path_there (prop_of E) (Obj (g_Eh s)) d of
                None \<Rightarrow> (None, s)
              | Some False \<Rightarrow> (Some False, s)
              | Some True \<Rightarrow> (case p_meth E d e f s of (Eh, as) \<Rightarrow> (Some False, do_acts as (s\<lparr>g_Eh := Eh\<rparr>))))
      | _ \<Rightarrow> (Some False, s))"

text \<open>The fields of an item go into both models, after a reset of the path when \<open>_clear\<close> is set.\<close>

definition put_field :: "bool \<Rightarrow> string \<times> jv \<Rightarrow> layer \<Rightarrow> layer" where
  "put_field t p s =
     (if fst p = ''_clear'' then s
      else (let s = (if t then Ih (fst p) Undefd s else s) in Ih (fst p) (snd p) s))"

definition put_fields :: "page_env \<Rightarrow> jv \<Rightarrow> layer \<Rightarrow> layer" where
  "put_fields E r s = fold (put_field (is_true (prop_of E r ''_clear''))) (own_fields (p_host E) r) s"

text \<open>An event: its id, the timer of its callback, and \<open>Sh\<close>.\<close>

definition unique_id :: string where
  "unique_id = ''gtm.uniqueEventId''"

definition fire_event :: "page_env \<Rightarrow> jv \<Rightarrow> layer \<Rightarrow> bool \<times> layer" where
  "fire_event E r s =
     (let z = prop_of E r ''event'';
          (n, s) = (case map_of (own_fields (p_host E) r) unique_id of
              Some n \<Rightarrow> (n, s)
            | None \<Rightarrow> (let n = Prim (Num (Fin (of_nat (g_seq s))))
                       in (n, Ih unique_id n (s\<lparr>g_seq := Suc (g_seq s)\<rparr>))));
          s = s\<lparr>g_La := z\<rparr>
      in if p_zone E n
         then (let i = length (g_onces s);
                   s = s\<lparr>g_onces := g_onces s @ [(prop_of E r ''eventCallback'', False)]\<rparr>;
                   f = prop_of E r ''eventTimeout'';
                   s = (if is_true f then s\<lparr>g_timers := g_timers s @ [(i, f)]\<rparr> else s);
                   s = s\<lparr>g_events := g_events s @ [(n, z)]\<rparr>;
                   (as, v) = p_Sh E n z i s
               in (v, do_acts as s))
         else (False, s))"

text \<open>The last branch of the loop's body; \<open>r._clear\<close> throws on null and undefined.\<close>

definition take_item :: "page_env \<Rightarrow> jv \<Rightarrow> layer \<Rightarrow> bool option \<times> layer" where
  "take_item E r s =
     (if null_or_undef r then (None, s)
      else (let s = put_fields E r s;
                (v, s) = (if is_true (prop_of E r ''event'') then fire_event E r s else (False, s));
                s = (if is_true (g_bc s) then s else s\<lparr>g_bc := prop_of E r ''gtm.start''\<rparr>)
            in (Some v, s\<lparr>g_La := Prim Null\<rparr>)))"

text \<open>One round of the loop: \<open>None\<close> when it throws, and then \<open>Uh\<close> stays set.\<close>

definition plain_item :: "page_env \<Rightarrow> jv \<Rightarrow> layer \<Rightarrow> bool option \<times> layer" where
  "plain_item E b s =
     (if command_like E b
      then (case Ch E b of
          Cmd_throws \<Rightarrow> (None, s)
        | Cmd_none \<Rightarrow> (Some False, s)
        | Cmd_item r \<Rightarrow> take_item E r s)
      else take_item E b s)"

definition item_body :: "page_env \<Rightarrow> jv \<Rightarrow> layer \<Rightarrow> bool option \<times> layer" where
  "item_body E b s =
     (case b of
        Fn n \<Rightarrow> (Some False, do_acts (p_fn E n s) s)
      | Arr c \<Rightarrow> run_method E c s
      | _ \<Rightarrow> plain_item E b s)"

definition ei_item :: "page_env \<Rightarrow> jv \<Rightarrow> layer \<Rightarrow> bool option \<times> layer" where
  "ei_item E b s =
     (let s = s\<lparr>g_Uh := True, g_Eh := AList.delete ''eventModel'' (g_Eh s), g_done := g_done s @ [b]\<rparr>;
          x = item_body E b s
      in (fst x, if fst x = None then snd x else (snd x)\<lparr>g_Uh := False\<rparr>))"

fun ei :: "page_env \<Rightarrow> nat \<Rightarrow> bool \<Rightarrow> layer \<Rightarrow> (bool option \<times> layer) option" where
  "ei E 0 a s = None"
| "ei E (Suc n) a s =
     (if g_Uh s then Some (Some (\<not> a), s)
      else (case g_Th s of
          [] \<Rightarrow> Some (Some (\<not> a), s)
        | b # q \<Rightarrow>
          (case ei_item E b (s\<lparr>g_Th := q\<rparr>) of
             (None, s) \<Rightarrow> Some (None, s)
           | (Some v, s) \<Rightarrow> ei E n (v \<or> a) s)))"

text \<open>The replacement of \<open>push\<close> on the page's array; and \<open>gi\<close>, which takes over what it held.\<close>

definition layer_push :: "page_env \<Rightarrow> nat \<Rightarrow> jv list \<Rightarrow> layer \<Rightarrow> (bool option \<times> layer) option" where
  "layer_push E n b s = ei E n False (push_only b s)"

definition layer_start :: "jv list \<Rightarrow> layer" where
  "layer_start a =
     \<lparr>g_Dh = jg_new, g_Eh = [], g_Th = a, g_Uh = False, g_La = Prim Null, g_seq = 0, g_bc = Prim Null,
      g_onces = [], g_tasks = [], g_timers = [], g_page = a, g_done = [], g_events = []\<rparr>"

text \<open>The listeners of \<open>gi\<close>: each pushes its event once.\<close>

definition gi_ready :: "page_env \<Rightarrow> nat \<Rightarrow> string \<Rightarrow> bool \<Rightarrow> layer \<Rightarrow> bool \<times> (bool option \<times> layer) option" where
  "gi_ready E n name b s =
     (True, if b then Some (Some True, s) else layer_push E n [Obj [(''event'', Text name)]] s)"

text \<open>\<open>fi\<close>: the flag of the container in \<open>hide\<close> is cleared, and \<open>end\<close> called when none is left;
  the fields of \<open>hide\<close> with their values, and \<open>end\<close> apart.\<close>

definition fi_hide :: "string \<Rightarrow> fields \<times> bool \<Rightarrow> (fields \<times> bool) \<times> bool" where
  "fi_hide f x =
     (case x of (b, e) \<Rightarrow>
        (if map_of b f \<noteq> None \<and> map_of b f \<noteq> Some Undefd \<and> e
         then (let b = dict_set f (Prim (Bool False)) b;
                   c = list_all (\<lambda>(k, v). v \<noteq> Prim (Bool True)) b
               in ((b, if c then False else e), c))
         else ((b, e), False)))"


subsection \<open>Reading back\<close>

text \<open>\<open>reads ks v w\<close>: the path \<open>ks\<close> leads from \<open>w\<close> through objects and arrays to \<open>v\<close>;
  \<open>holds\<close> says so of a value whose fields, on the path, have different names.\<close>

fun inner :: "jv \<Rightarrow> fields" where
  "inner (Obj f) = f"
| "inner (Args f) = f"
| "inner (Arr f) = f"
| "inner _ = []"

fun reads :: "string list \<Rightarrow> jv \<Rightarrow> jv \<Rightarrow> bool" where
  "reads [] v w \<longleftrightarrow> w = v"
| "reads (k # ks) v w \<longleftrightarrow> (case map_of (inner w) k of Some u \<Rightarrow> reads ks v u | None \<Rightarrow> False)"

fun holds :: "string list \<Rightarrow> jv \<Rightarrow> jv \<Rightarrow> bool" where
  "holds [] v w \<longleftrightarrow> w = v"
| "holds (k # ks) v w \<longleftrightarrow>
     distinct (map fst (inner w)) \<and> (case map_of (inner w) k of Some u \<Rightarrow> holds ks v u | None \<Rightarrow> False)"

lemma holds_reads: "holds ks v w \<Longrightarrow> reads ks v w"
proof (induction ks v w rule: holds.induct)
  case (2 k ks v w)
  then show ?case by (cases "map_of (inner w) k") simp_all
qed simp

lemma holds_nest: "ks \<noteq> [] \<Longrightarrow> holds js u v \<Longrightarrow> holds (ks @ js) u (Obj (nest ks v))"
  by (induction ks v rule: nest.induct) auto

text \<open>The deep merge keeps the leaves of what is merged in, whatever was there.\<close>

lemma merge_inner:
  "is_leaf v \<or> (\<exists>c. inner (merge_in v old) = Ta (inner v) c) \<or> inner (merge_in v old) = inner v"
  by (cases v) (auto split: option.splits jv.splits)

lemma reads_Ta: "distinct (map fst f) \<Longrightarrow> map_of f k = Some u \<Longrightarrow> inner w = Ta f c \<Longrightarrow>
    reads ks v (merge_in u (map_of c k)) \<Longrightarrow> reads (k # ks) v w"
  by (simp add: map_of_Ta)

lemma reads_merge: "holds ks v w \<Longrightarrow> is_leaf v \<Longrightarrow> reads ks v (merge_in w old)"
proof (induction ks v w arbitrary: old rule: holds.induct)
  case (2 k ks v w)
  from 2(2) obtain u where w: "distinct (map fst (inner w))" and u: "map_of (inner w) k = Some u" "holds ks v u"
    by (auto split: option.splits)
  have "inner w \<noteq> []" using u(1) by auto
  then have "\<not> is_leaf w" by (cases w) auto
  with merge_inner [of w old] consider c where "inner (merge_in w old) = Ta (inner w) c"
    | "inner (merge_in w old) = inner w" by blast
  then show ?case
  proof cases
    case 1
    from 2(1) [OF u 2(3)] show ?thesis by (rule reads_Ta [OF w u(1) 1])
  next
    case 2
    with u holds_reads [OF u(2)] show ?thesis by simp
  qed
qed simp

lemma reads_put:
  assumes "ks \<noteq> []" and "holds js u v" and "is_leaf u"
  shows "reads (ks @ js) u (Obj (Ta (nest ks v) c))"
proof -
  from holds_nest [OF assms(1,2)] have h: "holds (ks @ js) u (Obj (nest ks v))" .
  obtain k ks' where ks: "ks = k # ks'" using assms(1) by (cases ks) auto
  from h obtain w where w: "distinct (map fst (nest ks v))" "map_of (nest ks v) k = Some w" "holds (ks' @ js) u w"
    unfolding ks by (auto split: option.splits)
  have "reads (k # ks' @ js) u (Obj (Ta (nest ks v) c))"
    by (rule reads_Ta [OF w(1,2) _ reads_merge [OF w(3) assms(3)]]) simp
  then show ?thesis by (simp only: ks append_Cons)
qed

lemma get_inner: "map_of (inner w) k = Some u \<Longrightarrow> get_prop inh h w k = u"
  by (cases w) (auto simp: get_prop_def)

lemma reads_model_loop: "reads ks v w \<Longrightarrow> v \<noteq> Undefd \<Longrightarrow> model_loop (get_prop inh h) w ks = v"
proof (induction ks v w rule: reads.induct)
  case (2 k ks v w)
  then obtain u where u: "map_of (inner w) k = Some u" "reads ks v u"
    by (auto split: option.splits)
  have "w \<noteq> Prim Null" using u(1) by auto
  moreover have g: "get_prop inh h w k = u" using u(1) by (rule get_inner)
  moreover have "u \<noteq> Undefd" using u(2) 2(3) by (cases ks) auto
  moreover have "model_loop (get_prop inh h) u ks = v" using 2 u by fastforce
  ultimately show ?case by auto
qed simp

lemma nest_head: "ks \<noteq> [] \<Longrightarrow> \<exists>e. nest ks v = [(hd ks, e)]"
  by (cases "(ks, v)" rule: nest.cases) auto

lemma map_of_put_other: "ks \<noteq> [] \<Longrightarrow> k \<noteq> hd ks \<Longrightarrow> map_of (Ta (nest ks v) c) k = map_of c k"
  using nest_head [of ks v] by (auto simp: map_of_dict_set)

lemma model_loop_first:
  "get_prop inh h (Obj f) k = get_prop inh h (Obj g) k \<Longrightarrow>
   model_loop (get_prop inh h) (Obj f) (k # ks) = model_loop (get_prop inh h) (Obj g) (k # ks)"
  by simp

text \<open>C15. Any value set at a key of the data layer is what the flat model returns for the key, and
  every other key keeps its value there. In the merged model each leaf of the value (the value
  itself if it is neither an object nor an array, else what a path through its objects and arrays
  leads to) reads back under the key followed by its path, whatever was merged before; and keys with
  another first component keep their values. This is said of a data layer without a current event
  model, which is read before the merged model, and of keys outside \<open>eventModel\<close>; plain objects
  inherit no \<open>eventModel\<close>, and objects of the same page inherit alike.\<close>

theorem data_readback:
  assumes inh: "\<And>f g k. p_inh E (Obj f) k = p_inh E (Obj g) k" "\<And>f. p_inh E (Obj f) ''eventModel'' = Undefd"
    and e: "map_of (g_Eh s) ''eventModel'' = None" "hd (split_on CHR ''.'' a) \<noteq> ''eventModel''"
  shows "Z_get (prop_of E) (Ih a v s) a 1 = v \<and>
    (b \<noteq> a \<longrightarrow> Z_get (prop_of E) (Ih a v s) b 1 = Z_get (prop_of E) s b 1) \<and>
    (holds js u v \<and> is_leaf u \<and> u \<noteq> Undefd \<and> split_on CHR ''.'' c = split_on CHR ''.'' a @ js \<longrightarrow>
      Z_get (prop_of E) (Ih a v s) c 2 = u) \<and>
    (hd (split_on CHR ''.'' b) \<noteq> hd (split_on CHR ''.'' a) \<longrightarrow>
      Z_get (prop_of E) (Ih a v s) b n = Z_get (prop_of E) s b n)"
proof -
  let ?ks = "split_on CHR ''.'' a" and ?js = "split_on CHR ''.'' b"
  let ?g = "Ta (nest ?ks v) (g_Eh s)"
  obtain k ks where ks: "?ks = k # ks" by (cases ?ks) auto
  obtain j js' where js: "?js = j # js'" by (cases ?js) auto
  have no_event: "get_prop (p_inh E) (p_host E) (Obj f) ''eventModel'' = Undefd" if "map_of f ''eventModel'' = None" for f
    using that inh(2) by (simp add: get_prop_def)
  have g: "map_of ?g ''eventModel'' = None"
    using map_of_put_other [of ?ks "''eventModel''" v "g_Eh s"] e by simp
  have Hh: "Hh (prop_of E) f c = model_loop (prop_of E) (Obj f) (split_on CHR ''.'' c)"
    if "map_of f ''eventModel'' = None" for f c
    using no_event [OF that] by (cases "split_on CHR ''.'' c") (simp_all add: Hh_def)
  have 2: "Hh (prop_of E) ?g c = u"
    if "holds js u v" "is_leaf u" "u \<noteq> Undefd" "split_on CHR ''.'' c = ?ks @ js"
  proof -
    have "reads (?ks @ js) u (Obj ?g)" using that(1,2) by (intro reads_put) simp_all
    then have "model_loop (prop_of E) (Obj ?g) (?ks @ js) = u" by (rule reads_model_loop) (rule that(3))
    then show ?thesis by (simp add: Hh [OF g] that(4))
  qed
  have 3: "Hh (prop_of E) ?g b = Hh (prop_of E) (g_Eh s) b" if "j \<noteq> k"
  proof -
    have "map_of ?g j = map_of (g_Eh s) j" using map_of_put_other [of ?ks j v "g_Eh s"] ks that by simp
    then have "get_prop (p_inh E) (p_host E) (Obj ?g) j = get_prop (p_inh E) (p_host E) (Obj (g_Eh s)) j"
      using inh(1) [of ?g j "g_Eh s"] by (simp add: get_prop_def split: option.splits)
    then show ?thesis unfolding Hh [OF g] Hh [OF e(1)] js by (rule model_loop_first)
  qed
  have neq: "b \<noteq> a" if "j \<noteq> k" using that ks js by auto
  have flat: "Z_get (prop_of E) (Ih a v s) x 1 = (if x = a then v else Z_get (prop_of E) s x 1)" for x
    by (simp add: Z_get_def Ih_def jg.lookup_update)
  show ?thesis
  proof (intro conjI impI)
    show "Z_get (prop_of E) (Ih a v s) a 1 = v" by (simp only: flat if_True simp_thms)
    show "b \<noteq> a \<Longrightarrow> Z_get (prop_of E) (Ih a v s) b 1 = Z_get (prop_of E) s b 1" by (simp only: flat if_False)
    show "holds js u v \<and> is_leaf u \<and> u \<noteq> Undefd \<and> split_on CHR ''.'' c = ?ks @ js \<Longrightarrow>
        Z_get (prop_of E) (Ih a v s) c 2 = u"
      using 2 by (simp add: Z_get_def Ih_def Fh_def)
    show "Z_get (prop_of E) (Ih a v s) b n = Z_get (prop_of E) s b n" if "hd ?js \<noteq> hd ?ks"
      using 3 neq that by (auto simp: Z_get_def Ih_def Fh_def ks js jg.lookup_update)
  qed
qed

text \<open>A page environment without foreign code, for the examples.\<close>

definition still_page :: page_env where
  "still_page =
     \<lparr>p_inh = \<lambda>_ _. Undefd, p_host = \<lambda>_. [], p_time = \<lambda>_. Undefd, p_fn = \<lambda>_ _. [],
      p_meth = \<lambda>_ _ _ s. (g_Eh s, []), p_zone = \<lambda>_. True, p_Sh = \<lambda>_ _ _ _. ([], True)\<rparr>"

theorem data_readback_witness:
  "Z_get (prop_of still_page) (Ih ''a.b'' (Text ''x'') (layer_start [])) ''a.b'' 1 = Text ''x'' \<and>
   Z_get (prop_of still_page) (Ih ''a'' (Obj [(''b'', Text ''x''), (''c'', Arr [(''0'', Text ''y'')])]) (layer_start [])) ''a.c.0'' 2
     = Text ''y''"
proof
  show "Z_get (prop_of still_page) (Ih ''a.b'' (Text ''x'') (layer_start [])) ''a.b'' 1 = Text ''x''"
    using data_readback [of still_page "layer_start []" "''a.b''" "Text ''x''"]
    by (simp add: still_page_def layer_start_def)
  show "Z_get (prop_of still_page) (Ih ''a'' (Obj [(''b'', Text ''x''), (''c'', Arr [(''0'', Text ''y'')])]) (layer_start [])) ''a.c.0'' 2
     = Text ''y''"
    using data_readback [of still_page "layer_start []" "''a''" "Obj [(''b'', Text ''x''), (''c'', Arr [(''0'', Text ''y'')])]"
        "''a''" "[''c'', ''0'']" "Text ''y''" "''a.c.0''" 1]
    by (simp add: still_page_def layer_start_def)
qed

subsection \<open>The queue\<close>

text \<open>Foreign code can only add to the queue; \<open>queue_grows\<close> is kept by every part of a round.\<close>

definition queue_grows :: "layer \<Rightarrow> layer \<Rightarrow> bool" where
  "queue_grows s s' \<longleftrightarrow> g_done s' = g_done s \<and> (\<exists>more. g_Th s' = g_Th s @ more) \<and> g_Uh s' = g_Uh s"

lemma queue_grows_refl [simp]: "queue_grows s s"
  by (simp add: queue_grows_def)

lemma queue_grows_trans: "queue_grows s t \<Longrightarrow> queue_grows t u \<Longrightarrow> queue_grows s u"
  by (auto simp: queue_grows_def)

lemma do_act_grows: "queue_grows s (do_act a s)"
  by (cases a) (auto simp: queue_grows_def push_only_def Wh_call_def Let_def split: prod.splits)

lemma do_acts_grows: "queue_grows s (do_acts as s)"
  by (induction as arbitrary: s) (auto simp: do_acts_def intro: queue_grows_trans do_act_grows)

lemma put_field_grows: "queue_grows s (put_field t p s)"
  by (auto simp: queue_grows_def put_field_def Ih_def Let_def)

lemma fold_put_grows: "queue_grows s (fold (put_field t) ps s)"
  by (induction ps arbitrary: s) (auto intro: queue_grows_trans put_field_grows)

lemma put_fields_grows: "queue_grows s (put_fields E r s)"
  by (simp add: put_fields_def fold_put_grows)

lemma queue_grows_cong:
  "g_done s = g_done t \<Longrightarrow> g_Th s = g_Th t \<Longrightarrow> g_Uh s = g_Uh t \<Longrightarrow> queue_grows s u \<longleftrightarrow> queue_grows t u"
  by (simp add: queue_grows_def)

lemma fire_event_grows: "queue_grows s (snd (fire_event E r s))"
proof -
  have *: "queue_grows s (do_acts as t)" if "g_done t = g_done s" "g_Th t = g_Th s" "g_Uh t = g_Uh s" for as t
    using do_acts_grows [of t as] queue_grows_cong [OF that] by simp
  show ?thesis
    by (auto simp: fire_event_def Let_def Ih_def split: option.splits prod.splits intro!: *)
      (auto simp: queue_grows_def)
qed

lemma take_item_grows: "queue_grows s (snd (take_item E r s))"
proof (cases "null_or_undef r")
  case False
  let ?s = "put_fields E r s"
  let ?x = "if is_true (prop_of E r ''event'') then fire_event E r ?s else (False, ?s)"
  have "queue_grows s (snd ?x)"
    using put_fields_grows [of s E r] fire_event_grows [of ?s E r] by (auto intro: queue_grows_trans)
  then show ?thesis using False
    by (auto simp: take_item_def Let_def queue_grows_def split: prod.splits)
qed (simp add: take_item_def)

lemma run_method_grows: "queue_grows s (snd (run_method E c s))"
proof -
  have "queue_grows s (do_acts as (s\<lparr>g_Eh := f\<rparr>))" for as f
    using do_acts_grows [of "s\<lparr>g_Eh := f\<rparr>" as] by (simp add: queue_grows_def)
  then show ?thesis
    by (auto simp: run_method_def Let_def split: option.splits jv.splits jval.splits bool.splits prod.splits)
qed

lemma plain_item_grows: "queue_grows s (snd (plain_item E b s))"
  by (auto simp: plain_item_def take_item_grows split: cmd_result.splits)

lemma item_body_grows: "queue_grows s (snd (item_body E b s))"
  by (cases b) (simp_all add: item_body_def do_acts_grows run_method_grows plain_item_grows)

lemma ei_item_grows:
  "\<exists>more. g_done (snd (ei_item E b s)) = g_done s @ [b] \<and> g_Th (snd (ei_item E b s)) = g_Th s @ more
    \<and> (fst (ei_item E b s) \<noteq> None \<longrightarrow> \<not> g_Uh (snd (ei_item E b s)))
    \<and> (fst (ei_item E b s) = None \<longrightarrow> g_Uh (snd (ei_item E b s)))"
  using item_body_grows [of "s\<lparr>g_Uh := True, g_Eh := AList.delete ''eventModel'' (g_Eh s), g_done := g_done s @ [b]\<rparr>" E b]
  by (auto simp: ei_item_def Let_def queue_grows_def)

lemma ei_order:
  "ei E n a s = Some (r, s') \<Longrightarrow> \<exists>more. g_done s' @ g_Th s' = g_done s @ g_Th s @ more
     \<and> (r = None \<longrightarrow> g_Uh s') \<and> (r \<noteq> None \<longrightarrow> \<not> g_Uh s \<longrightarrow> \<not> g_Uh s' \<and> g_Th s' = [])"
proof (induction n arbitrary: a s)
  case (Suc n)
  show ?case
  proof (cases "g_Uh s \<or> g_Th s = []")
    case True
    with Suc.prems show ?thesis by (auto split: if_splits)
  next
    case False
    then obtain b q where q: "g_Th s = b # q" "\<not> g_Uh s" by (cases "g_Th s") auto
    let ?s = "s\<lparr>g_Th := q\<rparr>"
    obtain v u where i: "ei_item E b ?s = (v, u)" by force
    from ei_item_grows [of E b ?s] obtain more where u: "g_done u = g_done s @ [b]" "g_Th u = q @ more"
      "v \<noteq> None \<longrightarrow> \<not> g_Uh u" "v = None \<longrightarrow> g_Uh u" unfolding i by auto
    show ?thesis
    proof (cases v)
      case None
      with Suc.prems q i u show ?thesis by auto
    next
      case (Some w)
      with Suc.prems q i have e: "ei E n (w \<or> a) u = Some (r, s')" by simp
      have nu: "\<not> g_Uh u" using u Some by simp
      from Suc.IH [OF e] obtain m where m: "g_done s' @ g_Th s' = g_done u @ g_Th u @ m"
        "r = None \<longrightarrow> g_Uh s'" "r \<noteq> None \<longrightarrow> \<not> g_Uh s' \<and> g_Th s' = []" using nu by auto
      show ?thesis
        by (rule exI [of _ "more @ m"]) (use m u q in auto)
    qed
  qed
qed simp

text \<open>Code that does not push, and items that do not throw: no null or undefined item or \<open>js\<close>
  argument, and no method path through more than one step.\<close>

definition no_push :: "act list \<Rightarrow> bool" where
  "no_push as \<longleftrightarrow> list_all (\<lambda>a. case a of Push b \<Rightarrow> False | _ \<Rightarrow> True) as"

definition quiet_page :: "page_env \<Rightarrow> bool" where
  "quiet_page E \<longleftrightarrow> (\<forall>n s. no_push (p_fn E n s)) \<and> (\<forall>d e f s. no_push (snd (p_meth E d e f s)))
     \<and> (\<forall>n z i s. no_push (fst (p_Sh E n z i s)))"

definition calm :: "page_env \<Rightarrow> jv \<Rightarrow> bool" where
  "calm E b \<longleftrightarrow>
     (case b of
        Fn n \<Rightarrow> True
      | Arr c \<Rightarrow> (case map_of c ''0'' of Some (Prim (Str m)) \<Rightarrow> count_list m CHR ''.'' \<le> 1 | _ \<Rightarrow> True)
      | _ \<Rightarrow> \<not> null_or_undef b \<and> (command_like E b \<longrightarrow> Ch E b \<noteq> Cmd_throws))"

lemma Ch_item: "Ch E b = Cmd_item r \<Longrightarrow> \<not> null_or_undef r"
  by (auto simp: Ch_def Ch_event_def Ch_set_def Ch_js_def null_or_undef_def Let_def
      split: if_splits jv.splits jval.splits)

lemma take_item_some: "\<not> null_or_undef r \<Longrightarrow> fst (take_item E r s) \<noteq> None"
  by (auto simp: take_item_def Let_def split: prod.splits)

lemma short_path: "length d \<le> 1 \<Longrightarrow> path_there get (Obj f) d \<noteq> None"
  by (cases d) auto

lemma run_method_some:
  assumes "calm E (Arr c)"
  shows "fst (run_method E c s) \<noteq> None"
proof (cases "map_of c ''0''")
  case (Some x)
  show ?thesis
  proof (cases "\<exists>m. x = Text m")
    case True
    then obtain m where m: "x = Text m" by auto
    with assms Some have "length (butlast (split_on CHR ''.'' m)) \<le> 1"
      by (simp add: calm_def length_split_on)
    then have "path_there (prop_of E) (Obj (g_Eh s)) (butlast (split_on CHR ''.'' m)) \<noteq> None"
      by (rule short_path)
    then show ?thesis using Some m
      by (auto simp: run_method_def Let_def split: option.splits bool.splits prod.splits)
  next
    case False
    then show ?thesis using Some by (auto simp: run_method_def split: jv.splits jval.splits)
  qed
qed (simp add: run_method_def)

lemma calm_item:
  assumes "calm E b"
  shows "fst (ei_item E b s) \<noteq> None"
proof -
  have plain: "fst (plain_item E b t) \<noteq> None" if "\<not> null_or_undef b" "command_like E b \<longrightarrow> Ch E b \<noteq> Cmd_throws" for t
    using that take_item_some [of _ E t] Ch_item [of E b]
    by (cases "Ch E b") (auto simp: plain_item_def)
  have "fst (item_body E b t) \<noteq> None" for t
  proof (cases b)
    case (Arr c)
    with assms run_method_some [of E c t] show ?thesis by (simp add: item_body_def)
  qed (use assms plain [of t] in \<open>simp_all add: item_body_def calm_def\<close>)
  then show ?thesis by (simp add: ei_item_def Let_def)
qed


lemma do_acts_still: "no_push as \<Longrightarrow> g_Th (do_acts as s) = g_Th s"
proof (induction as arbitrary: s)
  case (Cons a as)
  then show ?case
    by (cases a) (auto simp: no_push_def do_acts_def Wh_call_def split: prod.splits)
qed (simp add: do_acts_def)

lemma put_fields_still: "g_Th (put_fields E r s) = g_Th s"
proof -
  have "g_Th (fold (put_field t) ps s) = g_Th s" for t ps
    by (induction ps arbitrary: s) (auto simp: put_field_def Ih_def Let_def)
  then show ?thesis by (simp add: put_fields_def)
qed

lemma quiet_still:
  assumes "quiet_page E"
  shows "g_Th (snd (fire_event E r s)) = g_Th s" and "g_Th (snd (run_method E c s)) = g_Th s"
    and "g_Th (do_acts (p_fn E n s) s) = g_Th s"
proof -
  have Sh: "no_push (fst (p_Sh E n z i t))" and meth: "no_push (snd (p_meth E d e f t))" and fn: "no_push (p_fn E m t)"
    for n z i t d e f m using assms by (auto simp: quiet_page_def)
  have Sh': "g_Th (do_acts as u) = g_Th u" if "p_Sh E n z i t = (as, v)" for as v n z i t u
    using Sh [of n z i t] that do_acts_still by simp
  have meth': "g_Th (do_acts as u) = g_Th u" if "p_meth E d e f t = (v, as)" for as v d e f t u
    using meth [of d e f t] that do_acts_still by simp
  show "g_Th (snd (fire_event E r s)) = g_Th s"
    by (auto simp: fire_event_def Let_def Ih_def Sh' split: option.splits prod.splits)
  show "g_Th (snd (run_method E c s)) = g_Th s"
    by (auto simp: run_method_def Let_def meth' split: option.splits jv.splits jval.splits bool.splits prod.splits)
  show "g_Th (do_acts (p_fn E n s) s) = g_Th s" by (rule do_acts_still) (rule fn)
qed

lemma take_item_still: "quiet_page E \<Longrightarrow> g_Th (snd (take_item E r s)) = g_Th s"
  using quiet_still(1) [of E r "put_fields E r s"]
  by (auto simp: take_item_def Let_def put_fields_still split: prod.splits)

lemma plain_item_still: "quiet_page E \<Longrightarrow> g_Th (snd (plain_item E r s)) = g_Th s"
  by (auto simp: plain_item_def take_item_still split: cmd_result.splits)

lemma ei_item_still: "quiet_page E \<Longrightarrow> g_Th (snd (ei_item E b s)) = g_Th s"
proof -
  assume q: "quiet_page E"
  have "g_Th (snd (item_body E b t)) = g_Th t" for t
    by (cases b) (simp_all add: item_body_def quiet_still [OF q] plain_item_still [OF q])
  then show ?thesis by (simp add: ei_item_def Let_def)
qed

lemma ei_drains:
  assumes q: "quiet_page E" and b: "\<forall>b \<in> set (g_Th s). calm E b" and u: "\<not> g_Uh s"
  shows "\<exists>v s'. ei E (Suc (length (g_Th s))) a s = Some (Some v, s') \<and> g_Th s' = [] \<and> \<not> g_Uh s' \<and>
    g_done s' = g_done s @ g_Th s"
  using b u
proof (induction "g_Th s" arbitrary: s a)
  case Nil
  then show ?case by (auto simp: Nil(1) [symmetric])
next
  case (Cons b q')
  let ?s = "s\<lparr>g_Th := q'\<rparr>"
  obtain v t where i: "ei_item E b ?s = (v, t)" by force
  have "calm E b" using Cons.prems Cons.hyps(2) by (metis list.set_intros(1))
  then have "v \<noteq> None" using calm_item [of E b ?s] i by simp
  then obtain w where v: "v = Some w" by auto
  have t: "g_Th t = q'" "g_done t = g_done s @ [b]" "\<not> g_Uh t"
    using ei_item_still [OF q, of b ?s] ei_item_grows [of E b ?s] by (auto simp: i v)
  have "\<forall>b \<in> set (g_Th t). calm E b" using Cons.prems Cons.hyps(2) t by (metis list.set_intros(2))
  from Cons.hyps(1) [OF t(1) [symmetric] this t(3), of "w \<or> a"]
  obtain x s' where "ei E (Suc (length (g_Th t))) (w \<or> a) t = Some (Some x, s')" "g_Th s' = []" "\<not> g_Uh s'"
    "g_done s' = g_done t @ g_Th t" by auto
  then show ?case using Cons.hyps(2) [symmetric] Cons.prems(2) by (auto simp: i v t)
qed

definition sample_push :: "jv list" where
  "sample_push = [Obj [(''event'', Text ''a''), (''x.y'', Text ''b'')], Fn 3]"

lemma sample_calm: "\<forall>b \<in> set sample_push. calm still_page b"
  by (simp add: sample_push_def calm_def null_or_undef_def command_like_def)

lemma still_quiet: "quiet_page still_page"
  by (simp add: quiet_page_def still_page_def no_push_def)

text \<open>C16. The data layer works off its items in the order in which they were pushed, whatever the
  pushed code does, and when it returns without an exception the queue is empty.\<close>

theorem data_layer_order:
  assumes "layer_push E n b s = Some (r, s')"
  shows "\<exists>more. g_done s' @ g_Th s' = g_done s @ g_Th s @ b @ more \<and> (r = None \<longrightarrow> g_Uh s') \<and>
    (r \<noteq> None \<longrightarrow> \<not> g_Uh s \<longrightarrow> g_Th s' = [] \<and> \<not> g_Uh s')"
  using ei_order [of E n False "push_only b s" r s'] assms
  by (auto simp: layer_push_def push_only_def Let_def)

theorem data_layer_order_witness:
  "\<exists>r s' more. layer_push still_page 3 sample_push (layer_start []) = Some (r, s') \<and>
    g_done s' @ g_Th s' = sample_push @ more"
proof -
  let ?s = "push_only sample_push (layer_start [])"
  have Th: "g_Th ?s = sample_push" "\<not> g_Uh ?s" by (simp_all add: push_only_def layer_start_def Let_def)
  have len: "Suc (length sample_push) = 3" by (simp add: sample_push_def)
  from ei_drains [OF still_quiet, of ?s False] sample_calm
  obtain v s' where "layer_push still_page 3 sample_push (layer_start []) = Some (Some v, s')"
    unfolding layer_push_def Th(1) len using Th(2) by blast
  from this data_layer_order [OF this] show ?thesis by (auto simp: layer_start_def)
qed

text \<open>C17. When the functions, methods and tags of the page do not push (\<open>quiet_page\<close>), and every
  queued item is calm (it is neither null nor undefined, a command among them does not throw, and
  the method name of a command array has at most one dot), one round per queued item is enough:
  \<open>ei\<close>, not at work already, returns with an empty queue, and every item has been worked off.\<close>

theorem data_layer_drains:
  assumes "quiet_page E" and "\<forall>b \<in> set (g_Th s). calm E b" and "\<not> g_Uh s"
  shows "\<exists>v s'. ei E (Suc (length (g_Th s))) a s = Some (Some v, s') \<and> g_Th s' = [] \<and> \<not> g_Uh s' \<and>
    g_done s' = g_done s @ g_Th s"
  using assms by (rule ei_drains)

theorem data_layer_drains_witness:
  "\<exists>v s'. ei still_page 3 True (layer_start sample_push) = Some (Some v, s') \<and> g_done s' = sample_push"
proof -
  have Th: "g_Th (layer_start sample_push) = sample_push" "\<not> g_Uh (layer_start sample_push)"
    "g_done (layer_start sample_push) = []" by (simp_all add: layer_start_def)
  have len: "Suc (length sample_push) = 3" by (simp add: sample_push_def)
  from data_layer_drains [OF still_quiet, of "layer_start sample_push" True] sample_calm Th(2)
  show ?thesis unfolding Th len by auto
qed

text \<open>C18. A pushed null or undefined throws and leaves \<open>Uh\<close> set: whatever is pushed later is queued
  but never worked off.\<close>

theorem null_push_jams:
  assumes "null_or_undef b" and "\<not> g_Uh s" and "g_Th s = []"
  shows "\<exists>s1. layer_push E (Suc n) [b] s = Some (None, s1) \<and>
    (\<forall>cs. g_done (fold (\<lambda>c s. snd (the (layer_push E (Suc m) c s))) cs s1) = g_done s @ [b] \<and>
          g_Th (fold (\<lambda>c s. snd (the (layer_push E (Suc m) c s))) cs s1) = concat cs \<and>
          g_events (fold (\<lambda>c s. snd (the (layer_push E (Suc m) c s))) cs s1) = g_events s)"
proof -
  have push: "layer_push E (Suc m) c s = Some (Some True, push_only c s)" if "g_Uh s" for c s
    using that by (simp add: layer_push_def push_only_def Let_def)
  have jam: "g_done (fold (\<lambda>c s. snd (the (layer_push E (Suc m) c s))) cs s1) = g_done s1 \<and>
      g_Th (fold (\<lambda>c s. snd (the (layer_push E (Suc m) c s))) cs s1) = g_Th s1 @ concat cs \<and>
      g_events (fold (\<lambda>c s. snd (the (layer_push E (Suc m) c s))) cs s1) = g_events s1" if "g_Uh s1" for cs s1
    using that
  proof (induction cs arbitrary: s1)
    case (Cons c cs)
    then show ?case using Cons.IH [of "push_only c s1"] by (simp add: push) (simp add: push_only_def Let_def)
  qed simp
  obtain s1 where s1: "layer_push E (Suc n) [b] s = Some (None, s1)" "g_Uh s1" "g_done s1 = g_done s @ [b]"
    "g_Th s1 = []" "g_events s1 = g_events s"
    using assms by (auto simp: layer_push_def push_only_def Let_def ei_item_def item_body_def plain_item_def
        take_item_def command_like_def null_or_undef_def)
  show ?thesis using s1 jam [OF s1(2)] by auto
qed

theorem null_push_jams_witness:
  "\<exists>s1. layer_push still_page 1 [Prim Null] (layer_start []) = Some (None, s1) \<and>
    g_events (snd (the (layer_push still_page 5 sample_push s1))) = []"
proof -
  have "null_or_undef (Prim Null)" by (simp add: null_or_undef_def)
  from null_push_jams [OF this, of "layer_start []" still_page 0 4]
  obtain s1 where s1: "layer_push still_page (Suc 0) [Prim Null] (layer_start []) = Some (None, s1)"
    and e: "\<And>cs. g_events (fold (\<lambda>c s. snd (the (layer_push still_page (Suc 4) c s))) cs s1) = []"
    by (auto simp: layer_start_def)
  from e [of "[sample_push]"] s1 show ?thesis by (intro exI [of _ s1]) (simp del: ei.simps)
qed

end
