(* ===== verification/Tag_Urls.thy ===== *)
theory Tag_Urls
  imports Cookie_Scope Js_Regex Js_Uri Js_Value
begin

text \<open>
  The addresses, cookies and click ids of gtm.js. An anchor element is the record of the parts a
  browser gives for an address; the parsing itself (\<open>U\<close>) belongs to the browser and is an argument
  \<open>parse\<close> where it is used. \<open>decodeURIComponent\<close> throws on a malformed escape: such results are
  \<open>None\<close>, a missing parameter is \<open>Some None\<close>.

  The lemmas show that the host test \<open>pa\<close> accepts exactly the listed domains and their subdomains,
  and that a click id written by \<open>ob\<close> is read back by \<open>Ci\<close>.
\<close>

record anchor =
  a_protocol :: string
  a_hostname :: string
  a_port :: string
  a_pathname :: string
  a_search :: string
  a_hash :: string
  a_href :: string

definition or_text :: "string \<Rightarrow> string \<Rightarrow> string" where
  "or_text a b = (if a \<noteq> [] then a else b)"

text \<open>\<open>s.replace(p, "")\<close> for a fixed text, which removes the first match only.\<close>

definition drop_first :: "string \<Rightarrow> string \<Rightarrow> string" where
  "drop_first p s = (case index_of s p of None \<Rightarrow> s | Some i \<Rightarrow> take i s @ drop (i + length p) s)"

subsection \<open>Parameters and parts of an address\<close>

definition unplus :: "string \<Rightarrow> string" where
  "unplus s = map (\<lambda>c. if c = CHR ''+'' then CHR '' '' else c) s"

fun Jg_loop :: "string list \<Rightarrow> string \<Rightarrow> string option option" where
  "Jg_loop [] b = Some None"
| "Jg_loop (p # c) b =
     (let e = split_on CHR ''='' p
      in case decode_component (hd e) of
           None \<Rightarrow> None
         | Some k \<Rightarrow>
           (if unplus k = b
            then (case decode_component (join_with ''='' (tl e)) of None \<Rightarrow> None | Some v \<Rightarrow> Some (Some (unplus v)))
            else Jg_loop c b))"

definition Jg :: "string \<Rightarrow> string \<Rightarrow> string option option" where
  "Jg a b = Jg_loop (split_on CHR ''&'' a) b"

text \<open>The prefix \<open>www\<close>, digits and a dot, of the expression \<open>/^www\d*\./\<close>.\<close>

definition www_prefix :: "string \<Rightarrow> nat" where
  "www_prefix f =
     (if starts_with f ''www''
      then (let d = takeWhile is_digit (drop 3 f); r = drop (3 + length d) f
            in if starts_with r ''.'' then 4 + length d else 0)
      else 0)"

definition port_text :: "string \<Rightarrow> string \<Rightarrow> string" where
  "port_text g p =
     (let n = js_number p
      in if n \<noteq> Fin 0 \<and> n \<noteq> NaN then show_num n
         else if g = ''http'' then ''80'' else if g = ''https'' then ''443'' else [])"

definition V_scheme :: "anchor \<Rightarrow> anchor \<Rightarrow> string" where
  "V_scheme loc a = to_lower (or_text (drop_first '':'' (a_protocol a)) (drop_first '':'' (a_protocol loc)))"

definition V_host :: "anchor \<Rightarrow> anchor \<Rightarrow> bool \<Rightarrow> string" where
  "V_host loc a c =
     (let f = to_lower (hd (split_on CHR '':'' (or_text (a_hostname a) (a_hostname loc))))
      in if c then drop (www_prefix f) f else f)"

definition V_path :: "anchor \<Rightarrow> string list \<Rightarrow> string" where
  "V_path a d =
     (let f = (if starts_with (a_pathname a) ''/'' then a_pathname a else ''/'' @ a_pathname a);
          k = split_on CHR ''/'' f;
          k = (if last k \<in> set d then butlast k @ [[]] else k)
      in join_with ''/'' k)"

definition V :: "anchor \<Rightarrow> anchor \<Rightarrow> string \<Rightarrow> bool \<Rightarrow> string list \<Rightarrow> string option \<Rightarrow> string option option" where
  "V loc a b c d e =
     (let b = to_lower b
      in if b = ''protocol'' then Some (Some (V_scheme loc a))
         else if b = ''host'' then Some (Some (V_host loc a c))
         else if b = ''port''
         then Some (Some (port_text (V_scheme loc a) (if a_hostname a \<noteq> [] then a_port a else a_port loc)))
         else if b = ''path'' then Some (Some (V_path a d))
         else if b = ''query''
         then (let f = drop_first ''?'' (a_search a)
               in case e of None \<Rightarrow> Some (Some f) | Some e \<Rightarrow> (if e = [] then Some (Some f) else Jg f e))
         else if b = ''fragment'' then Some (Some (drop_first ''#'' (a_hash a)))
         else Some (Some (a_href a)))"

definition Ma :: "anchor \<Rightarrow> string" where
  "Ma a = (case index_of (a_href a) ''#'' of None \<Rightarrow> a_href a | Some c \<Rightarrow> take c (a_href a))"

definition Ig_fragment :: "string \<Rightarrow> string" where
  "Ig_fragment b = (case index_of b ''#'' of None \<Rightarrow> [] | Some c \<Rightarrow> drop (c + 1) b)"

subsection \<open>The host test\<close>

definition pa_host :: "string \<Rightarrow> string \<Rightarrow> bool" where
  "pa_host c e =
     (if e = [] then False
      else (let f = int (length c) - int (length e);
                (f, e) = (if 0 < f \<and> hd e \<noteq> CHR ''.'' then (f - 1, ''.'' @ e) else (f, e))
            in 0 \<le> f \<and> starts_with (drop (nat f) c) e))"

definition pa_domains :: "string list" where
  "pa_domains = [''veinteractive.com'', ''ve-interactive.cn'']"

definition pa_address :: "(string \<Rightarrow> anchor) \<Rightarrow> anchor \<Rightarrow> string \<Rightarrow> bool" where
  "pa_address parse loc a =
     (if a = [] then False
      else (let c = V_host loc (parse a) False
            in if c = [] then False else list_ex (\<lambda>b. pa_host c (to_lower b)) pa_domains))"

subsection \<open>Cookies\<close>

fun Pa_pieces :: "string \<Rightarrow> bool \<Rightarrow> string list \<Rightarrow> string list option" where
  "Pa_pieces a c [] = Some []"
| "Pa_pieces a c (p # d) =
     (let g = split_on CHR ''='' p; h = trim (hd g)
      in if h \<noteq> [] \<and> h = a
         then (let k = trim (join_with ''='' (tl g))
               in case (if k \<noteq> [] \<and> c then decode_component k else Some k) of
                    None \<Rightarrow> None
                  | Some k \<Rightarrow> map_option ((#) k) (Pa_pieces a c d))
         else Pa_pieces a c d)"

definition Pa_cookies :: "string \<Rightarrow> string \<Rightarrow> bool \<Rightarrow> string list option" where
  "Pa_cookies a b c = Pa_pieces a c (split_on CHR '';'' b)"

text \<open>\<open>Mg\<close> and \<open>Ng\<close>: \<open>(^|\.)doubleclick\.net$\<close> without case, and \<open>^(www\.)?google(\.com?)?(\.[a-z]{2})?$\<close>.\<close>

definition Mg :: "string \<Rightarrow> bool" where
  "Mg h \<longleftrightarrow> (let h = to_lower h in h = ''doubleclick.net'' \<or> ends_with h ''.doubleclick.net'')"

definition two_letters :: "string \<Rightarrow> bool" where
  "two_letters s \<longleftrightarrow> s = [] \<or> (length s = 3 \<and> hd s = CHR ''.'' \<and> list_all is_lower (tl s))"

definition Ng :: "string \<Rightarrow> bool" where
  "Ng h \<longleftrightarrow>
     (let h = (if starts_with h ''www.google'' then drop 4 h else h)
      in starts_with h ''google'' \<and>
         (let r = drop 6 h
          in two_letters r \<or> (starts_with r ''.co'' \<and> two_letters (drop 3 r)) \<or>
             (starts_with r ''.com'' \<and> two_letters (drop 4 r))))"

text \<open>\<open>kb\<close>: the browser's cookie jar \<open>'j\<close> with its text and its setter; the domains are tried in
  order until one is accepted. The result tells whether the cookie was set; \<open>None\<close> when \<open>Pa\<close>
  throws.\<close>

fun kb_loop :: "('j \<Rightarrow> string) \<Rightarrow> (string \<Rightarrow> 'j \<Rightarrow> 'j) \<Rightarrow> string \<Rightarrow> string \<Rightarrow> string \<Rightarrow> string \<Rightarrow> string \<Rightarrow> string list \<Rightarrow> 'j \<Rightarrow> (bool \<times> 'j) option" where
  "kb_loop txt put hostname a b g n [] j = Some (False, j)"
| "kb_loop txt put hostname a b g n (m # h) j =
     (if Mg hostname \<or> n = ''/'' \<and> Ng m then Some (False, j)
      else (let l = (if m \<noteq> ''none'' then g @ ''domain='' @ m @ '';'' else g);
                p = txt j; j = put l j
            in if p \<noteq> txt j then Some (True, j)
               else (case Pa_cookies a (txt j) True of
                       None \<Rightarrow> None
                     | Some vs \<Rightarrow> (if b \<in> set vs then Some (True, j) else kb_loop txt put hostname a b g n h j))))"

definition kb_text :: "string \<Rightarrow> string \<Rightarrow> string \<Rightarrow> string option \<Rightarrow> string" where
  "kb_text a b c e =
     a @ ''='' @ b @ ''; '' @ (if c \<noteq> [] then ''path='' @ c @ ''; '' else []) @
       (case e of None \<Rightarrow> [] | Some t \<Rightarrow> ''expires='' @ t @ ''; '')"

definition kb :: "('j \<Rightarrow> string) \<Rightarrow> (string \<Rightarrow> 'j \<Rightarrow> 'j) \<Rightarrow> anchor \<Rightarrow> string \<Rightarrow> string \<Rightarrow> string \<Rightarrow> string \<Rightarrow> string option \<Rightarrow> bool \<Rightarrow> 'j \<Rightarrow> (bool \<times> 'j) option" where
  "kb txt put loc a b c d e f j =
     (let b = (if f then encode_component b else b);
          h = (if d = ''auto'' then Og (V_host loc loc True) else [or_text d ''none''])
      in kb_loop txt put (a_hostname loc) a b (kb_text a b c e) c h j)"

subsection \<open>Click ids\<close>

definition is_click_id :: "string \<Rightarrow> bool" where
  "is_click_id s \<longleftrightarrow> s \<noteq> [] \<and> list_all (\<lambda>c. is_word c \<or> c = CHR ''-'') s"

definition Ci_value :: "string \<Rightarrow> string list" where
  "Ci_value v =
     (let k = split_on CHR ''.'' v
      in if length k = 3 \<and> k ! 0 = ''GCL'' \<and> k ! 1 \<noteq> [] then [k ! 2] else [])"

definition Ci :: "string \<Rightarrow> string \<Rightarrow> string list" where
  "Ci a cookie =
     concat (map Ci_value (List.map_filter (match_cookie a) (split_on CHR '';'' cookie)))"

text \<open>\<open>Gi\<close> and \<open>Hi\<close>: the cookie prefixes; an argument is absent, a name, or an object with the two
  names \<open>dc\<close> and \<open>aw\<close>, each of which may be missing.\<close>

datatype gcl_arg = No_prefix | One string | Both "string option" "string option"

definition Gi :: "string option \<Rightarrow> string" where
  "Gi a = (case a of Some s \<Rightarrow> (if s \<noteq> [] \<and> list_all is_word s then s else ''_gcl'') | None \<Rightarrow> ''_gcl'')"

definition Hi :: "gcl_arg \<Rightarrow> string \<times> string" where
  "Hi a =
     (case a of
        No_prefix \<Rightarrow> (''_gcl'', ''_gcl'')
      | One s \<Rightarrow> (if s = [] then (''_gcl'', ''_gcl'') else (Gi (Some s), Gi (Some s)))
      | Both dc aw \<Rightarrow> (Gi dc, Gi aw))"

text \<open>\<open>Ii\<close>: on \<open>digits.fls.doubleclick.net\<close> the ids stand in the path.\<close>

definition Fi :: "string \<Rightarrow> bool" where
  "Fi c \<longleftrightarrow>
     (let d = takeWhile is_digit c in d \<noteq> [] \<and> drop (length d) c = ''.fls.doubleclick.net'')"

definition Ii :: "(string \<Rightarrow> anchor) \<Rightarrow> anchor \<Rightarrow> string \<Rightarrow> string option" where
  "Ii parse loc a =
     (let b = parse (a_href loc)
      in if Fi (V_host loc b False)
         then (let p = V_path b []
               in case index_of p (a @ ''='') of
                    None \<Rightarrow> None
                  | Some i \<Rightarrow>
                    (let r = drop (i + length a + 1) p;
                         r = (case index_of r (a @ ''='') of None \<Rightarrow> r | Some j \<Rightarrow> take j r)
                     in Some (hd (split_on CHR ''?'' (hd (split_on CHR '';'' r))))))
         else None)"

definition Ji :: "string list \<Rightarrow> string list" where
  "Ji a = filter is_click_id a"

text \<open>\<open>Ki\<close>: the click id of the address with its source; \<open>None\<close> when a decoding throws.\<close>

definition or_param :: "string option \<Rightarrow> string option option \<Rightarrow> string option option" where
  "or_param a b = (case a of Some s \<Rightarrow> (if s \<noteq> [] then Some a else b) | None \<Rightarrow> b)"

definition is_empty :: "string option \<Rightarrow> bool" where
  "is_empty a \<longleftrightarrow> a = None \<or> a = Some []"

definition Ki_params :: "(string \<Rightarrow> anchor) \<Rightarrow> anchor \<Rightarrow> (string option \<times> string option) option" where
  "Ki_params parse loc =
     (let a = parse (a_href loc); f = drop_first ''#'' (a_hash a)
      in case V loc a ''query'' False [] (Some ''gclid'') of
           None \<Rightarrow> None
         | Some b \<Rightarrow>
           (case V loc a ''query'' False [] (Some ''gclsrc'') of
              None \<Rightarrow> None
            | Some c \<Rightarrow>
              (if is_empty b \<or> is_empty c
               then (case or_param b (Jg f ''gclid'') of
                       None \<Rightarrow> None
                     | Some b \<Rightarrow> (case or_param c (Jg f ''gclsrc'') of None \<Rightarrow> None | Some c \<Rightarrow> Some (b, c)))
               else Some (b, c))))"

definition Ki :: "(string \<Rightarrow> anchor) \<Rightarrow> anchor \<Rightarrow> (string \<times> string option) option option" where
  "Ki parse loc =
     (case Ki_params parse loc of
        None \<Rightarrow> None
      | Some (b, c) \<Rightarrow>
        Some (case b of Some b \<Rightarrow> (if is_click_id b then Some (b, c) else None) | None \<Rightarrow> None))"

text \<open>\<open>Li\<close> and \<open>Mi\<close>: the click ids for the two products.\<close>

definition Li_rest :: "(string \<Rightarrow> anchor) \<Rightarrow> anchor \<Rightarrow> string \<Rightarrow> string \<Rightarrow> (string option \<Rightarrow> bool) \<Rightarrow> string \<Rightarrow> string list option" where
  "Li_rest parse loc cookie p ok suffix =
     (let c = Ji (Ci (p @ suffix) cookie)
      in if p = ''_gcl''
         then (case Ki parse loc of
             None \<Rightarrow> None
           | Some (Some (d, k)) \<Rightarrow> Some (if ok k then [d] else c)
           | Some None \<Rightarrow> Some c)
         else Some c)"

definition Li :: "(string \<Rightarrow> anchor) \<Rightarrow> anchor \<Rightarrow> string \<Rightarrow> gcl_arg \<Rightarrow> string list option" where
  "Li parse loc cookie a =
     (let b = Ii parse loc ''gclaw''
      in if is_empty b then Li_rest parse loc cookie (snd (Hi a)) (\<lambda>k. k = None \<or> k = Some ''aw.ds'') ''_aw''
         else Some (split_on CHR ''.'' (the b)))"

definition Mi :: "(string \<Rightarrow> anchor) \<Rightarrow> anchor \<Rightarrow> string \<Rightarrow> gcl_arg \<Rightarrow> string list option" where
  "Mi parse loc cookie a =
     (let b = Ii parse loc ''gcldc''
      in if is_empty b then Li_rest parse loc cookie (fst (Hi a)) (\<lambda>k. k = Some ''ds'' \<or> k = Some ''aw.ds'') ''_dc''
         else Some (split_on CHR ''.'' (the b)))"

text \<open>\<open>ob\<close> writes the click id of the address; \<open>now\<close> is the time in milliseconds, \<open>gmt\<close> the
  browser's text of a date.\<close>

definition ob_value :: "int \<Rightarrow> string \<Rightarrow> string" where
  "ob_value now d = join_with ''.'' [''GCL'', show_nat (nat ((now + 500) div 1000)), d]"

definition ob :: "('j \<Rightarrow> string) \<Rightarrow> (string \<Rightarrow> 'j \<Rightarrow> 'j) \<Rightarrow> (string \<Rightarrow> anchor) \<Rightarrow> (int \<Rightarrow> string) \<Rightarrow> anchor \<Rightarrow> int \<Rightarrow> gcl_arg \<Rightarrow> string \<Rightarrow> string \<Rightarrow> 'j \<Rightarrow> 'j option" where
  "ob txt put parse gmt loc now a b c j =
     (let d = Hi a; c = or_text c ''auto''; b = or_text b ''/'';
          g = gmt (now + 7776000000)
      in case Ki parse loc of
           None \<Rightarrow> None
         | Some None \<Rightarrow> Some j
         | Some (Some (p, k)) \<Rightarrow>
           (let h = ob_value now p;
                step = (\<lambda>name j. map_option snd (kb txt put loc name h b c (Some g) True j))
            in case (if is_empty k \<or> k = Some ''aw.ds'' then step (snd d @ ''_aw'') j else Some j) of
                 None \<Rightarrow> None
               | Some j \<Rightarrow> (if k = Some ''aw.ds'' \<or> k = Some ''ds'' then step (fst d @ ''_dc'') j else Some j)))"

text \<open>\<open>Ni\<close>: the click ids kept per property, as \<open>UA-1-1:id,id;UA-2-1:id\<close>.\<close>

definition is_property :: "string \<Rightarrow> bool" where
  "is_property s \<longleftrightarrow>
     (case split_on CHR ''-'' s of
        [u, a, b] \<Rightarrow> u = ''UA'' \<and> a \<noteq> [] \<and> list_all is_digit a \<and> b \<noteq> [] \<and> list_all is_digit b
      | _ \<Rightarrow> False)"

definition gac_piece :: "string \<Rightarrow> (string \<times> string) option" where
  "gac_piece p =
     (let s = dropWhile is_space p; r = drop 5 s; u = takeWhile (\<lambda>c. c \<noteq> CHR ''='') r;
          v = trim (drop (Suc (length u)) r)
      in if starts_with s ''_gac_'' \<and> is_property u \<and> length u < length r \<and> v \<noteq> [] \<and>
            CHR 0x0A \<notin> set v \<and> CHR 0x0D \<notin> set v
         then Some (u, v) else None)"

definition gac_add :: "string \<times> string \<Rightarrow> (string \<times> string list) list \<Rightarrow> (string \<times> string list) list" where
  "gac_add x g =
     (let k = split_on CHR ''.'' (snd x)
      in if k ! 0 = ''1'' \<and> length k = 3 \<and> k ! 1 \<noteq> []
         then dict_set (fst x) ((case map_of g (fst x) of None \<Rightarrow> [] | Some l \<Rightarrow> l) @ [k ! 2]) g
         else g)"

definition gac_text :: "(string \<times> string list) list \<Rightarrow> string" where
  "gac_text g =
     join_with '';'' (List.map_filter
       (\<lambda>(m, n). let n = Ji n in if n \<noteq> [] then Some (m @ '':'' @ join_with '','' n) else None) g)"

definition Ni :: "(string \<Rightarrow> anchor) \<Rightarrow> anchor \<Rightarrow> string \<Rightarrow> string option" where
  "Ni parse loc cookie =
     (let a = Ii parse loc ''gac''
      in if is_empty a
         then Some (gac_text (foldl (\<lambda>g x. gac_add x g) [] (List.map_filter gac_piece (split_on CHR '';'' cookie))))
         else decode_component (the a))"

text \<open>\<open>Ha\<close>, for the container's id.\<close>

definition Ha :: "string \<Rightarrow> bool \<Rightarrow> string" where
  "Ha f a =
     (let b = split_on CHR ''-'' f; c = map (\<lambda>x. if is_lower x then char_of ((of_char x :: nat) - 32) else x) (hd b);
          p = (case map_of [('''', ''n''), (''UA'', ''u''), (''AW'', ''a''), (''DC'', ''d''), (''GTM'', ''G'')] c of
                 Some x \<Rightarrow> x | None \<Rightarrow> ''i'')
      in p @ ''4r'' @ (if a \<and> c = ''GTM'' then b ! 1 else []))"

subsection \<open>The host test\<close>

lemma pa_host_suffix:
  assumes "e \<noteq> []" and "hd e \<noteq> CHR ''.''"
  shows "pa_host c e \<longleftrightarrow> c = e \<or> ends_with c (''.'' @ e)"
proof -
  consider "length c < length e" | "length c = length e" | "length e < length c" by linarith
  then show ?thesis
  proof cases
    case 1
    then show ?thesis using assms by (auto simp: pa_host_def ends_with_def)
  next
    case 2
    then show ?thesis using assms by (auto simp: pa_host_def ends_with_def starts_with_def)
  next
    case 3
    then have n: "nat (int (length c) - int (length e) - 1) = length c - Suc (length e)" by simp
    have "starts_with (drop (length c - Suc (length e)) c) (''.'' @ e) \<longleftrightarrow>
        drop (length c - Suc (length e)) c = CHR ''.'' # e"
      using 3 by (auto simp: starts_with_def)
    moreover have "c \<noteq> e" using 3 by auto
    ultimately show ?thesis using 3 assms n by (simp add: pa_host_def ends_with_def Let_def)
  qed
qed

text \<open>The host test of the tag manager accepts an address exactly when its host is one of the two
  listed domains or a proper subdomain of one.\<close>

theorem pa_listed_domains:
  assumes "a \<noteq> []" and "h = V_host loc (parse a) False"
  shows "pa_address parse loc a \<longleftrightarrow>
    h = ''veinteractive.com'' \<or> ends_with h ''.veinteractive.com'' \<or>
    h = ''ve-interactive.cn'' \<or> ends_with h ''.ve-interactive.cn''"
proof -
  have l: "to_lower ''veinteractive.com'' = ''veinteractive.com''" "to_lower ''ve-interactive.cn'' = ''ve-interactive.cn''"
    by code_simp+
  have "pa_host h ''veinteractive.com'' \<longleftrightarrow> h = ''veinteractive.com'' \<or> ends_with h ''.veinteractive.com''"
    using pa_host_suffix [of "''veinteractive.com''" h] by simp
  moreover have "pa_host h ''ve-interactive.cn'' \<longleftrightarrow> h = ''ve-interactive.cn'' \<or> ends_with h ''.ve-interactive.cn''"
    using pa_host_suffix [of "''ve-interactive.cn''" h] by simp
  moreover have "h \<noteq> []" if "ends_with h (''.'' @ e)" for e using that by (auto simp: ends_with_def)
  from this [of "''veinteractive.com''"] this [of "''ve-interactive.cn''"]
  have "h \<noteq> []" if "ends_with h ''.veinteractive.com'' \<or> ends_with h ''.ve-interactive.cn''" using that by auto
  ultimately show ?thesis using assms by (auto simp: pa_address_def pa_domains_def l Let_def)
qed


subsection \<open>Click ids\<close>

lemma trim_no_space: "list_all (\<lambda>c. \<not> is_space c) s \<Longrightarrow> trim s = s"
proof -
  assume a: "list_all (\<lambda>c. \<not> is_space c) s"
  then have "dropWhile is_space s = s" by (cases s) auto
  moreover have "dropWhile is_space (rev s) = rev s"
    using a by (cases "rev s") (auto simp: list_all_iff dest: arg_cong [where f = set])
  ultimately show ?thesis by (simp add: trim_def)
qed

text \<open>The characters of a click-id cookie value: nothing to escape or trim.\<close>

definition plain_char :: "char \<Rightarrow> bool" where
  "plain_char c \<longleftrightarrow> is_word c \<or> c = CHR ''-'' \<or> c = CHR ''.''"

lemma plain_char_laws:
  assumes "plain_char c"
  shows "uri_unreserved c" and "\<not> is_space c" and "c \<noteq> CHR 0x0A" and "c \<noteq> CHR 0x0D"
  using assms
  by (auto simp: plain_char_def is_word_def uri_unreserved_def is_alnum_def is_digit_def is_upper_def is_lower_def
      is_space_def Let_def)

lemma ob_value_plain: "is_click_id d \<Longrightarrow> list_all plain_char (ob_value now d)"
proof -
  assume "is_click_id d"
  then have "list_all plain_char d" by (auto simp: is_click_id_def list_all_iff plain_char_def)
  moreover have "list_all plain_char (show_nat n)" for n
    using show_nat_digits [of n] by (auto simp: list_all_iff plain_char_def is_word_def)
  moreover have "list_all plain_char ''GCL''" by code_simp
  ultimately show ?thesis by (simp add: ob_value_def) (simp add: plain_char_def)
qed

lemma ob_value_encoded: "is_click_id d \<Longrightarrow> encode_component (ob_value now d) = ob_value now d"
  using ob_value_plain [of d now] by (intro encode_component_id) (simp add: list_all_iff plain_char_laws(1))

lemma click_id_no_dot: "is_click_id d \<Longrightarrow> CHR ''.'' \<notin> set d"
  by (auto simp: is_click_id_def list_all_iff is_word_def is_digit_def is_upper_def is_lower_def)

lemma show_nat_no_dot: "CHR ''.'' \<notin> set (show_nat n)"
  using show_nat_digits [of n] by (auto simp: list_all_iff is_digit_def)

lemma Ci_value_ob:
  assumes "is_click_id d"
  shows "Ci_value (ob_value now d) = [d]"
proof -
  have "split_on CHR ''.'' (ob_value now d) = [''GCL'', show_nat (nat ((now + 500) div 1000)), d]"
    unfolding ob_value_def using click_id_no_dot [OF assms] show_nat_no_dot by (intro split_join) auto
  then show ?thesis by (simp add: Ci_value_def)
qed

lemma match_written:
  assumes "list_all is_space pad" and "name \<noteq> []" and "\<not> is_space (hd name)" and "list_all plain_char v"
  shows "match_cookie name (pad @ name @ ''='' @ v) = Some v"
proof -
  have d: "dropWhile is_space (pad @ name @ ''='' @ v) = name @ ''='' @ v"
    using assms(1-3) by (cases name) (auto simp: list_all_iff dropWhile_append)
  have v: "trim v = v" using assms(4) by (intro trim_no_space) (simp add: list_all_iff plain_char_laws(2))
  have nl: "CHR 0x0A \<notin> set v" "CHR 0x0D \<notin> set v"
    using assms(4) plain_char_laws(3,4) by (auto simp: list_all_iff)
  show ?thesis unfolding match_cookie_def d Let_def using v nl by (simp add: starts_with_def)
qed

text \<open>A click id that \<open>ob\<close> writes into a cookie is among those \<open>Ci\<close> and \<open>Ji\<close> read from any cookie
  text with that cookie, whatever stands beside it.\<close>

theorem click_id_readback:
  assumes d: "is_click_id d" and n: "name \<noteq> []" "\<not> is_space (hd name)" and p: "list_all is_space pad"
    and c: "pad @ name @ ''='' @ encode_component (ob_value now d) \<in> set (split_on CHR '';'' cookie)"
  shows "d \<in> set (Ji (Ci name cookie))"
proof -
  have "match_cookie name (pad @ name @ ''='' @ ob_value now d) = Some (ob_value now d)"
    by (rule match_written [OF p n ob_value_plain [OF d]])
  with c have "ob_value now d \<in> set (List.map_filter (match_cookie name) (split_on CHR '';'' cookie))"
    by (auto simp: map_filter_def ob_value_encoded [OF d] image_iff intro!: bexI)
  then have "d \<in> set (Ci name cookie)"
    by (force simp: Ci_def Ci_value_ob [OF d])
  with d show ?thesis by (simp add: Ji_def)
qed

definition sample_click :: string where
  "sample_click = ''a=1; _gcl_aw='' @ encode_component (ob_value 2000 ''Ab-9'') @ ''; b=2''"

theorem click_id_readback_witness: "''Ab-9'' \<in> set (Ji (Ci ''_gcl_aw'' sample_click))"
proof (rule click_id_readback [where pad = "'' ''" and now = 2000])
  show "is_click_id ''Ab-9''" and "\<not> is_space (hd ''_gcl_aw'')" and "list_all is_space '' ''" by code_simp+
  show "'' '' @ ''_gcl_aw'' @ ''='' @ encode_component (ob_value 2000 ''Ab-9'') \<in> set (split_on CHR '';'' sample_click)"
    by code_simp
qed simp

text \<open>The addresses of an example page.\<close>

definition sample_anchor :: "string \<Rightarrow> anchor" where
  "sample_anchor h =
     \<lparr>a_protocol = ''https:'', a_hostname = h, a_port = [], a_pathname = ''/'', a_search = [], a_hash = [], a_href = []\<rparr>"

theorem pa_listed_domains_witness:
  "pa_address sample_anchor (sample_anchor ''x.org'') ''a.veinteractive.com''"
proof -
  have h: "V_host (sample_anchor ''x.org'') (sample_anchor ''a.veinteractive.com'') False = ''a.veinteractive.com''"
    by code_simp
  have "ends_with ''a.veinteractive.com'' ''.veinteractive.com''" by code_simp
  with pa_listed_domains [of "''a.veinteractive.com''" _ "sample_anchor ''x.org''" sample_anchor] h
  show ?thesis by simp
qed

end
