(* ===== verification/Tag_Rules.thy ===== *)
theory Tag_Rules
  imports Tag_Layer Tag_Urls Usage_Bits
begin

text \<open>
  The container of gtm.js: the tables of its templates, macros, predicates, tags and rules as the file
  holds them (packed into a list of items and texts), their unpacking (\<open>Uk\<close>, \<open>Xk\<close>), the resolution
  of templates and macros (\<open>bi\<close>), the built-in macros and predicates, the white- and blacklist (\<open>Yh\<close>)
  and the choice of the tags that fire for an event (\<open>Sh\<close>).

  Functions are numbered by their place in \<open>fn_names\<close>. No function of the file yields the marker \<open>Db\<close>
  of a template with holes, so every template joins to a string; the escaping wrapper \<open>Rk\<close> and tag
  references \<open>Sk\<close> occur in no table of this container. \<open>Uk\<close> and \<open>bi\<close> have fuel, which stands for the
  depth of the script's stack; \<open>bi_enough\<close> shows that the resolution always ends, also when macros
  refer to each other in a cycle, as long as templates refer to smaller items only.
\<close>

subsection \<open>The tables of the file\<close>

text \<open>The names of the fields; a constant is an object whose text is the name.\<close>

definition const_table :: "(string \<times> string) list" where
  "const_table =
    [(''fc'', ''''), (''gc'', ''''), (''hc'', ''''), (''ic'', ''''), (''jc'', ''''), (''kc'', ''''), (''lc'', ''''),
     (''mc'', ''''), (''nc'', ''''), (''oc'', ''''), (''pc'', ''''), (''qc'', ''0''), (''rc'', ''1''),
     (''sc'', ''''), (''tc'', ''''), (''uc'', ''''), (''vc'', ''''), (''wc'', ''''), (''xc'', ''''), (''yc'', ''''),
     (''zc'', ''''), (''Ac'', ''''), (''Bc'', ''''), (''Cc'', ''''), (''Dc'', ''''), (''Ec'', ''''), (''Fc'', ''''),
     (''Gc'', ''''), (''Hc'', ''''), (''Ic'', ''''), (''Jc'', ''''), (''Kc'', ''''), (''Lc'', ''''), (''Mc'', ''''),
     (''Nc'', ''''), (''Oc'', ''''), (''Pc'', ''''), (''Qc'', ''''), (''Rc'', ''''), (''Sc'', ''''), (''Tc'', ''''),
     (''Uc'', ''''), (''Vc'', ''''), (''Wc'', ''''), (''Xc'', ''''), (''Yc'', ''''), (''Zc'', ''''), (''$c'', ''''),
     (''ad'', ''''), (''bd'', ''''), (''cd'', ''''), (''dd'', ''''), (''ed'', ''''), (''fd'', ''''), (''gd'', ''''),
     (''hd'', ''''), (''id'', ''''), (''jd'', ''''), (''kd'', ''''), (''ld'', ''''), (''md'', ''''), (''nd'', ''''),
     (''od'', ''''), (''pd'', ''''), (''qd'', ''''), (''rd'', ''''), (''sd'', ''''), (''td'', ''''), (''ud'', ''''),
     (''vd'', ''''), (''wd'', ''''), (''xd'', ''''), (''yd'', ''''), (''zd'', ''''), (''Ad'', ''''), (''Bd'', ''''),
     (''Cd'', ''''), (''Dd'', ''''), (''Ed'', ''''), (''Fd'', ''''), (''Gd'', ''''), (''Hd'', ''''), (''Id'', ''''),
     (''Jd'', ''''), (''Kd'', ''''), (''Ld'', ''''), (''Md'', ''''), (''Nd'', ''''), (''Od'', ''''), (''Pd'', ''''),
     (''Qd'', ''''), (''qb'', ''2''), (''Rd'', ''''), (''Sd'', ''34''), (''Td'', ''35''), (''Vd'', ''''),
     (''Wd'', ''''), (''Xd'', ''''), (''Yd'', ''''), (''Zd'', ''''), (''$d'', ''''), (''ae'', ''''), (''be'', ''''),
     (''rb'', ''3''), (''ce'', ''''), (''de'', ''''), (''ee'', ''''), (''fe'', ''''), (''ge'', ''''), (''he'', ''''),
     (''ie'', ''''), (''je'', ''''), (''ke'', ''''), (''le'', ''''), (''me'', ''''), (''ne'', ''''), (''oe'', ''''),
     (''pe'', ''''), (''qe'', ''''), (''re'', ''''), (''se'', ''''), (''te'', ''''), (''ue'', ''''), (''ve'', ''''),
     (''we'', ''''), (''xe'', ''''), (''ye'', ''''), (''ze'', ''''), (''Ae'', ''''), (''Be'', ''''), (''Ce'', ''''),
     (''De'', ''''), (''Ee'', ''''), (''Fe'', ''''), (''Ge'', ''''), (''He'', ''''), (''Ie'', ''''), (''Je'', ''''),
     (''Ke'', ''''), (''Le'', ''''), (''Me'', ''''), (''Ne'', ''''), (''Oe'', ''''), (''Pe'', ''''), (''Qe'', ''''),
     (''Re'', ''''), (''Se'', ''''), (''Te'', ''''), (''Ue'', ''''), (''Ve'', ''''), (''We'', ''''), (''Xe'', ''''),
     (''Ye'', ''''), (''Ze'', ''''), (''$e'', ''''), (''af'', ''''), (''bf'', ''''), (''cf'', ''''), (''df'', ''''),
     (''ef'', ''''), (''ff'', ''''), (''gf'', ''''), (''hf'', ''''), (''jf'', ''''), (''kf'', ''''), (''lf'', ''''),
     (''mf'', ''''), (''nf'', ''''), (''of'', ''''), (''pf'', ''''), (''qf'', ''5''), (''rf'', ''''), (''sf'', ''''),
     (''tf'', ''''), (''uf'', ''''), (''vf'', ''''), (''wf'', ''''), (''xf'', ''''), (''yf'', ''''), (''zf'', ''''),
     (''Af'', ''''), (''Bf'', ''''), (''Cf'', ''''), (''Df'', ''''), (''Ef'', ''''), (''Ff'', ''''), (''Gf'', ''''),
     (''Hf'', ''''), (''If'', ''''), (''Jf'', ''''), (''Kf'', ''''), (''Lf'', ''''), (''Mf'', ''''), (''Nf'', ''''),
     (''Of'', ''''), (''Pf'', ''''), (''Qf'', ''''), (''Rf'', ''''), (''Sf'', ''''), (''Tf'', ''''), (''Uf'', ''''),
     (''Vf'', ''''), (''Wf'', ''''), (''Xf'', ''''), (''Yf'', ''''), (''Zf'', ''''), (''$f'', ''''), (''ag'', ''''),
     (''bg'', ''''), (''cg'', '''')]"

definition const_key :: "string \<Rightarrow> string" where
  "const_key a = the (map_of const_table a)"

lemma const_keys:
  "const_key ''qb'' = ''2''" "const_key ''rb'' = ''3''" "const_key ''qc'' = ''0''" "const_key ''rc'' = ''1''"
  "const_key ''re'' = []" "const_key ''pc'' = []" "const_key ''fc'' = []" "const_key ''Ee'' = []" "const_key ''Qf'' = []"
  by code_simp+

text \<open>An item of the table in \<open>Vk\<close>: a primitive value, a function, a macro, a template, an array or an
  object of places in the table.\<close>

datatype raw_item = RC jval | RF nat | RM nat | RT "nat list" | RA "nat list" | RO "(nat \<times> nat) list"

definition fn_names :: "string list" where
  "fn_names =
    [''_eq'', ''_cn'', ''__e'', ''__c'', ''__f'', ''__u'', ''__v'', ''__smm'', ''__cid'', ''__ctv'', ''__ua'',
     ''__awct'']"

definition Vk_items :: "raw_item list" where
  "Vk_items =
    [RF 0, RF 2, RC (Str ''_event''), RC (Str ''1''), RM 0, RC (Str ''concordEvent''), RC (Str ''2038726_4''), RF 10,
     RC (Bool True), RC (Bool False), RC (Str ''fieldName''), RC (Str ''value''), RC (Str ''allowLinker''),
     RC (Str ''true''), RO [(10, 12), (11, 13)], RC (Str ''anonymizeIp''), RC (Str ''false''),
     RO [(10, 15), (11, 16)], RC (Str ''cookieDomain''), RC (Str ''auto''), RO [(10, 18), (11, 19)],
     RC (Str ''legacyHistoryImport''), RO [(10, 21), (11, 16)], RC (Str ''page''), RC (Str ''/virtual/''), RF 6,
     RC (Str ''eventType''), RC (Num (Fin 2)), RM 1, RC (Str ''/''), RC (Str ''eventName''), RM 2,
     RT [24, 28, 29, 31], RO [(10, 23), (11, 32)], RC (Str ''title''), RC (Str ''packageName=''),
     RC (Str ''packageName''), RM 3, RC (Str ''&''), RC (Str ''metadata''), RM 4, RT [35, 37, 38, 40],
     RO [(10, 34), (11, 41)], RA [14, 17, 20, 22, 33, 42], RC (Str ''TRACK_PAGEVIEW''), RC (Str ''index''),
     RC (Str ''dimension''), RC (Str ''14''), RF 3, RC (Str ''Container ID and Version''), RF 8,
     RC (Str ''Container ID''), RM 5, RC (Str '':''), RF 9, RC (Str ''Container Version''), RM 6, RT [52, 53, 56],
     RM 7, RO [(45, 47), (46, 58)], RC (Str ''19''), RO [(45, 60), (46, 28)], RC (Str ''20''),
     RO [(45, 62), (46, 31)], RC (Str ''15''), RC (Str ''pageName''), RM 8, RO [(45, 64), (46, 66)], RC (Str ''17''),
     RC (Str ''signedIn''), RM 9, RO [(45, 68), (46, 70)], RC (Str ''16''), RF 7, RC (Str ''internalUser Lookup''),
     RC (Str ''internalUser''), RM 10, RC (Str ''''), RC (Str ''key''), RC (Str ''True''), RO [(11, 79), (78, 3)],
     RO [(11, 79), (78, 13)], RO [(11, 79), (78, 79)], RA [80, 81, 82], RM 11, RO [(45, 72), (46, 84)],
     RC (Str ''31''), RC (Str ''projectNumber''), RC (Str ''not set''), RM 12, RO [(45, 86), (46, 89)],
     RA [59, 61, 63, 67, 71, 85, 90], RC (Str ''property id - console''), RC (Str ''UA-36037335-1''), RM 13,
     RC (Num (Fin 1)), RC (Str ''connectApp''), RC (Str ''finish''), RF 1, RC (Str ''packageType=ios''),
     RC (Str ''2038726_5''), RF 11, RC (Str ''978586856''), RC (Str ''gUraCIH9hWcQ6JnQ0gM''), RF 5,
     RC (Str ''_url''), RM 14, RC (Str ''packageType=android''), RC (Str ''2038726_6''),
     RC (Str ''mlEtCJOFgWcQ6JnQ0gM''), RC (Num (Fin 3)), RC (Str ''trackExperiment''), RC (Str ''2038726_8''),
     RC (Str ''/virtual/configureExperiment/''), RC (Str ''experimentType''), RM 15, RT [113, 115],
     RO [(10, 23), (11, 116)], RC (Str ''expId=''), RC (Str ''experimentID''), RC (Str ''exp name goes here''),
     RC (Str ''exp id goes here''), RO [(11, 121), (78, 120)], RA [122], RM 16, RC (Str '',expVar=''),
     RC (Str ''experimentVariant''), RC (Str ''variant''), RM 17, RT [118, 124, 125, 128], RO [(10, 34), (11, 129)],
     RA [14, 17, 20, 22, 117, 130], RC (Str ''configureExperiment''), RO [(45, 60), (46, 132)],
     RO [(45, 62), (46, 124)], RA [59, 133, 134, 67, 71, 85, 90], RC (Num (Fin 4)), RC (Str ''Page URL''),
     RC (Str ''URL''), RC (Str ''Page Hostname''), RC (Str ''HOST''), RC (Str ''Page Path''), RC (Str ''PATH''),
     RF 4, RC (Str ''Referrer''), RC (Str ''Event'')]"

subsection \<open>Unpacking\<close>

datatype tval = C jval | F nat | Mac nat | Tpl "nat list" | Lst "tval list" | Dict "(tval \<times> tval) list"

type_synonym tfields = "(string \<times> tval) list"

abbreviation C_nat :: "nat \<Rightarrow> tval" where "C_nat n \<equiv> C (Num (Fin (of_nat n)))"

text \<open>An item as it stands, which is how \<open>Uk\<close> uses it for a key.\<close>

definition item_key :: "raw_item \<Rightarrow> tval" where
  "item_key r =
     (case r of
        RC v \<Rightarrow> C v | RF n \<Rightarrow> F n | RM n \<Rightarrow> Mac n | RT ns \<Rightarrow> Tpl ns | RA ns \<Rightarrow> Lst (map C_nat ns)
      | RO ps \<Rightarrow> Dict (map (\<lambda>(k, v). (C (Str (show_nat k)), C_nat v)) ps))"

fun Uk :: "nat \<Rightarrow> raw_item list \<Rightarrow> nat \<Rightarrow> tval option" where
  "Uk 0 b a = None"
| "Uk (Suc n) b a =
     (if a < length b
      then (case b ! a of
          RA ns \<Rightarrow> map_option Lst (those (map (Uk n b) ns))
        | RO ps \<Rightarrow> map_option (\<lambda>vs. Dict (zip (map (\<lambda>(k, v). if k < length b then item_key (b ! k) else C Undef) ps) vs))
                     (those (map (\<lambda>(k, v). Uk n b v) ps))
        | r \<Rightarrow> Some (item_key r))
      else Some (C Undef))"

definition Vk :: "nat \<Rightarrow> raw_item list \<Rightarrow> tval list option" where
  "Vk n b = those (map (Uk n b) [0..<length b])"

text \<open>The six formats of \<open>Xk\<close>; \<open>at_text\<close> reads an array at the number a text denotes.\<close>

definition at_text :: "tval list \<Rightarrow> string \<Rightarrow> tval" where
  "at_text Jk s =
     (if s \<noteq> [] \<and> list_all is_digit s \<and> digits_val s < length Jk then Jk ! digits_val s else C Undef)"

definition Xk_split :: "string \<Rightarrow> string list list" where
  "Xk_split b = (if b = [] then [] else map (split_on CHR '':'') (split_on CHR '','' b))"

definition part_at :: "string list \<Rightarrow> nat \<Rightarrow> string" where
  "part_at e i = (if i < length e then e ! i else [])"

definition Xk0 :: "tval list \<Rightarrow> string \<Rightarrow> tfields" where
  "Xk0 Jk b = map (\<lambda>e. (part_at e 0, at_text Jk (part_at e 1))) (Xk_split b)"

definition Xk1 :: "tfields \<Rightarrow> string \<Rightarrow> tfields list" where
  "Xk1 Kk b =
     map (\<lambda>e. foldl (\<lambda>c f. if f < length Kk then dict_set (fst (Kk ! f)) (snd (Kk ! f)) c else c) [] (Wk (part_at e 0)))
       (Xk_split b)"

definition Xk2 :: "string \<Rightarrow> nat list list list" where
  "Xk2 b = map (\<lambda>e. map (\<lambda>g. Wk (part_at e g)) [0..<4]) (Xk_split b)"

definition Xk3 :: "tval list \<Rightarrow> string \<Rightarrow> tval list" where
  "Xk3 Jk b = map (\<lambda>e. at_text Jk (part_at e 0)) (Xk_split b)"

definition Xk4 :: "tval list \<Rightarrow> string \<Rightarrow> tval list list list" where
  "Xk4 Jk b =
     map (\<lambda>e. map (\<lambda>g. if part_at e g = [] then [] else map (at_text Jk) (split_on CHR ''.'' (part_at e g))) [0..<2])
       (Xk_split b)"

definition Xk5 :: "string \<Rightarrow> string list" where
  "Xk5 b = map (\<lambda>e. part_at e 0) (Xk_split b)"

record container =
  Jk :: "tval list"
  Zh :: "tfields list"
  Mk :: "tfields list"
  Nk :: "tfields list"
  xi :: "nat list list list"
  yi :: "tval list list list"

text \<open>The calls of \<open>Yk\<close> in the start-up; a \<open>Kk\<close> entry beyond the table does not occur.\<close>

definition Yk_all :: "tval list \<Rightarrow> string \<Rightarrow> string \<Rightarrow> string \<Rightarrow> string \<Rightarrow> string \<Rightarrow> string \<Rightarrow> container" where
  "Yk_all J k z m n x y =
     (let K = Xk0 J k
      in \<lparr>Jk = J, Zh = Xk1 K z, Mk = Xk1 K m, Nk = Xk1 K n, xi = Xk2 x, yi = Xk4 J y\<rparr>)"

definition the_container :: "container option" where
  "the_container =
     map_option (\<lambda>J. Yk_all J
       ''2:0,2:1,3:2,6:3,0:4,1:5,2:7,4:8,14:9,26:9,30:9,2:25,3:26,10:27,25:9,24:26,3:30,24:30,3:36,24:36,3:39,24:39,21:43,31:9,27:44,11:9,17:9,2:48,3:49,2:50,3:51,2:54,3:55,33:57,3:65,24:65,3:69,24:69,2:73,3:74,25:8,3:75,24:75,22:76,12:77,23:83,3:87,12:88,24:87,13:91,15:9,32:8,3:92,33:93,28:94,19:9,20:8,16:8,5:95,0:28,1:96,0:31,1:97,2:98,0:40,1:99,2:101,8:102,9:103,2:104,3:105,29:106,18:9,5:27,1:107,9:109,5:110,1:111,3:114,24:114,3:119,22:115,23:123,3:126,24:127,21:131,13:135,5:136,3:137,7:138,3:139,7:140,3:141,7:142,2:143,3:144,3:145''
       ''O,IgP,Ig2,IgGD,IgGM,IAAAgB,IAAAAG,IAAAYI,IgGAAw,IgGAAAD,IgGAAAgB,IAAAAAcO,IgCAAAQwB,IAAAIAAAw,IAAAAAAAAAAY,IgGAAAAAAAAAAD,IAAAAAUEAAAAAc,IgGAAAAAAAAAAgB,IAAAAAAAAAAIAAw,IAAAAAAAAAAIAAAD,IAAAAAAAAAAIAAAM,IAAAAAAAAAAAAAgw,KAAAAAAAAAAAAAAAB''
       ''x,BAAAAAAAAgB,BAAAAAAAAAG,AAAAAAAAAA4,AAAAAAAAAAYAE,RAAAAAAAAAAAg''
       ''IfAwHAAAOf,ICAAAAAAAAAnD,ICAAAAAAAAAjZ,IfAgHAAAMPAAAAO''
       ''B:B::,P:C::,X:E::,g:I::'' ''6:,100:,108:,112:'')
     (Vk 3 Vk_items)"


subsection \<open>Templates and macros\<close>

text \<open>What a macro reads of the page: the data layer (\<open>m_get\<close>, by key and version), the name of the
  current event, the location with its parser, the referrer, and the texts of host objects.\<close>

record macro_env =
  m_get :: "string \<Rightarrow> nat \<Rightarrow> jv"
  m_La :: jv
  m_loc :: anchor
  m_parse :: "string \<Rightarrow> anchor"
  m_referrer :: string
  m_text :: "jv \<Rightarrow> string"
  m_id :: string

text \<open>\<open>String(a)\<close>.\<close>

fun jtext :: "(jv \<Rightarrow> string) \<Rightarrow> jv \<Rightarrow> string" where
  "jtext h (Prim (Ref n)) = h (Prim (Ref n))"
| "jtext h (Prim v) = to_str v"
| "jtext h (Fn n) = h (Fn n)"
| "jtext h (Arr f) = join_with '','' (map (\<lambda>p. if null_or_undef (snd p) then [] else jtext h (snd p)) f)"
| "jtext h (Obj f) = ''[object Object]''"
| "jtext h (Args f) = ''[object Arguments]''"

definition join_text :: "(jv \<Rightarrow> string) \<Rightarrow> jv list \<Rightarrow> string" where
  "join_text h vs = concat (map (\<lambda>v. if null_or_undef v then [] else jtext h v) vs)"

definition at_key :: "fields \<Rightarrow> string \<Rightarrow> jv" where
  "at_key f k = (case map_of f k of Some v \<Rightarrow> v | None \<Rightarrow> Undefd)"

text \<open>The predicates \<open>_eq\<close> and \<open>_cn\<close>, and the macros; a thrown exception is \<open>None\<close>.\<close>

definition fn_eq :: "macro_env \<Rightarrow> fields \<Rightarrow> jv" where
  "fn_eq E a = Prim (Bool (jtext (m_text E) (at_key a (const_key ''qc'')) = jtext (m_text E) (at_key a (const_key ''rc''))))"

definition fn_cn :: "macro_env \<Rightarrow> fields \<Rightarrow> jv" where
  "fn_cn E a =
     Prim (Bool (contains (jtext (m_text E) (at_key a (const_key ''qc''))) (jtext (m_text E) (at_key a (const_key ''rc'')))))"

definition T_get :: "macro_env \<Rightarrow> string \<Rightarrow> nat \<Rightarrow> jv" where
  "T_get E a b = m_get E a (if b = 0 then 2 else b)"

definition nat_of :: "jv \<Rightarrow> nat" where
  "nat_of v = (case v of Prim (Num (Fin r)) \<Rightarrow> nat \<lfloor>r\<rfloor> | _ \<Rightarrow> 0)"

definition macro_v :: "macro_env \<Rightarrow> fields \<Rightarrow> jv option" where
  "macro_v E a =
     (case at_key a ''24'' of
        Prim (Str s) \<Rightarrow>
          (let b = T_get E (replace_all [CHR 0x5C, CHR ''.''] ''.'' s)
                 (if is_true (at_key a ''10'') then nat_of (at_key a ''10'') else 1)
           in Some (if b \<noteq> Undefd then b else at_key a ''12''))
      | _ \<Rightarrow> None)"

definition Q_loop :: "jv list \<Rightarrow> string \<Rightarrow> string \<Rightarrow> (jv \<Rightarrow> string) \<Rightarrow> fields" where
  "Q_loop a b c h =
     foldl (\<lambda>d x. case x of
         Obj f \<Rightarrow> (case (map_of f b, map_of f c) of (Some k, Some v) \<Rightarrow> dict_set (jtext h k) v d | _ \<Rightarrow> d)
       | _ \<Rightarrow> d) [] a"

definition Q_table :: "jv \<Rightarrow> string \<Rightarrow> string \<Rightarrow> (jv \<Rightarrow> string) \<Rightarrow> fields option" where
  "Q_table a b c h =
     (case a of
        Arr f \<Rightarrow> (if Q_loop (arr_list f) b c h = [] then None else Some (Q_loop (arr_list f) b c h))
      | _ \<Rightarrow> None)"

definition macro_smm :: "macro_env \<Rightarrow> fields \<Rightarrow> jv option" where
  "macro_smm E a =
     (let b = jtext (m_text E) (at_key a ''22'');
          c = (case Q_table (at_key a ''23'') ''key'' ''value'' (m_text E) of None \<Rightarrow> [] | Some c \<Rightarrow> c)
      in Some (case map_of c b of Some v \<Rightarrow> v | None \<Rightarrow> at_key a ''12''))"

text \<open>The component of an address that \<open>__u\<close> and \<open>__f\<close> return; the options of the parts have the empty
  key, which no item of the container sets, so they are undefined.\<close>

definition url_part :: "macro_env \<Rightarrow> string \<Rightarrow> jv \<Rightarrow> jv option" where
  "url_part E b c =
     (if is_true c \<and> c \<noteq> Text ''URL''
      then (case V (m_loc E) (m_parse E b) (jtext (m_text E) c) False [] None of
          None \<Rightarrow> None
        | Some None \<Rightarrow> Some Undefd
        | Some (Some s) \<Rightarrow> Some (Text s))
      else Some (Text (Ma (m_parse E b))))"

definition macro_u :: "macro_env \<Rightarrow> fields \<Rightarrow> jv option" where
  "macro_u E a =
     (let b = T_get E ''gtm.url'' 1; b = (if is_true b then jtext (m_text E) b else a_href (m_loc E))
      in url_part E b (at_key a ''7''))"

definition macro_f :: "macro_env \<Rightarrow> fields \<Rightarrow> jv option" where
  "macro_f E a =
     (let b = T_get E ''gtm.referrer'' 1; b = (if is_true b then b else Text (m_referrer E))
      in if is_true b then url_part E (jtext (m_text E) b) (at_key a ''7'') else Some (Text (jtext (m_text E) b)))"

text \<open>The macros of the event's name, of a constant, and of the container's id and version.\<close>

definition macro_e :: "macro_env \<Rightarrow> jv" where
  "macro_e E = m_La E"

definition macro_c :: "fields \<Rightarrow> jv" where
  "macro_c a = at_key a ''33''"

definition macro_cid :: "macro_env \<Rightarrow> jv" where
  "macro_cid E = Text (m_id E)"

definition macro_ctv :: jv where
  "macro_ctv = Text ''5''"

text \<open>A call by number; tags and any other function are the argument \<open>other\<close>.\<close>

definition call_fn :: "macro_env \<Rightarrow> (nat \<Rightarrow> fields \<Rightarrow> jv option) \<Rightarrow> nat \<Rightarrow> fields \<Rightarrow> jv option" where
  "call_fn E other n a =
     (if n = 0 then Some (fn_eq E a) else if n = 1 then Some (fn_cn E a)
      else if n = 2 then Some (macro_e E) else if n = 3 then Some (macro_c a)
      else if n = 4 then macro_f E a else if n = 5 then macro_u E a
      else if n = 6 then macro_v E a else if n = 7 then macro_smm E a
      else if n = 8 then Some (macro_cid E) else if n = 9 then Some macro_ctv
      else other n a)"

text \<open>\<open>kg(a)\<close> without callbacks: false when the call throws or there is nothing to call.\<close>

definition kg :: "(nat \<Rightarrow> fields \<Rightarrow> jv option) \<Rightarrow> fields \<Rightarrow> jv" where
  "kg call a =
     (if is_true (at_key a (const_key ''re'')) then Prim (Bool False)
      else (case at_key a (const_key ''qb'') of
          Fn n \<Rightarrow> (case call n a of Some v \<Rightarrow> v | None \<Rightarrow> Prim (Bool False))
        | _ \<Rightarrow> Prim (Bool False)))"

text \<open>The name under which a macro is marked while it is resolved.\<close>

definition macro_name :: "tfields \<Rightarrow> tval" where
  "macro_name c = (case map_of c (const_key ''rb'') of Some v \<Rightarrow> v | None \<Rightarrow> C Undef)"

fun bi :: "container \<Rightarrow> (nat \<Rightarrow> fields \<Rightarrow> jv option) \<Rightarrow> (tfields \<Rightarrow> bool) \<Rightarrow> (jv \<Rightarrow> string) \<Rightarrow> nat \<Rightarrow> tval list \<Rightarrow> tval \<Rightarrow> jv option" where
  "bi K call b h 0 a t = None"
| "bi K call b h (Suc n) a (C v) = Some (Prim v)"
| "bi K call b h (Suc n) a (F m) = Some (Fn m)"
| "bi K call b h (Suc n) a (Mac i) =
     (if i < length (Zh K) \<and> \<not> b (Zh K ! i)
      then (let d = macro_name (Zh K ! i)
            in if d \<in> set a then Some Undefd
               else map_option (\<lambda>vs. kg call (zip (map fst (Zh K ! i)) vs))
                      (those (map (\<lambda>p. bi K call b h n (d # a) (snd p)) (Zh K ! i))))
      else Some Undefd)"
| "bi K call b h (Suc n) a (Tpl is) =
     map_option (\<lambda>vs. Text (join_text h vs))
       (those (map (\<lambda>i. if i < length (Jk K) then bi K call b h n a (Jk K ! i) else Some Undefd) is))"
| "bi K call b h (Suc n) a (Lst ts) =
     map_option (\<lambda>vs. Arr (zip (map show_nat [0..<length vs]) vs)) (those (map (bi K call b h n a) ts))"
| "bi K call b h (Suc n) a (Dict ps) =
     (case (those (map (\<lambda>p. bi K call b h n a (fst p)) ps), those (map (\<lambda>p. bi K call b h n a (snd p)) ps)) of
        (Some ks, Some vs) \<Rightarrow> Some (Obj (foldl (\<lambda>c (k, v). dict_set (jtext h k) v c) [] (zip ks vs)))
      | _ \<Rightarrow> None)"

definition bi_fields :: "container \<Rightarrow> (nat \<Rightarrow> fields \<Rightarrow> jv option) \<Rightarrow> (tfields \<Rightarrow> bool) \<Rightarrow> (jv \<Rightarrow> string) \<Rightarrow> nat \<Rightarrow> tfields \<Rightarrow> fields option" where
  "bi_fields K call b h n c =
     map_option (zip (map fst c)) (those (map (\<lambda>p. bi K call b h n [] (snd p)) c))"

subsection \<open>Predicates and rules\<close>

definition Hk :: "(nat \<Rightarrow> fields \<Rightarrow> jv option) \<Rightarrow> fields \<Rightarrow> bool" where
  "Hk call a =
     (case at_key a (const_key ''rc'') of
        Arr f \<Rightarrow>
          (if is_true (at_key a (const_key ''pc''))
           then list_ex (\<lambda>x. is_true (kg call (dict_set (const_key ''rc'') x a))) (arr_list f)
           else is_true (kg call a))
      | _ \<Rightarrow> is_true (kg call a))"

text \<open>\<open>Vl\<close>, whose memory of results does not show; a missing predicate is false.\<close>

definition Vl :: "container \<Rightarrow> (nat \<Rightarrow> fields \<Rightarrow> jv option) \<Rightarrow> (tfields \<Rightarrow> bool) \<Rightarrow> (jv \<Rightarrow> string) \<Rightarrow> nat \<Rightarrow> nat \<Rightarrow> bool option" where
  "Vl K call b h n i =
     (if i < length (Mk K) then map_option (Hk call) (bi_fields K call b h n (Mk K ! i)) else Some False)"

fun Wl :: "(nat \<Rightarrow> bool) \<Rightarrow> nat list list \<Rightarrow> bool" where
  "Wl aa b \<longleftrightarrow> list_all aa (b ! 0) \<and> list_all (\<lambda>d. \<not> aa d) (b ! 2)"

subsection \<open>White- and blacklist\<close>

record fn_class =
  fn_a :: string
  fn_b :: "string list"

definition sj :: "string \<Rightarrow> string list" where
  "sj a =
     (if a = ''customPixels'' then [''nonGooglePixels'']
      else if a = ''html'' then [''customScripts'', ''customPixels'', ''nonGooglePixels'', ''nonGoogleScripts'', ''nonGoogleIframes'']
      else if a = ''customScripts'' then [''html'', ''customPixels'', ''nonGooglePixels'', ''nonGoogleScripts'', ''nonGoogleIframes'']
      else if a = ''nonGoogleScripts'' then [''nonGooglePixels'']
      else if a = ''nonGoogleIframes'' then [''nonGooglePixels'']
      else [])"

definition tj :: "string \<Rightarrow> string list" where
  "tj a =
     (if a = ''customPixels'' then [''customScripts'', ''html'']
      else if a = ''html'' then [''customScripts'']
      else if a = ''customScripts'' then [''html'']
      else if a = ''nonGooglePixels'' then [''customPixels'', ''customScripts'', ''html'', ''nonGoogleScripts'', ''nonGoogleIframes'']
      else if a = ''nonGoogleScripts'' then [''customScripts'', ''html'']
      else if a = ''nonGoogleIframes'' then [''customScripts'', ''html'', ''nonGoogleScripts'']
      else [])"

definition uj :: "string list \<Rightarrow> (string \<Rightarrow> string list) \<Rightarrow> string list" where
  "uj a b = concat (map (\<lambda>x. x # b x) a)"

text \<open>\<open>rj\<close>: a host of Google, YouTube or Blogger, at a boundary of labels.\<close>

definition short_tail :: "string \<Rightarrow> bool" where
  "short_tail r \<longleftrightarrow>
     two_letters r \<or> (starts_with r ''.co'' \<and> two_letters (drop 3 r)) \<or> (starts_with r ''.com'' \<and> two_letters (drop 4 r))"

definition rj :: "string \<Rightarrow> bool" where
  "rj h \<longleftrightarrow>
     list_ex (\<lambda>i. (i = 0 \<or> h ! (i - 1) = CHR ''.'') \<and>
        list_ex (\<lambda>g. starts_with (drop i h) g \<and>
           (let r = drop (i + length g) h in short_tail r \<or> (ends_with r ''.'' \<and> short_tail (butlast r))))
          [''google'', ''youtube'', ''blogger'', ''withgoogle''])
       [0..<length h]"

text \<open>\<open>ig\<close>: the texts of the entries of a list; \<open>h\<close> gives the text of functions and host objects.\<close>

definition name_list :: "(jv \<Rightarrow> string) \<Rightarrow> jv \<Rightarrow> string list" where
  "name_list h v = (case v of Arr f \<Rightarrow> map (jtext h) (arr_list f) | _ \<Rightarrow> [])"

definition Yh_white :: "(jv \<Rightarrow> string) \<Rightarrow> (string \<Rightarrow> nat \<Rightarrow> jv) \<Rightarrow> string list option" where
  "Yh_white h get =
     (let b = get ''gtm.whitelist'' 1 in if is_true b then Some (uj (name_list h b) sj) else None)"

definition Yh_black :: "(jv \<Rightarrow> string) \<Rightarrow> (string \<Rightarrow> nat \<Rightarrow> jv) \<Rightarrow> string \<Rightarrow> string list" where
  "Yh_black h get hostname =
     (let d = get ''gtm.blacklist'' 1;
          d = (if is_true d then d else get ''tagTypeBlacklist'' 1);
          d = (if is_true d then name_list h d else [])
      in uj (if rj hostname then d @ [''nonGooglePixels'', ''nonGoogleScripts''] else d) tj)"

text \<open>Whether a function of class \<open>h\<close> is kept from running; \<open>zone\<close> is the zone's own list.\<close>

definition Yh :: "string list option \<Rightarrow> string list \<Rightarrow> (string \<Rightarrow> bool) \<Rightarrow> fn_class option \<Rightarrow> bool" where
  "Yh white black zone h =
     (case h of
        None \<Rightarrow> True
      | Some h \<Rightarrow>
        (let k = zone (fn_a h);
             k = (case white of
                 None \<Rightarrow> k
               | Some c \<Rightarrow> k \<and> (if fn_a h \<notin> set c then fn_b h \<noteq> [] \<and> list_all (\<lambda>m. m \<in> set c) (fn_b h) else True));
             n = (fn_a h \<in> set black \<or> list_ex (\<lambda>r. r \<in> set black) (fn_b h))
         in \<not> k \<or> n))"

text \<open>The classes of the file's functions: the name without underscores, and the group google.\<close>

definition class_of :: "nat \<Rightarrow> fn_class option" where
  "class_of n =
     (if n < length fn_names then Some \<lparr>fn_a = filter (\<lambda>c. c \<noteq> CHR ''_'') (fn_names ! n), fn_b = [''google'']\<rparr> else None)"

definition blocked :: "(fn_class option \<Rightarrow> bool) \<Rightarrow> tfields \<Rightarrow> bool" where
  "blocked g t = g (case map_of t (const_key ''qb'') of Some (F n) \<Rightarrow> class_of n | _ \<Rightarrow> None)"

subsection \<open>Tags of an event\<close>

text \<open>The sets \<open>ja\<close> and \<open>Pa\<close> filled by the passing rules.\<close>

definition Sh_mark :: "(nat \<Rightarrow> bool) \<Rightarrow> nat list list \<Rightarrow> nat set \<times> nat set \<Rightarrow> nat set \<times> nat set" where
  "Sh_mark aa l x = (if Wl aa l then (fst x \<union> set (l ! 1), snd x \<union> set (l ! 3)) else x)"

definition Sh_marks :: "(nat \<Rightarrow> bool) \<Rightarrow> nat list list list \<Rightarrow> nat set \<times> nat set" where
  "Sh_marks aa xs = fold (Sh_mark aa) xs ({}, {})"

text \<open>The tags handed to the runner, in order, up to the first with the field \<open>fc\<close>.\<close>

fun Sh_loop :: "(nat \<Rightarrow> bool) \<Rightarrow> (nat \<Rightarrow> bool) \<Rightarrow> nat list \<Rightarrow> nat list" where
  "Sh_loop sel last_one [] = []"
| "Sh_loop sel last_one (i # is) =
     (if sel i then i # (if last_one i then [] else Sh_loop sel last_one is) else Sh_loop sel last_one is)"

definition tag_at :: "container \<Rightarrow> nat \<Rightarrow> tfields" where
  "tag_at K i = (if i < length (Nk K) then Nk K ! i else [])"

definition Sh_tags :: "container \<Rightarrow> (nat \<Rightarrow> bool) \<Rightarrow> (tfields \<Rightarrow> bool) \<Rightarrow> nat list" where
  "Sh_tags K aa g =
     (let m = Sh_marks aa (xi K)
      in Sh_loop (\<lambda>i. i \<in> fst m \<and> i \<notin> snd m \<and> \<not> g (tag_at K i))
           (\<lambda>i. case map_of (tag_at K i) (const_key ''fc'') of Some (C v) \<Rightarrow> truthy v | Some _ \<Rightarrow> True | None \<Rightarrow> False)
           [0..<Ik])"

text \<open>The start of \<open>Sh\<close>: \<open>gtm.js\<close> is taken once, \<open>gtm.sync\<close> only for the own snippet.\<close>

definition Sh_admits :: "jv \<Rightarrow> bool \<Rightarrow> bool \<Rightarrow> bool \<times> bool" where
  "Sh_admits b Xl own_snippet =
     (if b = Text ''gtm.js'' then (\<not> Xl, True)
      else if b = Text ''gtm.sync'' then (own_snippet, Xl)
      else (True, Xl))"

text \<open>The result: whether a tag other than a listener was chosen, among those neither blocked nor
  suppressed.\<close>

definition listener_tags :: "string list" where
  "listener_tags = [''cl'', ''evl'', ''fsl'', ''hl'', ''jel'', ''lcl'', ''sdl'', ''tl'', ''ytl'']"

definition Sh_result :: "container \<Rightarrow> (nat \<Rightarrow> bool) \<Rightarrow> (tfields \<Rightarrow> bool) \<Rightarrow> bool" where
  "Sh_result K aa g =
     (let m = Sh_marks aa (xi K)
      in list_ex (\<lambda>i. i \<in> fst m \<and> i \<notin> snd m \<and> \<not> g (tag_at K i) \<and>
           (case map_of (tag_at K i) (const_key ''qb'') of
              Some (F n) \<Rightarrow> (case class_of n of Some c \<Rightarrow> fn_a c \<notin> set listener_tags | None \<Rightarrow> False)
            | _ \<Rightarrow> False)) [0..<Ik])"


subsection \<open>The resolution ends\<close>

text \<open>\<open>tpl_all q t\<close>: the templates in \<open>t\<close> refer only to items whose place satisfies \<open>q\<close>.\<close>

fun tpl_all :: "(nat \<Rightarrow> bool) \<Rightarrow> tval \<Rightarrow> bool" where
  "tpl_all q (Tpl ns) = list_all q ns"
| "tpl_all q (Lst ts) = list_all (tpl_all q) ts"
| "tpl_all q (Dict ps) = list_all (\<lambda>p. tpl_all q (fst p) \<and> tpl_all q (snd p)) ps"
| "tpl_all q t = True"

definition ordered_templates :: "tval list \<Rightarrow> bool" where
  "ordered_templates J \<longleftrightarrow> list_all (\<lambda>i. tpl_all (\<lambda>j. j < i) (J ! i)) [0..<length J]"

definition ends :: "(nat \<Rightarrow> 'a option) \<Rightarrow> bool" where
  "ends f \<longleftrightarrow> (\<exists>n. \<forall>m \<ge> n. f m \<noteq> None)"

lemma ends_SucI: "ends f \<Longrightarrow> (\<And>n. f n \<noteq> None \<Longrightarrow> g (Suc n) \<noteq> None) \<Longrightarrow> ends g"
proof -
  assume f: "ends f" and g: "\<And>n. f n \<noteq> None \<Longrightarrow> g (Suc n) \<noteq> None"
  from f obtain n where n: "\<forall>m \<ge> n. f m \<noteq> None" by (auto simp: ends_def)
  have "g m \<noteq> None" if m: "m \<ge> Suc n" for m
  proof -
    from m obtain k where "m = Suc k" "n \<le> k" by (cases m) auto
    with n g show ?thesis by blast
  qed
  then show ?thesis unfolding ends_def by blast
qed

lemma ends_those: "(\<And>x. x \<in> set xs \<Longrightarrow> ends (\<lambda>n. f n x)) \<Longrightarrow> ends (\<lambda>n. those (map (f n) xs))"
proof (induction xs)
  case (Cons x xs)
  have "ends (\<lambda>n. f n x)" by (rule Cons.prems) simp
  moreover have "ends (\<lambda>n. those (map (f n) xs))" by (rule Cons.IH) (rule Cons.prems, simp)
  ultimately obtain i j where "\<forall>m \<ge> i. f m x \<noteq> None" "\<forall>m \<ge> j. those (map (f m) xs) \<noteq> None"
    unfolding ends_def by blast
  then have "\<forall>m \<ge> max i j. those (map (f m) (x # xs)) \<noteq> None" by auto
  then show ?case unfolding ends_def by blast
qed (simp add: ends_def)

lemma ends_both: "ends f \<Longrightarrow> ends g \<Longrightarrow> ends (\<lambda>n. case (f n, g n) of (Some x, Some y) \<Rightarrow> Some (x, y) | _ \<Rightarrow> None)"
proof -
  assume "ends f" "ends g"
  then obtain i j where "\<forall>m \<ge> i. f m \<noteq> None" "\<forall>m \<ge> j. g m \<noteq> None" unfolding ends_def by blast
  then have "\<forall>m \<ge> max i j. (case (f m, g m) of (Some x, Some y) \<Rightarrow> Some (x, y) | _ \<Rightarrow> None) \<noteq> None"
    by (fastforce split: option.splits)
  then show ?thesis unfolding ends_def by blast
qed

lemma bi_structural:
  assumes m: "\<And>i. ends (\<lambda>n. bi K call b h n a (Mac i))"
    and j: "\<And>i. q i \<Longrightarrow> i < length (Jk K) \<Longrightarrow> ends (\<lambda>n. bi K call b h n a (Jk K ! i))"
  shows "tpl_all q t \<Longrightarrow> ends (\<lambda>n. bi K call b h n a t)"
proof (induction t)
  case (C v)
  then show ?case unfolding ends_def by (intro exI [of _ 1] allI impI) (auto simp: Suc_le_eq gr0_conv_Suc)
next
  case (F v)
  then show ?case unfolding ends_def by (intro exI [of _ 1] allI impI) (auto simp: Suc_le_eq gr0_conv_Suc)
next
  case (Mac i)
  then show ?case by (simp add: m)
next
  case (Tpl ns)
  have "ends (\<lambda>n. those (map (\<lambda>i. if i < length (Jk K) then bi K call b h n a (Jk K ! i) else Some Undefd) ns))"
  proof (rule ends_those)
    fix i assume "i \<in> set ns"
    with Tpl have "q i" by (simp add: list_all_iff)
    with j show "ends (\<lambda>n. if i < length (Jk K) then bi K call b h n a (Jk K ! i) else Some Undefd)"
      by (cases "i < length (Jk K)") (simp_all add: ends_def)
  qed
  then show ?case by (rule ends_SucI) auto
next
  case (Lst ts)
  have "ends (\<lambda>n. those (map (bi K call b h n a) ts))"
    by (rule ends_those) (use Lst in \<open>auto simp: list_all_iff\<close>)
  then show ?case by (rule ends_SucI) auto
next
  case (Dict ps)
  have below: "tpl_all q (fst p)" "tpl_all q (snd p)" if "p \<in> set ps" for p
    using that Dict.prems by (auto simp: list_all_iff)
  have e: "ends (\<lambda>n. bi K call b h n a (fst p))" "ends (\<lambda>n. bi K call b h n a (snd p))" if "p \<in> set ps" for p
    using Dict.IH(1) [OF that, of "fst p"] Dict.IH(2) [OF that, of "snd p"] below [OF that] by (cases p, auto)+
  have "ends (\<lambda>n. those (map (\<lambda>p. bi K call b h n a (fst p)) ps))"
    "ends (\<lambda>n. those (map (\<lambda>p. bi K call b h n a (snd p)) ps))"
    by (rule ends_those, erule e)+
  then show ?case by (rule ends_SucI [OF ends_both]) (auto split: option.splits)
qed



lemma tpl_all_True: "tpl_all (\<lambda>_. True) t"
  by (induction t) (auto simp: list_all_iff)

lemma bi_all_values:
  assumes o: "ordered_templates (Jk K)" and m: "\<And>i. ends (\<lambda>n. bi K call b h n a (Mac i))"
  shows "ends (\<lambda>n. bi K call b h n a t)"
proof -
  have j: "ends (\<lambda>n. bi K call b h n a (Jk K ! i))" if "i < length (Jk K)" for i
    using that
  proof (induction i rule: less_induct)
    case (less i)
    have "tpl_all (\<lambda>j. j < i) (Jk K ! i)" using o less.prems by (simp add: ordered_templates_def list_all_iff)
    show ?case
    proof (rule bi_structural [where q = "\<lambda>j. j < i"])
      show "ends (\<lambda>n. bi K call b h n a (Mac j))" for j by (rule m)
      show "tpl_all (\<lambda>j. j < i) (Jk K ! i)" by fact
    next
      fix j assume "j < i" "j < length (Jk K)"
      then show "ends (\<lambda>n. bi K call b h n a (Jk K ! j))" by (rule less.IH)
    qed
  qed
  show ?thesis by (rule bi_structural [OF m j tpl_all_True])
qed

lemma bi_macro_step:
  assumes "\<And>t. macro_name (Zh K ! i) \<notin> set a \<Longrightarrow> ends (\<lambda>n. bi K call b h n (macro_name (Zh K ! i) # a) t)"
  shows "ends (\<lambda>n. bi K call b h n a (Mac i))"
proof (cases "i < length (Zh K) \<and> \<not> b (Zh K ! i) \<and> macro_name (Zh K ! i) \<notin> set a")
  case True
  then have "ends (\<lambda>n. those (map (\<lambda>p. bi K call b h n (macro_name (Zh K ! i) # a) (snd p)) (Zh K ! i)))"
    using assms by (intro ends_those) auto
  then show ?thesis by (rule ends_SucI) (use True in \<open>simp add: Let_def\<close>)
next
  case False
  have "ends (\<lambda>_::nat. Some True)" by (simp add: ends_def)
  then show ?thesis by (rule ends_SucI) (use False in \<open>auto simp: Let_def\<close>)
qed

definition macro_names :: "container \<Rightarrow> tval set" where
  "macro_names K = macro_name ` set (Zh K)"

lemma bi_macros_end:
  assumes o: "ordered_templates (Jk K)"
  shows "ends (\<lambda>n. bi K call b h n a (Mac i))"
proof (induction "card (macro_names K - set a)" arbitrary: a i rule: less_induct)
  case less
  show ?case
  proof (cases "i < length (Zh K)")
    case True
    let ?d = "macro_name (Zh K ! i)"
    show ?thesis
    proof (rule bi_macro_step)
      fix t assume "?d \<notin> set a"
      moreover have "?d \<in> macro_names K" using True by (simp add: macro_names_def)
      ultimately have "card (macro_names K - set (?d # a)) < card (macro_names K - set a)"
        by (intro psubset_card_mono) (auto simp: macro_names_def)
      from less [OF this] show "ends (\<lambda>n. bi K call b h n (?d # a) t)"
        by (rule bi_all_values [OF o])
    qed
  next
    case False
    have "ends (\<lambda>_::nat. Some True)" by (simp add: ends_def)
    then show ?thesis by (rule ends_SucI) (use False in simp)
  qed
qed

text \<open>C21. The resolution of every template and macro of a container ends, also when macros refer to
  each other in a cycle: with enough stack it yields a value, provided that templates refer to items
  with smaller numbers.\<close>

theorem bi_enough:
  assumes "ordered_templates (Jk K)"
  shows "\<exists>n. \<forall>m \<ge> n. bi K call b h m a t \<noteq> None"
  using bi_all_values [OF assms bi_macros_end [OF assms], of call b h a t] by (simp add: ends_def)

text \<open>Two macros that refer to each other through a template.\<close>

definition loop_container :: container where
  "loop_container =
     \<lparr>Jk = [C (Str ''x''), Mac 1, Mac 0, Tpl [0, 1], Tpl [0, 2]],
      Zh = [[(''2'', F 3), (''3'', C (Str ''a'')), (''33'', Tpl [3])], [(''2'', F 3), (''3'', C (Str ''b'')), (''33'', Tpl [4])]],
      Mk = [], Nk = [], xi = [], yi = []\<rparr>"

theorem bi_enough_witness:
  "\<exists>n. \<forall>m \<ge> n. bi loop_container (\<lambda>n a. Some (at_key a ''33'')) (\<lambda>_. False) (\<lambda>_. []) m [] (Mac 0) \<noteq> None"
proof -
  have "ordered_templates (Jk loop_container)" by (simp add: ordered_templates_def loop_container_def)
  then show ?thesis by (rule bi_enough)
qed

lemma loop_container_value:
  "bi loop_container (\<lambda>n a. Some (at_key a ''33'')) (\<lambda>_. False) (\<lambda>_. []) 9 [] (Mac 0) = Some (Text ''xx'')"
  by code_simp


subsection \<open>White- and blacklist\<close>

lemma uj_mem: "x \<in> set (uj a b) \<longleftrightarrow> (\<exists>y \<in> set a. x = y \<or> x \<in> set (b y))"
  by (auto simp: uj_def)

text \<open>On a host of Google no type that can carry foreign scripts runs, whatever the page's lists say.\<close>

lemma google_host_blocks:
  "rj hostname \<Longrightarrow> fn_a k \<in> {''html'', ''customScripts'', ''customPixels'', ''nonGoogleIframes''} \<Longrightarrow>
   Yh white (Yh_black h get hostname) zone (Some k)"
  by (auto simp: Yh_def Yh_black_def uj_mem tj_def Let_def)

subsection \<open>Tags of an event\<close>

lemma fold_marks:
  "fst (fold (Sh_mark aa) xs x) = fst x \<union> (\<Union>l \<in> {l \<in> set xs. Wl aa l}. set (l ! 1))"
  "snd (fold (Sh_mark aa) xs x) = snd x \<union> (\<Union>l \<in> {l \<in> set xs. Wl aa l}. set (l ! 3))"
  by (induction xs arbitrary: x) (auto simp: Sh_mark_def simp del: Wl.simps)

lemma Sh_marks_mem:
  "i \<in> fst (Sh_marks aa xs) \<longleftrightarrow> (\<exists>l \<in> set xs. Wl aa l \<and> i \<in> set (l ! 1))"
  "i \<in> snd (Sh_marks aa xs) \<longleftrightarrow> (\<exists>l \<in> set xs. Wl aa l \<and> i \<in> set (l ! 3))"
  by (auto simp: Sh_marks_def fold_marks simp del: Wl.simps)

lemma Sh_loop_subset: "set (Sh_loop sel stop ns) \<subseteq> {i \<in> set ns. sel i}"
  by (induction ns) auto

lemma Sh_loop_sorted: "sorted_wrt (<) ns \<Longrightarrow> sorted_wrt (<) (Sh_loop sel stop ns)"
  using Sh_loop_subset by (induction ns) fastforce+

lemma Sh_loop_mem:
  "sorted_wrt (<) ns \<Longrightarrow>
   i \<in> set (Sh_loop sel stop ns) \<longleftrightarrow> i \<in> set ns \<and> sel i \<and> \<not> (\<exists>j \<in> set ns. j < i \<and> sel j \<and> stop j)"
proof (induction ns)
  case (Cons n ns)
  have n: "\<forall>j \<in> set ns. n < j" using Cons.prems by simp
  have IH: "i \<in> set (Sh_loop sel stop ns) \<longleftrightarrow> i \<in> set ns \<and> sel i \<and> \<not> (\<exists>j \<in> set ns. j < i \<and> sel j \<and> stop j)"
    using Cons by simp
  show ?case using n IH by (auto dest: less_asym)
qed simp

definition stops :: "tfields \<Rightarrow> bool" where
  "stops t \<longleftrightarrow>
     (case map_of t (const_key ''fc'') of Some (C v) \<Rightarrow> truthy v | Some _ \<Rightarrow> True | None \<Rightarrow> False)"

definition wanted :: "container \<Rightarrow> (nat \<Rightarrow> bool) \<Rightarrow> (tfields \<Rightarrow> bool) \<Rightarrow> nat \<Rightarrow> bool" where
  "wanted K aa g i \<longleftrightarrow>
     list_ex (\<lambda>l. Wl aa l \<and> i \<in> set (l ! 1)) (xi K) \<and> \<not> list_ex (\<lambda>l. Wl aa l \<and> i \<in> set (l ! 3)) (xi K) \<and>
     \<not> g (tag_at K i)"

text \<open>C20. For an event the tags handed to the runner are exactly those that a passing rule adds, no
  passing rule suppresses and the policy allows, up to the first that stops the event; each is
  handed over once, in the order of the table.\<close>

theorem tags_exact:
  "sorted_wrt (<) (Sh_tags K aa g) \<and>
   (i \<in> set (Sh_tags K aa g) \<longleftrightarrow>
      i < Ik \<and> wanted K aa g i \<and> \<not> list_ex (\<lambda>j. wanted K aa g j \<and> stops (tag_at K j)) [0..<min i Ik])"
proof -
  have e: "Sh_tags K aa g = Sh_loop (wanted K aa g) (\<lambda>i. stops (tag_at K i)) [0..<Ik]"
    unfolding Sh_tags_def Let_def wanted_def Sh_marks_mem stops_def by (simp add: list_ex_iff del: Wl.simps)
  have s: "sorted_wrt (<) [0..<Ik]" by simp
  show ?thesis unfolding e Sh_loop_mem [OF s] using Sh_loop_sorted [OF s] by (auto simp: list_ex_iff)
qed


text \<open>The rules of the file: the first needs predicate 0 and fires tag 0, and so on.\<close>

lemma file_rules:
  "Xk2 ''B:B::,P:C::,X:E::,g:I::'' =
     [[[0], [0], [], []], [[0, 1, 2, 3], [1], [], []], [[0, 1, 2, 4], [2], [], []], [[5], [3], [], []]]"
  by code_simp

end
