(* ===== verification/Tag_Runs.thy ===== *)
theory Tag_Runs
  imports Tag_Rules
begin

text \<open>
  The runs of tags in gtm.js: a run (\<open>xl\<close>) is one tag of one event; \<open>Ol\<close> starts it, lets it wait
  for another run of the tag, or answers it from the tag's state; its success or failure callback
  finishes it and the runs that wait for the tag; the event (\<open>Al\<close>) counts its unfinished runs and
  calls its listeners when none is left (\<open>Bl\<close>).

  The code of a tag is foreign: once started, it may call its callbacks at any time and repeatedly
  (steps \<open>Answer\<close>). A page handles one event at a time (\<open>t_todo\<close>), as the data layer does. The
  sequencing of tags before and after others does not occur in the container (its fields have the
  empty key), so the lists of \<open>Cl\<close> that hold it are empty.

  The recursion of the callbacks has fuel; \<open>fin_all\<close> shows the amount that suffices and that the
  recursion over a shrinking queue reaches every waiting run.
\<close>

record run =
  r_i :: nat
  r_ev :: nat
  r_la :: bool

record tags =
  t_runs :: "run list"
  t_dc :: "nat \<Rightarrow> nat option"
  t_ec :: "nat \<Rightarrow> nat list"
  t_zb :: "nat \<Rightarrow> nat \<Rightarrow> nat option"
  t_ba :: "nat \<Rightarrow> nat"
  t_calls :: "nat \<Rightarrow> nat"
  t_next :: nat
  t_todo :: "nat list"
  t_open :: "nat option"
  t_started :: "nat list"

abbreviation run_of :: "tags \<Rightarrow> nat \<Rightarrow> run" where
  "run_of s x \<equiv> t_runs s ! x"

text \<open>\<open>Bl\<close>, the callback that \<open>Cl\<close> adds to a run, and \<open>tg\<close>.\<close>

definition Bl :: "nat \<Rightarrow> tags \<Rightarrow> tags" where
  "Bl e s = (if 0 < t_ba s e then s else s\<lparr>t_calls := (t_calls s)(e := Suc (t_calls s e))\<rparr>)"

definition Cl_done :: "nat \<Rightarrow> tags \<Rightarrow> tags" where
  "Cl_done e s = Bl e (if 0 < t_ba s e then s\<lparr>t_ba := (t_ba s)(e := t_ba s e - 1)\<rparr> else s)"

definition tg :: "nat \<Rightarrow> nat \<Rightarrow> tags \<Rightarrow> tags" where
  "tg x b s =
     (let r = run_of s x
      in s\<lparr>t_runs := (if b = 0 then t_runs s else (t_runs s)[x := r\<lparr>r_la := True\<rparr>]),
           t_zb := (t_zb s)(r_ev r := (t_zb s (r_ev r))(r_i r := Some b)),
           t_dc := (t_dc s)(r_i r := Some b)\<rparr>)"

text \<open>The callbacks \<open>w\<close> (\<open>b = 1\<close>) and \<open>D\<close> (\<open>b = 2\<close>) of a run, without the queue of the tag.\<close>

definition fin1 :: "nat \<Rightarrow> nat \<Rightarrow> tags \<Rightarrow> tags" where
  "fin1 b x s = tg x b (if r_la (run_of s x) then s else Cl_done (r_ev (run_of s x)) s)"

fun fin :: "nat \<Rightarrow> nat \<Rightarrow> nat \<Rightarrow> tags \<Rightarrow> tags option"
  and drain :: "nat \<Rightarrow> nat \<Rightarrow> nat \<Rightarrow> nat \<Rightarrow> tags \<Rightarrow> tags option" where
  "fin 0 b x s = None"
| "fin (Suc n) b x s = drain n b (r_i (run_of s x)) 0 (fin1 b x s)"
| "drain 0 b i c s = None"
| "drain (Suc n) b i c s =
     (if c < length (t_ec s i)
      then (case fin n b (hd (t_ec s i)) (s\<lparr>t_ec := (t_ec s)(i := tl (t_ec s i))\<rparr>) of
          None \<Rightarrow> None
        | Some s \<Rightarrow> drain n b i (Suc c) s)
      else Some s)"

text \<open>\<open>Ol\<close>; the tag's code starts in the first case. \<open>opt\<close> is the tag's firing option: 1 once per event,
  2 once per page, otherwise always.\<close>

datatype decision = Start | Wait | Answer_with nat

definition Ol_decide :: "(nat \<Rightarrow> nat) \<Rightarrow> nat \<Rightarrow> tags \<Rightarrow> decision" where
  "Ol_decide opt x s =
     (let i = r_i (run_of s x); f = t_zb s (r_ev (run_of s x)) i; g = t_dc s i;
          h = (f \<noteq> None); l = (opt i = 2); m = (opt i = 1)
      in if \<not> h \<and> g = None \<or> \<not> h \<and> \<not> l \<or> \<not> l \<and> \<not> m then Start
         else if l \<and> g = Some 0 \<or> m \<and> f = Some 0 then Wait
         else if l \<and> g = Some 1 \<or> m \<and> f = Some 1 then Answer_with 1
         else Answer_with 2)"

definition fuel :: "tags \<Rightarrow> nat \<Rightarrow> nat" where
  "fuel s x = 2 * length (t_ec s (r_i (run_of s x))) + 2"

definition Ol :: "(nat \<Rightarrow> nat) \<Rightarrow> nat \<Rightarrow> tags \<Rightarrow> tags option" where
  "Ol opt x s =
     (let i = r_i (run_of s x)
      in case Ol_decide opt x s of
           Start \<Rightarrow> Some (tg x 0 (s\<lparr>t_started := t_started s @ [x]\<rparr>))
         | Wait \<Rightarrow> Some (s\<lparr>t_ec := (t_ec s)(i := t_ec s i @ [x])\<rparr>)
         | Answer_with b \<Rightarrow> fin (fuel s x) b x s)"

text \<open>The runs of a new event (\<open>Al\<close>, \<open>Il\<close>, \<open>Cl\<close>).\<close>

definition new_event :: "nat list \<Rightarrow> tags \<Rightarrow> tags" where
  "new_event is s =
     (let e = t_next s; k = length (t_runs s)
      in s\<lparr>t_runs := t_runs s @ map (\<lambda>i. \<lparr>r_i = i, r_ev = e, r_la = False\<rparr>) is,
           t_ba := (t_ba s)(e := length is),
           t_next := Suc e, t_todo := [k..<k + length is], t_open := Some e\<rparr>)"

definition tags_start :: tags where
  "tags_start =
     \<lparr>t_runs = [], t_dc = \<lambda>_. None, t_ec = \<lambda>_. [], t_zb = \<lambda>_ _. None, t_ba = \<lambda>_. 0, t_calls = \<lambda>_. 0,
      t_next = 0, t_todo = [], t_open = None, t_started = []\<rparr>"

text \<open>The steps of a page: an event with its chosen tags, the next run in \<open>Hl\<close>, the end of \<open>Hl\<close> with
  its call of \<open>Bl\<close>, and a callback of a started tag.\<close>

inductive tags_step :: "(nat \<Rightarrow> nat) \<Rightarrow> tags \<Rightarrow> tags \<Rightarrow> bool" for opt where
  Event: "t_open s = None \<Longrightarrow> sorted_wrt (<) is \<Longrightarrow> tags_step opt s (new_event is s)"
| Next: "t_todo s = x # xs \<Longrightarrow> Ol opt x (s\<lparr>t_todo := xs\<rparr>) = Some s' \<Longrightarrow> tags_step opt s s'"
| End: "t_todo s = [] \<Longrightarrow> t_open s = Some e \<Longrightarrow> tags_step opt s (Bl e (s\<lparr>t_open := None\<rparr>))"
| Answer: "x \<in> set (t_started s) \<Longrightarrow> b \<in> {1, 2} \<Longrightarrow> fin (fuel s x) b x s = Some s' \<Longrightarrow> tags_step opt s s'"

inductive tags_steps :: "(nat \<Rightarrow> nat) \<Rightarrow> tags \<Rightarrow> bool" for opt where
  init: "tags_steps opt tags_start"
| step: "tags_steps opt s \<Longrightarrow> tags_step opt s s' \<Longrightarrow> tags_steps opt s'"

subsection \<open>Finishing a run and those that wait\<close>

lemma fin1_simps [simp]:
  "t_ec (fin1 b x s) = t_ec s" "t_next (fin1 b x s) = t_next s" "t_todo (fin1 b x s) = t_todo s"
  "t_open (fin1 b x s) = t_open s" "t_started (fin1 b x s) = t_started s"
  by (simp_all add: fin1_def tg_def Cl_done_def Bl_def Let_def)

lemma fin1_runs: "t_runs (fin1 b x s) = (if b = 0 then t_runs s else (t_runs s)[x := (run_of s x)\<lparr>r_la := True\<rparr>])"
  by (simp add: fin1_def tg_def Cl_done_def Bl_def Let_def)

lemma list_update_same_field: "f v = f (xs ! x) \<Longrightarrow> f (xs[x := v] ! y) = f (xs ! y)"
  by (cases "x < length xs") (auto simp: nth_list_update list_update_beyond)

lemma fin1_i [simp]: "r_i (run_of (fin1 b x s) y) = r_i (run_of s y)" "r_ev (run_of (fin1 b x s) y) = r_ev (run_of s y)"
  by (simp_all add: fin1_runs list_update_same_field [of r_i] list_update_same_field [of r_ev])

lemma fin1_ec: "fin1 b x (s\<lparr>t_ec := q\<rparr>) = (fin1 b x s)\<lparr>t_ec := q\<rparr>"
  by (simp add: fin1_def tg_def Cl_done_def Bl_def Let_def)

definition fin_list :: "nat \<Rightarrow> nat list \<Rightarrow> tags \<Rightarrow> tags" where
  "fin_list b xs s = fold (fin1 b) xs s"

lemma fin_list_simps [simp]:
  "t_ec (fin_list b xs s) = t_ec s" "t_next (fin_list b xs s) = t_next s" "t_todo (fin_list b xs s) = t_todo s"
  "t_open (fin_list b xs s) = t_open s" "t_started (fin_list b xs s) = t_started s"
  by (induction xs arbitrary: s) (simp_all add: fin_list_def)

lemma fin_drain:
  "t_ec s i = q \<Longrightarrow> \<forall>y \<in> set q. r_i (run_of s y) = i \<Longrightarrow> 2 * length q + 1 \<le> n \<Longrightarrow>
   drain n b i 0 s = Some (fin_list b q (s\<lparr>t_ec := (t_ec s)(i := [])\<rparr>))"
proof (induction q arbitrary: s n)
  case Nil
  then obtain m where "n = Suc m" by (cases n) auto
  moreover have "s\<lparr>t_ec := (t_ec s)(i := [])\<rparr> = s" using Nil(1) by (simp add: fun_upd_idem)
  ultimately show ?case using Nil by (simp add: fin_list_def del: fun_upd_apply)
next
  case (Cons y q)
  then have "2 \<le> n" by simp
  then obtain m where n: "n = Suc (Suc m)" by (metis One_nat_def Suc_1 Suc_le_D Suc_le_mono)
  let ?t = "s\<lparr>t_ec := (t_ec s)(i := q)\<rparr>"
  have "fin (Suc m) b y ?t = drain m b i 0 (fin1 b y ?t)" using Cons.prems by simp
  also have "\<dots> = Some (fin_list b q ((fin1 b y ?t)\<lparr>t_ec := (t_ec (fin1 b y ?t))(i := [])\<rparr>))"
    using Cons.prems n by (intro Cons.IH) auto
  also have "(fin1 b y ?t)\<lparr>t_ec := (t_ec (fin1 b y ?t))(i := [])\<rparr> = fin1 b y (s\<lparr>t_ec := (t_ec s)(i := [])\<rparr>)"
    by (simp add: fin1_ec)
  finally have f: "fin (Suc m) b y ?t = Some (fin_list b q (fin1 b y (s\<lparr>t_ec := (t_ec s)(i := [])\<rparr>)))" .
  let ?u = "fin_list b q (fin1 b y (s\<lparr>t_ec := (t_ec s)(i := [])\<rparr>))"
  have "drain (Suc m) b i 1 ?u = Some ?u" by simp
  moreover have "drain n b i 0 s = (case fin (Suc m) b y ?t of None \<Rightarrow> None | Some s \<Rightarrow> drain (Suc m) b i 1 s)"
    unfolding n by (subst drain.simps(2)) (simp only: Cons.prems(1) length_Cons zero_less_Suc if_True list.sel One_nat_def)
  ultimately have "drain n b i 0 s = Some ?u" unfolding f by simp
  then show ?case by (simp add: fin_list_def del: fun_upd_apply)
qed

lemma fin_closed:
  assumes "\<forall>y \<in> set (t_ec s (r_i (run_of s x))). r_i (run_of s y) = r_i (run_of s x)"
  shows "fin (fuel s x) b x s =
    Some (fin_list b (x # t_ec s (r_i (run_of s x))) (s\<lparr>t_ec := (t_ec s)(r_i (run_of s x) := [])\<rparr>))"
proof -
  let ?i = "r_i (run_of s x)"
  obtain n where n: "fuel s x = Suc n" "2 * length (t_ec s ?i) + 1 = n" by (simp add: fuel_def)
  have "drain n b ?i 0 (fin1 b x s) = Some (fin_list b (t_ec s ?i) ((fin1 b x s)\<lparr>t_ec := (t_ec (fin1 b x s))(?i := [])\<rparr>))"
    using assms n by (intro fin_drain) auto
  then show ?thesis by (simp add: n(1) fin_list_def fin1_ec del: fun_upd_apply)
qed

subsection \<open>The invariant\<close>

definition pending :: "nat \<Rightarrow> tags \<Rightarrow> nat" where
  "pending e s = length (filter (\<lambda>r. r_ev r = e \<and> \<not> r_la r) (t_runs s))"

definition starts_of :: "nat \<Rightarrow> tags \<Rightarrow> nat" where
  "starts_of i s = length (filter (\<lambda>x. r_i (run_of s x) = i) (t_started s))"

text \<open>Runs are told apart by event and tag; the run that is to be handled next has no state yet.\<close>

definition runs_ok :: "tags \<Rightarrow> bool" where
  "runs_ok s \<longleftrightarrow>
     distinct (map (\<lambda>r. (r_ev r, r_i r)) (t_runs s)) \<and> (\<forall>r \<in> set (t_runs s). r_ev r < t_next s) \<and>
     (\<forall>e i. t_next s \<le> e \<longrightarrow> t_zb s e i = None) \<and>
     distinct (t_todo s) \<and> (\<forall>x \<in> set (t_todo s). x < length (t_runs s) \<and>
       t_zb s (r_ev (run_of s x)) (r_i (run_of s x)) = None) \<and> (t_open s = None \<longrightarrow> t_todo s = [])"

definition queues_ok :: "tags \<Rightarrow> bool" where
  "queues_ok s \<longleftrightarrow>
     (\<forall>i. \<forall>y \<in> set (t_ec s i). y < length (t_runs s) \<and> r_i (run_of s y) = i \<and> y \<notin> set (t_todo s)) \<and>
     (\<forall>y \<in> set (t_started s). y < length (t_runs s) \<and> y \<notin> set (t_todo s)) \<and>
     (\<forall>i. t_ec s i \<noteq> [] \<longrightarrow> t_dc s i = Some 0)"

definition once_ok :: "(nat \<Rightarrow> nat) \<Rightarrow> tags \<Rightarrow> bool" where
  "once_ok opt s \<longleftrightarrow>
     (\<forall>i. opt i = 2 \<longrightarrow> starts_of i s \<le> 1 \<and> (t_dc s i = None \<longrightarrow> starts_of i s = 0))"

definition counts_ok :: "tags \<Rightarrow> bool" where
  "counts_ok s \<longleftrightarrow>
     (\<forall>e. t_ba s e = pending e s \<and> (t_next s \<le> e \<longrightarrow> t_calls s e = 0) \<and>
       (0 < t_calls s e \<longrightarrow> t_ba s e = 0) \<and>
       (e < t_next s \<longrightarrow> t_open s \<noteq> Some e \<longrightarrow> t_ba s e = 0 \<longrightarrow> 0 < t_calls s e) \<and> (t_open s = Some e \<longrightarrow> e < t_next s))"

lemma countsD:
  assumes "counts_ok s"
  shows "t_ba s e = pending e s" and "t_next s \<le> e \<Longrightarrow> t_calls s e = 0" and "0 < t_calls s e \<Longrightarrow> t_ba s e = 0"
    and "e < t_next s \<Longrightarrow> t_open s \<noteq> Some e \<Longrightarrow> t_ba s e = 0 \<Longrightarrow> 0 < t_calls s e" and "t_open s = Some e \<Longrightarrow> e < t_next s"
  using assms unfolding counts_ok_def by blast+

lemma countsI:
  assumes "\<And>e. t_ba s e = pending e s" and "\<And>e. t_next s \<le> e \<Longrightarrow> t_calls s e = 0" and "\<And>e. 0 < t_calls s e \<Longrightarrow> t_ba s e = 0"
    and "\<And>e. e < t_next s \<Longrightarrow> t_open s \<noteq> Some e \<Longrightarrow> t_ba s e = 0 \<Longrightarrow> 0 < t_calls s e"
    and "\<And>e. t_open s = Some e \<Longrightarrow> e < t_next s"
  shows "counts_ok s"
  using assms unfolding counts_ok_def by blast

lemma length_filter_finish:
  "x < length rs \<Longrightarrow> P (rs ! x) \<Longrightarrow> \<not> P v \<Longrightarrow> length (filter P rs) = Suc (length (filter P (rs[x := v])))"
proof (induction rs arbitrary: x)
  case (Cons r rs)
  then show ?case by (cases x) auto
qed simp

lemma length_filter_same:
  "x < length rs \<Longrightarrow> P v = P (rs ! x) \<Longrightarrow> length (filter P (rs[x := v])) = length (filter P rs)"
proof (induction rs arbitrary: x)
  case (Cons r rs)
  then show ?case by (cases x) auto
qed simp

lemma pending_fin1:
  assumes "x < length (t_runs s)" and "b \<noteq> 0"
  shows "pending e s = pending e (fin1 b x s) +
    (if \<not> r_la (run_of s x) \<and> e = r_ev (run_of s x) then 1 else 0)"
proof (cases "\<not> r_la (run_of s x) \<and> e = r_ev (run_of s x)")
  case True
  then have "length (filter (\<lambda>r. r_ev r = e \<and> \<not> r_la r) (t_runs s)) =
      Suc (length (filter (\<lambda>r. r_ev r = e \<and> \<not> r_la r) ((t_runs s)[x := (run_of s x)\<lparr>r_la := True\<rparr>])))"
    using assms(1) by (intro length_filter_finish) auto
  then show ?thesis using True assms(2) by (simp add: pending_def fin1_runs)
next
  case False
  then have "length (filter (\<lambda>r. r_ev r = e \<and> \<not> r_la r) ((t_runs s)[x := (run_of s x)\<lparr>r_la := True\<rparr>])) =
      length (filter (\<lambda>r. r_ev r = e \<and> \<not> r_la r) (t_runs s))"
    using assms(1) by (intro length_filter_same) auto
  then show ?thesis using False assms(2) by (auto simp: pending_def fin1_runs)
qed

lemma fin1_ba:
  "t_ba (fin1 b x s) e = (if \<not> r_la (run_of s x) \<and> e = r_ev (run_of s x) then t_ba s e - 1 else t_ba s e)"
  by (auto simp: fin1_def tg_def Cl_done_def Bl_def Let_def)

lemma fin1_calls:
  "t_calls (fin1 b x s) e =
     (if \<not> r_la (run_of s x) \<and> e = r_ev (run_of s x) \<and> t_ba s e \<le> 1 then Suc (t_calls s e) else t_calls s e)"
  by (auto simp: fin1_def tg_def Cl_done_def Bl_def Let_def)

lemma counts_fin1:
  assumes c: "counts_ok s" and x: "x < length (t_runs s)" "\<forall>r \<in> set (t_runs s). r_ev r < t_next s" and b: "b \<noteq> 0"
  shows "counts_ok (fin1 b x s)"
  unfolding counts_ok_def
proof (rule allI)
  fix e
  let ?hit = "\<not> r_la (run_of s x) \<and> e = r_ev (run_of s x)"
  have ev: "r_ev (run_of s x) < t_next s" using x by simp
  have p: "pending e s = pending e (fin1 b x s) + (if ?hit then 1 else 0)" by (rule pending_fin1 [OF x(1) b])
  have s: "t_ba s e = pending e s" "t_next s \<le> e \<Longrightarrow> t_calls s e = 0" "0 < t_calls s e \<Longrightarrow> t_ba s e = 0"
    "e < t_next s \<Longrightarrow> t_open s \<noteq> Some e \<Longrightarrow> t_ba s e = 0 \<Longrightarrow> 0 < t_calls s e" "t_open s = Some e \<Longrightarrow> e < t_next s"
    using c unfolding counts_ok_def by blast+
  show "t_ba (fin1 b x s) e = pending e (fin1 b x s) \<and> (t_next (fin1 b x s) \<le> e \<longrightarrow> t_calls (fin1 b x s) e = 0) \<and>
       (0 < t_calls (fin1 b x s) e \<longrightarrow> t_ba (fin1 b x s) e = 0) \<and>
       (e < t_next (fin1 b x s) \<longrightarrow> t_open (fin1 b x s) \<noteq> Some e \<longrightarrow> t_ba (fin1 b x s) e = 0 \<longrightarrow> 0 < t_calls (fin1 b x s) e) \<and>
       (t_open (fin1 b x s) = Some e \<longrightarrow> e < t_next (fin1 b x s))"
  proof (cases ?hit)
    case True
    have pe: "t_ba s e = Suc (pending e (fin1 b x s))" using p s(1) True by simp
    have ba: "t_ba (fin1 b x s) e = t_ba s e - 1" using True by (simp add: fin1_ba)
    have ca: "t_calls (fin1 b x s) e = (if t_ba s e \<le> 1 then Suc (t_calls s e) else t_calls s e)"
      using True by (simp add: fin1_calls)
    have e: "e < t_next s" using True ev by simp
    have "t_calls s e = 0" using s(3) pe by (cases "t_calls s e") auto
    then show ?thesis unfolding ba ca fin1_simps using pe e by simp
  next
    case False
    have pe: "pending e s = pending e (fin1 b x s)" using p False by (simp only: if_False)
    have ba: "t_ba (fin1 b x s) e = t_ba s e" unfolding fin1_ba using False by (simp only: if_False)
    have ca: "t_calls (fin1 b x s) e = t_calls s e" using False unfolding fin1_calls by (simp only: conj_assoc [symmetric]) simp
    show ?thesis unfolding ba ca fin1_simps pe [symmetric] using s by blast
  qed
qed

lemma fin1_dc: "t_dc (fin1 b x s) = (t_dc s)(r_i (run_of s x) := Some b)"
  by (simp add: fin1_def tg_def Cl_done_def Bl_def Let_def)

lemma fin1_zb: "t_zb (fin1 b x s) = (t_zb s)(r_ev (run_of s x) := (t_zb s (r_ev (run_of s x)))(r_i (run_of s x) := Some b))"
  by (simp add: fin1_def tg_def Cl_done_def Bl_def Let_def)

lemma fin1_length [simp]: "length (t_runs (fin1 b x s)) = length (t_runs s)"
  by (simp add: fin1_runs)

lemma map_update_same: "f v = f (rs ! x) \<Longrightarrow> map f (rs[x := v]) = map f rs"
  by (metis list_update_beyond list_update_id map_update not_le)

lemma runs_apart:
  assumes "distinct (map (\<lambda>r. (r_ev r, r_i r)) (t_runs s))" and "x < length (t_runs s)" and "y < length (t_runs s)" and "x \<noteq> y"
  shows "r_ev (run_of s x) \<noteq> r_ev (run_of s y) \<or> r_i (run_of s x) \<noteq> r_i (run_of s y)"
  using assms by (auto simp: distinct_conv_nth)


definition tags_ok :: "(nat \<Rightarrow> nat) \<Rightarrow> tags \<Rightarrow> bool" where
  "tags_ok opt s \<longleftrightarrow> runs_ok s \<and> queues_ok s \<and> once_ok opt s \<and> counts_ok s"

lemma fin1_keys: "map (\<lambda>r. (r_ev r, r_i r)) (t_runs (fin1 b x s)) = map (\<lambda>r. (r_ev r, r_i r)) (t_runs s)"
proof -
  have "map (\<lambda>r. (r_ev r, r_i r)) ((t_runs s)[x := (run_of s x)\<lparr>r_la := True\<rparr>]) = map (\<lambda>r. (r_ev r, r_i r)) (t_runs s)"
    by (rule map_update_same) simp
  then show ?thesis by (simp add: fin1_runs)
qed

lemma runs_fin1:
  assumes r: "runs_ok s" and x: "x < length (t_runs s)" "x \<notin> set (t_todo s)"
  shows "runs_ok (fin1 b x s)"
proof -
  have ev: "fst ` set (map (\<lambda>r. (r_ev r, r_i r)) (t_runs (fin1 b x s))) = fst ` set (map (\<lambda>r. (r_ev r, r_i r)) (t_runs s))"
    by (simp only: fin1_keys)
  then have ev: "r_ev ` set (t_runs (fin1 b x s)) = r_ev ` set (t_runs s)" by (simp add: image_image)
  have xe: "r_ev (run_of s x) < t_next s" using r x by (simp add: runs_ok_def)
  have "t_zb (fin1 b x s) (r_ev (run_of s y)) (r_i (run_of s y)) = None" if "y \<in> set (t_todo s)" for y
  proof -
    from that r have y: "y < length (t_runs s)" "t_zb s (r_ev (run_of s y)) (r_i (run_of s y)) = None"
      by (auto simp: runs_ok_def)
    have "x \<noteq> y" using that x by auto
    with r x y have "r_ev (run_of s x) \<noteq> r_ev (run_of s y) \<or> r_i (run_of s x) \<noteq> r_i (run_of s y)"
      by (intro runs_apart) (auto simp: runs_ok_def)
    with y show ?thesis by (auto simp: fin1_zb)
  qed
  moreover have "\<forall>r \<in> set (t_runs (fin1 b x s)). r_ev r < t_next s"
  proof -
    have "\<forall>v \<in> r_ev ` set (t_runs (fin1 b x s)). v < t_next s" unfolding ev using r by (simp add: runs_ok_def)
    then show ?thesis by simp
  qed
  moreover have "t_zb (fin1 b x s) e i = None" if "t_next s \<le> e" for e i
    using r xe that by (auto simp: fin1_zb runs_ok_def)
  ultimately show ?thesis using r by (simp add: runs_ok_def fin1_keys)
qed

lemma queues_fin1:
  assumes q: "queues_ok s" and x: "t_ec s (r_i (run_of s x)) = []"
  shows "queues_ok (fin1 b x s)"
  using q x by (auto simp: queues_ok_def fin1_dc)

lemma once_fin1: "once_ok opt s \<Longrightarrow> once_ok opt (fin1 b x s)"
  by (auto simp: once_ok_def starts_of_def fin1_dc)

lemma ok_fin1:
  assumes s: "tags_ok opt s" and x: "x < length (t_runs s)" "x \<notin> set (t_todo s)" "t_ec s (r_i (run_of s x)) = []" and b: "b \<noteq> 0"
  shows "tags_ok opt (fin1 b x s)"
proof -
  have r: "runs_ok s" and q: "queues_ok s" and o: "once_ok opt s" and c: "counts_ok s"
    using s by (simp_all add: tags_ok_def)
  have "counts_ok (fin1 b x s)" using c x(1) b r by (intro counts_fin1) (auto simp: runs_ok_def)
  then show ?thesis
    using runs_fin1 [OF r x(1,2)] queues_fin1 [OF q x(3)] once_fin1 [OF o] by (simp add: tags_ok_def)
qed

lemma ok_fin_list:
  assumes "tags_ok opt s" and "\<forall>y \<in> set xs. y < length (t_runs s) \<and> y \<notin> set (t_todo s) \<and> t_ec s (r_i (run_of s y)) = []"
    and "b \<noteq> 0"
  shows "tags_ok opt (fin_list b xs s)"
  using assms
proof (induction xs arbitrary: s)
  case (Cons x xs)
  have "tags_ok opt (fin1 b x s)" using Cons.prems by (intro ok_fin1) auto
  then have "tags_ok opt (fin_list b xs (fin1 b x s))" by (rule Cons.IH) (use Cons.prems in auto)
  then show ?case by (simp add: fin_list_def)
qed (simp add: fin_list_def)

lemma ok_empty_queue:
  assumes "tags_ok opt s"
  shows "tags_ok opt (s\<lparr>t_ec := (t_ec s)(i := [])\<rparr>)"
proof -
  let ?s = "s\<lparr>t_ec := (t_ec s)(i := [])\<rparr>"
  have "runs_ok ?s = runs_ok s" "once_ok opt ?s = once_ok opt s" "counts_ok ?s = counts_ok s"
    by (simp_all add: runs_ok_def once_ok_def counts_ok_def starts_of_def pending_def)
  moreover have "queues_ok s \<Longrightarrow> queues_ok ?s" by (simp add: queues_ok_def)
  ultimately show ?thesis using assms by (simp add: tags_ok_def)
qed

lemma fin_ok:
  assumes s: "tags_ok opt s" and x: "x < length (t_runs s)" "x \<notin> set (t_todo s)" and b: "b \<noteq> 0"
  shows "\<exists>s'. fin (fuel s x) b x s = Some s' \<and> tags_ok opt s'"
proof -
  let ?i = "r_i (run_of s x)"
  have q: "\<forall>y \<in> set (t_ec s ?i). y < length (t_runs s) \<and> r_i (run_of s y) = ?i \<and> y \<notin> set (t_todo s)"
    using s by (simp add: tags_ok_def queues_ok_def)
  have "tags_ok opt (fin_list b (x # t_ec s ?i) (s\<lparr>t_ec := (t_ec s)(?i := [])\<rparr>))"
    by (rule ok_fin_list [OF ok_empty_queue [OF s] _ b]) (use x q in auto)
  moreover have "fin (fuel s x) b x s = Some (fin_list b (x # t_ec s ?i) (s\<lparr>t_ec := (t_ec s)(?i := [])\<rparr>))"
    using q by (intro fin_closed) auto
  ultimately show ?thesis by blast
qed


subsection \<open>The steps keep the invariant\<close>

lemma filter_new: "filter (\<lambda>r. r_ev r = e \<and> \<not> r_la r) (map (\<lambda>i. \<lparr>r_i = i, r_ev = k, r_la = False\<rparr>) is) =
    (if e = k then map (\<lambda>i. \<lparr>r_i = i, r_ev = k, r_la = False\<rparr>) is else [])"
  by (induction "is") auto

lemma ok_event:
  assumes s: "tags_ok opt s" and o: "t_open s = None" and d: "distinct ns"
  shows "tags_ok opt (new_event ns s)"
proof -
  let ?e = "t_next s" and ?k = "length (t_runs s)"
  let ?new = "map (\<lambda>i. \<lparr>r_i = i, r_ev = t_next s, r_la = False\<rparr>) ns"
  have r: "runs_ok s" and q: "queues_ok s" and n: "once_ok opt s" and c: "counts_ok s"
    using s by (simp_all add: tags_ok_def)
  have at: "(t_runs s @ ?new) ! x = t_runs s ! x" if "x < ?k" for x using that by (simp add: nth_append)
  have "runs_ok (new_event ns s)"
  proof -
    have "distinct (map (\<lambda>r. (r_ev r, r_i r)) (t_runs s @ ?new))"
      using r d by (auto simp: runs_ok_def distinct_map inj_on_def comp_def)
    moreover have "r_ev ((t_runs s @ ?new) ! x) = ?e" if "x \<in> set [?k..<?k + length ns]" for x
      using that by (auto simp: nth_append)
    ultimately show ?thesis using r by (auto simp: runs_ok_def new_event_def Let_def less_Suc_eq)
  qed
  moreover have "queues_ok (new_event ns s)"
  proof -
    have e: "y < ?k" "r_i (run_of s y) = i" if "y \<in> set (t_ec s i)" for i y using q that by (auto simp: queues_ok_def)
    have st: "y < ?k" if "y \<in> set (t_started s)" for y using q that by (simp add: queues_ok_def)
    have dc: "t_dc s i = Some 0" if "t_ec s i \<noteq> []" for i using q that by (simp add: queues_ok_def)
    have "r_i ((t_runs s @ ?new) ! y) = i" if "y \<in> set (t_ec s i)" for i y using e [OF that] at by simp
    then show ?thesis unfolding queues_ok_def new_event_def Let_def
      by (auto simp: dc dest: e(1) st)
  qed
  moreover have "starts_of i (new_event ns s) = starts_of i s" for i
  proof -
    have "\<forall>x \<in> set (t_started s). x < ?k" using q by (simp add: queues_ok_def)
    then have "filter (\<lambda>x. r_i ((t_runs s @ ?new) ! x) = i) (t_started s) = filter (\<lambda>x. r_i (run_of s x) = i) (t_started s)"
      by (intro filter_cong refl) (simp add: at)
    then show ?thesis by (simp add: starts_of_def new_event_def Let_def)
  qed
  then have "once_ok opt (new_event ns s)" using n by (simp add: once_ok_def new_event_def Let_def)
  moreover have "counts_ok (new_event ns s)"
  proof (rule countsI)
    fix k
    have "filter (\<lambda>r. r_ev r = ?e \<and> \<not> r_la r) (t_runs s) = []" using r by (auto simp: runs_ok_def filter_empty_conv)
    then have p: "pending k (new_event ns s) = (if k = ?e then length ns else pending k s)"
      by (simp add: pending_def new_event_def Let_def filter_new)
    have f: "t_ba (new_event ns s) k = (if k = ?e then length ns else t_ba s k)" "t_calls (new_event ns s) = t_calls s"
      "t_next (new_event ns s) = Suc ?e" "t_open (new_event ns s) = Some ?e" by (simp_all add: new_event_def Let_def)
    have 0: "t_calls s ?e = 0" by (rule countsD(2) [OF c]) simp
    show "t_ba (new_event ns s) k = pending k (new_event ns s)" unfolding p f using countsD(1) [OF c, of k] by simp
    show "t_calls (new_event ns s) k = 0" if "t_next (new_event ns s) \<le> k"
      using that countsD(2) [OF c, of k] unfolding f by simp
    show "t_ba (new_event ns s) k = 0" if "0 < t_calls (new_event ns s) k"
      using that countsD(3) [OF c, of k] 0 unfolding f by (cases "k = ?e") simp_all
    show "0 < t_calls (new_event ns s) k"
      if "k < t_next (new_event ns s)" "t_open (new_event ns s) \<noteq> Some k" "t_ba (new_event ns s) k = 0"
      using that countsD(4) [OF c, of k] o unfolding f by (cases "k = ?e") simp_all
    show "k < t_next (new_event ns s)" if "t_open (new_event ns s) = Some k" using that unfolding f by simp
  qed
  ultimately show ?thesis by (simp add: tags_ok_def)
qed

lemma ok_end:
  assumes s: "tags_ok opt s" and t: "t_todo s = []" "t_open s = Some e"
  shows "tags_ok opt (Bl e (s\<lparr>t_open := None\<rparr>))"
proof -
  let ?s = "Bl e (s\<lparr>t_open := None\<rparr>)"
  have c: "counts_ok s" using s by (simp add: tags_ok_def)
  have r: "runs_ok s" and q: "queues_ok s" and n: "once_ok opt s" using s by (simp_all add: tags_ok_def)
  have "runs_ok ?s" using r t by (simp add: runs_ok_def Bl_def)
  moreover have "queues_ok ?s = queues_ok s" "once_ok opt ?s = once_ok opt s"
    by (simp_all add: queues_ok_def once_ok_def starts_of_def Bl_def)
  moreover have "counts_ok ?s"
  proof (rule countsI)
    fix k
    have p: "pending k ?s = pending k s" "t_ba ?s = t_ba s" "t_next ?s = t_next s" "t_open ?s = None"
      by (simp_all add: pending_def Bl_def)
    have ca: "t_calls ?s k = (if k = e \<and> t_ba s e = 0 then Suc (t_calls s k) else t_calls s k)" by (simp add: Bl_def)
    have e: "e < t_next s" by (rule countsD(5) [OF c t(2)])
    show "t_ba ?s k = pending k ?s" unfolding p by (rule countsD(1) [OF c])
    show "t_calls ?s k = 0" if "t_next ?s \<le> k"
      using that countsD(2) [OF c, of k] e unfolding p ca by (cases "k = e") simp_all
    show "t_ba ?s k = 0" if "0 < t_calls ?s k"
      using that countsD(3) [OF c, of k] unfolding p ca by (cases "k = e \<and> t_ba s e = 0") simp_all
    show "0 < t_calls ?s k" if "k < t_next ?s" "t_ba ?s k = 0"
      using that countsD(4) [OF c, of k] t unfolding p ca by (cases "k = e") simp_all
    show "k < t_next ?s" if "t_open ?s = Some k" using that unfolding p by simp
  qed
  ultimately show ?thesis using q n by (simp add: tags_ok_def)
qed

lemma ok_start:
  assumes s: "tags_ok opt s" and t: "t_todo s = x # xs" and d: "opt (r_i (run_of s x)) = 2 \<Longrightarrow> t_dc s (r_i (run_of s x)) = None"
  shows "tags_ok opt (tg x 0 (s\<lparr>t_todo := xs, t_started := t_started s @ [x]\<rparr>))"
proof -
  let ?s = "tg x 0 (s\<lparr>t_todo := xs, t_started := t_started s @ [x]\<rparr>)"
  have r: "runs_ok s" and q: "queues_ok s" and n: "once_ok opt s" and c: "counts_ok s"
    using s by (simp_all add: tags_ok_def)
  have x: "x < length (t_runs s)" "x \<notin> set xs" "r_ev (run_of s x) < t_next s" using r t by (auto simp: runs_ok_def)
  have apart: "r_ev (run_of s y) \<noteq> r_ev (run_of s x) \<or> r_i (run_of s y) \<noteq> r_i (run_of s x)" if "y \<in> set xs" for y
    using r t that x by (intro runs_apart) (auto simp: runs_ok_def)
  have "t_zb ?s k i = None" if "t_next s \<le> k" for k i
  proof -
    have "k \<noteq> r_ev (run_of s x)" using that x(3) by simp
    then show ?thesis using r that by (simp add: runs_ok_def tg_def Let_def)
  qed
  moreover have "t_zb ?s (r_ev (run_of s y)) (r_i (run_of s y)) = None" if "y \<in> set xs" for y
    using apart [OF that] r t that by (auto simp: runs_ok_def tg_def Let_def)
  ultimately have "runs_ok ?s" using r t by (auto simp: runs_ok_def tg_def Let_def)
  moreover have "queues_ok ?s" using q x t by (auto simp: queues_ok_def tg_def Let_def)
  moreover have "once_ok opt ?s" using n d by (auto simp: once_ok_def starts_of_def tg_def Let_def)
  moreover have "counts_ok ?s = counts_ok s" by (simp add: counts_ok_def tg_def Let_def pending_def)
  ultimately show ?thesis using c by (simp add: tags_ok_def)
qed

lemma ok_wait:
  assumes s: "tags_ok opt s" and t: "t_todo s = x # xs" and d: "t_dc s (r_i (run_of s x)) = Some 0"
  shows "tags_ok opt (s\<lparr>t_todo := xs, t_ec := (t_ec s)(r_i (run_of s x) := t_ec s (r_i (run_of s x)) @ [x])\<rparr>)"
proof -
  let ?s = "s\<lparr>t_todo := xs, t_ec := (t_ec s)(r_i (run_of s x) := t_ec s (r_i (run_of s x)) @ [x])\<rparr>"
  have r: "runs_ok s" and q: "queues_ok s" and n: "once_ok opt s" and c: "counts_ok s"
    using s by (simp_all add: tags_ok_def)
  have x: "x < length (t_runs s)" "x \<notin> set xs" using r t by (auto simp: runs_ok_def)
  have "runs_ok ?s" using r t by (auto simp: runs_ok_def)
  moreover have "queues_ok ?s" using q x t d by (auto simp: queues_ok_def)
  moreover have "once_ok opt ?s = once_ok opt s" "counts_ok ?s = counts_ok s"
    by (simp_all add: once_ok_def starts_of_def counts_ok_def pending_def)
  ultimately show ?thesis using n c by (simp add: tags_ok_def)
qed

lemma ok_skip:
  assumes s: "tags_ok opt s" and t: "t_todo s = x # xs"
  shows "tags_ok opt (s\<lparr>t_todo := xs\<rparr>)"
proof -
  let ?s = "s\<lparr>t_todo := xs\<rparr>"
  have "once_ok opt ?s = once_ok opt s" "counts_ok ?s = counts_ok s"
    by (simp_all add: once_ok_def starts_of_def counts_ok_def pending_def)
  moreover have "runs_ok ?s" using s t by (auto simp: tags_ok_def runs_ok_def)
  moreover have "queues_ok ?s" using s t by (auto simp: tags_ok_def queues_ok_def)
  ultimately show ?thesis using s by (simp add: tags_ok_def)
qed

lemma ok_next:
  assumes s: "tags_ok opt s" and t: "t_todo s = x # xs"
  shows "\<exists>s'. Ol opt x (s\<lparr>t_todo := xs\<rparr>) = Some s' \<and> tags_ok opt s'"
proof -
  let ?s = "s\<lparr>t_todo := xs\<rparr>" and ?i = "r_i (run_of s x)"
  have x: "x < length (t_runs s)" "x \<notin> set xs" and f: "t_zb s (r_ev (run_of s x)) ?i = None"
    using s t by (auto simp: tags_ok_def runs_ok_def)
  show ?thesis
  proof (cases "Ol_decide opt x ?s")
    case Start
    then have "opt ?i = 2 \<Longrightarrow> t_dc s ?i = None" using f by (auto simp: Ol_decide_def Let_def split: if_splits)
    from ok_start [OF s t this] Start show ?thesis by (simp add: Ol_def)
  next
    case Wait
    then have "t_dc s ?i = Some 0" using f by (auto simp: Ol_decide_def Let_def split: if_splits)
    from ok_wait [OF s t this] Wait show ?thesis by (simp add: Ol_def Let_def del: fun_upd_apply)
  next
    case (Answer_with b)
    then have "b \<noteq> 0" by (auto simp: Ol_decide_def Let_def split: if_splits)
    from fin_ok [OF ok_skip [OF s t] _ _ this, of x] x Answer_with show ?thesis by (simp add: Ol_def)
  qed
qed

lemma tags_reach_ok: "tags_steps opt s \<Longrightarrow> tags_ok opt s"
proof (induction rule: tags_steps.induct)
  case init
  show ?case
    by (simp add: tags_ok_def runs_ok_def queues_ok_def once_ok_def counts_ok_def tags_start_def starts_of_def pending_def)
next
  case (step s s')
  from step.hyps(2) show ?case
  proof cases
    case (Event ns)
    then show ?thesis using step.IH by (auto intro!: ok_event simp: strict_sorted_iff)
  next
    case (Next x xs)
    then show ?thesis using ok_next [OF step.IH Next(1)] by auto
  next
    case (End e)
    then show ?thesis using step.IH by (auto intro: ok_end)
  next
    case (Answer x b)
    then have "x < length (t_runs s)" "x \<notin> set (t_todo s)" "b \<noteq> 0"
      using step.IH by (auto simp: tags_ok_def queues_ok_def)
    from fin_ok [OF step.IH this] Answer show ?thesis by auto
  qed
qed

text \<open>C19. However the tags answer: no run waits for a tag that is not running; a tag with the option
  once per page is started at most once; an event counts exactly its unfinished runs, and once it has
  been worked through, its listeners have been called if and only if all its runs are finished.\<close>

theorem tag_runs:
  assumes "tags_steps opt s"
  shows "(t_dc s i \<noteq> Some 0 \<longrightarrow> t_ec s i = []) \<and> (opt i = 2 \<longrightarrow> starts_of i s \<le> 1) \<and> t_ba s e = pending e s \<and>
    (e < t_next s \<longrightarrow> t_open s \<noteq> Some e \<longrightarrow> (0 < t_calls s e \<longleftrightarrow> pending e s = 0))"
proof -
  have "tags_ok opt s" by (rule tags_reach_ok [OF assms])
  then have q: "queues_ok s" and o: "once_ok opt s" and c: "counts_ok s" by (simp_all add: tags_ok_def)
  have "t_dc s i \<noteq> Some 0 \<longrightarrow> t_ec s i = []" using q by (auto simp: queues_ok_def)
  moreover have "opt i = 2 \<longrightarrow> starts_of i s \<le> 1" using o by (simp add: once_ok_def)
  moreover have "t_ba s e = pending e s \<and>
      (e < t_next s \<longrightarrow> t_open s \<noteq> Some e \<longrightarrow> (0 < t_calls s e \<longleftrightarrow> pending e s = 0))"
    using c unfolding counts_ok_def by metis
  ultimately show ?thesis by blast
qed

text \<open>Progress: the next run can always be handled, and a callback of a started tag returns.\<close>

lemma tag_progress:
  assumes "tags_steps opt s"
  shows "(t_todo s = x # xs \<longrightarrow> Ol opt x (s\<lparr>t_todo := xs\<rparr>) \<noteq> None) \<and>
    (y \<in> set (t_started s) \<longrightarrow> fin (fuel s y) (Suc b) y s \<noteq> None)"
proof -
  have ok: "tags_ok opt s" by (rule tags_reach_ok [OF assms])
  have "fin (fuel s y) (Suc b) y s \<noteq> None" if "y \<in> set (t_started s)"
    using fin_ok [OF ok, of y "Suc b"] ok that by (auto simp: tags_ok_def queues_ok_def)
  moreover have "Ol opt x (s\<lparr>t_todo := xs\<rparr>) \<noteq> None" if "t_todo s = x # xs"
    using ok_next [OF ok that] by auto
  ultimately show ?thesis by blast
qed


theorem tag_runs_witness:
  "t_ec (new_event [0, 2] tags_start) 2 = [] \<and> t_ba (new_event [0, 2] tags_start) 0 = 2"
proof -
  have "tags_steps (\<lambda>_. 2) (new_event [0, 2] tags_start)"
    by (rule tags_steps.step [OF tags_steps.init], rule tags_step.Event) (simp_all add: tags_start_def)
  from tag_runs [OF this, of 2 0] show ?thesis
    by (simp add: new_event_def tags_start_def pending_def Let_def)
qed

end
