(* ===== verification/Auto_Track.thy ===== *)
theory Auto_Track
  imports Tag_Values Js_Regex
begin

text \<open>
  autotrack.js: the tracker object built on a page (\<open>n\<close>), its commands to the queue of ga.js, and the
  events sent for clicks. The options are a record; an option function is called by number through
  the argument \<open>call\<close>. An element is a record of what the script reads of it; a click is given by
  the chain of nodes from its target to the root of the document.

  The lemmas show the order of the start-up commands and which nodes of a clicked chain are reported.
\<close>

type_synonym ga_command = "jval list"

datatype dflt_option = D_none | D_text string | D_fun nat

record auto_options =
  o_profile :: jval
  o_tracklinks :: jval
  o_trackClicks :: jval
  o_trackQueryParams :: jval
  o_adsDb :: jval
  o_tracker :: string
  o_cookiePath :: string
  o_cookiePathCopy :: "string list"
  o_prefix :: string
  o_domainName :: string
  o_commands :: "ga_command list"
  o_noPageview :: bool
  o_pageviewPath :: string
  o_eventName :: dflt_option
  o_action :: dflt_option
  o_label :: dflt_option
  o_trackUnload :: bool
  o_heatMapper :: bool
  o_callback :: bool

record page_loc =
  l_pathname :: string
  l_search :: string
  l_hash :: string
  l_href :: string
  l_hostname :: string

record auto =
  t_h :: bool
  t_n :: bool
  t_m :: bool
  t_c :: string
  t_g :: string
  t_prefix :: string
  t_path :: string
  t_j :: dflt_option
  t_act :: dflt_option
  t_k :: dflt_option
  t_d :: bool
  t_heat :: bool

subsection \<open>Names, binding and the queue\<close>

text \<open>\<open>g\<close>: a value is stored under a dotted name; missing or false steps become empty objects.\<close>

fun g_export :: "string list \<Rightarrow> jv \<Rightarrow> fields \<Rightarrow> fields" where
  "g_export [] c f = f"
| "g_export [e] c f =
     (if c \<noteq> Undefd then dict_set e c f
      else (case map_of f e of Some v \<Rightarrow> (if is_true v then f else dict_set e (Obj []) f) | None \<Rightarrow> dict_set e (Obj []) f))"
| "g_export (e # es) c f =
     (case map_of f e of
        Some (Obj d) \<Rightarrow> dict_set e (Obj (g_export es c d)) f
      | Some v \<Rightarrow> (if is_true v then f else dict_set e (Obj (g_export es c [])) f)
      | None \<Rightarrow> dict_set e (Obj (g_export es c [])) f)"

text \<open>The arguments with which a function bound by \<open>l\<close> is called.\<close>

definition l_args :: "'a list \<Rightarrow> 'a list \<Rightarrow> 'a list" where
  "l_args d b = (if d \<noteq> [] then d @ b else b)"

text \<open>The command pushed by \<open>b\<close>, with the tracker's prefix.\<close>

definition b_command :: "string \<Rightarrow> string \<Rightarrow> jval list \<Rightarrow> ga_command" where
  "b_command c name args = Str (c @ name) # args"

subsection \<open>Start-up\<close>

text \<open>\<open>/^([^;,]*\/)/.exec(path)[0]\<close>: up to the last slash before a comma or semicolon.\<close>

definition path_dir :: "string \<Rightarrow> string option" where
  "path_dir p =
     (let q = takeWhile (\<lambda>c. c \<noteq> CHR '';'' \<and> c \<noteq> CHR '','') p
      in case last_index_of q CHR ''/'' of None \<Rightarrow> None | Some i \<Rightarrow> Some (take (Suc i) q))"

definition n_object :: "auto_options \<Rightarrow> page_loc \<Rightarrow> auto option" where
  "n_object a loc =
     (let mk = (\<lambda>g. \<lparr>t_h = \<not> (o_tracklinks a = Bool False \<or> o_trackClicks a = Bool False),
            t_n = truthy (o_trackQueryParams a),
            t_m = (if o_adsDb a = Undef then True else truthy (o_adsDb a)),
            t_c = (if o_tracker a \<noteq> [] then o_tracker a @ ''.'' else []),
            t_g = g, t_prefix = o_prefix a, t_path = l_pathname loc,
            t_j = o_eventName a, t_act = o_action a, t_k = o_label a, t_d = o_callback a, t_heat = o_heatMapper a\<rparr>)
      in if o_cookiePath a \<noteq> [] then Some (mk (o_cookiePath a)) else map_option mk (path_dir (l_pathname loc)))"

text \<open>The campaign keys, unless the address has the standard parameters.\<close>

definition camp_key :: "string \<Rightarrow> string \<Rightarrow> string \<times> string \<times> string \<Rightarrow> ga_command list" where
  "camp_key c href k =
     (case k of (p, name, v) \<Rightarrow> if contains href p then [] else [b_command c name [Str v]])"

definition camp_keys :: "auto \<Rightarrow> page_loc \<Rightarrow> ga_command list" where
  "camp_keys t loc =
     (if t_m t \<and> (l_hash loc \<noteq> [] \<or> l_search loc \<noteq> [])
      then b_command (t_c t) ''_setCampIdKey'' [Str ''cid''] #
        concat (map (camp_key (t_c t) (l_href loc))
          [(''utm_campaign='', ''_setCampNameKey'', ''sourceid''),
           (''utm_medium='', ''_setCampMediumKey'', ''medium''),
           (''utm_source='', ''_setCampSourceKey'', ''subid''),
           (''utm_term='', ''_setCampTermKey'', ''term''),
           (''utm_content='', ''_setCampContentKey'', ''content'')])
      else [])"

text \<open>A command of the options gets the tracker's prefix when its name is not empty.\<close>

definition own_command :: "string \<Rightarrow> ga_command \<Rightarrow> ga_command" where
  "own_command c b =
     (case b of [] \<Rightarrow> [Undef] | x # r \<Rightarrow> (if truthy x then Str (c @ to_str x) else x) # r)"

definition path_copies :: "auto \<Rightarrow> string list \<Rightarrow> ga_command list" where
  "path_copies t e =
     concat (map (\<lambda>p. if contains (t_g t) p then [] else [b_command (t_c t) ''_cookiePathCopy'' [Str p]]) e)"

definition pageview_path :: "auto_options \<Rightarrow> auto \<Rightarrow> page_loc \<Rightarrow> string" where
  "pageview_path a t loc =
     (if o_pageviewPath a \<noteq> [] then o_pageviewPath a
      else t_prefix t @ t_path t @ (if t_n t then l_search loc else []))"

definition n_settings :: "auto_options \<Rightarrow> auto \<Rightarrow> page_loc \<Rightarrow> ga_command list" where
  "n_settings a t loc =
     [b_command (t_c t) ''_setCookiePath'' [Str (t_g t)]] @
     (if o_domainName a \<noteq> [] then [b_command (t_c t) ''_setDomainName'' [Str (o_domainName a)]] else []) @
     [b_command (t_c t) ''_setAllowAnchor'' [Bool True]] @ camp_keys t loc @
     map (own_command (t_c t)) (o_commands a) @ path_copies t (o_cookiePathCopy a)"

definition n_commands :: "auto_options \<Rightarrow> auto \<Rightarrow> page_loc \<Rightarrow> ga_command list" where
  "n_commands a t loc =
     b_command (t_c t) ''_setAccount'' [o_profile a] # n_settings a t loc @
     (if o_noPageview a then [] else [b_command (t_c t) ''_trackPageview'' [Str (pageview_path a t loc)]])"

text \<open>The address of the script that is added when ga.js has not loaded.\<close>

definition ga_script :: "bool \<Rightarrow> string \<Rightarrow> string option" where
  "ga_script gat protocol =
     (if gat then None
      else Some ((if protocol = ''https:'' then ''https://ssl'' else ''http://www'') @ ''.google-analytics.com/ga.js''))"

text \<open>How \<open>p\<close> waits for the document: by an event, by polling, or by the load of the window.\<close>

datatype ready_plan = On_content | On_load | Poll_scroll | Poll_state

definition p_plan :: "bool \<Rightarrow> bool \<Rightarrow> bool \<Rightarrow> bool \<Rightarrow> bool \<Rightarrow> ready_plan" where
  "p_plan has_listener listener_throws unique_id expando ready_state =
     (if has_listener then (if listener_throws then On_load else On_content)
      else if \<not> unique_id \<and> expando then Poll_scroll
      else if ready_state then Poll_state
      else On_load)"

subsection \<open>Events\<close>

record elem =
  e_type :: nat
  e_name :: string
  e_attr :: "string \<Rightarrow> string option"
  e_host :: string

definition attr_text :: "elem \<Rightarrow> string \<Rightarrow> string" where
  "attr_text b a = (case e_attr b a of Some s \<Rightarrow> s | None \<Rightarrow> [])"

definition or_str :: "string \<Rightarrow> string \<Rightarrow> string" where
  "or_str a b = (if a \<noteq> [] then a else b)"

definition d_text :: "(nat \<Rightarrow> elem \<Rightarrow> string) \<Rightarrow> elem \<Rightarrow> dflt_option \<Rightarrow> string" where
  "d_text call b a = (case a of D_text s \<Rightarrow> s | D_fun n \<Rightarrow> call n b | D_none \<Rightarrow> [])"

definition u_field :: "(nat \<Rightarrow> elem \<Rightarrow> string) \<Rightarrow> page_loc \<Rightarrow> auto \<Rightarrow> string \<Rightarrow> elem \<Rightarrow> string" where
  "u_field call loc a c b =
     (if c = ''eventname''
      then or_str (attr_text b ''data-g-event'') (or_str (d_text call b (t_j a))
        (if to_lower (e_name b) = ''a''
         then (if e_host b = l_hostname loc then ''AutoTrack: Link Click'' else ''AutoTrack: Outbound Click'')
         else ''AutoTrack: Element Click''))
      else if c = ''action''
      then or_str (attr_text b ''data-g-action'') (or_str (d_text call b (t_act a))
        (or_str (attr_text b ''href'') ''AutoTrack: Element Click''))
      else if c = ''label''
      then or_str (attr_text b ''data-g-label'') (or_str (d_text call b (t_k a)) (t_path a))
      else [])"

text \<open>\<open>f\<close>: the event command, and what the page's callback gets.\<close>

definition f_label :: "auto \<Rightarrow> string \<Rightarrow> string" where
  "f_label t b = (if t_prefix t \<noteq> [] then t_prefix t @ b else b)"

definition f_event :: "auto \<Rightarrow> string \<Rightarrow> string \<Rightarrow> string \<Rightarrow> ga_command \<times> (string \<times> string \<times> string) option" where
  "f_event t a c b =
     (let b = f_label t b
      in (b_command (t_c t) ''_trackEvent'' [Str a, Str c, Str b], if t_d t then Some (a, c, b) else None))"

definition marked :: "elem \<Rightarrow> bool" where
  "marked a \<longleftrightarrow>
     to_lower (e_name a) = ''a'' \<or> attr_text a ''data-g-event'' \<noteq> [] \<or> attr_text a ''data-g-action'' \<noteq> [] \<or>
     attr_text a ''data-g-label'' \<noteq> []"

definition s_report :: "(nat \<Rightarrow> elem \<Rightarrow> string) \<Rightarrow> page_loc \<Rightarrow> auto \<Rightarrow> elem \<Rightarrow> ga_command" where
  "s_report call loc t a =
     fst (f_event t (u_field call loc t ''eventname'' a) (u_field call loc t ''action'' a) (u_field call loc t ''label'' a))"

text \<open>The loop of \<open>s\<close> over the chain from the target to the root; it stops at a node without a parent.\<close>

fun s_loop :: "(nat \<Rightarrow> elem \<Rightarrow> string) \<Rightarrow> page_loc \<Rightarrow> auto \<Rightarrow> elem list \<Rightarrow> ga_command list" where
  "s_loop call loc t [] = []"
| "s_loop call loc t [a] = (if marked a then [s_report call loc t a] else [])"
| "s_loop call loc t (a # p # as) =
     (if marked a then [s_report call loc t a] else []) @ (if as \<noteq> [] then s_loop call loc t (p # as) else [])"

definition s_click :: "(nat \<Rightarrow> elem \<Rightarrow> string) \<Rightarrow> page_loc \<Rightarrow> auto \<Rightarrow> elem list \<Rightarrow> ga_command list" where
  "s_click call loc t chain =
     (if t_h t then s_loop call loc t (if chain \<noteq> [] \<and> e_type (hd chain) = 3 then tl chain else chain) else [])"

definition t_click :: "auto \<Rightarrow> int \<Rightarrow> int \<Rightarrow> ga_command list" where
  "t_click t x y =
     (if t_heat t then [fst (f_event t ''AutoTrack: Heatmap'' ''Click'' (show_int x @ '','' @ show_int y))] else [])"

definition o_unload :: "auto \<Rightarrow> page_loc \<Rightarrow> ga_command" where
  "o_unload t loc = fst (f_event t ''AutoTrack: Navigation'' ''Unload'' (l_href loc))"

subsection \<open>What is sent\<close>

definition below_root :: "elem list \<Rightarrow> elem list" where
  "below_root as = (if length as = 1 then as else butlast as)"

lemma s_loop_reports: "s_loop call loc t as = map (s_report call loc t) (filter marked (below_root as))"
proof (induction call loc t as rule: s_loop.induct)
  case (3 call loc t a p as)
  then show ?case by (cases as) (auto simp: below_root_def)
qed (simp_all add: below_root_def)

text \<open>C22. A click sends exactly one event for each marked node of the chain from the target to the
  root, in this order, the root itself left out; a text node stands for its parent. Every event has
  an action and a name that are not empty.\<close>

theorem click_events:
  assumes "t_h t" and "chain \<noteq> []" and "e_type (hd chain) \<noteq> 3"
  shows "s_click call loc t chain = map (s_report call loc t) (filter marked (below_root chain)) \<and>
    u_field call loc t ''eventname'' a \<noteq> [] \<and> u_field call loc t ''action'' a \<noteq> []"
  using assms by (simp add: s_click_def s_loop_reports u_field_def or_str_def)

definition link_elem :: elem where
  "link_elem = \<lparr>e_type = 1, e_name = ''A'', e_attr = (\<lambda>_. None), e_host = ''x.org''\<rparr>"

definition plain_auto :: auto where
  "plain_auto =
     \<lparr>t_h = True, t_n = False, t_m = True, t_c = [], t_g = ''/'', t_prefix = [], t_path = ''/'', t_j = D_none, t_act = D_none,
      t_k = D_none, t_d = False, t_heat = False\<rparr>"

definition plain_loc :: page_loc where
  "plain_loc = \<lparr>l_pathname = ''/'', l_search = [], l_hash = [], l_href = [], l_hostname = ''x.org''\<rparr>"

theorem click_events_witness:
  "s_click (\<lambda>_ _. []) plain_loc plain_auto [link_elem, link_elem\<lparr>e_name := ''BODY''\<rparr>, link_elem] =
     [s_report (\<lambda>_ _. []) plain_loc plain_auto link_elem]"
proof -
  have "marked link_elem" "\<not> marked (link_elem\<lparr>e_name := ''BODY''\<rparr>)"
    by (simp_all add: marked_def link_elem_def attr_text_def) code_simp+
  with click_events [of plain_auto "[link_elem, link_elem\<lparr>e_name := ''BODY''\<rparr>, link_elem]" "\<lambda>_ _. []" plain_loc]
  show ?thesis by (simp add: below_root_def plain_auto_def) (simp add: link_elem_def)
qed

text \<open>No setting of the start-up is a page view, so the page view, if any, is the last command.\<close>

lemma starts_commands:
  "hd (n_commands a t loc) = b_command (t_c t) ''_setAccount'' [o_profile a]"
  "\<not> o_noPageview a \<Longrightarrow> last (n_commands a t loc) = b_command (t_c t) ''_trackPageview'' [Str (pageview_path a t loc)]"
  by (simp_all add: n_commands_def)



end
