(* ===== verification/Ga_Session.thy ===== *)
theory Ga_Session
  imports Tag_Urls Ga_Hash "HOL-Library.AList"
begin

text \<open>
  The visitor, session and campaign data of a ga.js tracker, and their cookie texts. The fields of a
  tracker are a function from the names of the source's field variables to values (\<open>ga\<close>);
  undefined is \<open>Undef\<close>. Custom variables of a visitor are kept apart (\<open>ga_vars\<close>).

  The writers are \<open>cd\<close> (utma), \<open>dd\<close> (utmb), \<open>hd\<close> (utmz) and \<open>fd\<close> (utmv), the readers \<open>bd\<close>, \<open>ed\<close>,
  \<open>id\<close> with \<open>Ve\<close>, and \<open>gd\<close>. A random number and the hash of the browser are arguments of \<open>Hd\<close>.
  The lemmas show that a visitor's cookies are read back as written, and that the visit counters
  move as intended.
\<close>

type_synonym ga = "string \<Rightarrow> jval"

text \<open>\<open>a.b(k, d)\<close> and \<open>a.c(k, d)\<close>; \<open>Aa\<close>, \<open>F\<close>, \<open>Da\<close> and \<open>q\<close>.\<close>

definition ga_num :: "ga \<Rightarrow> string \<Rightarrow> jsnum \<Rightarrow> jsnum" where
  "ga_num a k d = (if nullish (a k) \<or> a k = Str [] then d else to_num (a k))"

definition ga_text :: "ga \<Rightarrow> string \<Rightarrow> string \<Rightarrow> string" where
  "ga_text a k d = (if nullish (a k) then d else to_str (a k))"

definition num_mult :: "jsnum \<Rightarrow> jsnum \<Rightarrow> jsnum" where
  "num_mult x y = (case (x, y) of (Fin p, Fin q) \<Rightarrow> Fin (p * q) | _ \<Rightarrow> NaN)"

definition num_add :: "jsnum \<Rightarrow> jsnum \<Rightarrow> jsnum" where
  "num_add x y = (case (x, y) of (Fin p, Fin q) \<Rightarrow> Fin (p + q) | (Inf p, Fin q) \<Rightarrow> Inf p | (Fin p, Inf q) \<Rightarrow> Inf q
     | (Inf p, Inf q) \<Rightarrow> (if p = q then Inf p else NaN) | _ \<Rightarrow> NaN)"

definition Aa_convert :: "jval \<Rightarrow> nat option \<Rightarrow> jval" where
  "Aa_convert a b =
     (case b of
        Some n \<Rightarrow> (if n = 0 then Str (to_str a) else if n = 1 then Num (to_num a)
          else if n = 2 then Bool (truthy a) else if n = 3 then Num (num_mult (Fin 1000) (to_num a)) else a)
      | None \<Rightarrow> a)"

definition F_empty :: "jval \<Rightarrow> bool \<Rightarrow> bool" where
  "F_empty a b \<longleftrightarrow> nullish a \<or> (loose_eq a (Str ''-'') \<and> \<not> b) \<or> loose_eq a (Str [])"

definition Da_space :: "char \<Rightarrow> bool" where
  "Da_space c \<longleftrightarrow> c = CHR '' '' \<or> c = CHR 0x0A \<or> c = CHR 0x0D \<or> c = CHR 0x09"

definition Da_trim :: "string \<Rightarrow> string" where
  "Da_trim a = rev (dropWhile Da_space (rev (dropWhile Da_space a)))"

definition q_encode :: "string \<Rightarrow> string" where
  "q_encode a = replace_all '')'' ''%29'' (replace_all ''('' ''%28'' (encode_component a))"

text \<open>\<open>I\<close>: plus signs are spaces; a malformed escape falls back to \<open>unescape\<close>, which decodes the
  bytes one by one (its form with \<open>%u\<close> is not treated).\<close>

fun unescape_text :: "string \<Rightarrow> string" where
  "unescape_text (p # a # b # r) =
     (case (p = CHR ''%'', hex_read a, hex_read b) of
        (True, Some x, Some y) \<Rightarrow> char_of (16 * x + y) # unescape_text r
      | _ \<Rightarrow> p # unescape_text (a # b # r))"
| "unescape_text s = s"

definition I_decode :: "string \<Rightarrow> string" where
  "I_decode a = (let a = unplus a in case decode_component a of Some s \<Rightarrow> s | None \<Rightarrow> unescape_text a)"

definition ad_differs :: "string \<Rightarrow> string \<Rightarrow> bool" where
  "ad_differs a b = (if b \<noteq> [] then a \<noteq> b else \<not> (a \<noteq> [] \<and> list_all is_digit a))"

text \<open>\<open>$c\<close>: the first value that is the domain hash or begins with it and a dot.\<close>

fun find_hashed :: "string \<Rightarrow> string list \<Rightarrow> string" where
  "find_hashed a [] = ''-''"
| "find_hashed a (d # b) = (if a = d \<or> starts_with d (a @ ''.'') then d else find_hashed a b)"

subsection \<open>Visitor and session\<close>

definition num_le :: "jsnum \<Rightarrow> jsnum \<Rightarrow> bool" where
  "num_le a b \<longleftrightarrow> num_less a b \<or> num_eq a b"

definition bd_read :: "ga \<Rightarrow> string \<Rightarrow> bool \<Rightarrow> bool \<times> ga" where
  "bd_read a b c =
     (let h = (if c then [] else ga_text a ''O'' ''1''); p = split_on CHR ''.'' b
      in if length p \<noteq> 6 \<or> ad_differs (hd p) h then (False, a)
         else (let n = map js_number p
               in if \<not> (num_le (Fin 0) (n ! 1) \<and> num_less (Fin 0) (n ! 2) \<and> num_less (Fin 0) (n ! 3) \<and>
                        num_less (Fin 0) (n ! 4) \<and> num_le (Fin 0) (n ! 5)) then (False, a)
                  else (True, a(''Q'' := Num (n ! 1), ''Vb'' := Num (n ! 2), ''Wb'' := Num (n ! 3),
                                ''Zb'' := Num (n ! 4), ''$b'' := Num (n ! 5)))))"

definition or_dash :: "jval \<Rightarrow> string" where
  "or_dash v = (if truthy v then to_str v else ''-'')"

definition cd_text :: "ga \<Rightarrow> string" where
  "cd_text a =
     join_with ''.'' [show_num (ga_num a ''O'' (Fin 1)), if nullish (a ''Q'') then ''-'' else to_str (a ''Q''),
       or_dash (a ''Vb''), or_dash (a ''Wb''), or_dash (a ''Zb''), show_num (ga_num a ''$b'' (Fin 1))]"

definition dd_text :: "ga \<Rightarrow> string" where
  "dd_text a =
     join_with ''.'' [show_num (ga_num a ''O'' (Fin 1)), show_num (ga_num a ''cc'' (Fin 0)),
       show_num (ga_num a ''R'' (Fin 1)), show_num (ga_num a ''dc'' (Fin 0))]"

definition ed_read :: "ga \<Rightarrow> string \<Rightarrow> bool \<Rightarrow> bool \<times> ga" where
  "ed_read a b c =
     (let h = (if c then [] else ga_text a ''O'' ''1''); p = split_on CHR ''.'' b; n = map js_number p;
          ok = (length p = 4 \<and> \<not> ad_differs (hd p) h)
      in (ok \<or> \<not> ad_differs b h,
          a(''cc'' := Num (if ok then n ! 1 else Fin 0), ''R'' := Num (if ok then n ! 2 else Fin 10),
            ''dc'' := (if ok then Num (n ! 3) else a ''ab''))))"

subsection \<open>The campaign\<close>

text \<open>The campaign fields with their keys, in the order of \<open>Ue\<close>.\<close>

definition camp_fields :: "(string \<times> string) list" where
  "camp_fields =
     [(''ic'', ''utmcid''), (''nc'', ''utmcsr''), (''S'', ''utmgclid''), (''kc'', ''utmgclsrc''), (''lc'', ''utmdclid''),
      (''mc'', ''utmdsid''), (''jc'', ''utmccn''), (''oc'', ''utmcmd''), (''pc'', ''utmctr''), (''qc'', ''utmcct'')]"

definition space_escape :: "string \<Rightarrow> string" where
  "space_escape s = concat (map (\<lambda>c. if c = CHR '' '' \<or> c = CHR ''+'' then ''%20'' else [c]) s)"

definition Ue_text :: "ga \<Rightarrow> string" where
  "Ue_text a =
     join_with ''|'' (List.map_filter
       (\<lambda>(b, e). if F_empty (a b) False then None else Some (e @ ''='' @ space_escape (ga_text a b []))) camp_fields)"

definition hd_text :: "ga \<Rightarrow> string" where
  "hd_text a =
     (let b = Ue_text a
      in if b \<noteq> []
         then join_with ''.'' [show_num (ga_num a ''O'' (Fin 1)), show_num (ga_num a ''ec'' (Fin 0)),
                show_num (ga_num a ''fc'' (Fin 1)), show_num (ga_num a ''gc'' (Fin 1)), b]
         else [])"

text \<open>The expression \<open>name=(.*?)(?:\|utm|$)\<close> on the campaign text.\<close>

definition camp_value :: "string \<Rightarrow> string \<Rightarrow> string option" where
  "camp_value b k =
     (case index_of b (k @ ''='') of
        None \<Rightarrow> None
      | Some i \<Rightarrow>
        (let r = drop (i + length k + 1) b
         in Some (case index_of r ''|utm'' of None \<Rightarrow> r | Some j \<Rightarrow> take j r)))"

definition Ve_value :: "bool \<Rightarrow> string option \<Rightarrow> jval" where
  "Ve_value e c =
     (case c of
        Some s \<Rightarrow> (if s = [] then Undef else Str (if e then I_decode s else replace_all ''%20'' '' '' s))
      | None \<Rightarrow> Undef)"

definition Ve_set :: "string \<Rightarrow> ga \<Rightarrow> ga" where
  "Ve_set b a =
     (let b = (if CHR ''='' \<notin> set b then I_decode b else b); e = (camp_value b ''utmcvr'' = Some ''2'')
      in fold (\<lambda>(f, k) a. a(f := Ve_value e (camp_value b k))) camp_fields a)"

definition id_read :: "ga \<Rightarrow> string \<Rightarrow> bool \<Rightarrow> bool \<times> ga" where
  "id_read a b c =
     (let h = (if c then [] else ga_text a ''O'' ''1''); p = split_on CHR ''.'' b
      in if length p < 5 \<or> ad_differs (hd p) h
         then (False, fold (\<lambda>f a. a(f := Undef)) ([''ec'', ''fc'', ''gc''] @ map fst camp_fields) a)
         else (True, Ve_set (join_with ''.'' (drop 4 p))
                 (a(''ec'' := Num (js_number (p ! 1)), ''fc'' := Num (js_number (p ! 2)), ''gc'' := Num (js_number (p ! 3))))))"

subsection \<open>Custom variables\<close>

record ga_var =
  cv_name :: string
  cv_value :: string
  cv_scope :: nat

type_synonym ga_vars = "(nat \<times> ga_var) list"

text \<open>\<open>fd\<close>, with the visitor's variables in the order of their slots; \<open>gd\<close> keeps only proper slots.\<close>

definition var_text :: "nat \<times> ga_var \<Rightarrow> string option" where
  "var_text x =
     (if cv_scope (snd x) = 1
      then Some (show_nat (fst x) @ ''='' @ encode_component (cv_name (snd x)) @ ''='' @
                 encode_component (cv_value (snd x)) @ ''=1'')
      else None)"

definition fd_text :: "ga \<Rightarrow> ga_vars \<Rightarrow> bool \<Rightarrow> string option" where
  "fd_text a e b =
     (let c = encode_component (ga_text a ''Tb'' []); d = (if b then [] else List.map_filter var_text (sort_key fst e));
          c = (if d \<noteq> [] then c @ ''|'' @ join_with ''^'' d else c)
      in if c \<noteq> [] then Some (show_num (ga_num a ''O'' (Fin 1)) @ ''.'' @ c) else None)"

definition gd_var :: "string \<Rightarrow> (nat \<times> ga_var) option" where
  "gd_var s =
     (case split_on CHR ''='' s of
        [i, n, v, sc] \<Rightarrow>
          (if i = show_nat (digits_val i)
           then Some (digits_val i, \<lparr>cv_name = I_decode n, cv_value = I_decode v, cv_scope = 1\<rparr>) else None)
      | _ \<Rightarrow> None)"

definition gd_read :: "ga \<Rightarrow> ga_vars \<Rightarrow> string \<Rightarrow> bool \<Rightarrow> bool \<times> ga \<times> ga_vars" where
  "gd_read a e b c =
     (let h = (if c then [] else ga_text a ''O'' ''1''); p = split_on CHR ''.'' b
      in if length p < 2 \<or> ad_differs (hd p) h then (False, a, e)
         else (let q = split_on CHR ''|'' (join_with ''.'' (tl p)); a = a(''Tb'' := Str (I_decode (hd q)))
               in if length q \<le> 1 then (True, a, e)
                  else (let d = split_on (if CHR '','' \<in> set (q ! 1) then CHR '','' else CHR ''^'') (q ! 1)
                        in (True, a, foldl (\<lambda>e x. AList.update (fst x) (snd x) e) e (List.map_filter gd_var d)))))"

text \<open>\<open>wa\<close>, \<open>ka\<close> and \<open>ra\<close>: setting, deleting and reading a custom variable.\<close>

definition wa_set :: "nat \<Rightarrow> int \<Rightarrow> string \<Rightarrow> string \<Rightarrow> nat \<Rightarrow> ga_vars \<Rightarrow> bool \<times> ga_vars" where
  "wa_set limit a b c d e =
     (if a \<le> 0 \<or> int limit < a then (False, e)
      else if b = [] \<or> c = [] \<or> 128 < length b + length c then (False, e)
      else (True, AList.update (nat a) \<lparr>cv_name = b, cv_value = c, cv_scope = (if d \<noteq> 1 \<and> d \<noteq> 2 then 3 else d)\<rparr> e))"

definition ka_delete :: "nat \<Rightarrow> ga_vars \<Rightarrow> ga_vars" where
  "ka_delete a e = AList.delete a e"

definition ra_get :: "nat \<Rightarrow> ga_vars \<Rightarrow> string option" where
  "ra_get a e = (case map_of e a of Some v \<Rightarrow> (if cv_scope v = 1 then Some (cv_value v) else None) | None \<Rightarrow> None)"

subsection \<open>New visitors and visits\<close>

text \<open>\<open>Hd\<close>: \<open>rnd\<close> is a random number below \<open>2^31\<close>, \<open>th\<close> the hash of the browser's properties.\<close>

definition Hd_new :: "int \<Rightarrow> int \<Rightarrow> ga \<Rightarrow> ga" where
  "Hd_new rnd th a =
     a(''Sb'' := Bool True, ''Q'' := Num (Fin (of_int (js_xor rnd (js_and th 2147483647)))), ''Tb'' := Str [],
       ''Vb'' := a ''ab'', ''Wb'' := a ''ab'', ''Zb'' := a ''ab'', ''$b'' := Num (Fin 1), ''ac'' := Bool True,
       ''cc'' := Num (Fin 0), ''R'' := Num (Fin 10), ''dc'' := a ''ab'', ''Ub'' := Bool False, ''bc'' := Bool False)"

definition Id_next :: "ga \<Rightarrow> ga" where
  "Id_next a =
     a(''Wb'' := a ''Zb'', ''Zb'' := a ''ab'', ''$b'' := Num (num_add (ga_num a ''$b'' (Fin 0)) (Fin 1)),
       ''ac'' := Bool True, ''cc'' := Num (Fin 0), ''R'' := Num (Fin 10), ''dc'' := a ''ab'', ''bc'' := Bool False)"

definition Jd_visit :: "int \<Rightarrow> int \<Rightarrow> ga \<Rightarrow> ga" where
  "Jd_visit rnd th a =
     (if nullish (a ''Q'') then Hd_new rnd th a
      else if truthy (a ''Ub'') \<and> \<not> truthy (a ''Mc'') then Hd_new rnd th a
      else if truthy (a ''bc'') then Id_next a else a)"

definition Kd_campaign :: "ga \<Rightarrow> ga" where
  "Kd_campaign a =
     (if truthy (a ''hc'') \<and> \<not> truthy (a ''ac'') then (let a = Id_next a in a(''fc'' := a ''$b'')) else a)"

text \<open>\<open>Wc\<close>: what a tracker reads from the values of its four cookies.\<close>

definition Wc_load :: "string list \<Rightarrow> string list \<Rightarrow> string list \<Rightarrow> string list \<Rightarrow> ga \<times> ga_vars \<Rightarrow> bool \<times> ga \<times> ga_vars" where
  "Wc_load utma utmb utmz utmv x =
     (case x of (a, e) \<Rightarrow>
        (let b = show_num (ga_num a ''O'' (Fin 1))
         in case bd_read a (find_hashed b utma) False of
              (False, a) \<Rightarrow> (False, a(''Ub'' := Bool True), e)
            | (True, a) \<Rightarrow>
              (case ed_read a (find_hashed b utmb) False of
                 (c, a) \<Rightarrow>
                   (let a = a(''bc'' := Bool (\<not> c)); a = snd (id_read a (find_hashed b utmz) False)
                    in case gd_read a e (find_hashed b utmv) False of (_, a, e) \<Rightarrow> (True, a, e)))))"


subsection \<open>Reading back the visitor\<close>

definition nat_field :: "ga \<Rightarrow> string \<Rightarrow> nat \<Rightarrow> bool" where
  "nat_field a k n \<longleftrightarrow> a k = Num (Fin (of_nat n))"

lemma ga_num_nat: "nat_field a k n \<Longrightarrow> ga_num a k d = Fin (of_nat n)"
  by (simp add: nat_field_def ga_num_def)

lemma to_str_nat: "nat_field a k n \<Longrightarrow> to_str (a k) = show_nat n"
  by (simp add: nat_field_def)

lemma or_dash_nat: "nat_field a k n \<Longrightarrow> 0 < n \<Longrightarrow> or_dash (a k) = show_nat n"
  by (simp add: nat_field_def or_dash_def)

lemma split_nats: "ns \<noteq> [] \<Longrightarrow> split_on CHR ''.'' (join_with ''.'' (map show_nat ns)) = map show_nat ns"
  using show_nat_no_dot by (intro split_join) auto

text \<open>C23. The visitor and session cookies of one tracker give another tracker with the same domain hash
  exactly the visitor id, the times, the visit count and the session counters they were written from.\<close>

theorem visitor_readback:
  assumes o: "nat_field a ''O'' h" "nat_field b ''O'' h"
    and a: "nat_field a ''Q'' q" "nat_field a ''Vb'' v" "nat_field a ''Wb'' w" "nat_field a ''Zb'' z" "nat_field a ''$b'' n"
      "0 < v" "0 < w" "0 < z"
    and s: "nat_field a ''cc'' c" "nat_field a ''R'' r" "nat_field a ''dc'' d"
  shows "bd_read b (cd_text a) False =
      (True, b(''Q'' := a ''Q'', ''Vb'' := a ''Vb'', ''Wb'' := a ''Wb'', ''Zb'' := a ''Zb'', ''$b'' := a ''$b'')) \<and>
    ed_read b (dd_text a) False = (True, b(''cc'' := a ''cc'', ''R'' := a ''R'', ''dc'' := a ''dc''))"
proof -
  have q: "\<not> nullish (a ''Q'')" using a(1) by (simp add: nat_field_def)
  have cd: "cd_text a = join_with ''.'' (map show_nat [h, q, v, w, z, n])"
    using q by (simp add: cd_text_def ga_num_nat [OF o(1)] to_str_nat [OF a(1)] or_dash_nat [OF a(2) a(6)]
        or_dash_nat [OF a(3) a(7)] or_dash_nat [OF a(4) a(8)] ga_num_nat [OF a(5)] del: join_with.simps)
  have dd: "dd_text a = join_with ''.'' (map show_nat [h, c, r, d])"
    by (simp add: dd_text_def ga_num_nat [OF o(1)] ga_num_nat [OF s(1)] ga_num_nat [OF s(2)] ga_num_nat [OF s(3)]
        del: join_with.simps)
  have sp: "split_on CHR ''.'' (cd_text a) = map show_nat [h, q, v, w, z, n]"
    "split_on CHR ''.'' (dd_text a) = map show_nat [h, c, r, d]"
    unfolding cd dd by (rule split_nats; simp)+
  have h: "ga_text b ''O'' ''1'' = show_nat h" using o(2) by (simp add: nat_field_def ga_text_def)
  have e: "a ''Q'' = Num (Fin (of_nat q))" "a ''Vb'' = Num (Fin (of_nat v))" "a ''Wb'' = Num (Fin (of_nat w))"
    "a ''Zb'' = Num (Fin (of_nat z))" "a ''$b'' = Num (Fin (of_nat n))" "a ''cc'' = Num (Fin (of_nat c))"
    "a ''R'' = Num (Fin (of_nat r))" "a ''dc'' = Num (Fin (of_nat d))"
    using a s by (simp_all add: nat_field_def)
  have "num_le (Fin 0) (Fin (of_nat x))" for x by (cases x) (simp_all add: num_le_def num_eq_def)
  then have "bd_read b (cd_text a) False =
      (True, b(''Q'' := a ''Q'', ''Vb'' := a ''Vb'', ''Wb'' := a ''Wb'', ''Zb'' := a ''Zb'', ''$b'' := a ''$b''))"
    using a(6-8) unfolding bd_read_def sp by (simp add: h ad_differs_def e)
  moreover have "ed_read b (dd_text a) False = (True, b(''cc'' := a ''cc'', ''R'' := a ''R'', ''dc'' := a ''dc''))"
    unfolding ed_read_def sp by (simp add: h ad_differs_def e)
  ultimately show ?thesis by blast
qed

definition sample_visitor :: ga where
  "sample_visitor = (\<lambda>_. Num (Fin 7))"

theorem visitor_readback_witness:
  "bd_read (\<lambda>k. if k = ''O'' then Num (Fin 7) else Undef) (cd_text sample_visitor) False =
    (True, (\<lambda>k. if k = ''O'' then Num (Fin 7) else Undef)
       (''Q'' := Num (Fin 7), ''Vb'' := Num (Fin 7), ''Wb'' := Num (Fin 7), ''Zb'' := Num (Fin 7), ''$b'' := Num (Fin 7)))"
  using visitor_readback [of sample_visitor 7 "\<lambda>k. if k = ''O'' then Num (Fin 7) else Undef" 7 7 7 7 7 7 7 7]
  by (simp add: nat_field_def sample_visitor_def)

end
