(* ===== verification/Ga_Links.thy ===== *)
theory Ga_Links
  imports Ga_Session
begin

text \<open>
  Addresses and links between domains in ga.js: splitting an address (\<open>La\<close>, \<open>Na\<close>), resolving one
  (\<open>Oa\<close>), the referrer of a page (\<open>Pa\<close>), and the linker, which appends a visitor's cookies and
  their hash to an address (\<open>ce_link\<close>) and checks them on arrival (\<open>Yd\<close> with \<open>$d\<close>).

  The main lemma: a link decorated by \<open>ce\<close> passes the check with its values unchanged.
\<close>

type_synonym params = "string \<Rightarrow> string list option"

record gurl =
  u_url :: string
  u_protocol :: string
  u_host :: string
  u_path :: string
  u_R :: params
  u_anchor :: string

definition K_first :: "params \<Rightarrow> string \<Rightarrow> string" where
  "K_first r k = (case r k of Some (x # _) \<Rightarrow> x | _ \<Rightarrow> [])"

definition L_last :: "params \<Rightarrow> string \<Rightarrow> string" where
  "L_last r k = (case r k of Some l \<Rightarrow> (if l = [] then [] else last l) | None \<Rightarrow> [])"

definition Na_pair :: "string \<Rightarrow> string \<times> string" where
  "Na_pair b = (case index_of b ''='' of None \<Rightarrow> (b, ''1'') | Some e \<Rightarrow> (take e b, drop (e + 1) b))"

definition Na_add :: "params \<Rightarrow> string \<Rightarrow> params" where
  "Na_add r b =
     (if b = [] then r
      else (let p = Na_pair b in r(fst p \<mapsto> (case r (fst p) of None \<Rightarrow> [] | Some l \<Rightarrow> l) @ [snd p])))"

definition Na_parse :: "params \<Rightarrow> string \<Rightarrow> params" where
  "Na_parse r b = foldl Na_add r (split_on CHR ''&'' (Da_trim b))"

text \<open>\<open>Ka\<close>, and the steps of \<open>La\<close>.\<close>

definition Ka_host :: "string \<Rightarrow> string" where
  "Ka_host a = to_lower (if starts_with a ''www.'' then drop 4 a else a)"

definition La_split :: "string \<Rightarrow> string \<times> string" where
  "La_split a = (case index_of a ''://'' of None \<Rightarrow> (''http'', a) | Some d \<Rightarrow> (take d a, drop (d + 3) a))"

definition is_stop :: "char \<Rightarrow> bool" where
  "is_stop c \<longleftrightarrow> c = CHR ''/'' \<or> c = CHR ''?'' \<or> c = CHR ''#''"

definition cut_at :: "char \<Rightarrow> string \<Rightarrow> string \<times> string option" where
  "cut_at c s = (let t = takeWhile (\<lambda>x. x \<noteq> c) s in (t, if length t < length s then Some (drop (length t + 1) s) else None))"

definition La :: "string \<Rightarrow> bool \<Rightarrow> gurl" where
  "La a b =
     (if a = [] then \<lparr>u_url = a, u_protocol = ''http'', u_host = [], u_path = [], u_R = Map.empty, u_anchor = []\<rparr>
      else (let (pr, r) = La_split a;
                host = takeWhile (\<lambda>c. \<not> is_stop c) r; r' = drop (length host) r
            in if r' = [] then \<lparr>u_url = a, u_protocol = pr, u_host = to_lower r, u_path = [], u_R = Map.empty, u_anchor = []\<rparr>
               else (let (r1, an) = cut_at CHR ''#'' r'; (r2, q) = cut_at CHR ''?'' r1;
                         an = (case an of Some x \<Rightarrow> x | None \<Rightarrow> []);
                         R = (case q of Some q \<Rightarrow> Na_parse Map.empty q | None \<Rightarrow> Map.empty);
                         R = (if an \<noteq> [] \<and> b then Na_parse R an else R)
                     in \<lparr>u_url = a, u_protocol = pr, u_host = to_lower host,
                         u_path = (if starts_with r2 ''/'' then drop 1 r2 else r2), u_R = R, u_anchor = an\<rparr>)))"

text \<open>\<open>Oa\<close>: the browser's parser is \<open>parse\<close>, the page's address \<open>href\<close>.\<close>

definition Oa_parts :: "anchor \<Rightarrow> string \<times> string \<times> string" where
  "Oa_parts a =
     (to_lower (hd (split_on CHR '':'' (a_hostname a))),
      port_text (drop_first '':'' (to_lower (a_protocol a))) (a_port a),
      if starts_with (a_pathname a) ''/'' then a_pathname a else ''/'' @ a_pathname a)"

definition Oa_absolute :: "(string \<Rightarrow> anchor) \<Rightarrow> string \<Rightarrow> string \<Rightarrow> string" where
  "Oa_absolute parse href a =
     (let b = parse href; d = to_lower (a_protocol b); (h, p, w) = Oa_parts b; f = a_search b;
          base = d @ ''//'' @ h @ (if p \<noteq> [] then '':'' @ p else [])
      in if starts_with a ''//'' then d @ a
         else if starts_with a ''/'' then base @ a
         else if a \<noteq> [] \<and> \<not> starts_with a ''?''
         then (if contains (hd (split_on CHR ''/'' a)) '':'' then a
               else base @ (case last_index_of w CHR ''/'' of Some i \<Rightarrow> take i w | None \<Rightarrow> []) @ ''/'' @ a)
         else base @ w @ (if a \<noteq> [] then a else f))"

definition Oa :: "(string \<Rightarrow> anchor) \<Rightarrow> string \<Rightarrow> string \<Rightarrow> anchor" where
  "Oa parse href a =
     (let u = Oa_absolute parse href a; b = parse u; (h, p, w) = Oa_parts b
      in \<lparr>a_protocol = to_lower (a_protocol b), a_hostname = h, a_port = p, a_pathname = w, a_search = a_search b,
          a_hash = [], a_href = u\<rparr>)"

text \<open>\<open>Pa\<close>: the page's own domain counts as no referrer.\<close>

definition Pa_referrer :: "string \<Rightarrow> string \<Rightarrow> string \<Rightarrow> string" where
  "Pa_referrer domain a b =
     (if a = [] \<or> a = ''-'' \<or> (hd a = CHR ''['' \<and> last a = CHR '']'') then ''-''
      else if index_of a (domain @ (if b \<noteq> [] \<and> b \<noteq> ''/'' then b else [])) =
              Some (if starts_with a ''http://'' then 7 else if starts_with a ''https://'' then 8 else 0)
      then ''0'' else a)"

subsection \<open>The linker\<close>

record link_values =
  lv_a :: string
  lv_b :: string
  lv_c :: string
  lv_x :: string
  lv_z :: string
  lv_v :: string

definition dash :: "string \<Rightarrow> string" where
  "dash s = (if s = [] then ''-'' else s)"

text \<open>\<open>be\<close> reads the cookie of experiments; the values are those of \<open>ce\<close>.\<close>

definition be_text :: "ga \<Rightarrow> string list \<Rightarrow> string" where
  "be_text a utmx = (let s = find_hashed (to_str (a ''O'')) utmx in if s = ''-'' then [] else s)"

definition ce_values :: "ga \<Rightarrow> ga_vars \<Rightarrow> string list \<Rightarrow> link_values" where
  "ce_values a e utmx =
     \<lparr>lv_a = dash (cd_text a), lv_b = dash (dd_text a), lv_c = dash (show_num (ga_num a ''O'' (Fin 1))),
      lv_x = dash (be_text a utmx), lv_z = dash (hd_text a),
      lv_v = (case fd_text a e False of Some s \<Rightarrow> dash s | None \<Rightarrow> ''-'')\<rparr>"

definition link_hash :: "link_values \<Rightarrow> int" where
  "link_hash v = Yc (map of_char (lv_a v @ lv_b v @ lv_c v @ lv_x v @ lv_z v @ lv_v v))"

definition link_pairs :: "link_values \<Rightarrow> (string \<times> string) list" where
  "link_pairs v =
     [(''__utma'', lv_a v), (''__utmb'', lv_b v), (''__utmc'', lv_c v), (''__utmx'', lv_x v), (''__utmz'', lv_z v),
      (''__utmv'', lv_v v), (''__utmk'', show_int (link_hash v))]"

definition link_text :: "link_values \<Rightarrow> string" where
  "link_text v = join_with ''&'' (map (\<lambda>(k, x). k @ ''='' @ x) (link_pairs v))"

definition ce_link :: "link_values \<Rightarrow> string \<Rightarrow> bool \<Rightarrow> string" where
  "ce_link v b c =
     (let d = link_text v; e = index_of b ''#''
      in if c then (if e = None then b @ ''#'' @ d else b @ ''&'' @ d)
         else (let (b, r) = (case e of Some i \<Rightarrow> if 0 < i then (take i b, drop i b) else (b, []) | None \<Rightarrow> (b, []))
               in if contains b ''?'' then b @ ''&'' @ d @ r else b @ ''?'' @ d @ r))"

text \<open>\<open>$d\<close>: the campaign and the variable, decoded in steps until the hash fits.\<close>

definition hash_is :: "string \<Rightarrow> string \<Rightarrow> bool" where
  "hash_is s d \<longleftrightarrow> num_eq (Fin (of_int (Yc (map of_char s)))) (js_number d)"

definition replace_first :: "string \<Rightarrow> string \<Rightarrow> string \<Rightarrow> string" where
  "replace_first p r s = (case index_of s p of None \<Rightarrow> s | Some i \<Rightarrow> take i s @ r @ drop (i + length p) s)"

definition dd_fits :: "string \<Rightarrow> string \<Rightarrow> string \<Rightarrow> string \<Rightarrow> (string \<times> string) option" where
  "dd_fits a b c d =
     (if hash_is (a @ b @ c) d then Some (b, c)
      else (let B = replace_all '' '' ''%20'' b; K = replace_all '' '' ''%20'' c
            in if hash_is (a @ B @ K) d then Some (B, K)
               else (let B = replace_all ''+'' ''%20'' B; K = replace_all ''+'' ''%20'' K
                     in if hash_is (a @ B @ K) d then Some (B, K)
                        else (case camp_value b ''utmctr'' of
                            None \<Rightarrow> None
                          | Some j \<Rightarrow>
                            (let B = replace_first j (encode_component (I_decode j)) b
                             in if hash_is (a @ B @ c) d then Some (B, c) else None)))))"

fun dd_inner :: "nat \<Rightarrow> string \<Rightarrow> string \<Rightarrow> string \<Rightarrow> string \<Rightarrow> (string \<times> string) option \<times> string" where
  "dd_inner 0 a b c d = (None, b)"
| "dd_inner (Suc n) a b c d =
     (case dd_fits a b c d of Some r \<Rightarrow> (Some r, b) | None \<Rightarrow> dd_inner n a (I_decode b) c d)"

fun dd_outer :: "nat \<Rightarrow> string \<Rightarrow> string \<Rightarrow> string \<Rightarrow> string \<Rightarrow> (string \<times> string) option" where
  "dd_outer 0 a b c d = None"
| "dd_outer (Suc n) a b c d =
     (case dd_inner 3 a b c d of (Some r, _) \<Rightarrow> Some r | (None, b) \<Rightarrow> dd_outer n a b (I_decode c) d)"

text \<open>The values of a decorated address that pass the check of \<open>Yd\<close>, and what the tracker takes over.\<close>

definition Yd_values :: "gurl \<Rightarrow> link_values option" where
  "Yd_values u =
     (let g = K_first (u_R u);
          v = \<lparr>lv_a = g ''__utma'', lv_b = g ''__utmb'', lv_c = g ''__utmc'', lv_x = g ''__utmx'', lv_z = g ''__utmz'', lv_v = g ''__utmv''\<rparr>
      in if hash_is (lv_a v @ lv_b v @ lv_c v @ lv_x v @ lv_z v @ lv_v v) (g ''__utmk'') then Some v
         else (let b = I_decode (lv_a v); d = I_decode (lv_b v); e = I_decode (lv_c v); f = I_decode (lv_x v)
               in case dd_outer 3 (b @ d @ e @ f) (lv_z v) (lv_v v) (g ''__utmk'') of
                    None \<Rightarrow> None
                  | Some (z, k) \<Rightarrow> Some \<lparr>lv_a = b, lv_b = d, lv_c = e, lv_x = f, lv_z = z, lv_v = k\<rparr>))"

definition Yd :: "string \<Rightarrow> ga \<times> ga_vars \<Rightarrow> bool \<times> ga \<times> ga_vars" where
  "Yd href x =
     (case x of (a, e) \<Rightarrow>
        (if \<not> truthy (a ''fb'') then (False, a, e)
         else (case Yd_values (La href (truthy (a ''gb''))) of
             None \<Rightarrow> (False, a, e)
           | Some v \<Rightarrow>
             (case bd_read a (lv_a v) True of
                (False, a) \<Rightarrow> (False, a, e)
              | (True, a) \<Rightarrow>
                (let a = snd (ed_read a (lv_b v) True); a = snd (id_read a (lv_z v) True)
                 in case gd_read a e (lv_v v) True of (_, a, e) \<Rightarrow> (True, a, e))))))"


subsection \<open>A decorated link passes the check\<close>

lemma index_of_append:
  assumes "index_of b p = Some i"
  shows "index_of (b @ x) p = Some i"
  using assms
proof (induction b arbitrary: i)
  case Nil
  then show ?case by (cases "p = []") auto
next
  case (Cons c b)
  show ?case
  proof (cases "take (length p) (c # b) = p")
    case True
    then have "length p \<le> length (c # b)" by (metis length_take min.cobounded1)
    then have "take (length p) (c # b @ x) = p" using True by (metis append_Cons take_append append_Nil2 diff_is_0_eq' take_0)
    then show ?thesis using Cons.prems True by simp
  next
    case False
    then obtain j where j: "index_of b p = Some j" "i = Suc j" using Cons.prems by (auto split: if_splits)
    from index_of_Some [OF j(1)] have "length p \<le> length (c # b)" by simp
    then have "take (length p) (c # b @ x) = take (length p) (c # b)" by (metis append_Cons take_append append_Nil2 diff_is_0_eq' take_0)
    then show ?thesis using Cons.IH [OF j(1)] False j(2) by simp
  qed
qed

lemma cut_at_none: "c \<notin> set s \<Longrightarrow> cut_at c s = (s, None)"
proof -
  assume "c \<notin> set s"
  then have "takeWhile (\<lambda>x. x \<noteq> c) s = s" by (auto simp: takeWhile_eq_all_conv)
  then show ?thesis unfolding cut_at_def Let_def by (simp only: less_irrefl if_False)
qed

lemma cut_at_some: "c \<notin> set s \<Longrightarrow> cut_at c (s @ c # t) = (s, Some t)"
proof -
  assume "c \<notin> set s"
  then have "takeWhile (\<lambda>x. x \<noteq> c) (s @ c # t) = s" by (induction s) auto
  then show ?thesis by (simp add: cut_at_def Let_def)
qed

text \<open>An address of its base (with a scheme), its query and its fragment.\<close>

definition with_mark :: "char \<Rightarrow> string option \<Rightarrow> string" where
  "with_mark c x = (case x of None \<Rightarrow> [] | Some t \<Rightarrow> c # t)"

definition address :: "string \<Rightarrow> string option \<Rightarrow> string option \<Rightarrow> string" where
  "address b q f = b @ with_mark CHR ''?'' q @ with_mark CHR ''#'' f"

definition address_ok :: "string \<Rightarrow> string option \<Rightarrow> bool" where
  "address_ok b q \<longleftrightarrow> index_of b ''://'' \<noteq> None \<and> CHR ''?'' \<notin> set b \<and> CHR ''#'' \<notin> set b \<and>
     (case q of None \<Rightarrow> True | Some q \<Rightarrow> CHR ''#'' \<notin> set q)"

lemma cut_mark: "c \<notin> set s \<Longrightarrow> cut_at c (s @ with_mark c x) = (s, x)"
  by (cases x) (simp_all add: with_mark_def cut_at_none cut_at_some)

lemma take_host:
  "x = [] \<or> is_stop (hd x) \<Longrightarrow> takeWhile (\<lambda>c. \<not> is_stop c) (r @ x) = takeWhile (\<lambda>c. \<not> is_stop c) r"
  by (induction r) (cases x, auto)

lemma drop_host:
  "drop (length (takeWhile P r)) (r @ x) = dropWhile P r @ x"
proof -
  have "length (takeWhile P r) - length r = 0" using length_takeWhile_le [of P r] by simp
  then show ?thesis by (simp only: drop_append dropWhile_eq_drop) simp
qed

lemma La_params:
  assumes "address_ok b q"
  shows "u_R (La (address b q f) g) =
    (let R = (case q of None \<Rightarrow> Map.empty | Some q \<Rightarrow> Na_parse Map.empty q)
     in case f of None \<Rightarrow> R | Some f \<Rightarrow> (if f \<noteq> [] \<and> g then Na_parse R f else R))"
proof -
  obtain i where i: "index_of b ''://'' = Some i" using assms by (auto simp: address_ok_def)
  have b: "CHR ''?'' \<notin> set b" "CHR ''#'' \<notin> set b" and q: "CHR ''#'' \<notin> set (with_mark CHR ''?'' q)"
    using assms by (auto simp: address_ok_def with_mark_def split: option.splits)
  let ?x = "with_mark CHR ''?'' q @ with_mark CHR ''#'' f"
  let ?r0 = "drop (i + 3) b"
  let ?h = "takeWhile (\<lambda>c. \<not> is_stop c) ?r0" and ?r1 = "dropWhile (\<lambda>c. \<not> is_stop c) ?r0"
  have le: "i + 3 \<le> length b" using index_of_Some [OF i] by simp
  have s: "La_split (address b q f) = (take i b, ?r0 @ ?x)"
    using le by (simp add: La_split_def address_def index_of_append [OF i])
  have stop: "?x = [] \<or> is_stop (hd ?x)" by (auto simp: with_mark_def is_stop_def split: option.splits)
  have r0: "CHR ''?'' \<notin> set ?r0" "CHR ''#'' \<notin> set ?r0" using b by (auto dest: in_set_dropD)
  have r1: "CHR ''?'' \<notin> set ?r1" "CHR ''#'' \<notin> set (?r1 @ with_mark CHR ''?'' q)"
    using r0 q by (auto dest: set_dropWhileD)
  have ne: "address b q f \<noteq> []" using le by (auto simp: address_def)
  have cut: "cut_at CHR ''#'' (?r1 @ ?x) = (?r1 @ with_mark CHR ''?'' q, f)"
    using cut_mark [OF r1(2), of f] by simp
  show ?thesis
  proof (cases "?r1 @ ?x = []")
    case True
    then have "q = None" "f = None" by (auto simp: with_mark_def split: option.splits)
    with True ne show ?thesis
      unfolding La_def s Let_def prod.case take_host [OF stop] drop_host by simp
  next
    case False
    with ne show ?thesis
      unfolding La_def s Let_def prod.case take_host [OF stop] drop_host cut cut_mark [OF r1(1)]
      by (auto split: option.split)
  qed
qed

lemma Na_pair_key: "CHR ''='' \<notin> set k \<Longrightarrow> Na_pair (k @ ''='' @ x) = (k, x)"
proof -
  assume "CHR ''='' \<notin> set k"
  then have "index_of (k @ CHR ''='' # x) ''='' = Some (length k)" by (induction k) auto
  then show ?thesis by (simp add: Na_pair_def)
qed

text \<open>The values a list of pieces gives a key; the first value of a key is what counts.\<close>

definition key_values :: "string list \<Rightarrow> string \<Rightarrow> string list" where
  "key_values ps k = map snd (filter (\<lambda>x. fst x = k) (map Na_pair (filter (\<lambda>p. p \<noteq> []) ps)))"

lemma key_values_simps [simp]:
  "key_values [] k = []"
  "key_values (p # ps) k = (if p \<noteq> [] \<and> fst (Na_pair p) = k then [snd (Na_pair p)] else []) @ key_values ps k"
  "key_values (ps @ ps') k = key_values ps k @ key_values ps' k"
  by (simp_all add: key_values_def)

lemma foldl_add:
  "foldl Na_add r ps k =
     (if key_values ps k = [] then r k else Some ((case r k of None \<Rightarrow> [] | Some l \<Rightarrow> l) @ key_values ps k))"
proof (induction ps arbitrary: r)
  case (Cons p ps)
  show ?case
    unfolding foldl_Cons Cons.IH by (auto simp: Na_add_def Let_def split: option.splits)
qed simp

lemma link_hash_range: "0 \<le> link_hash v"
proof -
  have "(of_char c :: nat) < 65536" for c by (rule less_trans [OF nat_of_char_less_256]) simp
  then have "\<forall>d \<in> set (map of_char s). d < (65536 :: nat)" for s :: string by auto
  then show ?thesis unfolding link_hash_def Yc_eq_D using D_range by blast
qed

lemma show_int_digits: "0 \<le> n \<Longrightarrow> list_all is_digit (show_int n) \<and> show_int n \<noteq> []"
  using show_nat_digits [of "nat n"] by (simp add: show_int_def)

definition link_clean :: "link_values \<Rightarrow> bool" where
  "link_clean v \<longleftrightarrow>
     list_all (\<lambda>x. CHR ''&'' \<notin> set x \<and> CHR ''#'' \<notin> set x) [lv_a v, lv_b v, lv_c v, lv_x v, lv_z v, lv_v v]"

lemma link_pairs_facts:
  assumes "link_clean v"
  shows "\<forall>p \<in> set (link_pairs v). CHR ''='' \<notin> set (fst p) \<and> CHR ''&'' \<notin> set (fst p @ ''='' @ snd p) \<and> CHR ''#'' \<notin> set (fst p @ ''='' @ snd p)"
    and "distinct (map fst (link_pairs v))"
proof -
  have "CHR ''&'' \<notin> set (show_int (link_hash v))" "CHR ''#'' \<notin> set (show_int (link_hash v))"
    using show_int_digits [OF link_hash_range, of v] by (auto simp: list_all_iff is_digit_def)
  then show "\<forall>p \<in> set (link_pairs v). CHR ''='' \<notin> set (fst p) \<and> CHR ''&'' \<notin> set (fst p @ ''='' @ snd p) \<and> CHR ''#'' \<notin> set (fst p @ ''='' @ snd p)"
    using assms by (simp add: link_pairs_def link_clean_def)
  show "distinct (map fst (link_pairs v))" by (simp add: link_pairs_def)
qed

lemma link_text_end: "link_text v \<noteq> [] \<and> \<not> Da_space (last (link_text v))"
proof -
  have dd: "list_all is_digit (show_int (link_hash v))" "show_int (link_hash v) \<noteq> []"
    using show_int_digits [OF link_hash_range, of v] by auto
  have "last (link_text v) = last (show_int (link_hash v))"
    using dd(2) by (simp add: link_text_def link_pairs_def)
  then have "is_digit (last (link_text v))" using dd by (auto simp: list_all_iff)
  moreover have "link_text v \<noteq> []" by (simp add: link_text_def link_pairs_def)
  ultimately show ?thesis by (auto simp: is_digit_def Da_space_def)
qed

lemma link_text_trim: "Da_trim (link_text v) = link_text v"
proof -
  have t: "link_text v = CHR ''_'' # tl (link_text v)" by (simp add: link_text_def link_pairs_def)
  have l: "\<not> Da_space (hd (rev (link_text v)))" using link_text_end [of v] by (simp add: hd_rev)
  have "\<not> Da_space CHR ''_''" by (simp add: Da_space_def)
  then have "dropWhile Da_space (link_text v) = link_text v" by (subst (1 2) t) simp
  moreover have "dropWhile Da_space (rev (link_text v)) = rev (link_text v)"
    using l by (cases "rev (link_text v)") auto
  ultimately show ?thesis by (simp add: Da_trim_def)
qed

lemma split_on_sep: "split_on c (s @ c # t) = split_on c s @ split_on c t"
  by (induction s) (auto split: list.splits)

text \<open>The keys of a decorated link; \<open>link_free\<close> parameters do not use them.\<close>

definition link_keys :: "string list" where
  "link_keys = [''__utma'', ''__utmb'', ''__utmc'', ''__utmx'', ''__utmz'', ''__utmv'', ''__utmk'']"

definition link_free :: "string option \<Rightarrow> bool" where
  "link_free q = (case q of None \<Rightarrow> True | Some q \<Rightarrow>
     list_all (\<lambda>p. fst (Na_pair p) \<notin> set link_keys)
       (split_on CHR ''&'' (dropWhile Da_space q) @ split_on CHR ''&'' (Da_trim q)))"

lemma link_keys_pairs: "map fst (link_pairs v) = link_keys"
  by (simp add: link_pairs_def link_keys_def)

lemma link_text_pieces:
  assumes "link_clean v"
  shows "split_on CHR ''&'' (link_text v) = map (\<lambda>(k, x). k @ ''='' @ x) (link_pairs v)"
  unfolding link_text_def using link_pairs_facts(1) [OF assms]
  by (intro split_join) (auto simp: link_pairs_def)

lemma pairs_other:
  "\<forall>p \<in> set ps. CHR ''='' \<notin> set (fst p) \<Longrightarrow> k \<notin> fst ` set ps \<Longrightarrow>
   key_values (map (\<lambda>(k, x). k @ ''='' @ x) ps) k = []"
proof (induction ps)
  case (Cons p ps)
  obtain j y where p: "p = (j, y)" by force
  have "Na_pair (j @ ''='' @ y) = (j, y)" using Cons.prems(1) p by (intro Na_pair_key) simp
  with Cons p show ?case by auto
qed simp

lemma link_values_read:
  assumes "link_clean v" and "(k, x) \<in> set (link_pairs v)"
  shows "key_values (split_on CHR ''&'' (link_text v)) k = [x]"
proof -
  have "key_values (map (\<lambda>(k, x). k @ ''='' @ x) ps) k = [x]"
    if "distinct (map fst ps)" "(k, x) \<in> set ps" "\<forall>p \<in> set ps. CHR ''='' \<notin> set (fst p)" for ps
    using that
  proof (induction ps)
    case (Cons p ps)
    have other: "key_values (map (\<lambda>(k, x). k @ ''='' @ x) ps) k = []" if "k \<notin> fst ` set ps"
      using that Cons.prems(3) by (intro pairs_other) simp_all
    obtain j y where p: "p = (j, y)" by force
    have pair: "Na_pair (j @ ''='' @ y) = (j, y)" using Cons.prems(3) p by (intro Na_pair_key) simp
    show ?case
    proof (cases "k = j")
      case True
      with Cons.prems(1,2) p have "y = x" "k \<notin> fst ` set ps" by force+
      with True other pair p show ?thesis by simp
    next
      case False
      with Cons.prems p have "(k, x) \<in> set ps" by simp
      with Cons False pair p show ?thesis by simp
    qed
  qed simp
  then show ?thesis
    unfolding link_text_pieces [OF assms(1)] using link_pairs_facts [OF assms(1)] assms(2) by blast
qed

lemma trim_before: "Da_trim (q @ CHR ''&'' # link_text v) = dropWhile Da_space q @ CHR ''&'' # link_text v"
proof -
  have sp: "\<not> Da_space CHR ''&''" by (simp add: Da_space_def)
  have "dropWhile Da_space (q @ CHR ''&'' # t) = dropWhile Da_space q @ CHR ''&'' # t" for t
    using sp by (induction q) auto
  moreover have ne: "link_text v \<noteq> []" and "\<not> Da_space (hd (rev (link_text v)))"
    using link_text_end [of v] by (simp_all add: hd_rev)
  then have "dropWhile Da_space (rev (link_text v) @ x) = rev (link_text v) @ x" for x
    using ne by (cases "rev (link_text v)") auto
  ultimately show ?thesis by (simp add: Da_trim_def)
qed

definition before_link :: "string option \<Rightarrow> string \<Rightarrow> string" where
  "before_link q d = (case q of None \<Rightarrow> d | Some q \<Rightarrow> q @ CHR ''&'' # d)"

lemma free_values: "list_all (\<lambda>p. fst (Na_pair p) \<notin> set link_keys) ps \<Longrightarrow> k \<in> set link_keys \<Longrightarrow> key_values ps k = []"
  by (auto simp: key_values_def filter_empty_conv list_all_iff)

lemma before_link_values:
  assumes "link_clean v" and "link_free q" and "(k, x) \<in> set (link_pairs v)"
  shows "key_values (split_on CHR ''&'' (Da_trim (before_link q (link_text v)))) k = [x]"
proof -
  have "k \<in> set link_keys" using assms(3) link_keys_pairs [of v] by (metis fst_conv image_eqI list.set_map)
  with assms(2) free_values show ?thesis
    by (cases q) (simp_all add: before_link_def trim_before link_text_trim split_on_sep link_free_def
        link_values_read [OF assms(1,3)])
qed

lemma free_parse: "link_free (Some q) \<Longrightarrow> k \<in> set link_keys \<Longrightarrow> Na_parse Map.empty q k = None"
  using free_values [of "split_on CHR ''&'' (Da_trim q)" k] by (simp add: link_free_def Na_parse_def foldl_add)

text \<open>What \<open>ce_link\<close> makes of an address, and the values its receiver reads.\<close>

lemma ce_link_address:
  assumes "address_ok b q"
  shows "ce_link v (address b q f) False = address b (Some (before_link q (link_text v))) f"
    and "ce_link v (address b q f) True = address b q (Some (before_link f (link_text v)))"
proof -
  have b: "CHR ''#'' \<notin> set (b @ with_mark CHR ''?'' q)" "CHR ''?'' \<notin> set b" "b \<noteq> []"
    using assms by (auto simp: address_ok_def with_mark_def split: option.splits)
  have hash: "index_of (address b q f) ''#'' = (case f of None \<Rightarrow> None | Some _ \<Rightarrow> Some (length (b @ with_mark CHR ''?'' q)))"
  proof (cases f)
    case None
    with b(1) show ?thesis by (simp add: address_def with_mark_def index_of_None_char)
  next
    case (Some t)
    have "index_of (s @ CHR ''#'' # t) ''#'' = Some (length s)" if "CHR ''#'' \<notin> set s" for s
      using that by (induction s) auto
    from this [OF b(1)] show ?thesis using Some by (simp add: address_def with_mark_def)
  qed
  have mark: "contains (b @ with_mark CHR ''?'' q) ''?'' \<longleftrightarrow> q \<noteq> None"
    using b(2) by (cases q) (simp_all add: contains_def index_of_None_char with_mark_def)
  show "ce_link v (address b q f) False = address b (Some (before_link q (link_text v))) f"
    using b(3) mark unfolding ce_link_def Let_def hash
    by (cases f; cases q) (auto simp: address_def with_mark_def before_link_def)
  show "ce_link v (address b q f) True = address b q (Some (before_link f (link_text v)))"
    unfolding ce_link_def Let_def hash by (cases f) (auto simp: address_def with_mark_def before_link_def)
qed

lemma decorated_params:
  assumes v: "link_clean v" and a: "address_ok b q" and q: "link_free q" and f: "c \<longrightarrow> g \<and> link_free f"
    and k: "(k, x) \<in> set (link_pairs v)"
  shows "K_first (u_R (La (ce_link v (address b q f) c) g)) k = x"
proof -
  have kin: "k \<in> set link_keys" using k link_keys_pairs [of v] by (metis fst_conv image_eqI list.set_map)
  have hashless: "CHR ''#'' \<notin> set (link_text v)"
    using link_pairs_facts(1) [OF v] by (simp add: link_text_def link_pairs_def)
  show ?thesis
  proof (cases c)
    case False
    let ?q = "before_link q (link_text v)"
    have ok: "address_ok b (Some ?q)"
      using a hashless by (auto simp: address_ok_def before_link_def split: option.splits)
    have R: "Na_parse Map.empty ?q k = Some [x]"
      using before_link_values [OF v q k] by (simp add: Na_parse_def foldl_add)
    have "\<exists>l. Na_parse (Na_parse Map.empty ?q) t k = Some (x # l)" for t
      using R by (simp add: Na_parse_def [of _ t] foldl_add)
    then have "\<exists>l. u_R (La (address b (Some ?q) f) g) k = Some (x # l)"
      unfolding La_params [OF ok] Let_def using R by (auto split: option.split)
    then show ?thesis using False by (auto simp: ce_link_address [OF a] K_first_def)
  next
    case True
    let ?f = "before_link f (link_text v)"
    let ?R = "case q of None \<Rightarrow> Map.empty | Some q \<Rightarrow> Na_parse Map.empty q"
    have "?R k = None" using q kin free_parse by (cases q) auto
    then have "Na_parse ?R ?f k = Some [x]"
      using before_link_values [OF v _ k, of f] f True by (simp add: Na_parse_def [of _ ?f] foldl_add)
    moreover have "?f \<noteq> []" using link_text_end [of v] by (auto simp: before_link_def split: option.splits)
    ultimately have "u_R (La (address b q (Some ?f)) g) k = Some [x]"
      unfolding La_params [OF a] Let_def using f True by simp
    then show ?thesis using True by (simp add: ce_link_address [OF a] K_first_def)
  qed
qed

lemma link_hash_is:
  "hash_is (lv_a v @ lv_b v @ lv_c v @ lv_x v @ lv_z v @ lv_v v) (show_int (link_hash v))"
proof -
  have "show_int (link_hash v) = show_nat (nat (link_hash v))" using link_hash_range [of v] by (simp add: show_int_def)
  then have "js_number (show_int (link_hash v)) = Fin (of_int (link_hash v))"
    using link_hash_range [of v] by (simp add: of_nat_nat)
  then show ?thesis by (simp add: hash_is_def num_eq_def link_hash_def)
qed

text \<open>C24. A link decorated by the linker, in the query (\<open>c = False\<close>) or in the fragment (\<open>c = True\<close>,
  for a receiver that reads parameters of the fragment, \<open>g\<close>), passes the hash check on arrival, and
  the values read from it are those written. It holds for every address with a scheme, with or
  without a query and a fragment, whose own parameters do not use the linker's names, and for values
  without ampersands and number signs, which \<open>ce\<close> does not escape.\<close>

theorem linker_accepts:
  assumes "link_clean v" and "address_ok b q" and "link_free q" and "c \<longrightarrow> g \<and> link_free f"
  shows "Yd_values (La (ce_link v (address b q f) c) g) = Some v"
proof -
  note k = decorated_params [OF assms]
  show ?thesis
    unfolding Yd_values_def Let_def
    using k [of "''__utma''" "lv_a v"] k [of "''__utmb''" "lv_b v"] k [of "''__utmc''" "lv_c v"]
      k [of "''__utmx''" "lv_x v"] k [of "''__utmz''" "lv_z v"] k [of "''__utmv''" "lv_v v"]
      k [of "''__utmk''" "show_int (link_hash v)"] link_hash_is [of v]
    by (simp add: link_pairs_def)
qed

definition sample_link :: link_values where
  "sample_link = \<lparr>lv_a = ''1.2.3.4.5.6'', lv_b = ''1.0.10.5'', lv_c = ''1'', lv_x = ''-'', lv_z = ''1.5.1.1.utmcsr=(direct)'', lv_v = ''-''\<rparr>"

theorem linker_accepts_witness:
  "Yd_values (La (ce_link sample_link ''http://x.org/a'' False) True) = Some sample_link \<and>
   Yd_values (La (ce_link sample_link ''http://x.org/a?p=1#q'' True) True) = Some sample_link"
proof -
  have hyps: "link_clean sample_link" "address_ok ''http://x.org/a'' None" "address_ok ''http://x.org/a'' (Some ''p=1'')"
    "link_free None" "link_free (Some ''p=1'')" "link_free (Some ''q'')"
    by code_simp+
  have "address ''http://x.org/a'' None None = ''http://x.org/a''"
    "address ''http://x.org/a'' (Some ''p=1'') (Some ''q'') = ''http://x.org/a?p=1#q''" by code_simp+
  with linker_accepts [OF hyps(1,2,4), of False True None] linker_accepts [OF hyps(1,3,5), of True True "Some ''q''"] hyps(6)
  show ?thesis by simp
qed

end
