(* ===== verification/Closure_Text.thy ===== *)
theory Closure_Text
  imports Js_Regex Js_Value
begin

text \<open>
  The helpers for arrays, strings and plain objects of the survey script
  (prompt_embed_static.js, lines 18 to 26): searching and editing of arrays, trimming and
  collapsing of white space, escaping of HTML and of regular expressions, comparison of version
  numbers, and objects as lists of keys and values in the order of insertion.

  The main lemmas: escaping of HTML is undone by reading the entities and leaves none of the
  characters that HTML treats specially; the comparison of versions is antisymmetric and, on dotted
  numbers, the lexicographic order of the numbers.
\<close>

subsection \<open>Arrays\<close>

text \<open>\<open>Wa\<close>: the first index of an element, or -1; \<open>cb\<close>, \<open>eb\<close> and \<open>hb\<close>.\<close>

fun Wa_from :: "int \<Rightarrow> 'a list \<Rightarrow> 'a \<Rightarrow> int" where
  "Wa_from c [] b = -1"
| "Wa_from c (x # xs) b = (if x = b then c else Wa_from (c + 1) xs b)"

definition Wa_array :: "'a list \<Rightarrow> 'a \<Rightarrow> int" where
  "Wa_array a b = Wa_from 0 a b"

definition cb_has :: "'a list \<Rightarrow> 'a \<Rightarrow> bool" where
  "cb_has a b \<longleftrightarrow> 0 \<le> Wa_array a b"

definition eb_remove :: "'a list \<Rightarrow> 'a \<Rightarrow> bool \<times> 'a list" where
  "eb_remove a b =
     (let c = Wa_array a b
      in if 0 \<le> c then (True, take (nat c) a @ drop (nat c + 1) a) else (False, a))"

text \<open>\<open>hb(a, d1, d2, ...)\<close>: an array among the arguments is appended element by element, any other
  argument as it is.\<close>

datatype 'a argument = Plain 'a | Listed "'a list"

fun hb_extend :: "'a list \<Rightarrow> 'a argument list \<Rightarrow> 'a list" where
  "hb_extend a [] = a"
| "hb_extend a (Listed d # ds) = hb_extend (a @ d) ds"
| "hb_extend a (Plain d # ds) = hb_extend (a @ [d]) ds"

lemma Wa_from_next: "b \<in> set xs \<Longrightarrow> Wa_from (c + 1) xs b = Wa_from c xs b + 1"
proof (induction xs arbitrary: c)
  case (Cons x xs)
  then show ?case using Cons.IH [of "c + 1"] by (cases "x = b") (auto simp del: One_nat_def)
qed simp

lemma Wa_from_absent: "b \<notin> set xs \<Longrightarrow> Wa_from c xs b = -1"
  by (induction xs arbitrary: c) auto

lemma Wa_from_present: "b \<in> set xs \<Longrightarrow> c \<le> Wa_from c xs b"
proof (induction xs arbitrary: c)
  case (Cons x xs)
  show ?case
  proof (cases "x = b")
    case False
    with Cons have "c + 1 \<le> Wa_from (c + 1) xs b" by simp
    with False show ?thesis by simp
  qed simp
qed simp

lemma cb_has_iff [simp]: "cb_has a b \<longleftrightarrow> b \<in> set a"
  using Wa_from_present [of b a 0] Wa_from_absent [of b a 0]
  by (cases "b \<in> set a") (auto simp: cb_has_def Wa_array_def)

lemma eb_remove_eq: "eb_remove a b = (b \<in> set a, remove1 b a)"
proof (induction a)
  case Nil
  then show ?case by (simp add: eb_remove_def Wa_array_def)
next
  case (Cons x a)
  consider "x = b" | "x \<noteq> b" "b \<in> set a" | "x \<noteq> b" "b \<notin> set a" by blast
  then show ?case
  proof cases
    case 1 then show ?thesis by (simp add: eb_remove_def Wa_array_def)
  next
    case 2
    have n: "0 \<le> Wa_from 0 a b" using 2 by (intro Wa_from_present)
    then have "nat (Wa_from 0 a b + 1) = Suc (nat (Wa_from 0 a b))" by simp
    with Cons 2 n Wa_from_next [OF 2(2), of 0] show ?thesis
      by (auto simp: eb_remove_def Wa_array_def Let_def)
  next
    case 3 then show ?thesis by (simp add: eb_remove_def Wa_array_def Wa_from_absent remove1_idem)
  qed
qed

lemma hb_extend_eq: "hb_extend a ds = a @ concat (map (\<lambda>d. case d of Plain x \<Rightarrow> [x] | Listed xs \<Rightarrow> xs) ds)"
  by (induction a ds rule: hb_extend.induct) auto

subsection \<open>White space and substitution\<close>

text \<open>\<open>nb\<close> (only white space), \<open>pb\<close> (trim), \<open>mb\<close> and \<open>ob_collapse\<close> (collapse runs of white space to one space,
  then trim), \<open>lb\<close> (replace each \<open>%s\<close> by the next argument).\<close>

definition nb_blank :: "string \<Rightarrow> bool" where
  "nb_blank a = list_all is_space a"

definition pb_trim :: "string \<Rightarrow> string" where
  "pb_trim a = trim a"

function collapse :: "(char \<Rightarrow> bool) \<Rightarrow> string \<Rightarrow> string" where
  "collapse P [] = []"
| "collapse P (c # s) = (if P c then CHR '' '' # collapse P (dropWhile P s) else c # collapse P s)"
  by pat_completeness auto
termination
  by (relation "measure (\<lambda>(P, s). length s)") (auto simp: le_imp_less_Suc length_dropWhile_le)

definition strip :: "(char \<Rightarrow> bool) \<Rightarrow> string \<Rightarrow> string" where
  "strip P s = rev (dropWhile P (rev (dropWhile P s)))"

definition mb :: "string \<Rightarrow> string" where
  "mb a = strip is_space (collapse is_space a)"

definition ob_space :: "char \<Rightarrow> bool" where
  "ob_space c \<longleftrightarrow> c \<in> {CHR 0x09, CHR 0x0D, CHR 0x0A, CHR '' ''}"

definition ob_collapse :: "string \<Rightarrow> string" where
  "ob_collapse a = strip ob_space (collapse ob_space a)"

fun split_marks :: "string \<Rightarrow> string list" where
  "split_marks [] = [[]]"
| "split_marks [c] = [[c]]"
| "split_marks (c # c' # s) =
     (if c = CHR ''%'' \<and> c' = CHR ''s'' then [] # split_marks s
      else (case split_marks (c' # s) of [] \<Rightarrow> [[c]] | y # ys \<Rightarrow> (c # y) # ys))"

fun lb_fill :: "string \<Rightarrow> string list \<Rightarrow> string list \<Rightarrow> string" where
  "lb_fill d (c # c' # cs) (e # es) = lb_fill (d @ c @ e) (c' # cs) es"
| "lb_fill d cs es = d @ join_with ''%s'' cs"

definition lb :: "string \<Rightarrow> string list \<Rightarrow> string" where
  "lb a es = lb_fill [] (split_marks a) es"

subsection \<open>Escaping\<close>

text \<open>\<open>yb\<close>: one global replacement after the other, in this order.\<close>

definition yb :: "string \<Rightarrow> string" where
  "yb a =
     (if list_all (\<lambda>c. c \<notin> {CHR 0x00, CHR ''&'', CHR ''<'', CHR ''>'', CHR 0x22, CHR 0x27}) a then a
      else
        let a = replace_all ''&'' ''&amp;'' a;
            a = replace_all ''<'' ''&lt;'' a;
            a = replace_all ''>'' ''&gt;'' a;
            a = replace_all [CHR 0x22] ''&quot;'' a;
            a = replace_all [CHR 0x27] ''&#39;'' a
        in replace_all [CHR 0x00] ''&#0;'' a)"

text \<open>\<open>zb\<close>: a backslash before each special character of regular expressions.\<close>

definition zb_special :: "string" where
  "zb_special = [CHR ''-'', CHR ''('', CHR '')'', CHR ''['', CHR '']'', CHR ''{'', CHR ''}'', CHR ''+'', CHR ''?'',
     CHR ''*'', CHR ''.'', CHR ''$'', CHR ''^'', CHR ''|'', CHR '','', CHR '':'', CHR ''#'', CHR ''<'', CHR ''!'',
     CHR 0x5C]"

definition zb :: "string \<Rightarrow> string" where
  "zb a =
     replace_all [CHR 0x08] [CHR 0x5C, CHR ''x'', CHR ''0'', CHR ''8'']
       (concat (map (\<lambda>c. if c \<in> set zb_special then [CHR 0x5C, c] else [c]) a))"

text \<open>\<open>Fb\<close> (camel case) and \<open>Gb\<close> (title case).\<close>

definition upper_char :: "char \<Rightarrow> char" where
  "upper_char c = (if is_lower c then char_of ((of_char c :: nat) - 32) else c)"

fun Fb_camel :: "string \<Rightarrow> string" where
  "Fb_camel (c # c' # s) =
     (if c = CHR ''-'' \<and> is_lower c' then upper_char c' # Fb_camel s else c # Fb_camel (c' # s))"
| "Fb_camel s = s"

fun Gb_from :: "bool \<Rightarrow> string \<Rightarrow> string" where
  "Gb_from b [] = []"
| "Gb_from b (c # s) = (if b \<and> is_lower c then upper_char c else c) # Gb_from (is_space c) s"

definition Gb_title :: "string \<Rightarrow> string" where
  "Gb_title a = Gb_from True a"

text \<open>What HTML makes of an escaped text: the entities \<open>yb\<close> writes are read as their characters.\<close>

definition entities :: "(string \<times> char) list" where
  "entities = [(''&amp;'', CHR ''&''), (''&lt;'', CHR ''<''), (''&gt;'', CHR ''>''),
     (''&quot;'', CHR 0x22), (''&#39;'', CHR 0x27), (''&#0;'', CHR 0x00)]"

function read_html :: "string \<Rightarrow> string" where
  "read_html [] = []"
| "read_html (c # s) =
     (case find (\<lambda>(e, x). starts_with (c # s) e \<and> e \<noteq> []) entities of
        Some (e, x) \<Rightarrow> x # read_html (drop (length e) (c # s))
      | None \<Rightarrow> c # read_html s)"
  by pat_completeness auto
termination
  by (relation "measure length") (auto simp: find_Some_iff entities_def nth_Cons' split: if_splits)

definition yb_char :: "char \<Rightarrow> string" where
  "yb_char c =
     (if c = CHR ''&'' then ''&amp;'' else if c = CHR ''<'' then ''&lt;'' else if c = CHR ''>'' then ''&gt;''
      else if c = CHR 0x22 then ''&quot;'' else if c = CHR 0x27 then ''&#39;''
      else if c = CHR 0x00 then ''&#0;'' else [c])"

lemma concat_map_concat: "concat (map f (concat (map g s))) = concat (map (\<lambda>x. concat (map f (g x))) s)"
  by (induction s) auto

lemma yb_eq: "yb a = concat (map yb_char a)"
proof (cases "list_all (\<lambda>c. c \<notin> {CHR 0x00, CHR ''&'', CHR ''<'', CHR ''>'', CHR 0x22, CHR 0x27}) a")
  case True
  then have "concat (map yb_char a) = concat (map (\<lambda>c. [c]) a)"
    by (intro arg_cong [of _ _ concat] map_cong) (auto simp: list_all_iff yb_char_def)
  with True show ?thesis by (simp add: yb_def)
next
  case False
  then have "yb a = replace_all [CHR 0x00] ''&#0;'' (replace_all [CHR 0x27] ''&#39;''
      (replace_all [CHR 0x22] ''&quot;'' (replace_all ''>'' ''&gt;'' (replace_all ''<'' ''&lt;''
      (replace_all ''&'' ''&amp;'' a)))))"
    by (simp only: yb_def Let_def if_False)
  also have "\<dots> = concat (map yb_char a)"
    unfolding replace_all_char concat_map_concat
    by (intro arg_cong [of _ _ concat] map_cong) (simp_all add: yb_char_def)
  finally show ?thesis .
qed

lemma read_yb_char: "read_html (yb_char c @ s) = c # read_html s"
  by (simp add: yb_char_def entities_def starts_with_def)

lemma read_yb_append: "read_html (yb a @ s) = a @ read_html s"
  by (induction a) (simp_all add: yb_eq read_yb_char del: read_html.simps)

subsection \<open>Versions\<close>

text \<open>\<open>Db\<close> compares two numbers, two booleans or two strings; strings go by their code units.\<close>

fun str_less :: "string \<Rightarrow> string \<Rightarrow> bool" where
  "str_less a [] = False"
| "str_less [] (y # ys) = True"
| "str_less (x # xs) (y # ys) =
     ((of_char x :: nat) < of_char y \<or> x = y \<and> str_less xs ys)"

definition Db :: "('a \<Rightarrow> 'a \<Rightarrow> bool) \<Rightarrow> 'a \<Rightarrow> 'a \<Rightarrow> int" where
  "Db lt a b = (if lt a b then -1 else if lt b a then 1 else 0)"

definition first_nonzero :: "int \<Rightarrow> int \<Rightarrow> int" where
  "first_nonzero a b = (if a \<noteq> 0 then a else b)"

text \<open>The groups of \<open>/(\d*)(\D*)(.*)/\<close>; the dot stops at a line end.\<close>

definition line_end :: "char \<Rightarrow> bool" where
  "line_end c \<longleftrightarrow> c = CHR 0x0A \<or> c = CHR 0x0D"

definition version_groups :: "string \<Rightarrow> string \<times> string \<times> string" where
  "version_groups k =
     (let r = dropWhile is_digit k; r' = dropWhile (\<lambda>c. \<not> is_digit c) r
      in (takeWhile is_digit k, takeWhile (\<lambda>c. \<not> is_digit c) r, takeWhile (\<lambda>c. \<not> line_end c) r'))"

lemma version_groups_shorter:
  "version_groups k = (a, b, r) \<Longrightarrow> length r \<le> length k \<and> (k \<noteq> [] \<longrightarrow> length r < length k)"
proof -
  assume v: "version_groups k = (a, b, r)"
  have "length (takeWhile (\<lambda>c. \<not> line_end c) x) \<le> length x" for x by (rule length_takeWhile_le)
  then have r: "length r \<le> length (dropWhile (\<lambda>c. \<not> is_digit c) (dropWhile is_digit k))"
    using v by (auto simp: version_groups_def Let_def)
  also have "\<dots> \<le> length (dropWhile is_digit k)" by (rule length_dropWhile_le)
  finally have 1: "length r \<le> length (dropWhile is_digit k)" .
  also have 2: "length (dropWhile is_digit k) \<le> length k" by (rule length_dropWhile_le)
  finally have "length r \<le> length k" .
  moreover have "length r < length k" if "k \<noteq> []"
  proof (cases "is_digit (hd k)")
    case True
    then have "length (dropWhile is_digit k) < length k"
      using that length_dropWhile_le [of is_digit "tl k"] by (cases k) auto
    with 1 show ?thesis by simp
  next
    case False
    then have "length (dropWhile (\<lambda>c. \<not> is_digit c) (dropWhile is_digit k)) < length k"
      using that length_dropWhile_le [of "\<lambda>c. \<not> is_digit c" "tl k"] by (cases k) auto
    with r show ?thesis by simp
  qed
  ultimately show ?thesis by simp
qed

text \<open>The inner loop of \<open>Eb\<close>, on one dotted piece of each version.\<close>

function Eb_piece :: "string \<Rightarrow> string \<Rightarrow> int" where
  "Eb_piece k l =
     (if k = [] \<and> l = [] then 0
      else
        let (k1, k2, k3) = version_groups k; (l1, l2, l3) = version_groups l;
            c = first_nonzero (Db (<) (if k1 = [] then 0 else digits_val k1) (if l1 = [] then 0 else digits_val l1))
                  (first_nonzero (Db (<) (k2 = []) (l2 = [])) (Db str_less k2 l2))
        in if c = 0 then Eb_piece k3 l3 else c)"
  by pat_completeness auto
termination
proof (relation "measure (\<lambda>(k, l). length k + length l)")
  show "wf (measure (\<lambda>(k :: string, l :: string). length k + length l))" by simp
next
  fix k l v k1 y k2 k3 w l1 y' l2 l3 c
  assume "\<not> (k = [] \<and> l = [])" "v = version_groups k" "(k1, y) = v" "(k2, k3) = y"
    "w = version_groups l" "(l1, y') = w" "(l2, l3) = y'"
  then show "((k3, l3), (k, l)) \<in> measure (\<lambda>(k, l). length k + length l)"
    using version_groups_shorter [of k k1 k2 k3] version_groups_shorter [of l l1 l2 l3] by auto
qed

fun Eb_pieces :: "string list \<Rightarrow> string list \<Rightarrow> int" where
  "Eb_pieces [] [] = 0"
| "Eb_pieces (d # ds) [] = (let c = Eb_piece d [] in if c = 0 then Eb_pieces ds [] else c)"
| "Eb_pieces [] (e # es) = (let c = Eb_piece [] e in if c = 0 then Eb_pieces [] es else c)"
| "Eb_pieces (d # ds) (e # es) = (let c = Eb_piece d e in if c = 0 then Eb_pieces ds es else c)"

definition Eb :: "string \<Rightarrow> string \<Rightarrow> int" where
  "Eb a b = Eb_pieces (split_on CHR ''.'' (pb_trim a)) (split_on CHR ''.'' (pb_trim b))"

declare Eb_piece.simps [simp del]

text \<open>Version numbers by their meaning: lists of numbers, the shorter one continued by zeros.\<close>

fun compare_numbers :: "nat list \<Rightarrow> nat list \<Rightarrow> int" where
  "compare_numbers [] [] = 0"
| "compare_numbers (x # xs) [] = (if 0 < x then 1 else compare_numbers xs [])"
| "compare_numbers [] (y # ys) = (if 0 < y then -1 else compare_numbers [] ys)"
| "compare_numbers (x # xs) (y # ys) =
     (if x < y then -1 else if y < x then 1 else compare_numbers xs ys)"

definition show_version :: "nat list \<Rightarrow> string" where
  "show_version xs = join_with ''.'' (map show_nat xs)"

lemma str_less_asym: "str_less a b \<Longrightarrow> \<not> str_less b a"
  by (induction a b rule: str_less.induct) auto

lemma Db_swap: "(\<And>x y. lt x y \<Longrightarrow> \<not> lt y x) \<Longrightarrow> Db lt b a = - Db lt a b"
  by (auto simp: Db_def)

lemma Db_swaps:
  "Db (<) (n :: nat) m = - Db (<) m n" "Db (<) (p :: bool) q = - Db (<) q p"
  "Db str_less s t = - Db str_less t s"
  by (rule Db_swap; force dest: str_less_asym)+

lemma first_nonzero_neg: "first_nonzero (- a) (- b) = - first_nonzero a b"
  by (simp add: first_nonzero_def)

lemma Eb_piece_swap: "Eb_piece l k = - Eb_piece k l"
proof (induction k l rule: Eb_piece.induct)
  case (1 k l)
  show ?case
  proof (cases "k = [] \<and> l = []")
    case True
    then show ?thesis by (simp add: Eb_piece.simps)
  next
    case False
    obtain k1 k2 k3 l1 l2 l3 where v: "version_groups k = (k1, k2, k3)" "version_groups l = (l1, l2, l3)"
      by (metis prod_cases3)
    define c where "c = first_nonzero (Db (<) (if k1 = [] then 0 else digits_val k1) (if l1 = [] then 0 else digits_val l1))
      (first_nonzero (Db (<) (k2 = []) (l2 = [])) (Db str_less k2 l2))"
    define d where "d = first_nonzero (Db (<) (if l1 = [] then 0 else digits_val l1) (if k1 = [] then 0 else digits_val k1))
      (first_nonzero (Db (<) (l2 = []) (k2 = [])) (Db str_less l2 k2))"
    have d: "d = - c"
      unfolding c_def d_def first_nonzero_neg [symmetric] Db_swaps(1) [of "if l1 = [] then 0 else digits_val l1"]
        Db_swaps(2) [of "l2 = []"] Db_swaps(3) [of l2] by (rule refl)
    have "Eb_piece k l = (if c = 0 then Eb_piece k3 l3 else c)"
      using False by (subst Eb_piece.simps) (simp only: v prod.case Let_def c_def if_False)
    moreover have "Eb_piece l k = (if d = 0 then Eb_piece l3 k3 else d)"
      using False by (subst Eb_piece.simps) (auto simp only: v prod.case Let_def d_def if_False conj_commute)
    moreover have "c = 0 \<Longrightarrow> Eb_piece l3 k3 = - Eb_piece k3 l3"
      using 1 [OF False refl v(1) [symmetric] refl refl v(2) [symmetric] refl c_def] by simp
    ultimately show ?thesis using d by simp
  qed
qed

lemma Eb_pieces_swap: "Eb_pieces es ds = - Eb_pieces ds es"
proof (induction ds es rule: Eb_pieces.induct)
  case (2 d ds)
  then show ?case using Eb_piece_swap [of "[]" d] by (simp add: Let_def)
next
  case (3 e es)
  then show ?case using Eb_piece_swap [of e "[]"] by (simp add: Let_def)
next
  case (4 d ds e es)
  then show ?case using Eb_piece_swap [of e d] by (simp add: Let_def)
qed simp

lemma version_groups_Nil [simp]: "version_groups [] = ([], [], [])"
  by (simp add: version_groups_def)

lemma version_groups_digits: "list_all is_digit k \<Longrightarrow> version_groups k = (k, [], [])"
  by (simp add: version_groups_def takeWhile_digits)

lemma Eb_piece_numbers:
  assumes "list_all is_digit k" "list_all is_digit l"
  shows "Eb_piece k l = Db (<) (digits_val k) (digits_val l)"
proof -
  have 0: "(if x = [] then 0 else digits_val x) = digits_val x" for x by (simp add: digits_val_def)
  have e: "Eb_piece [] [] = 0" by (simp add: Eb_piece.simps)
  show ?thesis
    using assms by (subst Eb_piece.simps)
      (simp add: version_groups_digits 0 e first_nonzero_def Db_def digits_val_def Let_def)
qed

lemma Eb_pieces_numbers: "Eb_pieces (map show_nat xs) (map show_nat ys) = compare_numbers xs ys"
proof (induction xs ys rule: compare_numbers.induct)
  case (2 x xs)
  then show ?case
    using Eb_piece_numbers [of "show_nat x" "[]"] by (simp add: show_nat_digits Db_def Let_def digits_val_def [of "[]"])
next
  case (3 y ys)
  then show ?case
    using Eb_piece_numbers [of "[]" "show_nat y"] by (simp add: show_nat_digits Db_def Let_def digits_val_def [of "[]"])
next
  case (4 x xs y ys)
  then show ?case
    using Eb_piece_numbers [of "show_nat x" "show_nat y"] by (simp add: show_nat_digits Db_def Let_def)
qed simp

lemma show_version_chars: "c \<in> set (show_version xs) \<Longrightarrow> is_digit c \<or> c = CHR ''.''"
proof -
  have "c \<in> set (join_with ''.'' ps) \<Longrightarrow> list_all (list_all is_digit) ps \<Longrightarrow> is_digit c \<or> c = CHR ''.''" for ps
    by (induction "''.''" ps rule: join_with.induct) (auto simp: list_all_iff)
  moreover have "list_all (list_all is_digit) (map show_nat xs)" by (simp add: list_all_iff show_nat_digits [unfolded list_all_iff])
  ultimately show "c \<in> set (show_version xs) \<Longrightarrow> is_digit c \<or> c = CHR ''.''"
    unfolding show_version_def by blast
qed

lemma trim_id: "\<forall>c\<in>set s. \<not> is_space c \<Longrightarrow> trim s = s"
proof -
  assume s: "\<forall>c\<in>set s. \<not> is_space c"
  have d: "dropWhile is_space t = t" if "set t = set s" for t
    using s that by (cases t) auto
  show ?thesis by (simp add: trim_def d)
qed

lemma trim_version: "pb_trim (show_version xs) = show_version xs"
  unfolding pb_trim_def
proof (rule trim_id)
  have "\<not> is_space CHR ''.''" by code_simp
  then show "\<forall>c\<in>set (show_version xs). \<not> is_space c"
    using show_version_chars is_digit_not_space by blast
qed

lemma split_version: "xs \<noteq> [] \<Longrightarrow> split_on CHR ''.'' (show_version xs) = map show_nat xs"
proof -
  assume "xs \<noteq> []"
  moreover have "CHR ''.'' \<notin> set (show_nat n)" for n
    using show_nat_digits [of n] by (auto simp: list_all_iff is_digit_def)
  ultimately show ?thesis unfolding show_version_def by (intro split_join) auto
qed

lemma Eb_swap: "Eb b a = - Eb a b"
  unfolding Eb_def by (rule Eb_pieces_swap)

lemma Eb_versions: "xs \<noteq> [] \<Longrightarrow> ys \<noteq> [] \<Longrightarrow> Eb (show_version xs) (show_version ys) = compare_numbers xs ys"
  by (simp add: Eb_def trim_version split_version Eb_pieces_numbers)

subsection \<open>Objects\<close>

text \<open>Plain objects are lists of keys and values. \<open>Lb\<close> and \<open>Pb\<close> search the values, \<open>Mb\<close> lists the keys,
  \<open>Ob\<close>, \<open>Sb\<close> and \<open>Rb\<close> look up, look up with a default and add a new key (an error when it is there),
  \<open>Qb\<close> tests for an object without keys, \<open>Wb\<close> copies the entries of objects into one, \<open>Xb\<close> makes an
  object of flags; \<open>Nb\<close> follows a list of keys and stops at null or undefined.\<close>

type_synonym 'v dict = "(string \<times> 'v) list"

definition Lb_any :: "('v \<Rightarrow> string \<Rightarrow> bool) \<Rightarrow> 'v dict \<Rightarrow> bool" where
  "Lb_any f a = list_ex (\<lambda>(k, v). f v k) a"

definition Mb_keys :: "'v dict \<Rightarrow> string list" where
  "Mb_keys a = map fst a"

definition Ob_in :: "'v dict option \<Rightarrow> string \<Rightarrow> bool" where
  "Ob_in a b = (case a of None \<Rightarrow> False | Some d \<Rightarrow> b \<in> fst ` set d)"

definition Sb_get :: "'v dict option \<Rightarrow> string \<Rightarrow> 'v \<Rightarrow> 'v" where
  "Sb_get a b c = (case a of None \<Rightarrow> c | Some d \<Rightarrow> (case map_of d b of None \<Rightarrow> c | Some v \<Rightarrow> v))"

definition Qb_empty :: "'v dict \<Rightarrow> bool" where
  "Qb_empty a \<longleftrightarrow> a = []"

datatype object_error = Key_exists string

definition Rb_add :: "'v dict \<Rightarrow> string \<Rightarrow> 'v \<Rightarrow> object_error + 'v dict" where
  "Rb_add a b c = (if Ob_in (Some a) b then Inl (Key_exists b) else Inr (dict_set b c a))"

definition Wb_copy :: "'v dict \<Rightarrow> 'v dict \<Rightarrow> 'v dict" where
  "Wb_copy a d = fold (\<lambda>(k, v) a. dict_set k v a) d a"

definition Wb :: "'v dict \<Rightarrow> 'v dict list \<Rightarrow> 'v dict" where
  "Wb a ds = fold (\<lambda>d a. Wb_copy a d) ds a"

definition Xb_flags :: "string list \<Rightarrow> bool dict" where
  "Xb_flags ks = fold (\<lambda>k c. dict_set k True c) ks []"

fun Nb_path :: "('a \<Rightarrow> string \<Rightarrow> 'a option) \<Rightarrow> 'a option \<Rightarrow> string list \<Rightarrow> 'a option" where
  "Nb_path get a [] = a"
| "Nb_path get None (d # ds) = None"
| "Nb_path get (Some a) (d # ds) = Nb_path get (get a d) ds"

lemma map_of_Wb_copy: "map_of (Wb_copy a d) = map_of a ++ map_of (rev d)"
proof (induction d arbitrary: a)
  case (Cons e d)
  obtain k v where "e = (k, v)" by (cases e)
  with Cons [of "dict_set k v a"] show ?case
    by (simp add: Wb_copy_def map_of_dict_set map_add_upd_left map_add_assoc [symmetric] map_add_def fun_eq_iff
        split: option.split)
qed (simp add: Wb_copy_def)

lemma Xb_flags_iff: "map_of (Xb_flags ks) k = (if k \<in> set ks then Some True else None)"
proof -
  have "map_of (fold (\<lambda>k c. dict_set k True c) ks c) k = (if k \<in> set ks then Some True else map_of c k)" for c
    by (induction ks arbitrary: c) (auto simp: map_of_dict_set)
  then show ?thesis by (simp add: Xb_flags_def)
qed

lemma Rb_add_keys: "Rb_add a b c = Inr d \<Longrightarrow> distinct (map fst a) \<Longrightarrow> distinct (map fst d) \<and> map_of d b = Some c"
  by (auto simp: Rb_add_def dict_set_keys map_of_dict_set split: if_splits)

subsection \<open>Properties\<close>

text \<open>\<open>yb\<close> escapes a text so that HTML reads it back unchanged, and the escaped text has none of
  the characters that could open a tag or end an attribute.\<close>

theorem html_escape_safe:
  "read_html (yb a) = a \<and>
   set (yb a) \<inter> {CHR ''<'', CHR ''>'', CHR 0x22, CHR 0x27, CHR 0x00} = {}"
proof
  show "read_html (yb a) = a" using read_yb_append [of a "[]"] by simp
  have "set (yb_char c) \<inter> {CHR ''<'', CHR ''>'', CHR 0x22, CHR 0x27, CHR 0x00} = {}" for c
    by (simp add: yb_char_def)
  then show "set (yb a) \<inter> {CHR ''<'', CHR ''>'', CHR 0x22, CHR 0x27, CHR 0x00} = {}"
    unfolding yb_eq by (simp add: Int_UN_distrib2)
qed

text \<open>The comparison of versions \<open>Eb\<close> is antisymmetric on all texts, and on dotted numbers it is
  the lexicographic order of the numbers, missing ones counting as zero.\<close>

theorem version_order:
  assumes "xs \<noteq> []" "ys \<noteq> []"
  shows "Eb b a = - Eb a b \<and> Eb (show_version xs) (show_version ys) = compare_numbers xs ys"
  using assms by (simp add: Eb_versions Eb_swap [of b])

theorem version_order_witness:
  "Eb ''2b'' ''10'' = - Eb ''10'' ''2b'' \<and>
   Eb (show_version [10, 2]) (show_version [10, 1, 3]) = compare_numbers [10, 2] [10, 1, 3]"
  by (rule version_order) simp_all

end
