(* ===== verification/Closure_Json.thy ===== *)
theory Closure_Json
  imports Js_Value Js_Uri
begin

text \<open>
  The JSON writer of the survey script (prompt_embed_static.js, lines 35 to 37): \<open>hd\<close> writes a value
  with \<open>ed\<close>, strings with \<open>id\<close>. Values are trees: arrays without holes and objects as lists of their
  own properties. The reader of the last section is the grammar of JSON itself, for integers.

  The main lemma: the reader gets back the value written, with functions and undefined as null or
  left out, and the text is printable ASCII.
\<close>

datatype js =
  JUndef | JNull | JFun | JBool bool | JNum jsnum | JStr string | JArr "js list" | JObj "(string \<times> js) list"

subsection \<open>Writing\<close>

text \<open>\<open>id\<close>: the characters of \<open>kd\<close> are replaced by their escape in \<open>jd\<close>, or by \<open>\u\<close> and the four
  lower-case hexadecimal digits that \<open>(code|65536).toString(16)\<close> leaves after its first one.\<close>

definition hex_lower :: "nat \<Rightarrow> char" where
  "hex_lower n = (if n < 10 then char_of (48 + n) else char_of (87 + n))"

definition jd_escape :: "char \<Rightarrow> string option" where
  "jd_escape c =
     map_of [(CHR 0x22, [CHR 0x5C, CHR 0x22]), (CHR 0x5C, [CHR 0x5C, CHR 0x5C]), (CHR ''/'', [CHR 0x5C, CHR ''/'']),
       (CHR 0x08, [CHR 0x5C, CHR ''b'']), (CHR 0x0C, [CHR 0x5C, CHR ''f'']), (CHR 0x0A, [CHR 0x5C, CHR ''n'']),
       (CHR 0x0D, [CHR 0x5C, CHR ''r'']), (CHR 0x09, [CHR 0x5C, CHR ''t'']), (CHR 0x0B, [CHR 0x5C, CHR ''u'', CHR ''0'', CHR ''0'', CHR ''0'', CHR ''b''])] c"

definition kd_matches :: "char \<Rightarrow> bool" where
  "kd_matches c = (let n = (of_char c :: nat) in c = CHR 0x5C \<or> c = CHR 0x22 \<or> n \<le> 31 \<or> 127 \<le> n)"

definition id_char :: "char \<Rightarrow> string" where
  "id_char c =
     (if kd_matches c then
        (case jd_escape c of
           Some b \<Rightarrow> b
         | None \<Rightarrow> (let n = (of_char c :: nat)
             in [CHR 0x5C, CHR ''u'', CHR ''0'', CHR ''0'', hex_lower (n div 16), hex_lower (n mod 16)]))
      else [c])"

definition id_json :: "string \<Rightarrow> string" where
  "id_json a = CHR 0x22 # concat (map id_char a) @ [CHR 0x22]"

fun is_fun :: "js \<Rightarrow> bool" where
  "is_fun JFun = True"
| "is_fun _ = False"

text \<open>\<open>ed\<close>; the loops over the elements and the properties carry the separator to write next.\<close>

fun ed :: "js \<Rightarrow> string"
  and ed_items :: "string \<Rightarrow> js list \<Rightarrow> string"
  and ed_fields :: "string \<Rightarrow> (string \<times> js) list \<Rightarrow> string" where
  "ed JUndef = ''null''"
| "ed JNull = ''null''"
| "ed JFun = ''null''"
| "ed (JBool b) = (if b then ''true'' else ''false'')"
| "ed (JNum n) = (case n of Fin q \<Rightarrow> show_num n | _ \<Rightarrow> ''null'')"
| "ed (JStr s) = id_json s"
| "ed (JArr d) = ''['' @ ed_items [] d @ '']''"
| "ed (JObj b) = ''{'' @ ed_fields [] b @ ''}''"
| "ed_items e [] = []"
| "ed_items e (d # ds) = e @ ed d @ ed_items '','' ds"
| "ed_fields g [] = []"
| "ed_fields g ((d, e) # r) =
     (if is_fun e then ed_fields g r else g @ id_json d @ '':'' @ ed e @ ed_fields '','' r)"

definition hd_json :: "js \<Rightarrow> string" where
  "hd_json a = ed a"

subsection \<open>The grammar of JSON\<close>

definition hex4 :: "char \<Rightarrow> char \<Rightarrow> char \<Rightarrow> char \<Rightarrow> nat option" where
  "hex4 a b c d =
     (case (hex_read a, hex_read b, hex_read c, hex_read d) of
        (Some w, Some x, Some y, Some z) \<Rightarrow> Some (((w * 16 + x) * 16 + y) * 16 + z)
      | _ \<Rightarrow> None)"

definition short_escape :: "char \<Rightarrow> char option" where
  "short_escape c =
     map_of [(CHR 0x22, CHR 0x22), (CHR 0x5C, CHR 0x5C), (CHR ''/'', CHR ''/''), (CHR ''b'', CHR 0x08),
       (CHR ''f'', CHR 0x0C), (CHR ''n'', CHR 0x0A), (CHR ''r'', CHR 0x0D), (CHR ''t'', CHR 0x09)] c"

function read_string :: "string \<Rightarrow> (string \<times> string) option" where
  "read_string [] = None"
| "read_string (c # s) =
     (if c = CHR 0x22 then Some ([], s)
      else if c = CHR 0x5C then
        (case s of
           [] \<Rightarrow> None
         | e # s' \<Rightarrow>
             (case short_escape e of
                Some x \<Rightarrow> map_option (\<lambda>(t, r). (x # t, r)) (read_string s')
              | None \<Rightarrow>
                  (if e = CHR ''u'' \<and> 4 \<le> length s' then
                     (case hex4 (s' ! 0) (s' ! 1) (s' ! 2) (s' ! 3) of
                        Some n \<Rightarrow> (if n < 256 then map_option (\<lambda>(t, r). (char_of n # t, r)) (read_string (drop 4 s')) else None)
                      | None \<Rightarrow> None)
                   else None)))
      else if (of_char c :: nat) < 32 then None
      else map_option (\<lambda>(t, r). (c # t, r)) (read_string s))"
  by pat_completeness auto
termination
  by (relation "measure length") auto

definition read_nat :: "string \<Rightarrow> (nat \<times> string) option" where
  "read_nat s =
     (let t = takeWhile is_digit s in if t = [] then None else Some (digits_val t, dropWhile is_digit s))"

definition read_integer :: "string \<Rightarrow> (int \<times> string) option" where
  "read_integer s =
     (case s of
        [] \<Rightarrow> None
      | c # r \<Rightarrow> if c = CHR ''-'' then map_option (\<lambda>(n, t). (- int n, t)) (read_nat r)
                 else map_option (\<lambda>(n, t). (int n, t)) (read_nat s))"

text \<open>Each level of the value and each element of a list takes one unit of the first argument.\<close>

fun read_value :: "nat \<Rightarrow> string \<Rightarrow> (js \<times> string) option"
  and read_items :: "nat \<Rightarrow> string \<Rightarrow> (js list \<times> string) option"
  and read_fields :: "nat \<Rightarrow> string \<Rightarrow> ((string \<times> js) list \<times> string) option" where
  "read_value 0 s = None"
| "read_value (Suc n) s =
     (case s of
        [] \<Rightarrow> None
      | c # r \<Rightarrow>
          if c = CHR ''['' then
            (if r \<noteq> [] \<and> hd r = CHR '']'' then Some (JArr [], tl r)
             else map_option (\<lambda>(vs, t). (JArr vs, t)) (read_items n r))
          else if c = CHR ''{'' then
            (if r \<noteq> [] \<and> hd r = CHR ''}'' then Some (JObj [], tl r)
             else map_option (\<lambda>(vs, t). (JObj vs, t)) (read_fields n r))
          else if c = CHR 0x22 then map_option (\<lambda>(v, t). (JStr v, t)) (read_string r)
          else if starts_with s ''null'' then Some (JNull, drop 4 s)
          else if starts_with s ''true'' then Some (JBool True, drop 4 s)
          else if starts_with s ''false'' then Some (JBool False, drop 5 s)
          else map_option (\<lambda>(v, t). (JNum (Fin (of_int v)), t)) (read_integer s))"
| "read_items 0 s = None"
| "read_items (Suc n) s =
     (case read_value n s of
        Some (v, c # r) \<Rightarrow>
          (if c = CHR '','' then map_option (\<lambda>(vs, t). (v # vs, t)) (read_items n r)
           else if c = CHR '']'' then Some ([v], r) else None)
      | _ \<Rightarrow> None)"
| "read_fields 0 s = None"
| "read_fields (Suc n) s =
     (case s of
        [] \<Rightarrow> None
      | q # r \<Rightarrow>
          if q \<noteq> CHR 0x22 then None
          else
            (case read_string r of
               Some (k, d # r) \<Rightarrow>
                 (if d \<noteq> CHR '':'' then None
                  else
                    (case read_value n r of
                       Some (v, c # r) \<Rightarrow>
                         (if c = CHR '','' then map_option (\<lambda>(vs, t). ((k, v) # vs, t)) (read_fields n r)
                          else if c = CHR ''}'' then Some ([(k, v)], r) else None)
                     | _ \<Rightarrow> None))
             | _ \<Rightarrow> None))"

definition json_parse :: "string \<Rightarrow> js option" where
  "json_parse s = (case read_value (Suc (length s)) s of Some (v, []) \<Rightarrow> Some v | _ \<Rightarrow> None)"

text \<open>What is left of a value in its text: functions and undefined are null, properties that are
  functions are left out, numbers that are not finite are null.\<close>

fun as_json :: "js \<Rightarrow> js" where
  "as_json JUndef = JNull"
| "as_json JFun = JNull"
| "as_json (JNum n) = (case n of Fin q \<Rightarrow> JNum n | _ \<Rightarrow> JNull)"
| "as_json (JArr d) = JArr (map as_json d)"
| "as_json (JObj b) = JObj (map (\<lambda>(k, v). (k, as_json v)) (filter (\<lambda>(k, v). \<not> is_fun v) b))"
| "as_json v = v"

fun integral :: "js \<Rightarrow> bool" where
  "integral (JNum n) = (case n of Fin q \<Rightarrow> q \<in> \<int> | _ \<Rightarrow> True)"
| "integral (JArr d) = list_all integral d"
| "integral (JObj b) = list_all (\<lambda>(k, v). integral v) b"
| "integral _ = True"

subsection \<open>Reading back\<close>

lemma is_fun_as_json [simp]: "\<not> is_fun (as_json v)"
  by (cases v) (auto split: jsnum.splits)

lemma ed_as_json:
  "ed (as_json v) = ed v"
  "ed_items e (map as_json d) = ed_items e d"
  "ed_fields g (map (\<lambda>(k, v). (k, as_json v)) (filter (\<lambda>(k, v). \<not> is_fun v) b)) = ed_fields g b"
  by (induction v and e d and g b rule: ed_ed_items_ed_fields.induct) (auto split: jsnum.splits)

fun normal :: "js \<Rightarrow> bool" where
  "normal JUndef = False"
| "normal JFun = False"
| "normal (JNum n) = (case n of Fin q \<Rightarrow> q \<in> \<int> | _ \<Rightarrow> False)"
| "normal (JArr d) = list_all normal d"
| "normal (JObj b) = list_all (\<lambda>(k, v). normal v) b"
| "normal _ = True"

lemma normal_as_json: "integral v \<Longrightarrow> normal (as_json v)"
proof (induction v)
  case (JObj b)
  then show ?case by (fastforce simp: list_all_iff)
next
  case (JArr d)
  then show ?case by (simp add: list_all_iff)
qed (auto split: jsnum.splits)

lemma hex_read_lower: "n < 16 \<Longrightarrow> hex_read (hex_lower n) = Some n"
proof -
  assume "n < 16"
  then consider "n < 10" | "10 \<le> n" "n < 16" by linarith
  then show ?thesis by cases (simp_all add: hex_read_def hex_lower_def nat_of_char_of)
qed

lemma read_unicode:
  assumes "hex4 a b c d = Some n" "n < 256"
  shows "read_string (CHR 0x5C # CHR ''u'' # a # b # c # d # s) =
    map_option (\<lambda>(t, r). (char_of n # t, r)) (read_string s)"
proof -
  have "short_escape CHR ''u'' = None" by (simp add: short_escape_def)
  then show ?thesis using assms by (subst read_string.simps) (simp del: read_string.simps)
qed

lemma read_short: "short_escape e = Some c \<Longrightarrow>
    read_string (CHR 0x5C # e # s) = map_option (\<lambda>(t, r). (c # t, r)) (read_string s)"
  by (subst read_string.simps) (simp del: read_string.simps)

lemma jd_escape_cases:
  assumes "jd_escape c = Some b"
  shows "(\<exists>e. b = [CHR 0x5C, e] \<and> short_escape e = Some c) \<or>
    c = CHR 0x0B \<and> b = [CHR 0x5C, CHR ''u'', CHR ''0'', CHR ''0'', CHR ''0'', CHR ''b'']"
  using map_of_SomeD [OF assms [unfolded jd_escape_def]] by (auto simp: short_escape_def)

lemma read_id_char: "read_string (id_char c @ s) = map_option (\<lambda>(t, r). (c # t, r)) (read_string s)"
proof (cases "kd_matches c")
  case False
  then have "c \<noteq> CHR 0x5C" "c \<noteq> CHR 0x22" "\<not> (of_char c :: nat) < 32"
    by (auto simp: kd_matches_def Let_def)
  with False show ?thesis by (simp add: id_char_def)
next
  case True
  show ?thesis
  proof (cases "jd_escape c")
    case None
    have n: "(of_char c :: nat) < 256" by simp
    then have q: "(of_char c :: nat) div 16 < 16" by (intro less_mult_imp_div_less) simp
    have m: "(of_char c :: nat) mod 16 < 16" by simp
    have z: "hex_read CHR ''0'' = Some 0" by (simp add: hex_read_def)
    have "hex4 CHR ''0'' CHR ''0'' (hex_lower (of_char c div 16)) (hex_lower (of_char c mod 16)) =
        Some (0 + (of_char c div 16) * 16 + of_char c mod 16)"
      unfolding hex4_def z hex_read_lower [OF q] hex_read_lower [OF m] by simp
    then have "hex4 CHR ''0'' CHR ''0'' (hex_lower (of_char c div 16)) (hex_lower (of_char c mod 16)) = Some (of_char c)"
      by simp
    from read_unicode [OF this n] show ?thesis
      using True None by (simp add: id_char_def Let_def del: read_string.simps)
  next
    case (Some b)
    from jd_escape_cases [OF this] show ?thesis
    proof
      assume "\<exists>e. b = [CHR 0x5C, e] \<and> short_escape e = Some c"
      then obtain e where "b = [CHR 0x5C, e]" "short_escape e = Some c" by blast
      with True Some read_short show ?thesis by (simp add: id_char_def del: read_string.simps)
    next
      assume 2: "c = CHR 0x0B \<and> b = [CHR 0x5C, CHR ''u'', CHR ''0'', CHR ''0'', CHR ''0'', CHR ''b'']"
      have "hex4 CHR ''0'' CHR ''0'' CHR ''0'' CHR ''b'' = Some 11" by code_simp
      moreover have "(char_of (11 :: nat) :: char) = CHR 0x0B" by code_simp
      ultimately show ?thesis
        using True Some 2 read_unicode [of "CHR ''0''" "CHR ''0''" "CHR ''0''" "CHR ''b''" 11]
        by (simp add: id_char_def del: read_string.simps)
    qed
  qed
qed

lemma read_id_json: "read_string (concat (map id_char a) @ CHR 0x22 # r) = Some (a, r)"
  by (induction a) (simp_all add: read_id_char del: read_string.simps(2), simp)

lemma read_show_nat:
  assumes "r = [] \<or> \<not> is_digit (hd r)"
  shows "read_nat (show_nat n @ r) = Some (n, r)"
proof -
  have d: "takeWhile is_digit r = [] \<and> dropWhile is_digit r = r" using assms by (cases r) auto
  have a: "\<forall>x\<in>set (show_nat n). is_digit x" using show_nat_digits [of n] by (simp add: list_all_iff)
  have "takeWhile is_digit (show_nat n @ r) = show_nat n" "dropWhile is_digit (show_nat n @ r) = r"
    using a d by (simp_all add: takeWhile_append2 dropWhile_append2)
  then show ?thesis by (simp add: read_nat_def)
qed

lemma read_show_int:
  assumes "r = [] \<or> \<not> is_digit (hd r)"
  shows "read_integer (show_int i @ r) = Some (i, r)"
proof (cases "i < 0")
  case True
  then show ?thesis using read_show_nat [OF assms, of "nat (- i)"]
    by (simp add: read_integer_def show_int_def)
next
  case False
  obtain x xs where x: "show_nat (nat i) = x # xs" by (meson list.exhaust show_nat_not_Nil)
  then have "x \<noteq> CHR ''-''" using show_nat_digits [of "nat i"] by (auto simp: is_digit_def)
  with False x show ?thesis using read_show_nat [OF assms, of "nat i"]
    by (simp add: read_integer_def show_int_def)
qed

lemma show_num_int: "show_num (Fin (of_int i)) = show_int i"
  by (simp add: show_rat_def fraction_places_def upt_rec)

text \<open>The first character of a written value tells its kind, and never ends a list.\<close>

fun levels :: "js \<Rightarrow> nat"
  and levels_items :: "js list \<Rightarrow> nat"
  and levels_fields :: "(string \<times> js) list \<Rightarrow> nat" where
  "levels (JArr d) = Suc (levels_items d)"
| "levels (JObj b) = Suc (levels_fields b)"
| "levels JUndef = 1"
| "levels JNull = 1"
| "levels JFun = 1"
| "levels (JBool w) = 1"
| "levels (JNum n) = 1"
| "levels (JStr s) = 1"
| "levels_items [] = 0"
| "levels_items (v # d) = Suc (max (levels v) (levels_items d))"
| "levels_fields [] = 0"
| "levels_fields ((k, v) # b) = Suc (max (levels v) (levels_fields b))"

lemma id_json_length: "2 \<le> length (id_json k)"
  by (simp add: id_json_def)

lemma show_int_not_Nil [simp]: "show_int i \<noteq> []"
  by (simp add: show_int_def)

lemma ed_not_Nil: "ed v \<noteq> []"
proof (cases v)
  case (JNum n)
  then show ?thesis by (cases n) (auto simp: show_rat_def Let_def)
qed (auto simp: id_json_def)

lemma levels_length:
  "normal v \<Longrightarrow> levels v \<le> length (ed v)"
  "list_all normal d \<Longrightarrow> levels_items d \<le> (if e = [] then 1 else 0) + length (ed_items e d)"
  "normal (JObj b) \<Longrightarrow> levels_fields b \<le> length (ed_fields g b)"
proof (induction v and e d and g b rule: ed_ed_items_ed_fields.induct)
  case (5 n)
  then show ?case using ed_not_Nil [of "JNum n"] by (cases "ed (JNum n)") auto
next
  case (10 e d ds)
  have "0 < length (ed d)" using ed_not_Nil [of d] by simp
  with 10 show ?case by (cases e) (auto simp: max_def)
next
  case (12 g d e r)
  have "0 < length (id_json d)" by (simp add: id_json_def)
  with 12 show ?case by (cases e) (auto simp: max_def split: jsnum.splits)
qed (auto simp: id_json_def)

text \<open>What may follow a written value: nothing that continues a number.\<close>

definition ends :: "string \<Rightarrow> bool" where
  "ends r \<longleftrightarrow> r = [] \<or> \<not> is_digit (hd r)"

lemma ends_Cons: "ends (CHR '','' # r)" "ends (CHR '']'' # r)" "ends (CHR ''}'' # r)"
  by (simp_all add: ends_def is_digit_def)

lemma ends_items: "ends (ed_items '','' ds @ CHR '']'' # r)"
  by (cases ds) (simp_all add: ends_Cons)

lemma normal_not_fun: "normal v \<Longrightarrow> \<not> is_fun v"
  by (cases v) auto

lemma ends_fields: "normal (JObj b) \<Longrightarrow> ends (ed_fields '','' b @ CHR ''}'' # r)"
  by (cases "('','', b)" rule: ed_fields.cases) (auto simp: ends_Cons dest: normal_not_fun)

lemma show_int_hd: "hd (show_int i) = CHR ''-'' \<or> is_digit (hd (show_int i))"
proof -
  obtain x xs where "show_nat (nat i) = x # xs" by (meson list.exhaust show_nat_not_Nil)
  then show ?thesis using show_nat_digits [of "nat i"] by (simp add: show_int_def)
qed

lemma normal_num: "normal (JNum n) \<Longrightarrow> \<exists>i. n = Fin (of_int i)"
  by (auto split: jsnum.splits elim: Ints_cases)

lemma ed_hd: "normal v \<Longrightarrow> hd (ed v) \<noteq> CHR '']'' \<and> hd (ed v) \<noteq> CHR ''}''"
proof (cases v)
  case (JNum n)
  assume "normal v"
  with JNum obtain i where "n = Fin (of_int i)" using normal_num by blast
  with JNum show ?thesis using show_int_hd [of i] by (auto simp: show_num_int is_digit_def simp del: show_num.simps)
qed (auto simp: id_json_def)

lemma read_number:
  assumes "ends r"
  shows "read_value (Suc n) (show_int i @ r) = Some (JNum (Fin (of_int i)), r)"
proof -
  obtain c t where s: "show_int i = c # t" by (meson list.exhaust show_int_not_Nil)
  have c: "c = CHR ''-'' \<or> is_digit c" using show_int_hd [of i] s by simp
  have h: "\<not> starts_with (show_int i @ r) (d # p)" if "d \<noteq> CHR ''-''" "\<not> is_digit d" for d p
    using c s that by (auto simp: starts_with_def)
  have "\<not> starts_with (show_int i @ r) ''null''" "\<not> starts_with (show_int i @ r) ''true''"
    "\<not> starts_with (show_int i @ r) ''false''"
    by (rule h; simp add: is_digit_def)+
  moreover have "c \<noteq> CHR ''[''" "c \<noteq> CHR ''{''" "c \<noteq> CHR 0x22" using c by (auto simp: is_digit_def)
  ultimately show ?thesis
    using read_show_int [of r i] assms s by (simp add: ends_def)
qed

lemma ed_items_sep: "ed_items e (d # ds) = e @ ed_items [] (d # ds)"
  by simp

lemma ed_fields_sep: "\<not> is_fun e \<Longrightarrow> ed_fields g ((d, e) # r) = g @ ed_fields [] ((d, e) # r)"
  by simp

lemma read_ed:
  "normal v \<Longrightarrow> levels v \<le> n \<Longrightarrow> ends r \<Longrightarrow> read_value n (ed v @ r) = Some (v, r)"
  "list_all normal d \<Longrightarrow> d \<noteq> [] \<Longrightarrow> levels_items d \<le> n \<Longrightarrow>
    read_items n (ed_items [] d @ CHR '']'' # r) = Some (d, r)"
  "normal (JObj b) \<Longrightarrow> b \<noteq> [] \<Longrightarrow> levels_fields b \<le> n \<Longrightarrow>
    read_fields n (ed_fields [] b @ CHR ''}'' # r) = Some (b, r)"
proof (induction v and d and b arbitrary: n r and n r and n r rule: levels_levels_items_levels_fields.induct)
  case (1 d)
  then obtain m where n: "n = Suc m" "levels_items d \<le> m" by (cases n) auto
  show ?case
  proof (cases d)
    case Nil
    then show ?thesis by (simp add: n)
  next
    case (Cons x d')
    then have x: "normal x" "ed x \<noteq> []" using 1 ed_not_Nil by auto
    have "hd (ed_items [] d @ CHR '']'' # r) \<noteq> CHR '']''" using ed_hd [OF x(1)] x(2) Cons by simp
    with 1 n Cons show ?thesis by simp
  qed
next
  case (2 b)
  then obtain m where n: "n = Suc m" "levels_fields b \<le> m" by (cases n) auto
  show ?case
  proof (cases b)
    case Nil
    then show ?thesis by (simp add: n)
  next
    case (Cons kv b')
    then have "hd (ed_fields [] b @ CHR ''}'' # r) \<noteq> CHR ''}''"
      using 2 by (cases kv) (auto simp: id_json_def dest: normal_not_fun)
    moreover have "ed_fields [] b @ CHR ''}'' # r \<noteq> []" by simp
    ultimately show ?thesis using 2 n Cons by simp
  qed
next
  case (6 w)
  then obtain m where n: "n = Suc m" by (cases n) auto
  show ?case by (cases w) (simp_all add: n starts_with_def)
next
  case (7 w)
  then obtain m where "n = Suc m" by (cases n) auto
  moreover obtain i where "w = Fin (of_int i)" using normal_num [OF 7(1)] by blast
  ultimately
  show ?case using read_number [OF 7(3)] by (simp add: show_num_int del: show_num.simps read_value.simps)
next
  case (10 x d)
  then obtain m where n: "n = Suc m" "levels x \<le> m" "levels_items d \<le> m" by (cases n) auto
  have v: "read_value m (ed x @ ed_items '','' d @ CHR '']'' # r) = Some (x, ed_items '','' d @ CHR '']'' # r)"
    using 10 n by (intro 10(1)) (auto simp: ends_items)
  show ?case
  proof (cases d)
    case Nil
    with v n show ?thesis by simp
  next
    case (Cons y d')
    then have "read_items m (ed_items [] d @ CHR '']'' # r) = Some (d, r)" using 10 n by (intro 10(2)) auto
    moreover have "ed_items '','' d = CHR '','' # ed_items [] d" using Cons by simp
    ultimately show ?thesis using v n by simp
  qed
next
  case (12 k x b)
  then obtain m where n: "n = Suc m" "levels x \<le> m" "levels_fields b \<le> m" by (cases n) auto
  have f: "\<not> is_fun x" using 12 normal_not_fun by auto
  have v: "read_value m (ed x @ ed_fields '','' b @ CHR ''}'' # r) = Some (x, ed_fields '','' b @ CHR ''}'' # r)"
    using 12 n by (intro 12(1)) (auto simp: ends_fields)
  show ?case
  proof (cases b)
    case Nil
    with v n f show ?thesis by (simp add: id_json_def read_id_json)
  next
    case (Cons e b')
    obtain k' x' where e: "e = (k', x')" by (cases e)
    then have f': "\<not> is_fun x'" using 12 Cons normal_not_fun by auto
    have "read_fields m (ed_fields [] b @ CHR ''}'' # r) = Some (b, r)" using 12 n Cons by (intro 12(2)) auto
    with v n f f' Cons e show ?thesis
      by (simp add: id_json_def read_id_json)
  qed
qed (auto simp: id_json_def read_id_json starts_with_def Suc_le_eq gr0_conv_Suc)

lemma json_round: "integral v \<Longrightarrow> json_parse (hd_json v) = Some (as_json v)"
proof -
  assume "integral v"
  then have n: "normal (as_json v)" by (rule normal_as_json)
  have "levels (as_json v) \<le> Suc (length (ed (as_json v)))" using levels_length(1) [OF n] by simp
  from read_ed(1) [OF n this, of "[]"] show ?thesis
    by (simp add: json_parse_def hd_json_def ed_as_json ends_def)
qed

lemma printable_id_char: "x \<in> set (id_char c) \<Longrightarrow> 32 \<le> (of_char x :: nat) \<and> (of_char x :: nat) < 127"
proof (cases "kd_matches c")
  case False
  moreover assume "x \<in> set (id_char c)"
  ultimately show ?thesis by (auto simp: id_char_def kd_matches_def Let_def)
next
  case True
  assume x: "x \<in> set (id_char c)"
  show ?thesis
  proof (cases "jd_escape c")
    case (Some b)
    with True x have "x \<in> set b" by (simp add: id_char_def)
    moreover have "(c, b) \<in> set [(CHR 0x22, [CHR 0x5C, CHR 0x22]), (CHR 0x5C, [CHR 0x5C, CHR 0x5C]), (CHR ''/'', [CHR 0x5C, CHR ''/'']),
       (CHR 0x08, [CHR 0x5C, CHR ''b'']), (CHR 0x0C, [CHR 0x5C, CHR ''f'']), (CHR 0x0A, [CHR 0x5C, CHR ''n'']),
       (CHR 0x0D, [CHR 0x5C, CHR ''r'']), (CHR 0x09, [CHR 0x5C, CHR ''t'']), (CHR 0x0B, [CHR 0x5C, CHR ''u'', CHR ''0'', CHR ''0'', CHR ''0'', CHR ''b''])]"
      using Some unfolding jd_escape_def by (rule map_of_SomeD)
    ultimately show ?thesis by auto
  next
    case None
    have h: "32 \<le> (of_char (hex_lower n) :: nat) \<and> (of_char (hex_lower n) :: nat) < 127" if "n < 16" for n
      using that by (simp add: hex_lower_def nat_of_char_of)
    have "(of_char c :: nat) div 16 < 16" by (intro less_mult_imp_div_less) simp
    with h [of "of_char c div 16"] h [of "of_char c mod 16"] True None x show ?thesis
      by (auto simp: id_char_def Let_def)
  qed
qed

definition printable :: "string \<Rightarrow> bool" where
  "printable s = list_all (\<lambda>c. 32 \<le> (of_char c :: nat) \<and> (of_char c :: nat) < 127) s"

lemma printable_append [simp]: "printable (s @ t) \<longleftrightarrow> printable s \<and> printable t"
  by (simp add: printable_def)

lemma printable_Cons [simp]: "printable (c # t) \<longleftrightarrow> (32 \<le> (of_char c :: nat) \<and> (of_char c :: nat) < 127) \<and> printable t"
  by (simp add: printable_def)

lemma printable_Nil [simp]: "printable []"
  by (simp add: printable_def)

lemma printable_id: "printable (id_json k)"
  using printable_id_char by (auto simp: id_json_def) (auto simp: printable_def list_all_iff)

lemma printable_int: "printable (show_int i)"
proof -
  have "printable (show_nat n)" for n
    using show_nat_digits [of n] by (auto simp: printable_def list_all_iff is_digit_def Let_def)
  then show ?thesis by (simp add: show_int_def)
qed

lemma printable_ed:
  "integral v \<Longrightarrow> printable (ed v)"
  "list_all integral d \<Longrightarrow> printable e \<Longrightarrow> printable (ed_items e d)"
  "list_all (\<lambda>(k, v). integral v) b \<Longrightarrow> printable g \<Longrightarrow> printable (ed_fields g b)"
proof (induction v and e d and g b rule: ed_ed_items_ed_fields.induct)
  case (5 n)
  then show ?case
    by (auto split: jsnum.splits elim!: Ints_cases simp: printable_int show_num_int simp del: show_num.simps)
qed (auto simp: printable_id)

text \<open>C25. The JSON written by \<open>hd\<close> is printable ASCII, and reading it by the grammar of JSON gives the
  value back, functions and undefined as null and properties that are functions left out.\<close>

theorem json_readback:
  assumes "integral v"
  shows "printable (hd_json v) \<and> json_parse (hd_json v) = Some (as_json v)"
  using json_round [OF assms] printable_ed(1) [OF assms] by (simp add: hd_json_def)

theorem json_readback_witness:
  "printable (hd_json (JArr [JNum (Fin (- 7)), JStr [CHR 0x0B, CHR 0xFF], JObj [(''f'', JFun), (''a'', JUndef)]])) \<and>
   json_parse (hd_json (JArr [JNum (Fin (- 7)), JStr [CHR 0x0B, CHR 0xFF], JObj [(''f'', JFun), (''a'', JUndef)]])) =
     Some (as_json (JArr [JNum (Fin (- 7)), JStr [CHR 0x0B, CHR 0xFF], JObj [(''f'', JFun), (''a'', JUndef)]]))"
  by (rule json_readback) simp

end
