(* ===== verification/Survey_Markup.thy ===== *)
theory Survey_Markup
  imports Closure_Text Js_Uri
begin

text \<open>
  The markup of survey questions (prompt_embed_static.js, lines 381 to 389 and 401 to 405): the
  escaping of texts and addresses for HTML (\<open>W\<close>, \<open>X\<close>, \<open>Bq\<close>, \<open>Dq\<close>, \<open>Kq\<close>), the splitting of a question
  into tokens (\<open>sr\<close>, \<open>rr\<close>), their rendering (\<open>jr\<close>, \<open>kr\<close>) and the insertion of earlier answers (\<open>pr\<close>, \<open>or\<close>).

  The main lemmas: tokens are bracketed properly, a rendered question shows exactly its characters
  without the markers, whatever it contains, and a filtered address never has a scheme that runs code.
\<close>

subsection \<open>Escaping of texts and addresses\<close>

text \<open>A value given to a template: a text, or content that is marked as HTML (\<open>Qm\<close>) or as an address
  (\<open>Rm\<close>, \<open>Sm\<close>).\<close>

datatype content = Text string | Html string | Address string

fun content_text :: "content \<Rightarrow> string" where
  "content_text (Text s) = s"
| "content_text (Html s) = s"
| "content_text (Address s) = s"

definition W_html :: "content \<Rightarrow> string" where
  "W_html a = (case a of Html s \<Rightarrow> s | _ \<Rightarrow> yb (content_text a))"

text \<open>\<open>tq\<close>: a tag, after its opening character. Quoted attribute values may hold a \<open>>\<close>.\<close>

fun tag_rest :: "string \<Rightarrow> char option \<Rightarrow> string option" where
  "tag_rest [] q = None"
| "tag_rest (c # s) None =
     (if c = CHR ''>'' then Some s
      else if c = CHR 0x22 \<or> c = CHR 0x27 then tag_rest s (Some c) else tag_rest s None)"
| "tag_rest (c # s) (Some q) = (if c = q then tag_rest s None else tag_rest s (Some q))"

definition is_letter :: "char \<Rightarrow> bool" where
  "is_letter c \<longleftrightarrow> is_upper c \<or> is_lower c"

definition tag_match :: "string \<Rightarrow> string option" where
  "tag_match s =
     (case s of
        [] \<Rightarrow> None
      | c # r \<Rightarrow>
          if c \<noteq> CHR ''<'' then None
          else (case r of
             [] \<Rightarrow> None
           | d # r' \<Rightarrow>
               if d = CHR ''!'' \<or> is_letter d then tag_rest r' None
               else if d = CHR ''/'' \<and> r' \<noteq> [] \<and> is_letter (hd r') then tag_rest (tl r') None
               else None))"

lemma tag_rest_length: "tag_rest s q = Some r \<Longrightarrow> length r < length s"
  by (induction s q rule: tag_rest.induct) (force split: if_splits)+

lemma tag_match_length: "tag_match s = Some r \<Longrightarrow> length r < length s"
  by (auto simp: tag_match_def split: list.splits if_splits dest!: tag_rest_length)

function drop_tags :: "string \<Rightarrow> string" where
  "drop_tags [] = []"
| "drop_tags (c # s) = (case tag_match (c # s) of Some r \<Rightarrow> drop_tags r | None \<Rightarrow> c # drop_tags s)"
  by pat_completeness auto
termination
  by (relation "measure length") (auto dest: tag_match_length)

text \<open>\<open>X\<close>: the value of an attribute. In HTML content the tags are dropped and \<open>vq\<close> escaped by \<open>Hq\<close>.\<close>

definition vq_escape :: "char \<Rightarrow> string" where
  "vq_escape c =
     (if c = CHR 0x00 then ''&#0;'' else if c = CHR 0x22 then ''&quot;'' else if c = CHR 0x27 then ''&#39;''
      else if c = CHR ''<'' then ''&lt;'' else if c = CHR ''>'' then ''&gt;'' else [c])"

definition X_attr :: "content \<Rightarrow> string" where
  "X_attr a =
     (case a of
        Html s \<Rightarrow> concat (map vq_escape (replace_all ''<'' ''&lt;'' (drop_tags s)))
      | _ \<Rightarrow> yb (content_text a))"

text \<open>\<open>zq\<close> and \<open>Iq\<close>: the characters that are percent-encoded in addresses; the table \<open>Iq\<close> holds their
  UTF-8 bytes.\<close>

definition zq_matches :: "char \<Rightarrow> bool" where
  "zq_matches c =
     (let n = (of_char c :: nat)
      in n \<le> 32 \<or> n = 34 \<or> 39 \<le> n \<and> n \<le> 41 \<or> n = 60 \<or> n = 62 \<or> n = 92 \<or> n = 123 \<or> n = 125 \<or>
         n = 127 \<or> n = 133 \<or> n = 160)"

definition xq :: "string \<Rightarrow> string" where
  "xq a = concat (map (\<lambda>c. if zq_matches c then concat (map percent (utf8_bytes c)) else [c]) a)"

text \<open>\<open>yq\<close>: no two dots between slashes in the path; then a scheme of the list, or no colon (and no
  ampersand) before the first slash, question mark or hash.\<close>

definition one_dot :: "string \<Rightarrow> string option" where
  "one_dot s =
     (case s of
        [] \<Rightarrow> None
      | c # r \<Rightarrow> if c = CHR ''.'' then Some r
                 else if to_lower (take 3 s) = ''%2e'' then Some (drop 3 s) else None)"

definition stop_char :: "char \<Rightarrow> bool" where
  "stop_char c \<longleftrightarrow> c = CHR ''/'' \<or> c = CHR ''?'' \<or> c = CHR ''#''"

definition dots_segment :: "string \<Rightarrow> bool" where
  "dots_segment s =
     (case one_dot s of
        None \<Rightarrow> False
      | Some r \<Rightarrow> (case one_dot r of None \<Rightarrow> False | Some t \<Rightarrow> t = [] \<or> stop_char (hd t)))"

fun dots_in_path :: "string \<Rightarrow> bool" where
  "dots_in_path [] = False"
| "dots_in_path (c # s) =
     (if c = CHR ''#'' \<or> c = CHR ''?'' then False
      else c = CHR ''/'' \<and> dots_segment s \<or> dots_in_path s)"

definition no_scheme :: "string \<Rightarrow> bool" where
  "no_scheme s =
     (let r = dropWhile (\<lambda>c. c \<noteq> CHR ''&'' \<and> c \<noteq> CHR '':'' \<and> \<not> stop_char c) s
      in r = [] \<or> stop_char (hd r))"

definition yq_matches :: "string \<Rightarrow> bool" where
  "yq_matches a \<longleftrightarrow>
     \<not> dots_in_path a \<and>
     (starts_with (to_lower a) ''http:'' \<or> starts_with (to_lower a) ''https:'' \<or>
      starts_with (to_lower a) ''mailto:'' \<or> no_scheme a)"

definition Bq :: "content \<Rightarrow> string" where
  "Bq a =
     (case a of
        Address s \<Rightarrow> xq s
      | _ \<Rightarrow> (if yq_matches (content_text a) then xq (content_text a) else ''about:invalid#zSoyz''))"

text \<open>\<open>Kq\<close>: the names of elements that may be written, by \<open>Jq\<close> without regard to case.\<close>

definition Jq_matches :: "string \<Rightarrow> bool" where
  "Jq_matches a \<longleftrightarrow>
     \<not> list_ex (starts_with (to_lower a)) [''base'', ''iframe'', ''link'', ''no'', ''script'', ''style'', ''textarea'', ''title'', ''xmp''] \<and>
     list_all (\<lambda>c. is_letter c \<or> is_digit c \<or> c = CHR ''_'' \<or> c = CHR ''$'' \<or> c = CHR '':'' \<or> c = CHR ''-'') a"

definition Kq :: "string \<Rightarrow> string" where
  "Kq a = (if Jq_matches a then a else ''zSoyz'')"

subsection \<open>Tokens of a question\<close>

datatype token = Value string | Open string | Close string | Pipe string

text \<open>\<open>mr\<close> is \<open>/Q(\d+)_ANSWER/\<close>: the number and the rest after a match at the start of a text.\<close>

definition mr_match :: "string \<Rightarrow> (string \<times> string) option" where
  "mr_match s =
     (case s of
        [] \<Rightarrow> None
      | c # r \<Rightarrow>
          (let n = takeWhile is_digit r; t = dropWhile is_digit r
           in if c = CHR ''Q'' \<and> n \<noteq> [] \<and> starts_with t ''_ANSWER'' then Some (n, drop 7 t) else None))"

lemma mr_match_length: "mr_match s = Some (n, r) \<Longrightarrow> length r < length s"
proof -
  assume "mr_match s = Some (n, r)"
  then obtain c t where "s = c # t" "r = drop 7 (dropWhile is_digit t)"
    by (auto simp: mr_match_def Let_def split: list.splits if_splits)
  then show ?thesis using length_dropWhile_le [of is_digit t] by simp
qed

definition add_value :: "string \<Rightarrow> token list" where
  "add_value s = (if s = [] then [] else [Value s])"

text \<open>\<open>rr\<close>: the text before a placeholder is a value of its own, when there is any.\<close>

function rr_loop :: "string \<Rightarrow> string \<Rightarrow> token list" where
  "rr_loop v [] = add_value v"
| "rr_loop v (c # s) =
     (case mr_match (c # s) of
        Some (n, r) \<Rightarrow> add_value v @ Pipe n # rr_loop [] r
      | None \<Rightarrow> rr_loop (v @ [c]) s)"
  by pat_completeness auto
termination
  by (relation "measure (\<lambda>(v, s). length s)") (auto dest: mr_match_length)

definition rr_split :: "string \<Rightarrow> token list" where
  "rr_split a = rr_loop [] a"

definition qr :: "char \<Rightarrow> string option" where
  "qr k = map_of [(CHR ''_'', ''i''), (CHR ''*'', ''b''), (CHR 0x0A, ''br'')] k"

text \<open>\<open>a.replace("\\n", "\n")\<close> replaces the first occurrence only.\<close>

definition first_newline :: "string \<Rightarrow> string" where
  "first_newline a =
     (case index_of a [CHR 0x5C, CHR ''n''] of
        None \<Rightarrow> a | Some i \<Rightarrow> take i a @ CHR 0x0A # drop (i + 2) a)"

text \<open>The loop of \<open>sr\<close>: the character before (if any), the rest, the buffer \<open>c\<close> and the open tag \<open>d\<close>.\<close>

definition flush :: "string \<Rightarrow> token list" where
  "flush c = (if c = [] then [] else rr_split c)"

definition inside_word :: "char option \<Rightarrow> string \<Rightarrow> string \<Rightarrow> bool" where
  "inside_word p s l \<longleftrightarrow>
     (l = ''i'' \<or> l = ''b'') \<and> p \<noteq> None \<and> s \<noteq> [] \<and> is_word (the p) \<and> is_word (hd s)"

fun sr_loop :: "char option \<Rightarrow> string \<Rightarrow> string \<Rightarrow> string \<Rightarrow> token list" where
  "sr_loop p [] c d = flush c @ (if d \<noteq> [] then [Close d] else [])"
| "sr_loop p (k # s) c d =
     (case qr k of
        None \<Rightarrow> sr_loop (Some k) s (c @ [k]) d
      | Some l \<Rightarrow>
          if inside_word p s l then sr_loop (Some k) s (c @ [k]) d
          else flush c @
            (if l = ''br'' then Open l # sr_loop (Some k) s [] d
             else if d = l then Close l # sr_loop (Some k) s [] []
             else if d = [] then Open l # sr_loop (Some k) s [] l
             else sr_loop (Some k) s [] d))"

definition sr_tokens :: "string \<Rightarrow> token list" where
  "sr_tokens a = (if a = [] then [] else sr_loop None (first_newline a) [] [])"

subsection \<open>Rendering\<close>

definition hr_answer :: "string \<Rightarrow> string" where
  "hr_answer n = ''Q'' @ W_html (Text n) @ ''_ANSWER''"

definition ir_placeholder :: "string \<Rightarrow> string" where
  "ir_placeholder n =
     ''<span class='' @ [CHR 0x22] @ ''t402-piping-placeholder'' @ [CHR 0x22] @ '' data-question-num='' @ [CHR 0x22] @
     X_attr (Text n) @ [CHR 0x22] @ ''>'' @ hr_answer n @ ''</span>''"

fun jr_token :: "bool \<Rightarrow> token \<Rightarrow> string" where
  "jr_token pc (Value v) = W_html (Text v)"
| "jr_token pc (Open v) = ''<'' @ Kq v @ ''>''"
| "jr_token pc (Close v) = ''</'' @ Kq v @ ''>''"
| "jr_token pc (Pipe n) = (if pc then ir_placeholder n else hr_answer n)"

definition jr_html :: "bool \<Rightarrow> token list \<Rightarrow> string" where
  "jr_html pc ts = concat (map (jr_token pc) ts)"

fun kr_token :: "bool \<Rightarrow> token \<Rightarrow> string" where
  "kr_token pc (Value v) = W_html (Text v)"
| "kr_token pc (Open v) = (if v = ''br'' then '' '' else [])"
| "kr_token pc (Close v) = []"
| "kr_token pc (Pipe n) = (if pc then ir_placeholder n else hr_answer n)"

definition kr_plain :: "bool \<Rightarrow> token list \<Rightarrow> string" where
  "kr_plain pc ts = concat (map (kr_token pc) ts)"

subsection \<open>Earlier answers\<close>

text \<open>\<open>or\<close>: the answer for a placeholder, chosen once (at random if there are several) and kept in
  \<open>nr\<close>. \<open>pr\<close> replaces one placeholder after the other. \<open>String.replace\<close> with a text as pattern replaces
  the first occurrence and expands the dollar signs of the replacement.\<close>

datatype pipe_error = No_answer string | Empty_answer

type_synonym answers = "string \<Rightarrow> string list option"

definition or_answer ::
  "(string \<Rightarrow> rat) \<Rightarrow> answers \<Rightarrow> string \<Rightarrow> (string \<Rightarrow> string option) \<Rightarrow> pipe_error + string \<times> (string \<Rightarrow> string option)" where
  "or_answer rnd b a nr =
     (case b a of
        None \<Rightarrow> Inl (No_answer a)
      | Some c \<Rightarrow>
          if c = [] then Inl Empty_answer
          else case nr a of
            Some x \<Rightarrow> Inr (x, nr)
          | None \<Rightarrow>
              (let x = (if length c = 1 then c ! 0 else c ! nat \<lfloor>rnd a * of_nat (length c)\<rfloor>)
               in Inr (x, nr(a \<mapsto> x))))"

fun expand_dollars :: "string \<Rightarrow> string \<Rightarrow> string \<Rightarrow> string \<Rightarrow> string" where
  "expand_dollars l m r (c # e # h) =
     (if c = CHR ''$'' \<and> e = CHR ''$'' then CHR ''$'' # expand_dollars l m r h
      else if c = CHR ''$'' \<and> e = CHR ''&'' then m @ expand_dollars l m r h
      else if c = CHR ''$'' \<and> e = CHR 0x60 then l @ expand_dollars l m r h
      else if c = CHR ''$'' \<and> e = CHR 0x27 then r @ expand_dollars l m r h
      else c # expand_dollars l m r (e # h))"
| "expand_dollars l m r h = h"

definition replace_text :: "string \<Rightarrow> string \<Rightarrow> string \<Rightarrow> string" where
  "replace_text d g h =
     (case index_of d g of
        None \<Rightarrow> d
      | Some i \<Rightarrow> take i d @ expand_dollars (take i d) g (drop (i + length g) d) h @ drop (i + length g) d)"

definition placeholder :: "string \<Rightarrow> string" where
  "placeholder n = ''Q'' @ n @ ''_ANSWER''"

function mr_all :: "string \<Rightarrow> string list" where
  "mr_all [] = []"
| "mr_all (c # s) =
     (case mr_match (c # s) of Some (n, r) \<Rightarrow> placeholder n # mr_all r | None \<Rightarrow> mr_all s)"
  by pat_completeness auto
termination
  by (relation "measure length") (auto dest: mr_match_length)

fun pr_loop ::
  "(string \<Rightarrow> rat) \<Rightarrow> answers \<Rightarrow> string list \<Rightarrow> string \<Rightarrow> (string \<Rightarrow> string option) \<Rightarrow> pipe_error + string \<times> (string \<Rightarrow> string option)" where
  "pr_loop rnd b [] d nr = Inr (d, nr)"
| "pr_loop rnd b (g # c) d nr =
     (case or_answer rnd b g nr of
        Inl e \<Rightarrow> Inl e
      | Inr (h, nr) \<Rightarrow> pr_loop rnd b c (replace_text d g h) nr)"

definition pr_pipe ::
  "(string \<Rightarrow> rat) \<Rightarrow> answers \<Rightarrow> string \<Rightarrow> (string \<Rightarrow> string option) \<Rightarrow> pipe_error + string \<times> (string \<Rightarrow> string option)" where
  "pr_pipe rnd b a nr = pr_loop rnd b (mr_all a) a nr"

subsection \<open>Bracketing\<close>

fun balanced :: "string \<Rightarrow> token list \<Rightarrow> bool" where
  "balanced d [] = (d = [])"
| "balanced d (Open v # ts) = (if v = ''br'' then balanced d ts else d = [] \<and> v \<noteq> [] \<and> balanced v ts)"
| "balanced d (Close v # ts) = (d \<noteq> [] \<and> v = d \<and> balanced [] ts)"
| "balanced d (Value v # ts) = balanced d ts"
| "balanced d (Pipe n # ts) = balanced d ts"

lemma balanced_add_value: "balanced d (add_value v @ ts) = balanced d ts"
  by (simp add: add_value_def)

lemma balanced_rr: "balanced d (rr_loop v s @ ts) = balanced d ts"
  by (induction v s rule: rr_loop.induct) (auto simp: balanced_add_value split: option.splits)

lemma balanced_flush: "balanced d (flush c @ ts) = balanced d ts"
  by (simp add: flush_def rr_split_def balanced_rr)

lemma qr_values: "qr k = Some l \<Longrightarrow> l = ''i'' \<or> l = ''b'' \<or> l = ''br''"
  by (auto simp: qr_def split: if_splits)

lemma balanced_sr: "d \<in> {[], ''i'', ''b''} \<Longrightarrow> balanced d (sr_loop p s c d)"
proof (induction p s c d rule: sr_loop.induct)
  case (1 p c d)
  then show ?case by (auto simp: balanced_flush)
next
  case (2 p k s c d)
  show ?case
  proof (cases "qr k")
    case None
    with 2 show ?thesis by simp
  next
    case (Some l)
    from qr_values [OF Some] 2 Some show ?thesis
      by (simp add: balanced_flush) (elim disjE; simp)
  qed
qed

subsection \<open>What a rendered question shows\<close>

text \<open>The text of a page: its tags dropped, its entities read.\<close>

definition shown :: "string \<Rightarrow> string" where
  "shown s = read_html (drop_tags s)"

text \<open>The characters of a question that are not markers.\<close>

fun kept :: "char option \<Rightarrow> string \<Rightarrow> string" where
  "kept p [] = []"
| "kept p (k # s) =
     (if qr k \<noteq> None \<and> \<not> inside_word p s (the (qr k)) then kept (Some k) s else k # kept (Some k) s)"

fun token_text :: "token \<Rightarrow> string" where
  "token_text (Value v) = v"
| "token_text (Pipe n) = placeholder n"
| "token_text _ = []"

definition tokens_text :: "token list \<Rightarrow> string" where
  "tokens_text ts = concat (map token_text ts)"

lemma tokens_text_simps [simp]:
  "tokens_text [] = []" "tokens_text (t # ts) = token_text t @ tokens_text ts"
  "tokens_text (ts @ us) = tokens_text ts @ tokens_text us"
  by (simp_all add: tokens_text_def)

lemma mr_match_text: "mr_match s = Some (n, r) \<Longrightarrow> s = placeholder n @ r \<and> n \<noteq> [] \<and> list_all is_digit n"
proof -
  assume a: "mr_match s = Some (n, r)"
  then obtain t where s: "s = CHR ''Q'' # t" and n: "n = takeWhile is_digit t" "n \<noteq> []"
    and p: "starts_with (dropWhile is_digit t) ''_ANSWER''" and r: "r = drop 7 (dropWhile is_digit t)"
    by (auto simp: mr_match_def Let_def split: list.splits if_splits)
  have "dropWhile is_digit t = ''_ANSWER'' @ r"
  proof -
    have "take 7 (dropWhile is_digit t) = ''_ANSWER''"
      using p by (simp add: starts_with_def eval_nat_numeral)
    then show ?thesis unfolding r by (metis append_take_drop_id)
  qed
  then have "t = n @ ''_ANSWER'' @ r" using n(1) takeWhile_dropWhile_id [of is_digit t] by simp
  moreover have "list_all is_digit n" unfolding n(1) by (auto simp: list_all_iff dest: set_takeWhileD)
  ultimately show ?thesis using s n(2) by (simp add: placeholder_def)
qed

lemma tokens_text_add_value [simp]: "tokens_text (add_value v) = v"
  by (simp add: add_value_def)

lemma tokens_text_rr: "tokens_text (rr_loop v s) = v @ s"
proof (induction v s rule: rr_loop.induct)
  case (2 v c s)
  then show ?case by (cases "mr_match (c # s)") (auto dest: mr_match_text)
qed simp

lemma tokens_text_flush [simp]: "tokens_text (flush c) = c"
  by (simp add: flush_def rr_split_def tokens_text_rr)

lemma tokens_text_sr: "tokens_text (sr_loop p s c d) = c @ kept p s"
  by (induction p s c d rule: sr_loop.induct) (auto split: option.splits)

lemma drop_tags_text: "CHR ''<'' \<notin> set x \<Longrightarrow> drop_tags (x @ s) = x @ drop_tags s"
  by (induction x) (auto simp: tag_match_def)

lemma yb_append: "yb (s @ t) = yb s @ yb t"
  by (simp add: yb_eq)

lemma yb_no_tag: "CHR ''<'' \<notin> set (yb s)"
  by (auto simp: yb_eq yb_char_def split: if_splits)

fun tag_token :: "token \<Rightarrow> bool" where
  "tag_token (Open v) = (v \<in> {''i'', ''b'', ''br''})"
| "tag_token (Close v) = (v \<in> {''i'', ''b'', ''br''})"
| "tag_token _ = True"

lemma Kq_tags: "Kq ''i'' = ''i''" "Kq ''b'' = ''b''" "Kq ''br'' = ''br''"
  by code_simp+

lemma is_letter_tags: "is_letter CHR ''i''" "is_letter CHR ''b''"
  by code_simp+

lemma hr_answer_yb: "hr_answer n = yb (placeholder n)"
  by (simp add: hr_answer_def placeholder_def W_html_def yb_append) (simp add: yb_eq yb_char_def)

lemma drop_tags_token: "tag_token t \<Longrightarrow> drop_tags (jr_token False t @ s) = yb (token_text t) @ drop_tags s"
proof -
  have "yb [] = []" by (simp add: yb_eq)
  then show "tag_token t \<Longrightarrow> ?thesis"
    by (cases t) (auto simp: W_html_def hr_answer_yb drop_tags_text yb_no_tag Kq_tags tag_match_def is_letter_tags)
qed

lemma drop_tags_jr: "list_all tag_token ts \<Longrightarrow> drop_tags (jr_html False ts) = yb (tokens_text ts)"
proof (induction ts)
  case (Cons t ts)
  then show ?case by (simp add: jr_html_def drop_tags_token yb_append del: jr_token.simps)
qed (simp add: jr_html_def yb_eq)

lemma tag_token_add_value: "list_all tag_token (add_value v)"
  by (simp add: add_value_def)

lemma tag_token_rr: "list_all tag_token (rr_loop v s)"
  by (induction v s rule: rr_loop.induct) (auto simp: tag_token_add_value split: option.splits)

lemma tag_token_sr: "d \<in> {[], ''i'', ''b''} \<Longrightarrow> list_all tag_token (sr_loop p s c d)"
proof (induction p s c d rule: sr_loop.induct)
  case (2 p k s c d)
  have f: "list_all tag_token (flush c)" by (simp add: flush_def rr_split_def tag_token_rr)
  show ?case
  proof (cases "qr k")
    case None
    with 2 show ?thesis by simp
  next
    case (Some l)
    from qr_values [OF Some] 2 Some f show ?thesis by simp (elim disjE; simp)
  qed
qed (auto simp: flush_def rr_split_def tag_token_rr)

lemma question_shown:
  "shown (jr_html False (sr_tokens a)) = (if a = [] then [] else kept None (first_newline a))"
proof -
  have "list_all tag_token (sr_tokens a)" by (simp add: sr_tokens_def tag_token_sr)
  from drop_tags_jr [OF this] show ?thesis
    using read_yb_append [of "tokens_text (sr_tokens a)" "[]"]
    by (simp add: shown_def sr_tokens_def tokens_text_sr)
qed

text \<open>C26. The tokens of a question are bracketed: tags do not nest and every tag opened is closed; and
  the rendered question, read as HTML, shows exactly the characters of the question that are not
  markers, so nothing in a question can be taken for a tag.\<close>

theorem question_markup:
  "balanced [] (sr_tokens a) \<and>
   shown (jr_html False (sr_tokens a)) = (if a = [] then [] else kept None (first_newline a))"
  using balanced_sr [of "[]" None "first_newline a" "[]"] question_shown by (simp add: sr_tokens_def)

subsection \<open>Inserting answers\<close>

lemma pr_loop_error:
  "(\<exists>e. pr_loop rnd b gs d nr = Inl e) \<longleftrightarrow> list_ex (\<lambda>g. b g = None \<or> b g = Some []) gs"
proof (induction gs arbitrary: d nr)
  case (Cons g gs)
  then show ?case
    by (auto simp: or_answer_def Let_def split: option.splits)
qed simp

text \<open>A text in which every \<open>Q\<close> is directly followed by a character that is no digit cannot be part
  of a placeholder; the four patterns that \<open>String.replace\<close> expands start with a dollar sign.\<close>

fun apart :: "string \<Rightarrow> bool" where
  "apart [] \<longleftrightarrow> True"
| "apart (c # s) \<longleftrightarrow> (c = CHR ''Q'' \<longrightarrow> s \<noteq> [] \<and> \<not> is_digit (hd s)) \<and> apart s"

fun no_pattern :: "string \<Rightarrow> bool" where
  "no_pattern (c # e # h) \<longleftrightarrow>
     \<not> (c = CHR ''$'' \<and> (e = CHR ''$'' \<or> e = CHR ''&'' \<or> e = CHR 0x60 \<or> e = CHR 0x27)) \<and> no_pattern (e # h)"
| "no_pattern h \<longleftrightarrow> True"

definition simple_answer :: "string \<Rightarrow> bool" where
  "simple_answer h \<longleftrightarrow> apart h \<and> no_pattern h"

lemma apart_append: "apart x \<Longrightarrow> apart y \<Longrightarrow> apart (x @ y)"
  by (induction x) auto

lemma no_dollar: "CHR ''$'' \<notin> set h \<Longrightarrow> no_pattern h"
  by (induction h rule: no_pattern.induct) auto

lemma expand_simple: "no_pattern h \<Longrightarrow> expand_dollars l m r h = h"
  by (induction l m r h rule: expand_dollars.induct) auto

definition number :: "string \<Rightarrow> bool" where
  "number n \<longleftrightarrow> n \<noteq> [] \<and> list_all is_digit n"

lemma index_of_after:
  assumes "apart x" and "number n"
  shows "index_of (x @ placeholder n @ r) (placeholder n) = Some (length x)"
  using assms(1)
proof (induction x)
  case Nil
  have "starts_with (placeholder n @ r) (placeholder n)" by simp
  then show ?case by (simp only: append_Nil list.size index_of_Some_0)
next
  case (Cons c x)
  obtain d m where n: "n = d # m" "is_digit d" using assms(2) by (cases n) (auto simp: number_def)
  have "take (length (placeholder n)) ((c # x) @ placeholder n @ r) \<noteq> placeholder n"
    using Cons.prems n by (cases x) (auto simp: placeholder_def)
  with Cons show ?case by simp
qed

lemma replace_text_first:
  assumes "apart x" "number n" "simple_answer h"
  shows "replace_text (x @ placeholder n @ r) (placeholder n) h = x @ h @ r"
  using assms by (simp add: replace_text_def index_of_after expand_simple simple_answer_def)

text \<open>The question with each placeholder replaced by what \<open>nr\<close> holds for it.\<close>

fun fill :: "(string \<Rightarrow> string option) \<Rightarrow> token list \<Rightarrow> string" where
  "fill nr [] = []"
| "fill nr (Pipe n # ts) = (case nr (placeholder n) of Some h \<Rightarrow> h | None \<Rightarrow> placeholder n) @ fill nr ts"
| "fill nr (t # ts) = token_text t @ fill nr ts"

fun plain_values :: "token list \<Rightarrow> bool" where
  "plain_values [] = True"
| "plain_values (Value v # ts) = (apart v \<and> plain_values ts)"
| "plain_values (t # ts) = plain_values ts"

fun pipes :: "token list \<Rightarrow> string list" where
  "pipes [] = []"
| "pipes (Pipe n # ts) = placeholder n # pipes ts"
| "pipes (Value v # ts) = pipes ts"
| "pipes (Open v # ts) = pipes ts"
| "pipes (Close v # ts) = pipes ts"

lemma pipes_append [simp]: "pipes (ts @ us) = pipes ts @ pipes us"
  by (induction ts rule: pipes.induct) auto

lemma mr_all_pipes: "mr_all s = pipes (rr_loop v s)"
proof (induction v s rule: rr_loop.induct)
  case (1 v)
  then show ?case by (simp add: add_value_def)
next
  case (2 v c s)
  have "pipes (add_value v) = []" by (simp add: add_value_def)
  with 2 show ?case by (auto split: option.splits)
qed

definition answered :: "answers \<Rightarrow> string \<Rightarrow> bool" where
  "answered b g = (case b g of None \<Rightarrow> False | Some hs \<Rightarrow> hs \<noteq> [] \<and> list_all simple_answer hs)"

definition chance :: "(string \<Rightarrow> rat) \<Rightarrow> bool" where
  "chance rnd \<longleftrightarrow> (\<forall>g. 0 \<le> rnd g \<and> rnd g < 1)"

lemma chance_index: "chance rnd \<Longrightarrow> 0 < n \<Longrightarrow> nat \<lfloor>rnd g * of_nat n\<rfloor> < n"
proof -
  assume a: "chance rnd" "0 < n"
  then have "0 \<le> rnd g" "rnd g < 1" by (simp_all add: chance_def)
  then have "0 \<le> rnd g * of_nat n" "rnd g * of_nat n < of_nat n" using a by simp_all
  then show ?thesis by (simp add: floor_less_iff nat_less_iff)
qed

lemma or_answered:
  assumes "chance rnd" "answered b g"
  obtains h nr' where "or_answer rnd b g nr = Inr (h, nr')" "nr' g = Some h" "nr \<subseteq>\<^sub>m nr'"
    "\<forall>g' h'. nr' g' = Some h' \<longrightarrow> nr g' = Some h' \<or> answered b g' \<and> h' \<in> set (the (b g'))"
proof -
  obtain hs where b: "b g = Some hs" "hs \<noteq> []" using assms(2) by (auto simp: answered_def split: option.splits)
  show thesis
  proof (cases "nr g")
    case (Some x)
    with b have "or_answer rnd b g nr = Inr (x, nr)" by (simp add: or_answer_def)
    with Some show ?thesis by (intro that [of x nr]) auto
  next
    case None
    define x where "x = (if length hs = 1 then hs ! 0 else hs ! nat \<lfloor>rnd g * of_nat (length hs)\<rfloor>)"
    have "x \<in> set hs" using chance_index [OF assms(1), of "length hs" g] b(2) by (auto simp: x_def)
    moreover have "or_answer rnd b g nr = Inr (x, nr(g \<mapsto> x))"
      using b None by (simp add: or_answer_def x_def Let_def)
    ultimately show ?thesis using assms(2) b None
      by (intro that [of x "nr(g \<mapsto> x)"]) (auto simp: map_le_def split: if_splits)
  qed
qed

fun text_piece :: "token \<Rightarrow> bool" where
  "text_piece (Value v) \<longleftrightarrow> True"
| "text_piece (Pipe n) \<longleftrightarrow> number n"
| "text_piece t \<longleftrightarrow> False"

lemma pr_loop_fill:
  assumes "chance rnd" "plain_values ts" "list_all (answered b) (pipes ts)" "list_all text_piece ts"
    and "apart x" "\<forall>g h. nr g = Some h \<longrightarrow> simple_answer h"
  shows "\<exists>nr'. pr_loop rnd b (pipes ts) (x @ tokens_text ts) nr = Inr (x @ fill nr' ts, nr') \<and> nr \<subseteq>\<^sub>m nr' \<and>
    (\<forall>g h. nr' g = Some h \<longrightarrow> nr g = Some h \<or> answered b g \<and> h \<in> set (the (b g))) \<and>
    (\<forall>g\<in>set (pipes ts). nr' g \<noteq> None)"
  using assms
proof (induction ts arbitrary: x nr rule: pipes.induct)
  case 1
  then show ?case by auto
next
  case (2 n ts)
  have an: "answered b (placeholder n)" using 2 by simp
  obtain h nr1 where h: "or_answer rnd b (placeholder n) nr = Inr (h, nr1)" "nr1 (placeholder n) = Some h" "nr \<subseteq>\<^sub>m nr1"
    and nr1: "\<forall>g' h'. nr1 g' = Some h' \<longrightarrow> nr g' = Some h' \<or> answered b g' \<and> h' \<in> set (the (b g'))"
    by (rule or_answered [OF 2(2) an])
  have "answered b g' \<Longrightarrow> h' \<in> set (the (b g')) \<Longrightarrow> simple_answer h'" for g' h'
    by (auto simp: answered_def list_all_iff split: option.splits)
  then have s1: "\<forall>g' h'. nr1 g' = Some h' \<longrightarrow> simple_answer h'" using nr1 2(7) by blast
  then have h1: "simple_answer h" using h(2) by blast
  then have x: "apart (x @ h)" using 2(6) by (simp add: simple_answer_def apart_append)
  have n: "number n" using 2(5) by simp
  have r: "replace_text (x @ placeholder n @ tokens_text ts) (placeholder n) h = (x @ h) @ tokens_text ts"
    using replace_text_first [OF 2(6) n h1] by simp
  have ts: "plain_values ts" "list_all (answered b) (pipes ts)"
    "list_all text_piece ts" using 2(3-5) by simp_all
  obtain nr' where nr': "pr_loop rnd b (pipes ts) ((x @ h) @ tokens_text ts) nr1 = Inr ((x @ h) @ fill nr' ts, nr')"
    "nr1 \<subseteq>\<^sub>m nr'" "\<forall>g h. nr' g = Some h \<longrightarrow> nr1 g = Some h \<or> answered b g \<and> h \<in> set (the (b g))"
    "\<forall>g\<in>set (pipes ts). nr' g \<noteq> None"
    using 2(1) [OF 2(2) ts x s1] by (elim exE conjE)
  have l: "pr_loop rnd b (pipes (Pipe n # ts)) (x @ tokens_text (Pipe n # ts)) nr =
      Inr (x @ h @ fill nr' ts, nr')"
    using h(1) r nr'(1) by simp
  have "nr' (placeholder n) = Some h" using nr'(2) h(2) by (metis domI map_le_def)
  moreover have "nr \<subseteq>\<^sub>m nr'" using h(3) nr'(2) by (rule map_le_trans)
  moreover have "\<forall>g h. nr' g = Some h \<longrightarrow> nr g = Some h \<or> answered b g \<and> h \<in> set (the (b g))"
    using nr'(3) nr1 by blast
  ultimately show ?case using nr'(4) l by (intro exI [of _ nr'] conjI) auto
next
  case (3 v ts)
  have "plain_values ts" "list_all (answered b) (pipes ts)"
    "list_all text_piece ts" "apart (x @ v)" using 3(3-6) by (simp_all add: apart_append)
  from 3(1) [OF 3(2) this 3(7)] show ?case by simp
qed simp_all

lemma rr_loop_kind: "list_all text_piece (rr_loop v s)"
  by (induction v s rule: rr_loop.induct)
    (auto simp: add_value_def number_def dest: mr_match_text split: option.splits)

lemma pr_pipe_fill:
  assumes "chance rnd" "plain_values (rr_split a)" "list_all (answered b) (mr_all a)"
  shows "\<exists>nr. pr_pipe rnd b a Map.empty = Inr (fill nr (rr_split a), nr) \<and>
    list_all (\<lambda>g. nr g \<in> Some ` set (the (b g))) (mr_all a)"
proof -
  have t: "tokens_text (rr_split a) = a" by (simp add: rr_split_def tokens_text_rr)
  have p: "mr_all a = pipes (rr_split a)" unfolding rr_split_def by (rule mr_all_pipes)
  obtain nr where "pr_loop rnd b (mr_all a) a Map.empty = Inr (fill nr (rr_split a), nr)"
    "\<forall>g h. nr g = Some h \<longrightarrow> answered b g \<and> h \<in> set (the (b g))" "\<forall>g\<in>set (mr_all a). nr g \<noteq> None"
    using pr_loop_fill [OF assms(1,2), of b "[]" Map.empty] assms(3) rr_loop_kind t
    by (auto simp: p rr_split_def)
  then show ?thesis by (intro exI [of _ nr]) (fastforce simp: pr_pipe_def list_all_iff)
qed

text \<open>C27. Inserting answers fails exactly when some placeholder has no answer or an empty list of
  answers. If all have answers, every placeholder is replaced by one of its answers, the same one
  wherever it occurs, and the rest of the question is kept. The second part is for questions and
  answers that cannot make up a new placeholder (each \<open>Q\<close> outside the placeholders is directly
  followed, in its piece of text, by a character that is no digit) and for answers without one of
  the patterns (\<open>$&\<close> and the like) that \<open>String.replace\<close> expands.\<close>

theorem answers_inserted:
  assumes "chance rnd" "plain_values (rr_split a)" "list_all (answered b) (mr_all a)"
  shows "(\<exists>nr. pr_pipe rnd b a Map.empty = Inr (fill nr (rr_split a), nr) \<and>
      list_all (\<lambda>g. nr g \<in> Some ` set (the (b g))) (mr_all a)) \<and>
    ((\<exists>e. pr_pipe rnd b' a nr' = Inl e) = list_ex (\<lambda>g. b' g = None \<or> b' g = Some []) (mr_all a))"
  using pr_pipe_fill [OF assms] pr_loop_error [of rnd b' "mr_all a" a nr'] by (simp add: pr_pipe_def)

definition sample_answers :: answers where
  "sample_answers = [''Q1_ANSWER'' \<mapsto> [''tea'', ''milk'']]"

theorem answers_inserted_witness:
  "(\<exists>nr. pr_pipe (\<lambda>g. 1 / 2) sample_answers ''FAQ: why Q1_ANSWER?'' Map.empty = Inr (fill nr (rr_split ''FAQ: why Q1_ANSWER?''), nr) \<and>
      list_all (\<lambda>g. nr g \<in> Some ` set (the (sample_answers g))) (mr_all ''FAQ: why Q1_ANSWER?'')) \<and>
    ((\<exists>e. pr_pipe (\<lambda>g. 1 / 2) Map.empty ''FAQ: why Q1_ANSWER?'' Map.empty = Inl e) =
      list_ex (\<lambda>g. (Map.empty :: answers) g = None \<or> (Map.empty :: answers) g = Some []) (mr_all ''FAQ: why Q1_ANSWER?''))"
proof (rule answers_inserted)
  show "chance (\<lambda>g. 1 / 2)" by (simp add: chance_def)
  have r: "rr_split ''FAQ: why Q1_ANSWER?'' = [Value ''FAQ: why '', Pipe ''1'', Value ''?'']" by code_simp
  show "plain_values (rr_split ''FAQ: why Q1_ANSWER?'')" unfolding r by (simp add: is_digit_def)
  have m: "mr_all ''FAQ: why Q1_ANSWER?'' = [''Q1_ANSWER'']" by code_simp
  show "list_all (answered sample_answers) (mr_all ''FAQ: why Q1_ANSWER?'')"
    unfolding m by (simp add: answered_def sample_answers_def simple_answer_def is_digit_def)
qed

subsection \<open>Filtered addresses\<close>

text \<open>The scheme of an address: what is before its first colon, unless a slash, question mark or hash
  comes first.\<close>

definition url_scheme :: "string \<Rightarrow> string option" where
  "url_scheme s =
     (let p = takeWhile (\<lambda>c. c \<noteq> CHR '':'') s
      in if CHR '':'' \<in> set s \<and> list_all (\<lambda>c. \<not> stop_char c) p then Some (to_lower p) else None)"

lemma xq_append: "xq (s @ t) = xq s @ xq t"
  by (simp add: xq_def)

lemma escaped_char: "x \<in> set (concat (map percent (utf8_bytes c))) \<Longrightarrow> x = CHR ''%'' \<or> is_alnum x"
  by (auto dest!: percent_chars [rotated] utf8_bytes_range)

lemma xq_chars: "x \<in> set (xq a) \<Longrightarrow> x = CHR ''%'' \<or> is_alnum x \<or> x \<in> set a \<and> \<not> zq_matches x"
  using escaped_char by (auto simp: xq_def split: if_splits)

lemma alnum_safe: "is_alnum x \<Longrightarrow> \<not> zq_matches x \<and> x \<noteq> CHR '':'' \<and> \<not> stop_char x"
  by (auto simp: is_alnum_def is_digit_def is_upper_def is_lower_def zq_matches_def stop_char_def Let_def)

lemma percent_safe: "\<not> zq_matches CHR ''%'' \<and> \<not> stop_char CHR ''%''"
  by (simp add: zq_matches_def stop_char_def)

lemma xq_clean: "list_all (\<lambda>c. \<not> zq_matches c) (xq a)"
  using xq_chars alnum_safe percent_safe by (auto simp: list_all_iff)

lemma lower_letter: "is_lower (lower_char c) \<Longrightarrow> (of_char c :: nat) < 128 \<Longrightarrow> is_alnum c"
  by (auto simp: is_alnum_def is_lower_def is_upper_def lower_char_def Let_def split: if_splits)

lemma lower_ascii: "is_lower (lower_char c) \<Longrightarrow> (of_char c :: nat) < 128"
proof (rule ccontr)
  assume l: "is_lower (lower_char c)" and "\<not> (of_char c :: nat) < 128"
  then have n: "128 \<le> (of_char c :: nat)" by simp
  have "(of_char c :: nat) < 256" by simp
  with n have "128 \<le> (of_char (lower_char c) :: nat)"
    by (auto simp: lower_char_def Let_def nat_of_char_of)
  with l show False by (simp add: is_lower_def)
qed

lemma lower_colon: "lower_char c = CHR '':'' \<Longrightarrow> c = CHR '':''"
proof (rule ccontr)
  assume c: "lower_char c = CHR '':''" "c \<noteq> CHR '':''"
  let ?n = "of_char c :: nat"
  have "lower_char c = char_of (?n + 32)" "65 \<le> ?n \<and> ?n \<le> 90 \<or> 192 \<le> ?n \<and> ?n \<le> 222"
    using c by (auto simp: lower_char_def Let_def split: if_splits)
  moreover have "of_char (lower_char c) = (58 :: nat)" unfolding c(1) by simp
  ultimately show False by (auto simp: nat_of_char_of)
qed

lemma xq_alnum: "\<forall>d\<in>set x. is_alnum d \<Longrightarrow> xq x = x"
  using alnum_safe by (induction x) (auto simp: xq_def)

lemma listed_scheme:
  assumes "starts_with (to_lower s) (p @ '':'')" "list_all is_lower p"
  shows "url_scheme (xq s) = Some p"
proof -
  let ?n = "length p"
  have t: "take (Suc ?n) (to_lower s) = p @ '':''" using assms(1) by (simp add: starts_with_def)
  have l: "?n < length s" using arg_cong [OF t, of length] by simp
  define x c r where "x = take ?n s" and "c = s ! ?n" and "r = drop (Suc ?n) s"
  have s: "s = x @ c # r" and n: "length x = ?n" using l by (simp_all add: x_def c_def r_def id_take_nth_drop)
  have "map lower_char x @ [lower_char c] = p @ '':''"
    using t n unfolding s to_lower_def by simp
  then have x: "to_lower x = p" "c = CHR '':''" using n lower_colon by (simp_all add: to_lower_def)
  have al: "\<forall>d\<in>set x. is_alnum d"
    using assms(2) lower_letter lower_ascii by (auto simp: list_all_iff to_lower_def simp flip: x(1))
  have "xq (c # r) = c # xq r" by (simp add: x(2) xq_def zq_matches_def)
  then have q: "xq s = x @ CHR '':'' # xq r" unfolding s xq_append by (simp add: x(2) xq_alnum [OF al])
  have "takeWhile (\<lambda>c. c \<noteq> CHR '':'') (x @ CHR '':'' # xq r) = x"
    using al alnum_safe by (subst takeWhile_append2) auto
  moreover have "list_all (\<lambda>c. \<not> stop_char c) x" using al alnum_safe by (auto simp: list_all_iff)
  ultimately show ?thesis unfolding q url_scheme_def by (simp add: x(1))
qed

lemma unlisted_scheme: "no_scheme s \<Longrightarrow> url_scheme (xq s) = None"
proof -
  let ?Q = "\<lambda>c. c \<noteq> CHR ''&'' \<and> c \<noteq> CHR '':'' \<and> \<not> stop_char c"
  define t r where "t = takeWhile ?Q s" and "r = dropWhile ?Q s"
  assume "no_scheme s"
  then have r: "r = [] \<or> stop_char (hd r)" by (simp add: no_scheme_def Let_def r_def)
  have s: "xq s = xq t @ xq r" by (simp add: t_def r_def flip: xq_append)
  have "\<forall>c\<in>set t. ?Q c" unfolding t_def by (auto dest: set_takeWhileD)
  then have tq: "\<forall>c\<in>set (xq t). c \<noteq> CHR '':'' \<and> \<not> stop_char c"
    using xq_chars alnum_safe percent_safe by fastforce
  show ?thesis
  proof (cases r)
    case Nil
    have "xq [] = []" by (simp add: xq_def)
    with Nil tq show ?thesis unfolding s by (auto simp: url_scheme_def Let_def)
  next
    case (Cons c r')
    then have c: "stop_char c" using r by simp
    then have x: "xq r = c # xq r'" "c \<noteq> CHR '':''" using Cons by (auto simp: xq_def stop_char_def zq_matches_def)
    have "takeWhile (\<lambda>c. c \<noteq> CHR '':'') (xq t @ c # xq r') = xq t @ c # takeWhile (\<lambda>c. c \<noteq> CHR '':'') (xq r')"
      using tq x(2) by (subst takeWhile_append2) auto
    with c show ?thesis unfolding s x(1) url_scheme_def by simp
  qed
qed

text \<open>C28. An address that passes through the filter \<open>Bq\<close> has a scheme of the list or none, so it
  cannot run code, and none of the characters that end an attribute or that browsers drop.\<close>

theorem address_filtered:
  "url_scheme (Bq (Text s)) \<in> {None, Some ''http'', Some ''https'', Some ''mailto'', Some ''about''} \<and>
   list_all (\<lambda>c. \<not> zq_matches c) (Bq (Text s))"
proof -
  have "url_scheme ''about:invalid#zSoyz'' = Some ''about''" "list_all (\<lambda>c. \<not> zq_matches c) ''about:invalid#zSoyz''"
    by code_simp+
  moreover have "list_all is_lower ''http''" "list_all is_lower ''https''" "list_all is_lower ''mailto''"
    by code_simp+
  ultimately show ?thesis
    using listed_scheme [of s "''http''"] listed_scheme [of s "''https''"] listed_scheme [of s "''mailto''"]
      unlisted_scheme [of s] xq_clean [of s]
    by (auto simp: Bq_def yq_matches_def)
qed

end
