(* ===== verification/Survey_Questions.thy ===== *)
theory Survey_Questions
  imports Survey_Markup
begin

text \<open>
  The questions of a survey (prompt_embed_static.js, lines 424 and 482 to 513): the common handler of
  an answer \<open>Y.ua\<close> with its guard against quick clicks and its thresholds, numeric questions \<open>Ls\<close>,
  suggestions \<open>Ks\<close>, multiple choice with none-of-the-above \<open>Ds\<close>, and ratings \<open>Ys\<close>. The elements of the
  page are given by what the handlers read from them (values, indices, checks).

  The main lemmas: an answer is passed on only after the guards and only with an allowed threshold
  answer; numbers are accepted exactly within their bounds; none-of-the-above excludes all others.
\<close>

subsection \<open>Questions\<close>

text \<open>A response value is a single text or a list of them.\<close>

datatype rvalue = One string | Many "string list"

fun rvalues :: "rvalue \<Rightarrow> string list" where
  "rvalues (One s) = [s]"
| "rvalues (Many xs) = xs"

text \<open>The text of a response value when the code compares it with a text.\<close>

fun rtext :: "rvalue \<Rightarrow> string" where
  "rtext (One s) = s"
| "rtext (Many xs) = join_with '','' xs"

record question =
  q_type :: string
  q_text :: string
  q_B :: "token list"
  q_sa :: "string list"
  q_qc :: "string list"
  q_truth :: string
  q_group :: "string option"
  q_tag :: string
  q_position :: int
  q_gb :: int
  q_oi :: int
  q_Uc :: "int option"
  q_fe :: bool
  q_allow :: bool
  q_response :: "(string \<times> rvalue) list"
  q_V :: "(string \<times> string) list"

definition set_V :: "string \<Rightarrow> string \<Rightarrow> question \<Rightarrow> question" where
  "set_V k v q = q\<lparr>q_V := dict_set k v (q_V q)\<rparr>"

definition set_response :: "string \<Rightarrow> rvalue \<Rightarrow> question \<Rightarrow> question" where
  "set_response k v q = q\<lparr>q_response := dict_set k v (q_response q)\<rparr>"

text \<open>\<open>vs\<close>, \<open>Sk\<close> of \<open>Y\<close> and of \<open>Ds\<close>.\<close>

definition vs_thresholds :: "question \<Rightarrow> bool" where
  "vs_thresholds q \<longleftrightarrow> q_qc q \<noteq> []"

definition Sk_fails :: "question \<Rightarrow> string list \<Rightarrow> string list \<Rightarrow> bool" where
  "Sk_fails q a b =
     (let c = vs_thresholds q \<and> b = []
      in if q_type q = ''multi-select'' \<or> q_type q = ''multi-select-with-image''
         then (if c \<and> a = [] \<and> cb_has (q_qc q) ''None of the above'' then False else c)
         else c)"

definition piped_type :: "string \<Rightarrow> bool" where
  "piped_type t \<longleftrightarrow> t \<in> {''multi'', ''multi-with-image'', ''multi-select'', ''multi-select-with-image'', ''dropdown-with-image''}"

text \<open>What \<open>ua\<close> dispatches: the warning about a quick click, a failed threshold, or the response with
  the answers to be inserted in later questions.\<close>

datatype outcome = Spammy | Failed_threshold | Response "string list option"

definition Y_reset :: "int \<Rightarrow> question \<Rightarrow> question" where
  "Y_reset now q = q\<lparr>q_Uc := Some now\<rparr>"

definition elapsed :: "int \<Rightarrow> question \<Rightarrow> int" where
  "elapsed now q = max 0 (now - (case q_Uc q of Some u \<Rightarrow> u | None \<Rightarrow> 0))"

definition Y_warned :: "int \<Rightarrow> question \<Rightarrow> question" where
  "Y_warned c q = set_V ''sc'' (show_int c) (q\<lparr>q_fe := False\<rparr>)"

definition Y_recorded :: "int \<Rightarrow> rvalue \<Rightarrow> rvalue \<Rightarrow> question \<Rightarrow> question" where
  "Y_recorded c v i q = set_response ''i'' i (set_response ''r'' v (set_V ''d'' (show_int c) q))"

definition Y_outcome :: "string list \<Rightarrow> question \<Rightarrow> outcome" where
  "Y_outcome a q =
     (let b = (if vs_thresholds q then filter (cb_has a) (q_qc q) else a)
      in if Sk_fails q a b then Failed_threshold
         else if piped_type (q_type q) \<and> list_all (\<lambda>s. mr_all s = []) (q_sa q) then Response (Some b)
         else Response None)"

definition Y_ua :: "int \<Rightarrow> bool \<Rightarrow> rvalue \<Rightarrow> rvalue \<Rightarrow> question \<Rightarrow> outcome \<times> question" where
  "Y_ua now force v i q =
     (let c = elapsed now q
      in if q_fe q \<and> q_allow q \<and> c < 1500 \<or> force then (Spammy, Y_warned c q)
         else if q_fe q \<and> q_truth q \<noteq> [] \<and> q_truth q \<noteq> rtext v then (Spammy, Y_warned c q)
         else (Y_outcome (rvalues v) q, Y_recorded c v i q))"

lemma Y_warned_simps [simp]:
  "q_fe (Y_warned c q) = False" "q_response (Y_warned c q) = q_response q"
  by (simp_all add: Y_warned_def set_V_def)

lemma Y_recorded_simps [simp]:
  "map_of (q_response (Y_recorded c v i q)) ''r'' = Some v"
  "map_of (q_response (Y_recorded c v i q)) ''i'' = Some i" "q_fe (Y_recorded c v i q) = q_fe q"
  by (simp_all add: Y_recorded_def set_V_def set_response_def map_of_dict_set)

lemma Y_outcome_response:
  "Y_outcome a q = Response e \<Longrightarrow> q_qc q = [] \<or> set a \<inter> set (q_qc q) \<noteq> {} \<or> a = [] \<and> ''None of the above'' \<in> set (q_qc q)"
  by (auto simp: Y_outcome_def Let_def Sk_fails_def vs_thresholds_def filter_empty_conv split: if_splits)

lemma Y_outcome_failed:
  "Y_outcome a q = Failed_threshold \<Longrightarrow> q_qc q \<noteq> [] \<and> set a \<inter> set (q_qc q) = {}"
  by (auto simp: Y_outcome_def Let_def Sk_fails_def vs_thresholds_def filter_empty_conv split: if_splits)

lemma Y_outcome_not_spammy [simp]: "Y_outcome a q \<noteq> Spammy"
  by (simp add: Y_outcome_def Let_def)

subsection \<open>Numbers\<close>

text \<open>\<open>Ls\<close>: the limits are numbers or absent; dollar signs and commas are dropped from the answer.\<close>

record limits =
  l_Yh :: "jsnum option"
  l_Uh :: "jsnum option"

definition qm_number :: "string \<Rightarrow> string" where
  "qm_number a = filter (\<lambda>c. c \<noteq> CHR ''$'' \<and> c \<noteq> CHR '','') a"

datatype warning = EMPTY | Nl | Gl | Fl

definition Ns :: "limits \<Rightarrow> string \<Rightarrow> warning option" where
  "Ns l b =
     (if b = [] \<or> b = ''-'' then Some EMPTY
      else
        let c = js_number b; c = (if num_eq c (Fin 0) \<and> nb_blank b then NaN else c)
        in if c = NaN then Some Nl
           else if (case l_Yh l of None \<Rightarrow> False | Some y \<Rightarrow> num_less c y) then Some Gl
           else if (case l_Uh l of None \<Rightarrow> False | Some u \<Rightarrow> num_less u c) then Some Fl
           else None)"

definition eg_numeric :: "limits \<Rightarrow> string \<Rightarrow> bool" where
  "eg_numeric l a \<longleftrightarrow> Ns l a = None"

text \<open>The limit named in the warning, and \<open>Ms\<close>.\<close>

definition warning_limit :: "limits \<Rightarrow> warning \<Rightarrow> jsnum option" where
  "warning_limit l w = (case w of Gl \<Rightarrow> l_Yh l | Fl \<Rightarrow> l_Uh l | _ \<Rightarrow> None)"

fun Ms :: "warning \<Rightarrow> string" where
  "Ms EMPTY = ''empty''"
| "Ms Nl = ''not-numeric''"
| "Ms Gl = ''below-range''"
| "Ms Fl = ''above-range''"

text \<open>\<open>Sa\<close> of \<open>Ls\<close>: where the unit of the answer is written.\<close>

definition units_place :: "string \<Rightarrow> string \<Rightarrow> string \<times> string" where
  "units_place u p =
     (if u \<noteq> [] then (if p \<noteq> [] then (if p = ''before'' then (u, []) else if p = ''after'' then ([], u) else ([], [])) else ([], []))
      else ([], []))"

subsection \<open>Suggestions\<close>

definition Ur_answer :: "string \<Rightarrow> bool \<Rightarrow> bool" where
  "Ur_answer a b =
     (let a = to_lower (filter (\<lambda>c. \<not> (is_space c \<or> c = CHR ''.'' \<or> c = CHR '','' \<or> c = CHR '';'')) a)
      in b \<or> 0 < length a)"

definition Ks_eg :: "(string list \<times> bool) option \<Rightarrow> bool \<Rightarrow> string \<Rightarrow> bool" where
  "Ks_eg sug P a =
     (case sug of
        Some (xs, True) \<Rightarrow> (if a \<notin> set xs then False else Ur_answer a P)
      | _ \<Rightarrow> Ur_answer a P)"

subsection \<open>Multiple choice\<close>

text \<open>\<open>Ds\<close>: the checks of the rows in order (value and check), that of none-of-the-above if the
  question has it, the text of the other answer, and whether the button is enabled. \<open>Pn\<close> handles a click
  on a row (\<open>Some i\<close>) or on none-of-the-above (\<open>None\<close>); \<open>own\<close> tells that the browser has already
  toggled the check itself.\<close>

record checks =
  k_rows :: "(string \<times> bool) list"
  k_none :: "bool option"
  k_other :: "string option"
  k_P :: bool
  k_enabled :: bool
  k_Bn :: int

definition Ds_Qb :: "checks \<Rightarrow> string list" where
  "Ds_Qb k =
     map fst (filter snd (k_rows k)) @
     (case k_other k of None \<Rightarrow> [] | Some t \<Rightarrow> if Ur_answer t (k_P k) then [t] else [])"

definition Ds_wl :: "checks \<Rightarrow> checks" where
  "Ds_wl k = k\<lparr>k_enabled := \<not> (k_none k \<noteq> Some True \<and> Ds_Qb k = [])\<rparr>"

definition Fs_row :: "nat \<Rightarrow> bool \<Rightarrow> checks \<Rightarrow> checks" where
  "Fs_row i c k = k\<lparr>k_rows := (k_rows k)[i := (fst (k_rows k ! i), c)]\<rparr>"

definition row_checked :: "nat option \<Rightarrow> checks \<Rightarrow> bool" where
  "row_checked a k = (case a of Some i \<Rightarrow> snd (k_rows k ! i) | None \<Rightarrow> k_none k = Some True)"

definition set_row :: "nat option \<Rightarrow> bool \<Rightarrow> checks \<Rightarrow> checks" where
  "set_row a c k = (case a of Some i \<Rightarrow> Fs_row i c k | None \<Rightarrow> k\<lparr>k_none := Some c\<rparr>)"

definition Ds_Pn :: "nat option \<Rightarrow> int option \<Rightarrow> checks \<Rightarrow> checks" where
  "Ds_Pn a cvox k =
     (if cvox \<noteq> None \<and> the cvox - k_Bn k < 300 then k
      else
        let k = (case cvox of Some t \<Rightarrow> k\<lparr>k_Bn := t\<rparr> | None \<Rightarrow> k);
            c = \<not> row_checked a k;
            k = set_row a c k;
            k = (if \<not> c then k
                 else if a = None then k\<lparr>k_rows := map (\<lambda>(v, b). (v, False)) (k_rows k)\<rparr>
                 else if k_none k \<noteq> None then k\<lparr>k_none := Some False\<rparr> else k)
        in Ds_wl k)"

definition exclusive :: "checks \<Rightarrow> bool" where
  "exclusive k \<longleftrightarrow> (k_none k = Some True \<longrightarrow> list_all (\<lambda>(v, b). \<not> b) (k_rows k))"

definition submittable :: "checks \<Rightarrow> bool" where
  "submittable k \<longleftrightarrow> k_enabled k = (k_none k = Some True \<or> Ds_Qb k \<noteq> [])"

fun clicks_ok :: "nat \<Rightarrow> bool \<Rightarrow> (nat option \<times> int option) list \<Rightarrow> bool" where
  "clicks_ok n has [] = True"
| "clicks_ok n has ((a, t) # cs) = ((case a of Some i \<Rightarrow> i < n | None \<Rightarrow> has) \<and> clicks_ok n has cs)"

definition Ds_clicks :: "(nat option \<times> int option) list \<Rightarrow> checks \<Rightarrow> checks" where
  "Ds_clicks cs k = fold (\<lambda>(a, t) k. Ds_Pn a t k) cs k"

subsection \<open>Ratings\<close>

text \<open>\<open>Ys.ua\<close>: the event is the button (\<open>None\<close>) or a change of the rating to a star index (-1 for none).
  \<open>la\<close> tells whether the question has a button; \<open>Ph\<close> is the remembered change. The result is the star
  index given on to \<open>Y.ua\<close>, if any; a click on the button without a remembered change is an error, as
  the button has no rating.\<close>

datatype rated = Waits | Gives int | Not_a_rating

record rating =
  r_la :: bool
  r_Ph :: "int option"

definition Ys_ua :: "int option \<Rightarrow> rating \<Rightarrow> rated \<times> rating" where
  "Ys_ua a r =
     (case a of
        None \<Rightarrow> (case r_Ph r of Some fc \<Rightarrow> (Gives fc, r) | None \<Rightarrow> (Not_a_rating, r))
      | Some fc \<Rightarrow>
          if fc = -1 then (Waits, r\<lparr>r_Ph := None\<rparr>)
          else if r_la r then (Waits, r\<lparr>r_Ph := Some fc\<rparr>)
          else (Gives fc, r))"

definition Ys_value :: "int \<Rightarrow> rvalue \<times> rvalue" where
  "Ys_value fc = (One (show_int (fc + 1)), One (show_int fc))"

subsection \<open>Properties\<close>

text \<open>C30. An answer is passed on only when it is not too quick and matches the expected answer while
  the guard is set, it is recorded with its index, and a question with thresholds passes only answers
  among them (or no answer at all where none-of-the-above is one). A warning switches the guard off,
  so the same question warns at most once.\<close>

theorem answer_guards:
  assumes "Y_ua now False v i q = (r, q')"
  shows "(case r of
      Response e \<Rightarrow>
        (\<not> q_fe q \<or> (\<not> q_allow q \<or> 1500 \<le> elapsed now q) \<and> (q_truth q = [] \<or> q_truth q = rtext v)) \<and>
        map_of (q_response q') ''r'' = Some v \<and> map_of (q_response q') ''i'' = Some i \<and>
        (q_qc q = [] \<or> set (rvalues v) \<inter> set (q_qc q) \<noteq> {} \<or>
          rvalues v = [] \<and> ''None of the above'' \<in> set (q_qc q))
    | Failed_threshold \<Rightarrow> q_qc q \<noteq> [] \<and> set (rvalues v) \<inter> set (q_qc q) = {}
    | Spammy \<Rightarrow> q_fe q \<and> \<not> q_fe q' \<and> q_response q' = q_response q)"
proof -
  have q: "(Spammy, Y_warned (elapsed now q) q) = (r, q') \<and> q_fe q \<or>
    (Y_outcome (rvalues v) q, Y_recorded (elapsed now q) v i q) = (r, q') \<and>
    (\<not> q_fe q \<or> (\<not> q_allow q \<or> 1500 \<le> elapsed now q) \<and> (q_truth q = [] \<or> q_truth q = rtext v))"
    using assms by (auto simp: Y_ua_def Let_def split: if_splits)
  then show ?thesis
    using Y_outcome_response [of "rvalues v" q] Y_outcome_failed [of "rvalues v" q]
    by (cases r) auto
qed

definition sample_question :: question where
  "sample_question =
     \<lparr>q_type = ''multi'', q_text = ''Tea?'', q_B = [], q_sa = [''yes'', ''no''], q_qc = [''yes''], q_truth = [],
      q_group = None, q_tag = [], q_position = 1, q_gb = 2, q_oi = 1, q_Uc = Some 0, q_fe = True, q_allow = True,
      q_response = [], q_V = []\<rparr>"

theorem answer_guards_witness:
  "case fst (Y_ua 2000 False (One ''yes'') (One ''0'') sample_question) of
      Response e \<Rightarrow>
        (\<not> q_fe sample_question \<or> (\<not> q_allow sample_question \<or> 1500 \<le> elapsed 2000 sample_question) \<and>
          (q_truth sample_question = [] \<or> q_truth sample_question = rtext (One ''yes''))) \<and>
        map_of (q_response (snd (Y_ua 2000 False (One ''yes'') (One ''0'') sample_question))) ''r'' = Some (One ''yes'') \<and>
        map_of (q_response (snd (Y_ua 2000 False (One ''yes'') (One ''0'') sample_question))) ''i'' = Some (One ''0'') \<and>
        (q_qc sample_question = [] \<or> set (rvalues (One ''yes'')) \<inter> set (q_qc sample_question) \<noteq> {} \<or>
          rvalues (One ''yes'') = [] \<and> ''None of the above'' \<in> set (q_qc sample_question))
    | Failed_threshold \<Rightarrow> q_qc sample_question \<noteq> [] \<and> set (rvalues (One ''yes'')) \<inter> set (q_qc sample_question) = {}
    | Spammy \<Rightarrow> q_fe sample_question \<and> \<not> q_fe (snd (Y_ua 2000 False (One ''yes'') (One ''0'') sample_question)) \<and>
        q_response (snd (Y_ua 2000 False (One ''yes'') (One ''0'') sample_question)) = q_response sample_question"
  by (rule answer_guards) simp

fun num_between :: "jsnum option \<Rightarrow> jsnum \<Rightarrow> jsnum option \<Rightarrow> bool" where
  "num_between l c u =
     (c \<noteq> NaN \<and> (case l of None \<Rightarrow> True | Some y \<Rightarrow> \<not> num_less c y) \<and> (case u of None \<Rightarrow> True | Some y \<Rightarrow> \<not> num_less y c))"

lemma Ns_none:
  "Ns l b = None \<longleftrightarrow> \<not> nb_blank b \<and> num_between (l_Yh l) (js_number b) (l_Uh l)"
proof -
  have "js_number ''-'' = NaN" by code_simp
  moreover have "nb_blank b \<Longrightarrow> js_number b = Fin 0"
  proof -
    assume "nb_blank b"
    then have "dropWhile is_space b = []" unfolding nb_blank_def by (induction b) auto
    then have "trim b = []" by (simp only: trim_def list.simps rev.simps dropWhile.simps)
    then show "js_number b = Fin 0" by (simp add: js_number_def)
  qed
  ultimately show ?thesis
    by (auto simp: Ns_def Let_def nb_blank_def num_eq_def split: option.splits if_splits)
qed

lemma exclusive_Pn:
  assumes "exclusive k" "case a of Some i \<Rightarrow> i < length (k_rows k) | None \<Rightarrow> k_none k \<noteq> None"
  shows "exclusive (Ds_Pn a t k)"
proof (cases a)
  case None
  with assms show ?thesis
    by (auto simp: exclusive_def Ds_Pn_def Ds_wl_def Let_def set_row_def row_checked_def list_all_iff
        split: option.splits)
next
  case (Some i)
  show ?thesis
  proof (cases "k_none k = Some True")
    case True
    then have "\<not> snd (k_rows k ! i)" using assms Some by (auto simp: exclusive_def list_all_length split_beta)
    with Some True show ?thesis
      using assms(1)
      by (cases t) (auto simp: exclusive_def Ds_Pn_def Ds_wl_def Let_def set_row_def Fs_row_def row_checked_def)
  next
    case False
    with Some show ?thesis
      by (cases t) (auto simp: exclusive_def Ds_Pn_def Ds_wl_def Let_def set_row_def Fs_row_def row_checked_def)
  qed
qed

lemma Ds_wl_simps [simp]:
  "k_rows (Ds_wl k) = k_rows k" "k_none (Ds_wl k) = k_none k" "k_other (Ds_wl k) = k_other k"
  "k_P (Ds_wl k) = k_P k" "Ds_Qb (Ds_wl k) = Ds_Qb k"
  by (simp_all add: Ds_wl_def Ds_Qb_def split: option.split)

lemma submittable_wl: "submittable (Ds_wl k)"
  unfolding submittable_def Ds_wl_simps by (auto simp: Ds_wl_def)

lemma submittable_Pn: "submittable k \<Longrightarrow> submittable (Ds_Pn a t k)"
  by (auto simp: Ds_Pn_def Let_def submittable_wl)

lemma Ds_Pn_shape:
  "length (k_rows (Ds_Pn a t k)) = length (k_rows k)"
  "a = None \<longrightarrow> k_none k \<noteq> None \<Longrightarrow> k_none (Ds_Pn a t k) = None \<longleftrightarrow> k_none k = None"
  by (cases t; auto simp: Ds_Pn_def Let_def set_row_def Fs_row_def split: option.splits)+

text \<open>In a question with several answers none-of-the-above is never checked together with another
  row, whatever is clicked, and the button can be used exactly when something is chosen.\<close>

theorem none_excludes:
  assumes "exclusive k" "submittable k" "clicks_ok (length (k_rows k)) (k_none k \<noteq> None) cs"
  shows "exclusive (Ds_clicks cs k) \<and> submittable (Ds_clicks cs k)"
  using assms
proof (induction cs arbitrary: k)
  case Nil
  then show ?case by (simp add: Ds_clicks_def)
next
  case (Cons c cs)
  obtain a t where c: "c = (a, t)" by (cases c)
  have ok: "case a of Some i \<Rightarrow> i < length (k_rows k) | None \<Rightarrow> k_none k \<noteq> None"
    using Cons.prems(3) c by (auto split: option.splits)
  then have "a = None \<longrightarrow> k_none k \<noteq> None" by (auto split: option.splits)
  then have "clicks_ok (length (k_rows (Ds_Pn a t k))) (k_none (Ds_Pn a t k) \<noteq> None) cs"
    using Cons.prems(3) c Ds_Pn_shape by simp
  with Cons.IH [of "Ds_Pn a t k"] Cons.prems exclusive_Pn [OF _ ok] submittable_Pn show ?case
    by (simp add: Ds_clicks_def c)
qed

definition sample_checks :: checks where
  "sample_checks =
     \<lparr>k_rows = [(''a'', False), (''b'', False)], k_none = Some False, k_other = None, k_P = False,
      k_enabled = False, k_Bn = 0\<rparr>"

theorem none_excludes_witness:
  "exclusive (Ds_clicks [(Some 0, None), (None, None), (Some 1, None)] sample_checks) \<and>
   submittable (Ds_clicks [(Some 0, None), (None, None), (Some 1, None)] sample_checks)"
  by (rule none_excludes) (simp_all add: sample_checks_def exclusive_def submittable_def Ds_Qb_def)

text \<open>A number is accepted exactly when the answer without dollar signs and commas is not blank, is
  a number and lies within the limits.\<close>

theorem numbers_in_range:
  "eg_numeric l (qm_number a) \<longleftrightarrow>
     \<not> nb_blank (qm_number a) \<and> num_between (l_Yh l) (js_number (qm_number a)) (l_Uh l)"
  by (simp add: eg_numeric_def Ns_none)

end
