(* ===== verification/Survey_Flow.thy ===== *)
theory Survey_Flow
  imports Survey_Questions "HOL-Library.Multiset"
begin

text \<open>
  The flow of a survey prompt (prompt_embed_static.js, lines 538 to 575): \<open>Z\<close> builds its questions from
  the payload (\<open>pt\<close>, \<open>qt\<close>, \<open>rt\<close>, \<open>jt\<close>), shows one after the other (\<open>st\<close>, \<open>ll\<close>, \<open>fq\<close>, \<open>Ul\<close>), goes on to
  the supplemental questions and the end (\<open>Ct\<close>, \<open>Bt\<close>) and reports answers (\<open>wt\<close>, \<open>It\<close>). Questions are
  objects in a store; what the prompt does outside is its log, newest entry first. The times are given
  with the events. Installations with a callback for response data are not covered by \<open>wt\<close>; the
  filtering of the data for such a callback (\<open>Jt\<close>) is a function of its own.

  The main lemmas: between two questions at most one final report is sent, whatever happens; and the
  answers lead through all questions in order and then close the prompt.
\<close>

subsection \<open>Payload and questions\<close>

record spec =
  p_type :: string
  p_question :: string
  p_answers :: "string list"
  p_thresholds :: "string list"
  p_truth :: string
  p_group :: "string option"
  p_tag :: string
  p_order :: "nat list"

datatype payload =
  Single spec
| Compound "string list" "string list list" "nat list list"
| Pivot spec spec
| Longform "spec list" "nat list option"

text \<open>\<open>pt\<close>: the questions of a payload, and the numbers it appends to the order \<open>ud\<close>.\<close>

fun pt :: "payload option \<Rightarrow> spec list \<times> nat list" where
  "pt None = ([], [])"
| "pt (Some (Single b)) = ([b], [])"
| "pt (Some (Compound ql as os)) =
     (map (\<lambda>e. \<lparr>p_type = ''multi'', p_question = ql ! e, p_answers = as ! e, p_thresholds = [], p_truth = [],
        p_group = None, p_tag = [], p_order = os ! e\<rparr>) [0, 1], [])"
| "pt (Some (Pivot b p)) = ([b, p], [])"
| "pt (Some (Longform d ord)) = (d, (case ord of None \<Rightarrow> [] | Some o' \<Rightarrow> o'))"

definition question_types :: "string list" where
  "question_types =
     [''dropdown-with-image'', ''image-choice'', ''multi'', ''multi-select'', ''multi-select-with-image'',
      ''multi-with-image'', ''num-range'', ''open-numeric'', ''open-text'', ''open-text-image'', ''permissions'',
      ''rating'', ''showcase'', ''showcase-image'', ''take-picture'', ''video'', ''zoom-image-choice'']"

datatype setup_error = Unknown_type string | No_such_question nat

text \<open>The constructor \<open>Y\<close> with the settings \<open>qt\<close> makes after it.\<close>

definition new_question :: "bool \<Rightarrow> spec \<Rightarrow> question" where
  "new_question allow e =
     \<lparr>q_type = p_type e, q_text = p_question e, q_B = sr_tokens (p_question e), q_sa = p_answers e,
      q_qc = p_thresholds e, q_truth = p_truth e, q_group = p_group e, q_tag = p_tag e, q_position = 1, q_gb = 1, q_oi = -1,
      q_Uc = None, q_fe = False, q_allow = allow,
      q_response = (if p_order e = [] then [] else [(''o'', One (join_with ''.'' (map show_nat (p_order e))))]),
      q_V = []\<rparr>"

fun qt_loop :: "bool \<Rightarrow> nat list \<Rightarrow> spec list \<Rightarrow> nat list \<Rightarrow> setup_error + question list" where
  "qt_loop allow ud b [] = Inr []"
| "qt_loop allow ud b (d # ds) =
     (let j = (if ud \<noteq> [] then (if d < length ud then ud ! d else length b) else d)
      in if length b \<le> j then Inl (No_such_question j)
         else if \<not> cb_has question_types (p_type (b ! j)) then Inl (Unknown_type (p_type (b ! j)))
         else (case qt_loop allow ud b ds of
             Inl e \<Rightarrow> Inl e
           | Inr c \<Rightarrow> Inr (new_question allow (b ! j) # c)))"

definition qt :: "bool \<Rightarrow> nat list \<Rightarrow> spec list \<Rightarrow> setup_error + question list" where
  "qt allow ud b = qt_loop allow ud b [0..<length b]"

text \<open>\<open>rt\<close>: the numbering of the main questions. Permission questions are not counted. \<open>d\<close> is the number
  of supplemental questions.\<close>

fun rt_number :: "nat \<Rightarrow> int \<Rightarrow> question list \<Rightarrow> question list" where
  "rt_number d c [] = []"
| "rt_number d c (e # es) =
     (let e = e\<lparr>q_oi := int d + 1\<rparr>
      in if q_type e \<noteq> ''permissions''
         then e\<lparr>q_position := c + 1, q_fe := (c + 1 = 1)\<rparr> # rt_number (Suc d) (c + 1) es
         else e # rt_number (Suc d) c es)"

definition counted :: "question list \<Rightarrow> int" where
  "counted es = int (length (filter (\<lambda>e. q_type e \<noteq> ''permissions'') es))"

definition rt_zd :: "nat \<Rightarrow> question list \<Rightarrow> nat" where
  "rt_zd zd es = (if zd < length es \<and> vs_thresholds (es ! zd) then min (zd + 1) 2 else zd)"

definition rt_gb :: "bool \<Rightarrow> nat \<Rightarrow> int \<Rightarrow> nat \<Rightarrow> question \<Rightarrow> question" where
  "rt_gb Mh zd c d g = g\<lparr>q_gb := (if Mh \<and> q_position g \<le> int zd then int zd else c) + int d\<rparr>"

definition rt :: "bool \<Rightarrow> nat \<Rightarrow> nat \<Rightarrow> question list \<Rightarrow> nat \<times> question list" where
  "rt Mh zd d es =
     (let es' = rt_number 0 0 es; zd' = rt_zd zd es'
      in if es = [] then (zd, []) else (zd', map (rt_gb Mh zd' (counted es') d) es'))"

subsection \<open>The prompt\<close>

datatype flow_phase = Asking | Warned | Fading bool | Waiting | Promo | Closed

datatype log_entry =
  Shown nat
| Sent string string "(string \<times> rvalue) list"
| Multiple_piped
| Hidden

record survey =
  z_qs :: "nat \<Rightarrow> question"
  z_next :: nat
  z_Ra :: "nat list"
  z_supp :: "nat list list"
  z_Kf :: "string list"
  z_bb :: "nat option"
  z_B :: nat
  z_ef :: answers
  z_nr :: "string \<Rightarrow> string option"
  z_V :: "(string \<times> string) list"
  z_ud :: "nat list"
  z_params :: string
  z_bc :: nat
  z_Uc :: int
  z_wf :: "int option"
  z_active :: bool
  z_k :: bool
  z_Mh :: bool
  z_zd :: nat
  z_phase :: flow_phase
  z_log :: "log_entry list"

text \<open>The settings of the page: whether reports have an address, the format, the tag that asks for a
  report after every question, the split of long forms (\<open>Jo\<close>), \<open>allowFraudWarning\<close>, and the random
  choices of piped answers.\<close>

record settings =
  c_url :: bool
  c_format :: string
  c_every :: bool
  c_split :: bool
  c_allow :: bool
  c_rnd :: "string \<Rightarrow> rat"

definition put_question :: "nat \<Rightarrow> question \<Rightarrow> survey \<Rightarrow> survey" where
  "put_question i q s = s\<lparr>z_qs := (z_qs s)(i := q)\<rparr>"

definition note_entry :: "log_entry \<Rightarrow> survey \<Rightarrow> survey" where
  "note_entry e s = s\<lparr>z_log := e # z_log s\<rparr>"

text \<open>\<open>bb\<close> is the list of the main questions (\<open>None\<close>) or one of the supplemental lists.\<close>

definition bb_list :: "survey \<Rightarrow> nat list" where
  "bb_list s = (case z_bb s of None \<Rightarrow> z_Ra s | Some i \<Rightarrow> z_supp s ! i)"

definition at_B :: "survey \<Rightarrow> question" where
  "at_B s = z_qs s (z_B s)"

subsection \<open>Reports\<close>

text \<open>\<open>It\<close>: first the responses of all questions, then their measurements.\<close>

definition It_label :: "nat list \<Rightarrow> nat \<Rightarrow> string" where
  "It_label d b = (if d = [] then show_nat b else if b < length d then show_nat (d ! b) else ''undefined'')"

definition It_responses :: "string \<Rightarrow> question \<Rightarrow> (string \<times> rvalue) list \<Rightarrow> (string \<times> rvalue) list" where
  "It_responses b q c =
     fold (\<lambda>(d, a) c. if rvalues a = [] then c else dict_set (''r.'' @ d @ ''-'' @ b) (Many (rvalues a)) c) (q_response q) c"

definition It_measures :: "string \<Rightarrow> question \<Rightarrow> (string \<times> rvalue) list \<Rightarrow> (string \<times> rvalue) list" where
  "It_measures b q c = fold (\<lambda>(d, a) c. dict_set (''m.'' @ d @ ''-'' @ b) (One a) c) (q_V q) c"

definition It :: "survey \<Rightarrow> (string \<times> rvalue) list \<Rightarrow> (string \<times> rvalue) list" where
  "It s c =
     (if Wa_array (bb_list s) (z_B s) \<noteq> -1 then
        let qs = zip [0..<length (bb_list s)] (map (z_qs s) (bb_list s));
            c = fold (\<lambda>(b, q) c. It_responses (It_label (z_ud s) b) q c) qs c
        in fold (\<lambda>(b, q) c. It_measures (It_label (z_ud s) b) q c) qs c
      else c)"

definition final :: "string \<Rightarrow> bool" where
  "final b \<longleftrightarrow> b \<noteq> ''nr'' \<and> b \<noteq> ''sv''"

definition wt_V :: "int \<Rightarrow> survey \<Rightarrow> (string \<times> string) list" where
  "wt_V now s =
     (let V = dict_set ''d'' (show_int (max 0 (now - z_Uc s))) (z_V s);
          V = dict_set ''dv''
            (case z_wf s of
               None \<Rightarrow> ''u''
             | Some w \<Rightarrow>
                 (let u = (case q_Uc (z_qs s (hd (bb_list s))) of Some u \<Rightarrow> (if u = 0 then w else u) | None \<Rightarrow> w)
                  in show_int (max 0 (w - u)))) V
      in if z_ud s \<noteq> [] then dict_set ''qo'' (join_with '','' (map show_nat (z_ud s))) V else V)"

definition wt_data :: "string \<Rightarrow> (string \<times> string) list \<Rightarrow> survey \<Rightarrow> (string \<times> rvalue) list" where
  "wt_data b V s =
     (let d = [(''t'', One b)];
          d = (if b \<noteq> ''sv'' then It s d else d);
          d = fold (\<lambda>(k, v) d. dict_set (''m.'' @ k) (One v) d) V d
      in dict_set ''d'' (One ''1'') (dict_set ''p'' (One (z_params s)) d))"

definition wt :: "settings \<Rightarrow> int \<Rightarrow> string \<Rightarrow> string \<Rightarrow> survey \<Rightarrow> survey" where
  "wt g now b c s =
     (if \<not> c_url g then s
      else if final b \<and> z_k s then s
      else
        let s = (if final b then s\<lparr>z_k := True\<rparr> else s); V = wt_V now s
        in note_entry (Sent b c (wt_data b V s)) (s\<lparr>z_V := V\<rparr>))"

definition yt :: "settings \<Rightarrow> int \<Rightarrow> survey \<Rightarrow> survey" where
  "yt g now s = (if 0 < z_bc s then wt g now ''pa'' ''deny'' s else wt g now ''nr'' ''deny'' s)"

definition At :: "settings \<Rightarrow> int \<Rightarrow> survey \<Rightarrow> survey" where
  "At g now s = (if 2 < z_bc s then wt g now ''ae'' ''grant'' s else wt g now ''a'' ''grant'' s)"

subsection \<open>Showing and closing\<close>

definition st :: "int \<Rightarrow> survey \<Rightarrow> survey" where
  "st now s =
     (let s = s\<lparr>z_k := False, z_phase := Asking\<rparr>
      in note_entry (Shown (z_B s)) (put_question (z_B s) (Y_reset now (at_B s)) s))"

definition ll :: "settings \<Rightarrow> int \<Rightarrow> bool \<Rightarrow> survey \<Rightarrow> survey" where
  "ll g now a s =
     (let s = st now s;
          s = (if a \<and> z_wf s \<noteq> None then s else s\<lparr>z_wf := Some now\<rparr>)
      in if a then s else wt g now ''sv'' ''deny'' s)"

text \<open>\<open>za\<close> and, for the plain prompt, \<open>Jc\<close>.\<close>

definition za :: "survey \<Rightarrow> survey" where
  "za s = note_entry Hidden (s\<lparr>z_active := False, z_phase := Closed\<rparr>)"

definition Bt :: "settings \<Rightarrow> int \<Rightarrow> survey \<Rightarrow> survey" where
  "Bt g now s =
     (let s = At g now s
      in if 2 < z_bc s \<and> z_Mh s then s\<lparr>z_phase := Promo\<rparr> else za s)"

subsection \<open>The next question\<close>

text \<open>Inserting earlier answers in a question: the text first, then the answers in turn; what was done
  before a failure stays.\<close>

fun pipe_answers ::
  "settings \<Rightarrow> answers \<Rightarrow> nat \<Rightarrow> string list \<Rightarrow> question \<Rightarrow> (string \<Rightarrow> string option) \<Rightarrow> question \<times> (string \<Rightarrow> string option)" where
  "pipe_answers g e h [] q nr = (q, nr)"
| "pipe_answers g e h (x # xs) q nr =
     (case pr_pipe (c_rnd g) e x nr of
        Inl err \<Rightarrow> (q, nr)
      | Inr (k, nr) \<Rightarrow> pipe_answers g e (Suc h) xs (if k \<noteq> x then q\<lparr>q_sa := (q_sa q)[h := k]\<rparr> else q) nr)"

definition pipe_in :: "settings \<Rightarrow> survey \<Rightarrow> survey" where
  "pipe_in g s =
     (let q = at_B s
      in case pr_pipe (c_rnd g) (z_ef s) (q_text q) (z_nr s) of
           Inl err \<Rightarrow> s
         | Inr (h, nr) \<Rightarrow>
             (let (q', nr') = pipe_answers g (z_ef s) 0 (q_sa q)
                    (if h \<noteq> q_text q then q\<lparr>q_B := sr_tokens h\<rparr> else q) nr
              in (put_question (z_B s) q' s)\<lparr>z_nr := nr'\<rparr>))"

text \<open>\<open>zt\<close>: the old question fades out, and when that ends \<open>ll\<close> shows the next one (\<open>Fading\<close> keeps its
  argument). With \<open>c\<close>, for two questions of one matrix group, only the tag of the matrix fades; a page
  without the tag goes on at once.\<close>

definition matrix_fade :: "question \<Rightarrow> question \<Rightarrow> bool" where
  "matrix_fade p q \<longleftrightarrow> q_group p \<noteq> None \<and> q_group p = q_group q"

definition zt :: "settings \<Rightarrow> int \<Rightarrow> bool \<Rightarrow> bool \<Rightarrow> question \<Rightarrow> survey \<Rightarrow> survey" where
  "zt g now a c p s = (if c \<and> q_tag p = [] then ll g now a s else s\<lparr>z_phase := Fading a\<rparr>)"

text \<open>\<open>fq\<close> and \<open>Ul\<close>; \<open>None\<close> when there is no next question.\<close>

definition fq :: "settings \<Rightarrow> int \<Rightarrow> survey \<Rightarrow> survey option" where
  "fq g now s =
     (let b = Wa_array (bb_list s) (z_B s) + 1
      in if b = int (length (bb_list s)) then None
         else
           let s = (if z_Mh s \<and> b = int (z_zd s) then wt g now ''a'' ''grant'' s
                    else if b - 1 < 0 then s
                    else if c_every g \<or> (b - 1) mod 3 = 2 then yt g now s else s);
               p = at_B s;
               s = pipe_in g (s\<lparr>z_B := bb_list s ! nat b\<rparr>)
           in Some (if q_type p = ''permissions'' then ll g now True s else zt g now True (matrix_fade p (at_B s)) p s))"

definition Ul :: "settings \<Rightarrow> int \<Rightarrow> survey \<Rightarrow> survey option" where
  "Ul g now s =
     (let a = Wa_array (bb_list s) (z_B s) + 1
      in if int (length (bb_list s)) \<le> a then None
         else
           let b = at_B s; i = bb_list s ! nat a;
               s = put_question i ((z_qs s i)\<lparr>q_position := q_position b + 1, q_gb := q_gb b\<rparr>) (s\<lparr>z_B := i\<rparr>)
           in Some (zt g now (0 < a) False b s))"

definition next_supplement :: "survey \<Rightarrow> nat" where
  "next_supplement s = (case z_bb s of None \<Rightarrow> 0 | Some i \<Rightarrow> i + 1)"

definition Ct :: "settings \<Rightarrow> int \<Rightarrow> survey \<Rightarrow> survey" where
  "Ct g now s =
     (let c = next_supplement s
      in if z_supp s \<noteq> [] \<and> c < length (z_supp s) then
           let s = At g now s;
               s = s\<lparr>z_bb := Some c, z_params := z_Kf s ! c, z_ud := [],
                     z_V := filter (\<lambda>(k, v). k \<noteq> ''qo'') (z_V s), z_Uc := now\<rparr>
           in (case Ul g now s of Some s \<Rightarrow> s | None \<Rightarrow> s)
         else Bt g now s)"

subsection \<open>Handlers\<close>

text \<open>The answers of a question are kept for later questions under the text of its placeholder.\<close>

definition keep_answers :: "settings \<Rightarrow> string list option \<Rightarrow> survey \<Rightarrow> survey" where
  "keep_answers g ft s =
     (case ft of
        None \<Rightarrow> s
      | Some b \<Rightarrow>
          (let c = Wa_array (z_Ra s) (z_B s) + 1; d = hr_answer (show_nat (nat c))
           in if \<not> 0 < c then s
              else if z_ef s d \<noteq> None \<and> z_ef s d \<noteq> Some b then note_entry Multiple_piped s
              else
                let s = s\<lparr>z_ef := (z_ef s)(d \<mapsto> b)\<rparr>
                in case or_answer (c_rnd g) (z_ef s) d (z_nr s) of
                     Inl e \<Rightarrow> s
                   | Inr (l, nr) \<Rightarrow>
                       (let s = s\<lparr>z_nr := nr\<rparr>
                        in if l \<noteq> [] then put_question (z_B s) (set_V ''pa'' l (at_B s)) s else s)))"

definition wr :: "settings \<Rightarrow> int \<Rightarrow> string list option \<Rightarrow> survey \<Rightarrow> survey" where
  "wr g now ft s =
     (let s = keep_answers g ft s;
          s = s\<lparr>z_bc := z_bc s + 1\<rparr>
      in case (if z_bb s = None then fq g now s else Ul g now s) of
           Some s \<Rightarrow> s
         | None \<Rightarrow> Ct g now s)"

definition ur :: "settings \<Rightarrow> int \<Rightarrow> survey \<Rightarrow> survey" where
  "ur g now s =
     (if z_active s then
        let s = s\<lparr>z_bc := z_bc s + 1\<rparr>
        in if c_format g = ''hats'' \<or> c_format g = ''websat'' then za (wt g now ''a'' ''grant'' s) else Ct g now s
      else s)"

text \<open>\<open>ir\<close>: another survey is asked for; \<open>yr\<close>: its payload has come. Its questions are new objects.\<close>

definition ir :: "settings \<Rightarrow> int \<Rightarrow> survey \<Rightarrow> survey" where
  "ir g now s =
     (if z_active s then
        let s = yt g now (s\<lparr>z_V := dict_set ''f'' ''1'' (z_V s)\<rparr>)
        in s\<lparr>z_bc := 0, z_phase := Waiting\<rparr>
      else s)"

text \<open>A reply: the parameters, the payload, its supplemental parts with their parameters, and the
  measurements of the page.\<close>

record reply =
  y_params :: string
  y_payload :: "payload option"
  y_supp :: "(string \<times> payload option) list"
  y_V :: "(string \<times> string) list"

definition store_new :: "question list \<Rightarrow> survey \<Rightarrow> nat list \<times> survey" where
  "store_new es s =
     ([z_next s..<z_next s + length es],
      s\<lparr>z_qs := (\<lambda>i. if z_next s \<le> i \<and> i < z_next s + length es then es ! (i - z_next s) else z_qs s i),
        z_next := z_next s + length es\<rparr>)"

fun jt_supplements ::
  "bool \<Rightarrow> (string \<times> payload option) list \<Rightarrow> nat list \<Rightarrow> setup_error + (string \<times> question list) list \<times> nat list" where
  "jt_supplements allow [] ud = Inr ([], ud)"
| "jt_supplements allow ((p, q) # ls) ud =
     (let (l, o') = pt q; ud = ud @ o'
      in case qt allow ud l of
           Inl e \<Rightarrow> Inl e
         | Inr es \<Rightarrow>
             (case jt_supplements allow ls ud of
                Inl e \<Rightarrow> Inl e
              | Inr (r, ud) \<Rightarrow> Inr ((p, es) # r, ud)))"

fun store_lists :: "question list list \<Rightarrow> survey \<Rightarrow> nat list list \<times> survey" where
  "store_lists [] s = ([], s)"
| "store_lists (es # ess) s =
     (let (l, s) = store_new es s; (ls, s) = store_lists ess s in (l # ls, s))"

definition jt :: "settings \<Rightarrow> int \<Rightarrow> reply \<Rightarrow> survey \<Rightarrow> setup_error + survey" where
  "jt g now c s =
     (let (d, ud) = pt (y_payload c);
          Mh = (case y_payload c of Some (Longform _ _) \<Rightarrow> (if c_split g \<and> 2 < length d then True else z_Mh s) | _ \<Rightarrow> z_Mh s)
      in case jt_supplements (c_allow g) (y_supp c) ud of
           Inl e \<Rightarrow> Inl e
         | Inr (sl, ud) \<Rightarrow>
             (case qt (c_allow g) ud d of
                Inl e \<Rightarrow> Inl e
              | Inr es \<Rightarrow>
                  (let (zd, es) = rt Mh (z_zd s) (sum_list (map (length \<circ> snd) sl)) es;
                       (ra, s) = store_new es s;
                       (supp, s) = store_lists (map snd sl) s
                   in if ra = [] then Inl (No_such_question 0)
                      else Inr (s\<lparr>z_Ra := ra, z_supp := supp, z_Kf := map fst sl, z_bb := None, z_B := hd ra,
                           z_ef := Map.empty, z_nr := Map.empty, z_V := (''v'', ''3'') # y_V c, z_ud := ud,
                           z_params := y_params c, z_Uc := now, z_Mh := Mh, z_zd := zd\<rparr>))))"

definition yr :: "settings \<Rightarrow> int \<Rightarrow> string \<Rightarrow> reply option \<Rightarrow> survey \<Rightarrow> survey" where
  "yr g now a c s =
     (case c of
        None \<Rightarrow> za s
      | Some r \<Rightarrow>
          (let d = q_position (at_B s)
           in case jt g now r s of
                Inl e \<Rightarrow> za s
              | Inr s \<Rightarrow>
                  (let s = (if d = 2 \<or> a = ''threshold-negative''
                            then put_question (z_B s) ((at_B s)\<lparr>q_position := 2, q_gb := 2, q_fe := False\<rparr>) s else s)
                   in ll g now False s)))"

definition rh :: "settings \<Rightarrow> int \<Rightarrow> survey \<Rightarrow> survey" where
  "rh g now s =
     (if z_active s \<and> map_of (z_V s) ''c'' \<noteq> Some ''1'' then yt g now (s\<lparr>z_V := dict_set ''c'' ''1'' (z_V s)\<rparr>) else s)"

definition pe_seen :: "settings \<Rightarrow> int \<Rightarrow> survey \<Rightarrow> survey" where
  "pe_seen g now s = wt g now ''sv'' ''deny'' (s\<lparr>z_wf := Some now\<rparr>)"

definition cr :: "int \<Rightarrow> survey \<Rightarrow> survey" where
  "cr now s = (put_question (z_B s) (Y_reset now (at_B s)) s)\<lparr>z_wf := Some (z_Uc s), z_phase := Asking\<rparr>"

definition Es :: "settings \<Rightarrow> int \<Rightarrow> survey \<Rightarrow> survey" where
  "Es g now s =
     (if z_active s then za (wt g now ''pa'' ''grant'' (s\<lparr>z_V := dict_set ''lfoo'' ''1'' (z_V s)\<rparr>)) else s)"

text \<open>The start (\<open>xt\<close> after \<open>jt\<close>) and the events of the page; an event is handled in the phases in which
  the listener for it is there.\<close>

definition xt :: "int \<Rightarrow> survey \<Rightarrow> survey" where
  "xt now s = (st now s)\<lparr>z_active := True\<rparr>"

datatype page_event =
  Click bool rvalue rvalue
| Confirm
| Fade_end
| Flag
| Reply string "reply option"
| Unload
| Visible
| No_thanks
| Promo_click

definition handle_click :: "settings \<Rightarrow> int \<Rightarrow> bool \<Rightarrow> rvalue \<Rightarrow> rvalue \<Rightarrow> survey \<Rightarrow> survey" where
  "handle_click g now force v i s =
     (let (r, q) = Y_ua now force v i (at_B s); s = put_question (z_B s) q s
      in case r of
           Spammy \<Rightarrow> s\<lparr>z_phase := Warned\<rparr>
         | Failed_threshold \<Rightarrow> ur g now s
         | Response ft \<Rightarrow> wr g now ft s)"

definition handle :: "settings \<Rightarrow> int \<Rightarrow> page_event \<Rightarrow> survey \<Rightarrow> survey" where
  "handle g now e s =
     (case e of
        Click force v i \<Rightarrow> (if z_phase s = Asking then handle_click g now force v i s else s)
      | Confirm \<Rightarrow> (if z_phase s = Warned then cr now s else s)
      | Fade_end \<Rightarrow> (case z_phase s of Fading a \<Rightarrow> ll g now a s | _ \<Rightarrow> s)
      | Flag \<Rightarrow> (if z_phase s = Asking \<or> z_phase s = Warned then ir g now s else s)
      | Reply a c \<Rightarrow> (if z_phase s = Waiting then yr g now a c s else s)
      | Unload \<Rightarrow> (if z_phase s \<noteq> Closed then rh g now s else s)
      | Visible \<Rightarrow> (if z_phase s \<noteq> Closed then pe_seen g now s else s)
      | No_thanks \<Rightarrow> (if z_Mh s \<and> z_phase s \<noteq> Closed then Es g now s else s)
      | Promo_click \<Rightarrow> (if z_phase s = Promo then za s else s))"

definition run_events :: "settings \<Rightarrow> (int \<times> page_event) list \<Rightarrow> survey \<Rightarrow> survey" where
  "run_events g es s = fold (\<lambda>(now, e) s. handle g now e s) es s"

subsection \<open>One final report for each question shown\<close>

text \<open>Logs hold the newest entry first: whether a final report was sent since the last question was
  shown, and that there is never a second one.\<close>

fun reported :: "log_entry list \<Rightarrow> bool" where
  "reported [] = False"
| "reported (Shown i # l) = False"
| "reported (Sent t a d # l) = (final t \<or> reported l)"
| "reported (e # l) = reported l"

fun disciplined :: "log_entry list \<Rightarrow> bool" where
  "disciplined [] = True"
| "disciplined (Sent t a d # l) = (\<not> (final t \<and> reported l) \<and> disciplined l)"
| "disciplined (e # l) = disciplined l"

definition report_inv :: "survey \<Rightarrow> bool" where
  "report_inv s \<longleftrightarrow> disciplined (z_log s) \<and> (reported (z_log s) \<longrightarrow> z_k s)"

named_theorems flow_inv \<comment> \<open>the handlers keep the invariant of reports\<close>

lemma put_simps [simp]:
  "z_log (put_question i q s) = z_log s" "z_k (put_question i q s) = z_k s" "z_Ra (put_question i q s) = z_Ra s"
  "z_supp (put_question i q s) = z_supp s" "z_bb (put_question i q s) = z_bb s" "z_B (put_question i q s) = z_B s"
  "z_Mh (put_question i q s) = z_Mh s" "z_phase (put_question i q s) = z_phase s" "z_active (put_question i q s) = z_active s"
  "z_qs (put_question i q s) = (z_qs s)(i := q)" "z_Kf (put_question i q s) = z_Kf s" "z_bc (put_question i q s) = z_bc s"
  by (simp_all add: put_question_def)

lemma report_inv_same:
  "z_log s' = z_log s \<Longrightarrow> z_k s' = z_k s \<Longrightarrow> report_inv s' = report_inv s"
  by (simp add: report_inv_def)

lemma report_inv_simps [simp]:
  "report_inv (s\<lparr>z_V := a1\<rparr>) = report_inv s" "report_inv (s\<lparr>z_bb := a2\<rparr>) = report_inv s"
  "report_inv (s\<lparr>z_B := a3\<rparr>) = report_inv s" "report_inv (s\<lparr>z_ef := a4\<rparr>) = report_inv s"
  "report_inv (s\<lparr>z_nr := a5\<rparr>) = report_inv s" "report_inv (s\<lparr>z_ud := a6\<rparr>) = report_inv s"
  "report_inv (s\<lparr>z_params := a7\<rparr>) = report_inv s" "report_inv (s\<lparr>z_bc := a8\<rparr>) = report_inv s"
  "report_inv (s\<lparr>z_Uc := a9\<rparr>) = report_inv s" "report_inv (s\<lparr>z_wf := b1\<rparr>) = report_inv s"
  "report_inv (s\<lparr>z_active := b2\<rparr>) = report_inv s" "report_inv (s\<lparr>z_phase := b3\<rparr>) = report_inv s"
  "report_inv (s\<lparr>z_Ra := b4\<rparr>) = report_inv s" "report_inv (s\<lparr>z_supp := b5\<rparr>) = report_inv s"
  "report_inv (s\<lparr>z_Kf := b6\<rparr>) = report_inv s" "report_inv (s\<lparr>z_Mh := b7\<rparr>) = report_inv s"
  "report_inv (s\<lparr>z_zd := b8\<rparr>) = report_inv s" "report_inv (s\<lparr>z_qs := b9\<rparr>) = report_inv s"
  "report_inv (s\<lparr>z_next := c1\<rparr>) = report_inv s" "report_inv (put_question i q s) = report_inv s"
  by (rule report_inv_same; simp)+

lemma inv_wt [flow_inv]: "report_inv s \<Longrightarrow> report_inv (wt g now b c s)"
proof -
  assume s: "report_inv s"
  show ?thesis
  proof (cases "c_url g \<and> \<not> (final b \<and> z_k s)")
    case False
    then have "wt g now b c s = s" by (auto simp: wt_def)
    with s show ?thesis by simp
  next
    case True
    then have "wt g now b c s = (let s = (if final b then s\<lparr>z_k := True\<rparr> else s); V = wt_V now s
        in note_entry (Sent b c (wt_data b V s)) (s\<lparr>z_V := V\<rparr>))"
      by (simp only: wt_def if_False simp_thms)
    with s True show ?thesis by (auto simp: Let_def report_inv_def note_entry_def)
  qed
qed

lemma inv_yt [flow_inv]: "report_inv s \<Longrightarrow> report_inv (yt g now s)"
  by (simp add: yt_def flow_inv)

lemma inv_At [flow_inv]: "report_inv s \<Longrightarrow> report_inv (At g now s)"
  by (simp add: At_def flow_inv)

lemma inv_st [flow_inv]: "report_inv s \<Longrightarrow> report_inv (st now s)"
  by (simp add: st_def Let_def report_inv_def note_entry_def)

lemma inv_ll [flow_inv]: "report_inv s \<Longrightarrow> report_inv (ll g now a s)"
  by (simp add: ll_def Let_def flow_inv)

lemma inv_za [flow_inv]: "report_inv s \<Longrightarrow> report_inv (za s)"
  by (simp add: za_def report_inv_def note_entry_def)

lemma inv_Bt [flow_inv]: "report_inv s \<Longrightarrow> report_inv (Bt g now s)"
  by (simp add: Bt_def Let_def flow_inv)

lemma inv_pipe [flow_inv]: "report_inv s \<Longrightarrow> report_inv (pipe_in g s)"
  by (simp add: pipe_in_def Let_def split: sum.split prod.split)

lemma inv_zt [flow_inv]: "report_inv s \<Longrightarrow> report_inv (zt g now a c p s)"
  by (simp add: zt_def flow_inv)

lemma inv_fq: "report_inv s \<Longrightarrow> fq g now s = Some s' \<Longrightarrow> report_inv s'"
  by (auto simp: fq_def Let_def flow_inv split: if_splits)

lemma inv_Ul: "report_inv s \<Longrightarrow> Ul g now s = Some s' \<Longrightarrow> report_inv s'"
  by (auto simp: Ul_def Let_def flow_inv split: if_splits)

lemma inv_Ct [flow_inv]: "report_inv s \<Longrightarrow> report_inv (Ct g now s)"
proof -
  assume s: "report_inv s"
  have "report_inv (case Ul g now t of Some u \<Rightarrow> u | None \<Rightarrow> t)" if "report_inv t" for t
    using that inv_Ul by (auto split: option.split)
  then show ?thesis using s by (simp add: Ct_def Let_def flow_inv del: not_None_eq)
qed

lemma inv_keep [flow_inv]: "report_inv s \<Longrightarrow> report_inv (keep_answers g ft s)"
proof -
  assume s: "report_inv s"
  then have "report_inv (note_entry Multiple_piped s)" by (simp add: report_inv_def note_entry_def)
  with s show ?thesis by (simp add: keep_answers_def Let_def split: option.split sum.split)
qed

lemma inv_wr [flow_inv]: "report_inv s \<Longrightarrow> report_inv (wr g now ft s)"
  by (auto simp: wr_def Let_def flow_inv split: option.split dest: inv_fq [rotated] inv_Ul [rotated])

lemma inv_ur [flow_inv]: "report_inv s \<Longrightarrow> report_inv (ur g now s)"
  by (simp add: ur_def Let_def flow_inv)

lemma inv_ir [flow_inv]: "report_inv s \<Longrightarrow> report_inv (ir g now s)"
  by (simp add: ir_def Let_def flow_inv)

lemma inv_store_new: "store_new es s = (l, s') \<Longrightarrow> report_inv s' = report_inv s"
  by (auto simp: store_new_def)

lemma inv_store_lists: "store_lists ess s = (ls, s') \<Longrightarrow> report_inv s' = report_inv s"
  by (induction ess arbitrary: ls s s') (auto split: prod.splits dest!: inv_store_new)

lemma inv_jt: "report_inv s \<Longrightarrow> jt g now c s = Inr s' \<Longrightarrow> report_inv s'"
  by (auto simp: jt_def Let_def split: prod.splits sum.splits if_splits dest!: inv_store_new inv_store_lists)

lemma inv_yr [flow_inv]: "report_inv s \<Longrightarrow> report_inv (yr g now a c s)"
  by (auto simp: yr_def Let_def flow_inv split: option.split sum.split dest!: inv_jt [rotated])

lemma inv_rh [flow_inv]: "report_inv s \<Longrightarrow> report_inv (rh g now s)"
  by (simp add: rh_def flow_inv)

lemma inv_pe [flow_inv]: "report_inv s \<Longrightarrow> report_inv (pe_seen g now s)"
  by (simp add: pe_seen_def flow_inv)

lemma inv_cr [flow_inv]: "report_inv s \<Longrightarrow> report_inv (cr now s)"
  by (simp add: cr_def)

lemma inv_Es [flow_inv]: "report_inv s \<Longrightarrow> report_inv (Es g now s)"
  by (simp add: Es_def flow_inv)

lemma inv_handle_click [flow_inv]: "report_inv s \<Longrightarrow> report_inv (handle_click g now force v i s)"
  by (simp add: handle_click_def Let_def flow_inv split: prod.split outcome.split)

lemma inv_handle: "report_inv s \<Longrightarrow> report_inv (handle g now e s)"
  by (cases e) (simp_all add: handle_def flow_inv split: flow_phase.split)

lemma inv_run: "report_inv s \<Longrightarrow> report_inv (run_events g es s)"
  by (induction es arbitrary: s) (auto simp: run_events_def inv_handle)

text \<open>C32. Whatever the user, the page and the server do, a prompt sends at most one final report (one
  that is neither \<open>nr\<close> nor \<open>sv\<close>) before the first question and after each question shown.\<close>

theorem one_report_each:
  assumes "z_log s = []"
  shows "disciplined (z_log (run_events g es (xt now s)))"
proof -
  have "report_inv s" using assms by (simp add: report_inv_def)
  then have "report_inv (xt now s)" by (simp add: xt_def flow_inv)
  then show ?thesis using inv_run [of "xt now s" g es] by (simp add: report_inv_def)
qed

subsection \<open>All questions in order\<close>

fun asked :: "log_entry list \<Rightarrow> nat list" where
  "asked [] = []"
| "asked (Shown i # l) = i # asked l"
| "asked (e # l) = asked l"

fun granted :: "log_entry list \<Rightarrow> bool" where
  "granted [] = False"
| "granted (Sent t a d # l) = (a = ''grant'' \<or> granted l)"
| "granted (e # l) = granted l"

text \<open>The parts of a question that decide how it is handled: its matrix group, whether an answer can be
  refused, and its thresholds.\<close>

definition traits :: "question \<Rightarrow> string option \<times> bool \<times> string list" where
  "traits q = (q_group q, q_fe q \<and> (q_allow q \<or> q_truth q \<noteq> []), q_qc q)"

lemma traits_simps [simp]:
  "traits (set_V k v q) = traits q" "traits (q\<lparr>q_B := b\<rparr>) = traits q" "traits (q\<lparr>q_sa := a\<rparr>) = traits q"
  "traits (Y_reset now q) = traits q" "traits (q\<lparr>q_position := n, q_gb := m\<rparr>) = traits q"
  "traits (Y_recorded c vr i q) = traits q"
  by (simp_all add: traits_def set_V_def set_response_def Y_reset_def Y_recorded_def)

text \<open>What reports, kept answers and inserted answers leave as it is.\<close>

definition same_frame :: "survey \<Rightarrow> survey \<Rightarrow> bool" where
  "same_frame s t \<longleftrightarrow>
     z_Ra t = z_Ra s \<and> z_supp t = z_supp s \<and> z_bb t = z_bb s \<and> z_B t = z_B s \<and> z_Mh t = z_Mh s \<and>
     z_phase t = z_phase s \<and> z_active t = z_active s \<and> asked (z_log t) = asked (z_log s) \<and>
     (\<lambda>i. traits (z_qs t i)) = (\<lambda>i. traits (z_qs s i))"

named_theorems frame \<comment> \<open>what does not touch the frame of the prompt\<close>

lemma same_frame_refl [simp]: "same_frame s s"
  by (simp add: same_frame_def)

lemma same_frame_trans [trans]: "same_frame s t \<Longrightarrow> same_frame t u \<Longrightarrow> same_frame s u"
  by (simp add: same_frame_def)

lemma same_frame_update [frame]:
  "same_frame s (s\<lparr>z_V := V\<rparr>)" "same_frame s (s\<lparr>z_k := k\<rparr>)" "same_frame s (s\<lparr>z_bc := b\<rparr>)"
  "same_frame s (s\<lparr>z_wf := w\<rparr>)" "same_frame s (s\<lparr>z_ef := e\<rparr>)" "same_frame s (s\<lparr>z_nr := r\<rparr>)"
  "same_frame s (note_entry (Sent t a d) s)" "same_frame s (note_entry Multiple_piped s)"
  by (simp_all add: same_frame_def note_entry_def)

lemma same_frame_put: "traits q = traits (z_qs s i) \<Longrightarrow> same_frame s (put_question i q s)"
  by (auto simp: same_frame_def)

lemma frame_wt [frame]: "same_frame s (wt g now b c s)"
  by (simp add: wt_def Let_def) (simp add: same_frame_def note_entry_def)

lemma frame_yt [frame]: "same_frame s (yt g now s)"
  by (simp add: yt_def frame)

lemma frame_At [frame]: "same_frame s (At g now s)"
  by (simp add: At_def frame)

lemma pipe_answers_group: "pipe_answers g e h xs q nr = (q', nr') \<Longrightarrow> traits q' = traits q"
  by (induction g e h xs q nr arbitrary: q' nr' rule: pipe_answers.induct)
    (auto split: sum.splits prod.splits if_splits)

lemma frame_pipe [frame]: "same_frame s (pipe_in g s)"
proof (cases "pr_pipe (c_rnd g) (z_ef s) (q_text (at_B s)) (z_nr s)")
  case (Inl e)
  then show ?thesis by (simp add: pipe_in_def Let_def)
next
  case (Inr p)
  obtain h nr where p: "p = (h, nr)" by (cases p)
  let ?q = "if h \<noteq> q_text (at_B s) then (at_B s)\<lparr>q_B := sr_tokens h\<rparr> else at_B s"
  obtain q' nr' where q: "pipe_answers g (z_ef s) 0 (q_sa (at_B s)) ?q nr = (q', nr')" by fastforce
  then have "traits q' = traits (at_B s)" using pipe_answers_group by fastforce
  then have "same_frame s (put_question (z_B s) q' s)" by (intro same_frame_put) (simp add: at_B_def)
  then have "same_frame s ((put_question (z_B s) q' s)\<lparr>z_nr := nr'\<rparr>)" using same_frame_trans frame by blast
  with Inr p q show ?thesis by (simp add: pipe_in_def Let_def)
qed

lemma frame_keep [frame]: "same_frame s (keep_answers g ft s)"
proof -
  have V: "same_frame s (put_question (z_B s) (set_V k v (at_B s)) s)" for k v s
    by (rule same_frame_put) (simp add: at_B_def)
  have u: "same_frame s (s\<lparr>z_ef := e, z_nr := r\<rparr>)" for e r
    by (simp add: same_frame_def)
  have "same_frame s (put_question (z_B s) (set_V k v (at_B (s\<lparr>z_ef := e, z_nr := r\<rparr>))) (s\<lparr>z_ef := e, z_nr := r\<rparr>))" for k v e r
    using same_frame_trans [OF u [of r e] V [of "s\<lparr>z_ef := e, z_nr := r\<rparr>" k v]] by simp
  with u show ?thesis
    by (simp add: keep_answers_def Let_def frame split: option.split sum.split)
qed

text \<open>The questions still to come after the current one.\<close>

definition after_B :: "survey \<Rightarrow> nat list" where
  "after_B s = drop (nat (Wa_array (bb_list s) (z_B s) + 1)) (bb_list s)"

definition to_come :: "survey \<Rightarrow> nat list" where
  "to_come s = after_B s @ concat (drop (next_supplement s) (z_supp s))"

text \<open>A prompt that asks: questions are distinct, supplemental lists are not empty, long forms are not
  split, no question belongs to a matrix, refuses answers or has thresholds.\<close>

definition asking :: "survey \<Rightarrow> bool" where
  "asking s \<longleftrightarrow>
     z_phase s = Asking \<and> z_active s \<and> \<not> z_Mh s \<and>
     (\<forall>i \<in> set (z_Ra s @ concat (z_supp s)). traits (z_qs s i) = (None, False, [])) \<and>
     distinct (z_Ra s @ concat (z_supp s)) \<and> [] \<notin> set (z_supp s) \<and>
     (case z_bb s of None \<Rightarrow> True | Some i \<Rightarrow> i < length (z_supp s)) \<and> z_B s \<in> set (bb_list s)"

lemma asking_frame: "same_frame s t \<Longrightarrow> asking s \<Longrightarrow> asking t"
  by (auto simp: asking_def same_frame_def bb_list_def fun_eq_iff split: option.splits)

lemma asking_at_B: "asking s \<Longrightarrow> traits (at_B s) = (None, False, [])"
  by (fastforce simp: asking_def at_B_def bb_list_def split: option.splits)

lemma to_come_frame: "same_frame s t \<Longrightarrow> to_come t = to_come s"
  by (simp add: to_come_def after_B_def bb_list_def next_supplement_def same_frame_def split: option.split)

lemma Wa_split: "x \<notin> set l \<Longrightarrow> Wa_array (l @ x # r) x = int (length l)"
proof -
  have "x \<notin> set l \<Longrightarrow> Wa_from c (l @ x # r) x = c + int (length l)" for c
    by (induction l arbitrary: c) auto
  then show "x \<notin> set l \<Longrightarrow> ?thesis" by (simp add: Wa_array_def)
qed

text \<open>The current list around the current question.\<close>

lemma asking_split:
  assumes "asking s"
  obtains l r where "bb_list s = l @ z_B s # r" "Wa_array (bb_list s) (z_B s) = int (length l)" "after_B s = r"
    "z_B s \<notin> set l"
proof -
  have "z_B s \<in> set (bb_list s)" using assms by (simp add: asking_def)
  then obtain l r where b: "bb_list s = l @ z_B s # r" "z_B s \<notin> set l" by (meson split_list_first)
  moreover from b have w: "Wa_array (bb_list s) (z_B s) = int (length l)" by (simp add: Wa_split)
  moreover have "after_B s = r" unfolding after_B_def w by (simp add: b(1) nat_add_distrib)
  ultimately show thesis using that by blast
qed

lemma asking_distinct: "asking s \<Longrightarrow> distinct (bb_list s)"
proof (cases "z_bb s")
  case (Some i)
  assume a: "asking s"
  with Some have "z_supp s ! i \<in> set (z_supp s)" by (simp add: asking_def)
  moreover have "distinct (concat (z_supp s))" using a by (simp add: asking_def)
  ultimately show ?thesis using Some by (simp add: bb_list_def distinct_concat_iff)
qed (simp add: asking_def bb_list_def)

text \<open>Showing question \<open>j\<close>.\<close>

lemma asked_ll: "asked (z_log (ll g now a s)) = z_B s # asked (z_log s)"
  using frame_wt [of "(st now s)\<lparr>z_wf := Some now\<rparr>" g now "''sv''" "''deny''"]
  by (simp add: ll_def Let_def same_frame_def) (simp add: st_def Let_def note_entry_def)

lemma ll_keeps:
  "z_Ra (ll g now a s) = z_Ra s" "z_supp (ll g now a s) = z_supp s" "z_bb (ll g now a s) = z_bb s"
  "z_B (ll g now a s) = z_B s" "z_Mh (ll g now a s) = z_Mh s" "z_phase (ll g now a s) = Asking"
  "z_active (ll g now a s) = z_active s"
  "(\<lambda>i. traits (z_qs (ll g now a s) i)) = (\<lambda>i. traits (z_qs s i))"
  using frame_wt [of "(st now s)\<lparr>z_wf := Some now\<rparr>" g now "''sv''" "''deny''"]
  by (simp_all add: ll_def Let_def same_frame_def)
    (auto simp: st_def Let_def note_entry_def put_question_def at_B_def fun_eq_iff)

lemma asking_ll: "asking (s\<lparr>z_phase := Asking\<rparr>) \<Longrightarrow> asking (ll g now a s)"
  by (simp add: asking_def bb_list_def ll_keeps ll_keeps(8) [THEN fun_cong] split: option.splits)

lemma to_come_ll: "to_come (ll g now a s) = to_come s"
  by (simp add: to_come_def after_B_def bb_list_def next_supplement_def ll_keeps split: option.split)

text \<open>Going on to the next question of the current list (\<open>fq\<close>, \<open>Ul\<close>): it is the first one to come.\<close>

lemma next_in_list:
  assumes "asking s" "after_B s = x # xs" "same_frame (s\<lparr>z_B := x\<rparr>) t"
  shows "asking t \<and> to_come t = xs @ concat (drop (next_supplement s) (z_supp s))"
proof -
  obtain l where b: "bb_list s = l @ z_B s # x # xs" using asking_split [OF assms(1)] assms(2) by metis
  have d: "distinct (bb_list s)" by (rule asking_distinct [OF assms(1)])
  let ?s = "s\<lparr>z_B := x\<rparr>"
  have bs: "bb_list ?s = (l @ [z_B s]) @ x # xs" using b by (simp add: bb_list_def split: option.splits)
  have "asking ?s" using assms(1) b by (auto simp: asking_def bb_list_def split: option.splits)
  moreover have "Wa_array (bb_list ?s) x = int (length l + 1)"
    using d b unfolding bs by (subst Wa_split) auto
  then have "after_B ?s = xs" unfolding after_B_def by (simp add: bs nat_add_distrib)
  ultimately show ?thesis
    using assms(3) asking_frame to_come_frame [OF assms(3)] by (auto simp: to_come_def next_supplement_def)
qed

text \<open>The state when a fading, if there is one, has ended.\<close>

definition settled :: "settings \<Rightarrow> int \<Rightarrow> survey \<Rightarrow> survey" where
  "settled g later t = handle g later Fade_end t"

definition asks_next :: "settings \<Rightarrow> int \<Rightarrow> nat \<Rightarrow> nat list \<Rightarrow> survey \<Rightarrow> survey \<Rightarrow> bool" where
  "asks_next g later x xs s t \<longleftrightarrow>
     asking (settled g later t) \<and> asked (z_log (settled g later t)) = x # asked (z_log s) \<and> to_come (settled g later t) = xs"

lemma settled_asking: "asking t \<Longrightarrow> settled g later t = t"
  by (simp add: settled_def handle_def asking_def)

lemma asks_next_ll:
  assumes "asking t" "z_B t = x" "asked (z_log t) = asked (z_log s)" "to_come t = xs"
  shows "asks_next g later x xs s (ll g now a t)"
proof -
  have "t\<lparr>z_phase := Asking\<rparr> = t" using assms(1) by (simp add: asking_def)
  then have "asking (ll g now a t)" using assms(1) by (simp add: asking_ll)
  with assms show ?thesis by (simp add: asks_next_def settled_asking asked_ll to_come_ll)
qed

lemma to_come_phase [simp]: "to_come (t\<lparr>z_phase := p\<rparr>) = to_come t"
  by (simp add: to_come_def after_B_def bb_list_def next_supplement_def split: option.split)

lemma asks_next_zt:
  assumes "asking t" "z_B t = x" "asked (z_log t) = asked (z_log s)" "to_come t = xs"
  shows "asks_next g later x xs s (zt g now a c p t)"
proof (cases "c \<and> q_tag p = []")
  case True
  then show ?thesis using asks_next_ll [OF assms] by (simp add: zt_def)
next
  case False
  have "t\<lparr>z_phase := Asking\<rparr> = t" using assms(1) by (simp add: asking_def)
  then have "asking (ll g later a (t\<lparr>z_phase := Fading a\<rparr>))" using assms(1) by (intro asking_ll) simp
  moreover have "zt g now a c p t = t\<lparr>z_phase := Fading a\<rparr>" using False by (auto simp: zt_def)
  ultimately show ?thesis
    using assms by (simp add: asks_next_def settled_def handle_def asked_ll to_come_ll)
qed

lemma fq_next:
  assumes "asking s" "z_bb s = None"
  shows "case after_B s of
      [] \<Rightarrow> fq g now s = None
    | x # xs \<Rightarrow> (\<exists>t. fq g now s = Some t \<and>
        asks_next g later x (xs @ concat (drop (next_supplement s) (z_supp s))) s t)"
proof -
  obtain l r where b: "bb_list s = l @ z_B s # r" "Wa_array (bb_list s) (z_B s) = int (length l)" "after_B s = r"
    using asking_split [OF assms(1)] by metis
  show ?thesis
  proof (cases r)
    case Nil
    with b show ?thesis by (simp add: fq_def Let_def)
  next
    case (Cons x xs)
    let ?b = "int (length l) + 1"
    define s1 where "s1 = (if z_Mh s \<and> ?b = int (z_zd s) then wt g now ''a'' ''grant'' s
       else if ?b - 1 < 0 then s else if c_every g \<or> (?b - 1) mod 3 = 2 then yt g now s else s)"
    define s2 where "s2 = pipe_in g (s1\<lparr>z_B := x\<rparr>)"
    have f1: "same_frame s s1" by (simp add: s1_def frame)
    then have "same_frame (s\<lparr>z_B := x\<rparr>) (s1\<lparr>z_B := x\<rparr>)" by (simp add: same_frame_def)
    then have f2: "same_frame (s\<lparr>z_B := x\<rparr>) s2" unfolding s2_def using same_frame_trans frame_pipe by blast
    have a2: "asking s2" "to_come s2 = xs @ concat (drop (next_supplement s) (z_supp s))"
      using next_in_list [OF assms(1) _ f2] b(3) Cons by auto
    have x: "bb_list s1 ! nat ?b = x"
      using f1 b(1) Cons by (simp add: same_frame_def bb_list_def nat_add_distrib nth_append split: option.splits)
    let ?t = "if q_type (at_B s1) = ''permissions'' then ll g now True s2
      else zt g now True (matrix_fade (at_B s1) (at_B s2)) (at_B s1) s2"
    have "fq g now s = Some ?t"
      using b Cons x by (simp add: fq_def Let_def s1_def [symmetric] s2_def [symmetric])
    moreover have "z_B s2 = x" "asked (z_log s2) = asked (z_log s)" using f2 by (simp_all add: same_frame_def)
    then have "asks_next g later x (xs @ concat (drop (next_supplement s) (z_supp s))) s ?t"
      using a2 by (simp add: asks_next_ll asks_next_zt)
    ultimately show ?thesis using b(3) Cons by simp
  qed
qed

lemma Ul_next:
  assumes "asking s"
  shows "case after_B s of
      [] \<Rightarrow> Ul g now s = None
    | x # xs \<Rightarrow> (\<exists>t. Ul g now s = Some t \<and>
        asks_next g later x (xs @ concat (drop (next_supplement s) (z_supp s))) s t)"
proof -
  obtain l r where b: "bb_list s = l @ z_B s # r" "Wa_array (bb_list s) (z_B s) = int (length l)" "after_B s = r"
    using asking_split [OF assms(1)] by metis
  show ?thesis
  proof (cases r)
    case Nil
    with b show ?thesis by (simp add: Ul_def Let_def)
  next
    case (Cons x xs)
    define s2 where "s2 = put_question x ((z_qs s x)\<lparr>q_position := q_position (at_B s) + 1, q_gb := q_gb (at_B s)\<rparr>) (s\<lparr>z_B := x\<rparr>)"
    have f2: "same_frame (s\<lparr>z_B := x\<rparr>) s2" unfolding s2_def by (rule same_frame_put) simp
    have a2: "asking s2" "to_come s2 = xs @ concat (drop (next_supplement s) (z_supp s))"
      using next_in_list [OF assms(1) _ f2] b(3) Cons by auto
    have x: "bb_list s ! nat (int (length l) + 1) = x" using b(1) Cons by (simp add: nat_add_distrib nth_append)
    have "Ul g now s = Some (zt g now (0 < int (length l) + 1) False (at_B s) s2)"
      unfolding Ul_def Let_def b(2) x s2_def using b(1) Cons by simp
    moreover have "z_B s2 = x" "asked (z_log s2) = asked (z_log s)" using f2 by (simp_all add: same_frame_def)
    ultimately show ?thesis using a2 b(3) Cons by (simp add: asks_next_zt)
  qed
qed


text \<open>Going on to a supplemental list or to the end (\<open>Ct\<close>).\<close>

lemma frame_bb:
  assumes "asking s" "next_supplement s < length (z_supp s)"
  shows "Wa_array (z_supp s ! next_supplement s) (z_B s) = -1"
proof -
  have "z_B s \<in> set (z_Ra s @ concat (take (next_supplement s) (z_supp s)))"
  proof (cases "z_bb s")
    case None
    with assms show ?thesis by (simp add: asking_def bb_list_def)
  next
    case (Some i)
    with assms(2) have "z_supp s ! i \<in> set (take (next_supplement s) (z_supp s))"
      by (auto simp: next_supplement_def in_set_conv_nth intro!: exI [of _ i])
    with assms(1) Some show ?thesis by (auto simp: asking_def bb_list_def)
  qed
  moreover have "distinct ((z_Ra s @ concat (take (next_supplement s) (z_supp s))) @ z_supp s ! next_supplement s @
      concat (drop (Suc (next_supplement s)) (z_supp s)))"
    using assms(1) id_take_nth_drop [OF assms(2)] by (metis asking_def append.assoc concat.simps(2) concat_append)
  ultimately have "z_B s \<notin> set (z_supp s ! next_supplement s)" by auto
  then show ?thesis by (simp add: Wa_array_def Wa_from_absent)
qed

lemma Ct_next:
  assumes "asking s"
  shows "case concat (drop (next_supplement s) (z_supp s)) of
      [] \<Rightarrow> z_phase (Ct g now s) = Closed \<and> \<not> z_active (Ct g now s) \<and> asked (z_log (Ct g now s)) = asked (z_log s)
    | x # xs \<Rightarrow> asks_next g later x xs s (Ct g now s)"
proof (cases "next_supplement s < length (z_supp s)")
  case False
  have "asked (z_log (At g now s)) = asked (z_log s)" "z_Mh (At g now s) = z_Mh s"
    using frame_At [of s g now] by (auto simp: same_frame_def)
  with False assms show ?thesis
    by (simp add: Ct_def Bt_def Let_def asking_def za_def note_entry_def)
next
  case True
  let ?c = "next_supplement s"
  define s1 where "s1 = At g now s"
  have f1: "same_frame s s1" by (simp add: s1_def frame)
  then have a1: "asking s1" by (rule asking_frame [OF _ assms])
  have c: "z_supp s1 = z_supp s" "next_supplement s1 = ?c" using f1 by (auto simp: same_frame_def next_supplement_def)
  have "z_supp s ! ?c \<in> set (z_supp s)" "[] \<notin> set (z_supp s)" using True assms by (auto simp: asking_def)
  then obtain x xs where x: "z_supp s ! ?c = x # xs" by (metis neq_Nil_conv)
  let ?t = "s1\<lparr>z_bb := Some ?c, z_params := z_Kf s1 ! ?c, z_ud := [], z_V := filter (\<lambda>(k, v). k \<noteq> ''qo'') (z_V s1), z_Uc := now\<rparr>"
  have bt: "bb_list ?t = x # xs" "Wa_array (x # xs) (z_B s1) = -1"
    using frame_bb [OF a1] True x c by (simp_all add: bb_list_def)
  define s2 where "s2 = put_question x ((z_qs ?t x)\<lparr>q_position := q_position (at_B ?t) + 1, q_gb := q_gb (at_B ?t)\<rparr>) (?t\<lparr>z_B := x\<rparr>)"
  have U: "Ul g now ?t = Some (zt g now False False (at_B ?t) s2)"
    by (simp add: Ul_def Let_def bt s2_def)
  have f2: "same_frame (?t\<lparr>z_B := x\<rparr>) s2" unfolding s2_def by (rule same_frame_put) simp
  have bx: "bb_list (?t\<lparr>z_B := x\<rparr>) = x # xs" using x c by (simp add: bb_list_def)
  have "asking (?t\<lparr>z_B := x\<rparr>)" using a1 True c bx by (simp add: asking_def bb_list_def)
  then have a2: "asking s2" using asking_frame [OF f2] by simp
  have "after_B (?t\<lparr>z_B := x\<rparr>) = xs" unfolding after_B_def bx by (simp add: Wa_array_def)
  then have t2: "to_come s2 = xs @ concat (drop (Suc ?c) (z_supp s))"
    using to_come_frame [OF f2] c by (simp add: to_come_def next_supplement_def)
  have "z_B s2 = x" "asked (z_log s2) = asked (z_log s)" using f2 f1 by (simp_all add: same_frame_def)
  moreover have "Ct g now s = zt g now False False (at_B ?t) s2"
    using True U by (auto simp: Ct_def Let_def s1_def [symmetric])
  moreover have "concat (drop ?c (z_supp s)) = x # xs @ concat (drop (Suc ?c) (z_supp s))"
    using True x by (simp add: Cons_nth_drop_Suc [symmetric])
  ultimately show ?thesis using a2 t2 by (simp add: asks_next_zt)
qed


lemma wr_next:
  assumes "asking s"
  shows "case to_come s of
      [] \<Rightarrow> z_phase (wr g now ft s) = Closed \<and> asked (z_log (wr g now ft s)) = asked (z_log s)
    | x # xs \<Rightarrow> asks_next g later x xs s (wr g now ft s)"
proof -
  let ?u = "(keep_answers g ft s)\<lparr>z_bc := z_bc (keep_answers g ft s) + 1\<rparr>"
  have f: "same_frame s ?u" using same_frame_trans frame_keep same_frame_update(3) by blast
  then have a: "asking ?u" by (rule asking_frame [OF _ assms])
  have u: "after_B ?u = after_B s" "next_supplement ?u = next_supplement s" "z_supp ?u = z_supp s"
    "asked (z_log ?u) = asked (z_log s)"
    using f by (auto simp: same_frame_def next_supplement_def after_B_def bb_list_def split: option.split)
  have w: "wr g now ft s = (case (if z_bb ?u = None then fq g now ?u else Ul g now ?u) of Some t \<Rightarrow> t | None \<Rightarrow> Ct g now ?u)"
    by (simp only: wr_def Let_def)
  have n: "case after_B s of [] \<Rightarrow> (if z_bb ?u = None then fq g now ?u else Ul g now ?u) = None
    | x # xs \<Rightarrow> (\<exists>t. (if z_bb ?u = None then fq g now ?u else Ul g now ?u) = Some t \<and>
        asks_next g later x (xs @ concat (drop (next_supplement s) (z_supp s))) s t)"
    using fq_next [OF a, of g now later] Ul_next [OF a, of g now later] unfolding u asks_next_def
    by (cases "z_bb ?u = None") simp_all
  show ?thesis
  proof (cases "after_B s")
    case Nil
    then have r: "wr g now ft s = Ct g now ?u" using n unfolding w by simp
    define k where "k = concat (drop (next_supplement s) (z_supp s))"
    have k: "to_come s = k" using Nil by (simp add: to_come_def k_def)
    show ?thesis using Ct_next [OF a, of g now later] unfolding u r k k_def [symmetric] asks_next_def by (cases k) simp_all
  next
    case (Cons x xs)
    with n obtain t where "wr g now ft s = t" "asks_next g later x (xs @ concat (drop (next_supplement s) (z_supp s))) s t"
      unfolding w by auto
    with Cons show ?thesis by (simp add: to_come_def)
  qed
qed

text \<open>An answer, and the end of the fading that may follow it.\<close>

definition answer :: "int \<times> int \<times> rvalue \<times> rvalue \<Rightarrow> (int \<times> page_event) list" where
  "answer a = (case a of (now, later, v, i) \<Rightarrow> [(now, Click False v i), (later, Fade_end)])"

lemma Y_outcome_free: "q_qc q = [] \<Longrightarrow> \<exists>ft. Y_outcome a q = Response ft"
proof -
  assume q: "q_qc q = []"
  then have "\<not> Sk_fails q a b" for b by (simp add: Sk_fails_def vs_thresholds_def)
  then show ?thesis by (simp add: Y_outcome_def Let_def)
qed

text \<open>An answer to a prompt that asks is accepted.\<close>

lemma answer_next:
  assumes "asking s" and t: "t = handle g now (Click False v i) s"
  shows "case to_come s of
      [] \<Rightarrow> z_phase t = Closed \<and> asked (z_log t) = asked (z_log s)
    | x # xs \<Rightarrow> asks_next g later x xs s t"
proof -
  let ?q = "at_B s" and ?c = "elapsed now (at_B s)"
  let ?u = "put_question (z_B s) (Y_recorded ?c v i ?q) s"
  have f: "same_frame s ?u" by (rule same_frame_put) (simp add: at_B_def)
  then have u: "asking ?u" "to_come ?u = to_come s" "asked (z_log ?u) = asked (z_log s)"
    using asking_frame [OF f assms(1)] to_come_frame [OF f] by (simp_all add: same_frame_def)
  have tr: "q_qc ?q = []" "\<not> (q_fe ?q \<and> (q_allow ?q \<or> q_truth ?q \<noteq> []))"
    using asking_at_B [OF assms(1)] by (auto simp: traits_def)
  then obtain ft where "Y_outcome (rvalues v) ?q = Response ft" using Y_outcome_free by blast
  moreover have "Y_ua now False v i ?q = (Y_outcome (rvalues v) ?q, Y_recorded ?c v i ?q)"
    using tr(2) by (auto simp: Y_ua_def Let_def)
  moreover have "z_phase s = Asking" using assms(1) by (simp add: asking_def)
  ultimately have r: "t = wr g now ft ?u"
    by (simp add: t handle_def handle_click_def Let_def)
  show ?thesis using wr_next [OF u(1), of g now ft later] unfolding u r asks_next_def .
qed

lemma closed_stays: "z_phase s = Closed \<Longrightarrow> run_events g (concat (map answer as)) s = s"
  by (induction as) (auto simp: run_events_def answer_def handle_def)

lemma asked_in_order:
  assumes "asking s"
  shows "asked (z_log (run_events g (concat (map answer as)) s)) = rev (take (length as) (to_come s)) @ asked (z_log s) \<and>
    (if length as \<le> length (to_come s) then asking (run_events g (concat (map answer as)) s)
     else z_phase (run_events g (concat (map answer as)) s) = Closed)"
  using assms
proof (induction as arbitrary: s)
  case Nil
  then show ?case by (simp add: run_events_def)
next
  case (Cons a as)
  obtain now later v i where a: "a = (now, later, v, i)" by (cases a)
  let ?t = "settled g later (handle g now (Click False v i) s)"
  have r: "run_events g (concat (map answer (a # as))) s = run_events g (concat (map answer as)) ?t"
    by (simp add: run_events_def a answer_def settled_def)
  note n = answer_next [OF Cons.prems refl, of g now v i later]
  show ?case
  proof (cases "to_come s")
    case Nil
    with n have c: "z_phase (handle g now (Click False v i) s) = Closed"
      "asked (z_log (handle g now (Click False v i) s)) = asked (z_log s)" by auto
    then have "?t = handle g now (Click False v i) s" by (simp add: settled_def handle_def)
    with c Nil show ?thesis unfolding r by (simp add: closed_stays)
  next
    case (Cons x xs)
    with n have t: "asking ?t" "asked (z_log ?t) = x # asked (z_log s)" "to_come ?t = xs" by (auto simp: asks_next_def)
    show ?thesis using Cons.IH [OF t(1)] unfolding r t(2,3) Cons by simp
  qed
qed


subsection \<open>From the payload to the end\<close>

text \<open>New questions get new places in the store, in order.\<close>

definition stored :: "nat list \<Rightarrow> question list \<Rightarrow> survey \<Rightarrow> survey \<Rightarrow> bool" where
  "stored l es s t \<longleftrightarrow>
     l = [z_next s..<z_next t] \<and> z_next s \<le> z_next t \<and> map (z_qs t) l = es \<and> (\<forall>i < z_next s. z_qs t i = z_qs s i) \<and>
     z_log t = z_log s \<and> z_phase t = z_phase s"

lemma stored_new: "store_new es s = (l, t) \<Longrightarrow> stored l es s t"
  by (auto simp: store_new_def stored_def intro: nth_equalityI)

lemma stored_append:
  assumes "stored l es s t" "stored m fs t u"
  shows "stored (l @ m) (es @ fs) s u"
proof -
  have "map (z_qs u) l = map (z_qs t) l" using assms by (auto simp: stored_def)
  then have "map (z_qs u) (l @ m) = es @ fs" using assms unfolding stored_def by (metis map_append)
  moreover have "l @ m = [z_next s..<z_next u]"
    using assms upt_add_eq_append [of "z_next s" "z_next t" "z_next u - z_next t"] by (simp add: stored_def)
  ultimately show ?thesis using assms by (simp add: stored_def)
qed

lemma stored_lists: "store_lists ess s = (ls, t) \<Longrightarrow> stored (concat ls) (concat ess) s t \<and> map length ls = map length ess"
proof (induction ess arbitrary: s ls t)
  case Nil
  then show ?case by (simp add: stored_def)
next
  case (Cons es ess)
  obtain l u where l: "store_new es s = (l, u)" by fastforce
  obtain ms v where m: "store_lists ess u = (ms, v)" by fastforce
  have e: "ls = l # ms" "v = t" using Cons.prems l m by auto
  have "length l = length es" using l by (auto simp: store_new_def)
  with Cons.IH [OF m] stored_append [OF stored_new [OF l]] show ?case by (simp add: e)
qed

text \<open>Questions that accept every answer.\<close>

definition plain_spec :: "spec \<Rightarrow> bool" where
  "plain_spec e \<longleftrightarrow> p_group e = None \<and> p_truth e = [] \<and> p_thresholds e = []"

definition plain_question :: "question \<Rightarrow> bool" where
  "plain_question q \<longleftrightarrow> q_group q = None \<and> \<not> q_allow q \<and> q_truth q = [] \<and> q_qc q = []"

lemma plain_traits: "plain_question q \<Longrightarrow> traits q = (None, False, [])"
  by (simp add: plain_question_def traits_def)

lemma plain_qt_loop:
  "qt_loop False ud b ds = Inr es \<Longrightarrow> list_all plain_spec b \<Longrightarrow> list_all plain_question es \<and> length es = length ds"
proof (induction ds arbitrary: es)
  case (Cons d ds)
  let ?j = "if ud \<noteq> [] then (if d < length ud then ud ! d else length b) else d"
  obtain c where j: "?j < length b" and c: "qt_loop False ud b ds = Inr c" and es: "es = new_question False (b ! ?j) # c"
    using Cons.prems(1) by (auto simp: Let_def split: if_splits sum.splits)
  have "plain_spec (b ! ?j)" using Cons.prems(2) j by (simp add: list_all_length)
  then have "plain_question (new_question False (b ! ?j))" by (simp add: plain_spec_def plain_question_def new_question_def)
  with Cons.IH [OF c Cons.prems(2)] show ?case by (simp add: es)
qed simp

lemma plain_qt: "qt False ud b = Inr es \<Longrightarrow> list_all plain_spec b \<Longrightarrow> list_all plain_question es \<and> length es = length b"
  using plain_qt_loop [of ud b "[0..<length b]" es] by (simp add: qt_def)

lemma plain_rt: "list_all plain_question es \<Longrightarrow> list_all plain_question (snd (rt Mh zd d es)) \<and> length (snd (rt Mh zd d es)) = length es"
proof -
  have n: "list_all plain_question es \<Longrightarrow> list_all plain_question (rt_number k c es) \<and> length (rt_number k c es) = length es" for k c es
    by (induction k c es rule: rt_number.induct) (auto simp: Let_def plain_question_def)
  have g: "plain_question (rt_gb m z c k q) = plain_question q" for m z c k q by (simp add: rt_gb_def plain_question_def)
  assume "list_all plain_question es"
  with n [of es 0 0] show ?thesis by (cases "es = []") (simp_all add: rt_def Let_def list.pred_map o_def g)
qed

lemma plain_supplements:
  "jt_supplements False ls ud = Inr (r, ud') \<Longrightarrow> list_all (\<lambda>(p, q). list_all plain_spec (fst (pt q))) ls \<Longrightarrow>
    list_all (\<lambda>(p, es). list_all plain_question es) r \<and> map (length \<circ> snd) r = map (length \<circ> fst \<circ> pt \<circ> snd) ls"
proof (induction ls arbitrary: ud r ud')
  case (Cons a ls)
  obtain p q where a: "a = (p, q)" by (cases a)
  obtain l o' where l: "pt q = (l, o')" by fastforce
  obtain es r' ud'' where es: "qt False (ud @ o') l = Inr es" and r': "jt_supplements False ls (ud @ o') = Inr (r', ud'')"
    and r: "r = (p, es) # r'"
    using Cons.prems(1) by (auto simp: a l Let_def split: sum.splits)
  have "list_all plain_question es \<and> length es = length l" using plain_qt [OF es] Cons.prems(2) by (simp add: a l)
  then show ?case using Cons.IH [OF r'] Cons.prems(2) by (simp add: r a l)
qed simp


text \<open>A prompt built from a payload of plain questions asks its first question.\<close>

lemma jt_asking:
  assumes "jt g now c s = Inr t" "\<not> c_allow g" "\<not> z_Mh t"
    "list_all plain_spec (fst (pt (y_payload c)))"
    "list_all (\<lambda>(p, q). fst (pt q) \<noteq> [] \<and> list_all plain_spec (fst (pt q))) (y_supp c)"
  shows "asking (xt now t) \<and> z_Ra t \<noteq> [] \<and> hd (z_Ra t) = z_B t \<and> z_bb t = None \<and> z_log t = z_log s \<and>
    length (z_Ra t) = length (fst (pt (y_payload c))) \<and>
    map length (z_supp t) = map (length \<circ> fst \<circ> pt \<circ> snd) (y_supp c)"
proof -
  obtain d ud where d: "pt (y_payload c) = (d, ud)" by fastforce
  obtain sl ud' where sl: "jt_supplements False (y_supp c) ud = Inr (sl, ud')"
    using assms(1,2) by (auto simp: jt_def d Let_def split: sum.splits)
  obtain es where es: "qt False ud' d = Inr es"
    using assms(1,2) by (auto simp: jt_def d sl Let_def split: sum.splits)
  define Mh where "Mh = (case y_payload c of Some (Longform _ _) \<Rightarrow> (if c_split g \<and> 2 < length d then True else z_Mh s) | _ \<Rightarrow> z_Mh s)"
  obtain zd fs where fs: "rt Mh (z_zd s) (sum_list (map (length \<circ> snd) sl)) es = (zd, fs)" by fastforce
  obtain ra s1 where s1: "store_new fs s = (ra, s1)" by fastforce
  obtain supp s2 where s2: "store_lists (map snd sl) s1 = (supp, s2)" by fastforce
  have t: "ra \<noteq> []" "t = s2\<lparr>z_Ra := ra, z_supp := supp, z_Kf := map fst sl, z_bb := None, z_B := hd ra,
      z_ef := Map.empty, z_nr := Map.empty, z_V := (''v'', ''3'') # y_V c, z_ud := ud',
      z_params := y_params c, z_Uc := now, z_Mh := Mh, z_zd := zd\<rparr>"
    using assms(1,2) by (auto simp: jt_def d sl es Mh_def [symmetric] fs s1 s2 split: if_splits)
  have p: "list_all plain_question fs" "length fs = length d"
    using plain_qt [OF es] assms(4) plain_rt [of es Mh "z_zd s" "sum_list (map (length \<circ> snd) sl)"] by (auto simp: d fs)
  have q: "list_all (\<lambda>(p, es). list_all plain_question es) sl" "map (length \<circ> snd) sl = map (length \<circ> fst \<circ> pt \<circ> snd) (y_supp c)"
    using plain_supplements [OF sl] assms(5) by (auto simp: list_all_iff)
  have st: "stored (ra @ concat supp) (fs @ concat (map snd sl)) s s2" "map length supp = map (length \<circ> snd) sl"
    using stored_append [OF stored_new [OF s1]] stored_lists [OF s2] by auto
  have "list_all plain_question (fs @ concat (map snd sl))" using p(1) q(1) by (auto simp: list_all_iff)
  then have "list_all plain_question (map (z_qs s2) (ra @ concat supp))"
    using st(1) unfolding stored_def by metis
  then have pl: "\<forall>i \<in> set (ra @ concat supp). plain_question (z_qs s2 i)" by (simp add: list_all_iff ball_Un)
  have "distinct (ra @ concat supp)" using st(1) by (simp add: stored_def)
  moreover have "[] \<notin> set supp"
  proof
    assume "[] \<in> set supp"
    then have "0 \<in> set (map length supp)" by force
    then show False using assms(5) unfolding st(2) q(2) by (auto simp: list_all_iff)
  qed
  moreover have "length ra = length fs" using s1 by (auto simp: store_new_def)
  moreover have "\<forall>i \<in> set (ra @ concat supp). traits (z_qs (xt now t) i) = (None, False, [])"
  proof
    fix i assume "i \<in> set (ra @ concat supp)"
    then have "traits (z_qs t i) = (None, False, [])" using pl by (simp add: t(2) plain_traits)
    then show "traits (z_qs (xt now t) i) = (None, False, [])"
      by (auto simp: xt_def st_def Let_def note_entry_def at_B_def)
  qed
  moreover have "z_log s2 = z_log s" using st(1) by (simp add: stored_def)
  moreover have "z_Ra (xt now t) = ra" "z_supp (xt now t) = supp" "z_bb (xt now t) = None" "z_B (xt now t) = hd ra"
    "z_phase (xt now t) = Asking" "z_active (xt now t)" "z_Mh (xt now t) = z_Mh t"
    by (simp_all add: t(2) xt_def st_def Let_def note_entry_def)
  ultimately show ?thesis
    unfolding asking_def bb_list_def using t(1) assms(3) p(2) q(2) st(2)
    by (simp del: set_append set_concat) (simp add: t(2) d)
qed


text \<open>Which questions are asked: the questions of a payload, in its own order or in the order that
  \<open>question_ordering\<close> gives, and then those of each supplemental payload. The orders of the payloads
  are put together: that of a supplemental payload is found at the end of those before it, and the
  main questions use all of them.\<close>

definition in_order :: "nat list \<Rightarrow> spec list \<Rightarrow> spec list" where
  "in_order ord b = map (\<lambda>d. b ! (if ord = [] then d else ord ! d)) [0..<length b]"

definition main_specs :: "reply \<Rightarrow> spec list" where
  "main_specs c = fst (pt (y_payload c))"

definition supp_specs :: "reply \<Rightarrow> spec list list" where
  "supp_specs c = map (\<lambda>(p, q). fst (pt q)) (y_supp c)"

definition orders_upto :: "nat \<Rightarrow> reply \<Rightarrow> nat list" where
  "orders_upto k c = snd (pt (y_payload c)) @ concat (map (\<lambda>(p, q). snd (pt q)) (take k (y_supp c)))"

definition survey_specs :: "reply \<Rightarrow> spec list" where
  "survey_specs c = in_order (orders_upto (length (y_supp c)) c) (main_specs c) @
     concat (map (\<lambda>k. in_order (orders_upto (Suc k) c) (supp_specs c ! k)) [0..<length (y_supp c)])"

text \<open>What is shown of a question.\<close>

definition spec_view :: "spec \<Rightarrow> string \<times> string \<times> string list" where
  "spec_view e = (p_type e, p_question e, p_answers e)"

definition view :: "question \<Rightarrow> string \<times> string \<times> string list" where
  "view q = (q_type q, q_text q, q_sa q)"

lemma in_order_plain: "in_order [] b = b"
  by (simp add: in_order_def map_nth)

lemma survey_specs_plain:
  assumes "orders_upto (length (y_supp c)) c = []"
  shows "survey_specs c = main_specs c @ concat (supp_specs c)"
proof -
  have "orders_upto (Suc k) c = []" if "k < length (y_supp c)" for k
  proof -
    have "set (take (Suc k) (y_supp c)) \<subseteq> set (take (length (y_supp c)) (y_supp c))"
      using set_take_subset by fastforce
    then show ?thesis using assms by (fastforce simp: orders_upto_def)
  qed
  then have "map (\<lambda>k. in_order (orders_upto (Suc k) c) (supp_specs c ! k)) [0..<length (y_supp c)] =
      map (\<lambda>k. supp_specs c ! k) [0..<length (y_supp c)]"
    by (intro map_cong refl) (simp add: in_order_plain)
  also have "\<dots> = supp_specs c" using map_nth [of "supp_specs c"] by (simp add: supp_specs_def)
  finally show ?thesis unfolding survey_specs_def assms in_order_plain by (simp only:)
qed

text \<open>An order that is a permutation leaves no question out and repeats none.\<close>

lemma in_order_perm:
  assumes "mset (take (length b) ord) = mset [0..<length b]"
  shows "mset (in_order ord b) = mset b"
proof (cases "ord = []")
  case True
  then show ?thesis by (simp add: in_order_plain)
next
  case False
  have len: "length (take (length b) ord) = length b" using assms by (metis length_upt minus_nat.diff_0 size_mset)
  then have le: "length b \<le> length ord" by simp
  have "in_order ord b = map ((!) b) (take (length b) ord)"
    using False le by (intro nth_equalityI) (simp_all add: in_order_def)
  then have "mset (in_order ord b) = image_mset ((!) b) (mset (take (length b) ord))" by simp
  also have "\<dots> = image_mset ((!) b) (mset [0..<length b])" by (simp only: assms)
  also have "\<dots> = mset (map ((!) b) [0..<length b])" by simp
  finally show ?thesis by (simp only: map_nth)
qed

lemma qt_views: "qt allow ord b = Inr es \<Longrightarrow> map view es = map spec_view (in_order ord b)"
proof -
  have "qt_loop allow ord b ds = Inr es \<Longrightarrow> map view es = map (\<lambda>d. spec_view (b ! (if ord = [] then d else ord ! d))) ds" for ds
  proof (induction ds arbitrary: es)
    case (Cons d ds)
    let ?j = "if ord \<noteq> [] then (if d < length ord then ord ! d else length b) else d"
    obtain c where j: "?j < length b" and c: "qt_loop allow ord b ds = Inr c" and es: "es = new_question allow (b ! ?j) # c"
      using Cons.prems(1) by (auto simp: Let_def split: if_splits sum.splits)
    have "?j = (if ord = [] then d else ord ! d)" using j by (auto split: if_splits)
    moreover have "view (new_question allow e) = spec_view e" for e by (simp add: view_def spec_view_def new_question_def)
    ultimately show ?case using Cons.IH [OF c] by (simp add: es)
  qed simp
  then show "qt allow ord b = Inr es \<Longrightarrow> ?thesis" by (simp add: qt_def in_order_def)
qed

lemma rt_views: "map view (snd (rt Mh zd d es)) = map view es"
proof -
  have "map view (rt_number k c es) = map view es" for k c es
    by (induction k c es rule: rt_number.induct) (auto simp: Let_def view_def)
  moreover have "view (rt_gb m z c k q) = view q" for m z c k q by (simp add: rt_gb_def view_def)
  ultimately show ?thesis by (cases "es = []") (simp_all add: rt_def Let_def o_def)
qed

lemma supplement_views:
  "jt_supplements allow ls ord = Inr (r, ord') \<Longrightarrow>
   ord' = ord @ concat (map (\<lambda>(p, q). snd (pt q)) ls) \<and>
   map (map view \<circ> snd) r = map (\<lambda>k. map spec_view
     (in_order (ord @ concat (map (\<lambda>(p, q). snd (pt q)) (take (Suc k) ls))) (fst (pt (snd (ls ! k)))))) [0..<length ls]"
proof (induction ls arbitrary: ord r ord')
  case (Cons a ls)
  obtain p q where a: "a = (p, q)" by (cases a)
  obtain l o' where l: "pt q = (l, o')" by fastforce
  obtain es r' ord'' where es: "qt allow (ord @ o') l = Inr es" and r': "jt_supplements allow ls (ord @ o') = Inr (r', ord'')"
    and r: "r = (p, es) # r'" "ord' = ord''"
    using Cons.prems(1) by (auto simp: a l Let_def split: sum.splits)
  have up: "[0..<length (a # ls)] = 0 # map Suc [0..<length ls]" by (simp add: upt_conv_Cons map_Suc_upt del: upt_Suc)
  show ?case
    using Cons.IH [OF r'] qt_views [OF es] unfolding up by (simp add: r a l o_def)
qed simp

lemma jt_views:
  assumes "jt g now c s = Inr t"
  shows "map (\<lambda>i. view (z_qs t i)) (z_Ra t @ concat (z_supp t)) = map spec_view (survey_specs c) \<and>
    z_ud t = orders_upto (length (y_supp c)) c"
proof -
  obtain d ud where d: "pt (y_payload c) = (d, ud)" by fastforce
  obtain sl ud' where sl: "jt_supplements (c_allow g) (y_supp c) ud = Inr (sl, ud')"
    using assms(1) by (auto simp: jt_def d Let_def split: sum.splits)
  obtain es where es: "qt (c_allow g) ud' d = Inr es"
    using assms(1) by (auto simp: jt_def d sl Let_def split: sum.splits)
  define Mh where "Mh = (case y_payload c of Some (Longform _ _) \<Rightarrow> (if c_split g \<and> 2 < length d then True else z_Mh s) | _ \<Rightarrow> z_Mh s)"
  obtain zd fs where fs: "rt Mh (z_zd s) (sum_list (map (length \<circ> snd) sl)) es = (zd, fs)" by fastforce
  obtain ra s1 where s1: "store_new fs s = (ra, s1)" by fastforce
  obtain supp s2 where s2: "store_lists (map snd sl) s1 = (supp, s2)" by fastforce
  have t: "t = s2\<lparr>z_Ra := ra, z_supp := supp, z_Kf := map fst sl, z_bb := None, z_B := hd ra,
      z_ef := Map.empty, z_nr := Map.empty, z_V := (''v'', ''3'') # y_V c, z_ud := ud',
      z_params := y_params c, z_Uc := now, z_Mh := Mh, z_zd := zd\<rparr>"
    using assms(1) by (auto simp: jt_def d sl es Mh_def [symmetric] fs s1 s2 split: if_splits)
  have ord: "ud' = orders_upto (length (y_supp c)) c"
    using supplement_views [OF sl] by (simp add: orders_upto_def d)
  have main: "map view fs = map spec_view (in_order ud' (main_specs c))"
    using rt_views [of Mh "z_zd s" "sum_list (map (length \<circ> snd) sl)" es] qt_views [OF es] by (simp add: fs main_specs_def d)
  have "map (map view \<circ> snd) sl = map (\<lambda>k. map spec_view (in_order (orders_upto (Suc k) c) (supp_specs c ! k))) [0..<length (y_supp c)]"
    using supplement_views [OF sl] by (simp add: orders_upto_def d supp_specs_def split_beta)
  then have "concat (map (map view \<circ> snd) sl) =
      concat (map (\<lambda>k. map spec_view (in_order (orders_upto (Suc k) c) (supp_specs c ! k))) [0..<length (y_supp c)])"
    by (simp only:)
  then have supp: "map view (concat (map snd sl)) =
      map spec_view (concat (map (\<lambda>k. in_order (orders_upto (Suc k) c) (supp_specs c ! k)) [0..<length (y_supp c)]))"
    by (simp add: map_concat o_def)
  have "stored (ra @ concat supp) (fs @ concat (map snd sl)) s s2"
    using stored_append [OF stored_new [OF s1]] stored_lists [OF s2] by blast
  then have "map (z_qs s2) (ra @ concat supp) = fs @ concat (map snd sl)" unfolding stored_def by blast
  then have "map view (map (z_qs s2) (ra @ concat supp)) = map spec_view (survey_specs c)"
    using main supp by (simp add: survey_specs_def ord)
  then show ?thesis by (simp add: t o_def ord)
qed


definition sample_spec :: "string \<Rightarrow> spec" where
  "sample_spec q = \<lparr>p_type = ''multi'', p_question = q, p_answers = [''yes'', ''no''], p_thresholds = [], p_truth = [],
     p_group = None, p_tag = [], p_order = []\<rparr>"

definition sample_settings :: settings where
  "sample_settings = \<lparr>c_url = True, c_format = ''hats'', c_every = False, c_split = False, c_allow = False, c_rnd = (\<lambda>x. 0)\<rparr>"

definition sample_reply :: reply where
  "sample_reply = \<lparr>y_params = ''p'', y_payload = Some (Pivot (sample_spec ''Tea?'') (sample_spec ''Milk?'')),
     y_supp = [(''q'', Some (Single (sample_spec ''Sugar?'')))], y_V = []\<rparr>"

definition no_survey :: survey where
  "no_survey = \<lparr>z_qs = (\<lambda>i. new_question False (sample_spec [])), z_next = 0, z_Ra = [], z_supp = [], z_Kf = [],
     z_bb = None, z_B = 0, z_ef = Map.empty, z_nr = Map.empty, z_V = [], z_ud = [], z_params = [], z_bc = 0, z_Uc = 0,
     z_wf = None, z_active = False, z_k = False, z_Mh = False, z_zd = 0, z_phase = Closed, z_log = []\<rparr>"

definition sample_survey :: survey where
  "sample_survey = (case jt sample_settings 0 sample_reply no_survey of Inr t \<Rightarrow> t | Inl e \<Rightarrow> no_survey)"

lemma sample_survey_jt: "jt sample_settings 0 sample_reply no_survey = Inr sample_survey"
proof -
  have "\<not> isl (jt sample_settings 0 sample_reply no_survey)" by code_simp
  then show ?thesis by (auto simp: sample_survey_def split: sum.split)
qed

lemma sample_survey_order: "z_Ra sample_survey = [0, 1]" "z_supp sample_survey = [[2]]" "\<not> z_Mh sample_survey"
  by code_simp+

lemma sample_reply_plain:
  "list_all plain_spec (main_specs sample_reply)"
  "list_all (\<lambda>l. l \<noteq> [] \<and> list_all plain_spec l) (supp_specs sample_reply)"
  "survey_specs sample_reply = [sample_spec ''Tea?'', sample_spec ''Milk?'', sample_spec ''Sugar?'']"
  by (simp_all add: main_specs_def supp_specs_def sample_reply_def sample_spec_def plain_spec_def survey_specs_def
      orders_upto_def in_order_def upt_rec)


theorem one_report_each_witness:
  "disciplined (z_log (run_events sample_settings [(5, Click False (One ''yes'') (One ''0'')), (6, Unload), (7, Unload)] (xt 0 no_survey)))"
  by (rule one_report_each) (simp add: no_survey_def)


subsection \<open>Data for a callback\<close>

text \<open>\<open>Jt\<close>: the part of a report that a callback of the page gets. \<open>types\<close> are the types of the questions
  \<open>Ra\<close>; of the number in a key one character is read, as written. A question that is not there raises
  an error (\<open>None\<close>). No question has \<open>hasOther\<close>: nothing sets it.\<close>

definition open_type :: "string \<Rightarrow> bool" where
  "open_type t \<longleftrightarrow> t \<in> set [''open-text'', ''open-text-image'', ''open-numeric'', ''take-picture'']"

definition Jt_deletes :: "string list \<Rightarrow> bool \<Rightarrow> (string \<times> rvalue) list \<Rightarrow> string \<Rightarrow> bool option" where
  "Jt_deletes types gws c a =
     (if starts_with a ''r.'' \<or> starts_with a ''m.'' \<or> a = ''t'' then
        if starts_with a ''r.'' \<and> CHR ''-'' \<in> set a then
          (case parse_int10 (take 1 (tl (dropWhile (\<lambda>x. x \<noteq> CHR ''-'') a))) of
             Fin b \<Rightarrow> (let i = nat \<lfloor>b\<rfloor> in if i < length types then Some (open_type (types ! i)) else None)
           | _ \<Rightarrow> None)
        else if starts_with a ''m.pa-'' then Some True
        else Some (gws \<and> starts_with a ''m.'' \<and> (a \<noteq> ''m.sh'' \<or> map_of c ''m.sh'' \<noteq> Some (One ''close'')))
      else Some True)"

fun Jt_loop :: "string list \<Rightarrow> bool \<Rightarrow> string list \<Rightarrow> (string \<times> rvalue) list \<Rightarrow> (string \<times> rvalue) list option" where
  "Jt_loop types gws [] c = Some c"
| "Jt_loop types gws (a # as) c =
     (case Jt_deletes types gws c a of
        None \<Rightarrow> None
      | Some del \<Rightarrow> Jt_loop types gws as (if del then filter (\<lambda>(k, v). k \<noteq> a) c else c))"

definition Jt :: "string list \<Rightarrow> bool \<Rightarrow> (string \<times> rvalue) list \<Rightarrow> (string \<times> rvalue) list option" where
  "Jt types gws b = Jt_loop types gws (map fst b) b"

lemma Jt_loop_keeps:
  "Jt_loop types gws as c = Some c' \<Longrightarrow>
    set c' \<subseteq> set c \<and> (\<forall>a \<in> set as. \<forall>x. (a, x) \<in> set c' \<longrightarrow> (\<exists>d. Jt_deletes types gws d a = Some False))"
proof (induction as arbitrary: c)
  case (Cons a as)
  obtain del where del: "Jt_deletes types gws c a = Some del" using Cons.prems by (auto split: option.splits)
  let ?c = "if del then filter (\<lambda>(k, v). k \<noteq> a) c else c"
  have "Jt_loop types gws as ?c = Some c'" using Cons.prems del by simp
  note ih = Cons.IH [OF this]
  have "(\<exists>d. Jt_deletes types gws d a = Some False)" if "(a, x) \<in> set c'" for x
    using that ih del by (cases del) auto
  with ih show ?case by (auto split: if_splits)
qed simp

lemma key_index: "CHR ''-'' \<notin> set f \<Longrightarrow> tl (dropWhile (\<lambda>x. x \<noteq> CHR ''-'') (''r.'' @ f @ ''-'' @ s)) = s"
  by (induction f) auto

lemma digit_not: "is_digit x \<Longrightarrow> \<not> is_space x \<and> x \<noteq> CHR ''-'' \<and> x \<noteq> CHR ''+''"
  by (auto simp: is_digit_def is_space_def Let_def)

lemma one_digit: "n < 10 \<Longrightarrow> parse_int10 (take 1 (show_nat n)) = Fin (of_nat n)"
proof -
  assume n: "n < 10"
  then have "show_nat n = [char_of (48 + n)]" by (simp add: show_nat.simps)
  moreover have d: "is_digit (char_of (48 + n))" "digit_val (char_of (48 + n)) = n" using digit_char n by auto
  moreover note digit_not [OF d(1)]
  ultimately show ?thesis by (simp add: parse_int10_def digits_val_def)
qed

text \<open>The report that \<open>wt\<close> makes: its keys.\<close>

definition response_key :: "string \<Rightarrow> nat \<Rightarrow> string" where
  "response_key d n = ''r.'' @ d @ ''-'' @ show_nat n"

lemma response_key_parse: "CHR ''-'' \<notin> set d \<Longrightarrow>
    starts_with (response_key d n) ''r.'' \<and> CHR ''-'' \<in> set (response_key d n) \<and>
    tl (dropWhile (\<lambda>x. x \<noteq> CHR ''-'') (response_key d n)) = show_nat n"
  unfolding response_key_def using key_index by (simp add: starts_with_def)

lemma response_key_number:
  assumes "CHR ''-'' \<notin> set d" "CHR ''-'' \<notin> set d'" "response_key d n = response_key d' n'"
  shows "n = n'"
  using response_key_parse [OF assms(1), of n] response_key_parse [OF assms(2), of n'] assms(3)
  by (metis digits_val_show_nat)

definition names :: "(string \<times> 'v) list \<Rightarrow> string set" where
  "names c = fst ` set c"

lemma names_dict_set [simp]: "names (dict_set k v c) = insert k (names c)"
  by (simp add: names_def dict_set_fst)

lemma names_I: "(k, v) \<in> set c \<Longrightarrow> k \<in> names c"
  by (force simp: names_def)

lemma names_fold: "names (fold (\<lambda>(d, a) c. dict_set (f d) (g a) c) xs c) = f ` names xs \<union> names c"
proof (induction xs arbitrary: c)
  case (Cons x xs)
  obtain d a where x: "x = (d, a)" by force
  have "names ((d, a) # xs) = insert d (names xs)" by (simp add: names_def)
  with Cons show ?case by (simp add: x)
qed (simp add: names_def)

lemma It_responses_names: "names (It_responses b q c) \<subseteq> (\<lambda>d. ''r.'' @ d @ ''-'' @ b) ` names (q_response q) \<union> names c"
proof -
  have "names (fold (\<lambda>(d, a) c. if rvalues a = [] then c else dict_set (f d) (Many (rvalues a)) c) xs c) \<subseteq>
      f ` names xs \<union> names c" for f :: "string \<Rightarrow> string" and xs
  proof (induction xs arbitrary: c)
    case (Cons x xs)
    obtain d a where x: "x = (d, a)" by force
    have n: "names ((d, a) # xs) = insert d (names xs)" by (simp add: names_def)
    show ?case
    proof (cases "rvalues a = []")
      case True
      with Cons.IH [of c] show ?thesis by (simp add: x n) blast
    next
      case False
      with Cons.IH [of "dict_set (f d) (Many (rvalues a)) c"] show ?thesis by (simp add: x n)
    qed
  qed (simp add: names_def)
  from this [of "\<lambda>d. ''r.'' @ d @ ''-'' @ b"] show ?thesis unfolding It_responses_def .
qed

definition response_keys :: "survey \<Rightarrow> string set" where
  "response_keys s = {response_key d n | d n. n < length (z_Ra s) \<and> d \<in> names (q_response (z_qs s (z_Ra s ! n)))}"

definition page_key :: "string \<Rightarrow> bool" where
  "page_key k \<longleftrightarrow> \<not> starts_with k ''r.''"

lemma page_keys: "page_key ''d''" "page_key ''p''" "page_key ''t''" "page_key (''m.'' @ x)"
  by (simp_all add: page_key_def starts_with_def)

lemma It_responses_bound:
  assumes "n < length (z_Ra s)"
  shows "names (It_responses (show_nat n) (z_qs s (z_Ra s ! n)) c) \<subseteq> response_keys s \<union> names c"
proof -
  have "(\<lambda>d. ''r.'' @ d @ ''-'' @ show_nat n) ` names (q_response (z_qs s (z_Ra s ! n))) \<subseteq> response_keys s"
  proof (rule image_subsetI)
    fix d assume d: "d \<in> names (q_response (z_qs s (z_Ra s ! n)))"
    show "''r.'' @ d @ ''-'' @ show_nat n \<in> response_keys s"
      unfolding response_keys_def response_key_def
      by (intro CollectI exI [of _ d] exI [of _ n] conjI refl assms d)
  qed
  then show ?thesis by (intro order_trans [OF It_responses_names] Un_mono order_refl)
qed

lemma It_measures_bound: "names (It_measures b q c) \<subseteq> {k. page_key k} \<union> names c"
proof -
  have "names (It_measures b q c) = (\<lambda>d. ''m.'' @ d @ ''-'' @ b) ` names (q_V q) \<union> names c"
    unfolding It_measures_def by (rule names_fold)
  moreover have "(\<lambda>d. ''m.'' @ d @ ''-'' @ b) ` names (q_V q) \<subseteq> {k. page_key k}"
    by (intro image_subsetI CollectI page_keys(4))
  ultimately show ?thesis by (simp only: Un_mono order_refl)
qed

lemma fold_names:
  assumes "\<And>x c. x \<in> set xs \<Longrightarrow> names (f x c) \<subseteq> A \<union> names c"
  shows "names (fold f xs c) \<subseteq> A \<union> names c"
  using assms
proof (induction xs arbitrary: c)
  case (Cons x xs)
  have "names (fold f xs (f x c)) \<subseteq> A \<union> names (f x c)" by (intro Cons.IH Cons.prems) simp
  moreover have "names (f x c) \<subseteq> A \<union> names c" by (intro Cons.prems) simp
  ultimately show ?case unfolding fold_Cons comp_apply by blast
qed simp

lemma It_names:
  assumes "z_bb s = None" "z_ud s = []"
  shows "names (It s c) \<subseteq> (response_keys s \<union> {k. page_key k}) \<union> names c"
proof (cases "Wa_array (bb_list s) (z_B s) \<noteq> -1")
  case True
  let ?qs = "zip [0..<length (z_Ra s)] (map (z_qs s) (z_Ra s))"
  let ?r = "fold (\<lambda>(b, q) c. It_responses (It_label [] b) q c) ?qs c"
  have r: "names ?r \<subseteq> response_keys s \<union> names c"
  proof (rule fold_names)
    fix x d assume "x \<in> set ?qs"
    then obtain n where "x = (n, z_qs s (z_Ra s ! n))" "n < length (z_Ra s)" by (auto simp: set_zip)
    then show "names ((\<lambda>(b, q) c. It_responses (It_label [] b) q c) x d) \<subseteq> response_keys s \<union> names d"
      using It_responses_bound [of n s d] by (simp add: It_label_def)
  qed
  have m: "names (fold (\<lambda>(b, q) c. It_measures (It_label [] b) q c) ?qs ?r) \<subseteq> {k. page_key k} \<union> names ?r"
    by (rule fold_names) (simp add: It_measures_bound split_beta)
  have It: "It s c = fold (\<lambda>(b, q) c. It_measures (It_label [] b) q c) ?qs ?r"
    using True assms by (simp add: It_def bb_list_def Let_def)
  have "{k. page_key k} \<union> names ?r \<subseteq> (response_keys s \<union> {k. page_key k}) \<union> names c" using r by blast
  with m show ?thesis unfolding It by (rule order_trans)
next
  case False
  then show ?thesis by (simp add: It_def)
qed

lemma wt_data_parts:
  "names (wt_data b V s) = insert ''d'' (insert ''p''
     ((\<lambda>k. ''m.'' @ k) ` names V \<union> names (if b \<noteq> ''sv'' then It s [(''t'', One b)] else [(''t'', One b)])))"
  unfolding wt_data_def Let_def names_dict_set names_fold ..

lemma report_names:
  assumes "z_bb s = None" "z_ud s = []"
  shows "names (if b \<noteq> ''sv'' then It s [(''t'', One b)] else [(''t'', One b)]) \<subseteq> response_keys s \<union> {k. page_key k}"
proof -
  have "names [(''t'', One b)] \<subseteq> {k. page_key k}" using page_keys(3) by (simp add: names_def)
  with It_names [OF assms, of "[(''t'', One b)]"] show ?thesis by (cases "b = ''sv''") auto
qed

lemma wt_data_names:
  assumes "z_bb s = None" "z_ud s = []" "k \<in> names (wt_data b V s)"
  shows "k \<in> response_keys s \<or> page_key k"
proof -
  have "(\<lambda>k. ''m.'' @ k) ` names V \<subseteq> response_keys s \<union> {k. page_key k}"
    by (intro image_subsetI UnI2 CollectI page_keys(4))
  moreover note report_names [OF assms(1,2), of b]
  moreover have "''d'' \<in> response_keys s \<union> {k. page_key k}" "''p'' \<in> response_keys s \<union> {k. page_key k}"
    using page_keys(1,2) by simp_all
  ultimately have "names (wt_data b V s) \<subseteq> response_keys s \<union> {k. page_key k}"
    unfolding wt_data_parts by (intro insert_subsetI Un_least)
  with assms(3) show ?thesis by blast
qed

lemma Jt_loop_total:
  "\<forall>a \<in> set as. \<forall>d. Jt_deletes types gws d a \<noteq> None \<Longrightarrow> \<exists>c'. Jt_loop types gws as c = Some c'"
proof (induction as arbitrary: c)
  case (Cons a as)
  then obtain del where "Jt_deletes types gws c a = Some del" by fastforce
  with Cons show ?case by simp
qed simp

lemma Jt_loop_stays:
  "Jt_loop types gws as c = Some c' \<Longrightarrow> \<forall>d. Jt_deletes types gws d k = Some False \<Longrightarrow> (k, v) \<in> set c \<Longrightarrow> (k, v) \<in> set c'"
proof (induction as arbitrary: c)
  case (Cons a as)
  obtain del where del: "Jt_deletes types gws c a = Some del" using Cons.prems by (auto split: option.splits)
  let ?c = "if del then filter (\<lambda>(k, v). k \<noteq> a) c else c"
  have "Jt_loop types gws as ?c = Some c'" using Cons.prems(1) del by simp
  moreover have "(k, v) \<in> set ?c" using Cons.prems(2,3) del by auto
  ultimately show ?case using Cons.IH Cons.prems(2) by blast
qed simp

lemma Jt_deletes_response:
  assumes "CHR ''-'' \<notin> set d" "n < 10"
  shows "Jt_deletes types gws c (response_key d n) = (if n < length types then Some (open_type (types ! n)) else None)"
  using response_key_parse [OF assms(1), of n] one_digit [OF assms(2)] by (simp add: Jt_deletes_def)

lemma Jt_deletes_page: "page_key k \<Longrightarrow> Jt_deletes types gws c k \<noteq> None"
  unfolding Jt_deletes_def page_key_def by auto

lemma Jt_deletes_kept:
  assumes "Jt_deletes types gws c k = Some False"
  shows "(starts_with k ''r.'' \<or> starts_with k ''m.'' \<or> k = ''t'') \<and> \<not> starts_with k ''m.pa-''"
proof -
  have "\<not> starts_with k ''m.pa-''"
  proof
    assume "starts_with k ''m.pa-''"
    then obtain s where "k = ''m.pa-'' @ s" by (metis append_take_drop_id starts_with_def)
    with assms show False by (simp add: Jt_deletes_def starts_with_def)
  qed
  with assms show ?thesis by (auto simp: Jt_deletes_def split: if_splits)
qed

text \<open>C33. While the main questions are asked, of which there are at most ten and whose order the
  payload did not change, the data that a callback of the page gets with a report is a part of the
  report: it holds only responses, measurements and the kind of report, no inserted answers, and of
  the responses exactly those to questions that are not open. (With a \<open>question_ordering\<close>, with more
  than ten questions and for supplemental questions the numbers in the keys are not the places of the
  questions whose types are looked up, and open answers can be left in.)\<close>

theorem callback_data:
  assumes "z_bb s = None" "z_ud s = []" "length (z_Ra s) \<le> 10"
    and keys: "list_all (\<lambda>i. list_all (\<lambda>(d, a). CHR ''-'' \<notin> set d) (q_response (z_qs s i))) (z_Ra s)"
  shows "\<exists>c. Jt (map (\<lambda>i. q_type (z_qs s i)) (z_Ra s)) gws (wt_data b V s) = Some c \<and>
    (\<forall>k v. (k, v) \<in> set c \<longrightarrow> (k, v) \<in> set (wt_data b V s) \<and>
      (starts_with k ''r.'' \<or> starts_with k ''m.'' \<or> k = ''t'') \<and> \<not> starts_with k ''m.pa-'') \<and>
    (\<forall>d n v. CHR ''-'' \<notin> set d \<and> (response_key d n, v) \<in> set (wt_data b V s) \<longrightarrow>
      n < length (z_Ra s) \<and> ((response_key d n, v) \<in> set c \<longleftrightarrow> \<not> open_type (q_type (z_qs s (z_Ra s ! n)))))"
proof -
  let ?r = "wt_data b V s" and ?types = "map (\<lambda>i. q_type (z_qs s i)) (z_Ra s)"
  have resp: "\<exists>d n. k = response_key d n \<and> CHR ''-'' \<notin> set d \<and> n < length (z_Ra s)"
    if k: "k \<in> response_keys s" for k
  proof -
    from k obtain d n where "k = response_key d n" "n < length (z_Ra s)"
      "d \<in> names (q_response (z_qs s (z_Ra s ! n)))" unfolding response_keys_def by blast
    from this(3) obtain x where "(d, x) \<in> set (q_response (z_qs s (z_Ra s ! n)))" by (auto simp: names_def)
    moreover have "z_Ra s ! n \<in> set (z_Ra s)" using \<open>n < length (z_Ra s)\<close> by (rule nth_mem)
    ultimately have "CHR ''-'' \<notin> set d" using keys unfolding list_all_iff by blast
    with \<open>k = response_key d n\<close> \<open>n < length (z_Ra s)\<close> show ?thesis by blast
  qed
  have "Jt_deletes ?types gws c k \<noteq> None" if k: "k \<in> set (map fst ?r)" for k c
  proof (cases "page_key k")
    case False
    have "k \<in> names ?r" using k by (simp add: names_def)
    with False wt_data_names [OF assms(1,2)] have "k \<in> response_keys s" by blast
    then obtain d n where "k = response_key d n" "CHR ''-'' \<notin> set d" "n < length (z_Ra s)"
      using resp by blast
    then show ?thesis using assms(3) by (simp add: Jt_deletes_response)
  qed (rule Jt_deletes_page)
  then obtain c where c: "Jt_loop ?types gws (map fst ?r) ?r = Some c" using Jt_loop_total by blast
  note keeps = Jt_loop_keeps [OF c]
  have "(k, v) \<in> set ?r \<and> (starts_with k ''r.'' \<or> starts_with k ''m.'' \<or> k = ''t'') \<and> \<not> starts_with k ''m.pa-''"
    if kc: "(k, v) \<in> set c" for k v
  proof -
    have r: "(k, v) \<in> set ?r" using keeps kc by blast
    then have "k \<in> set (map fst ?r)" by force
    with keeps kc obtain d where "Jt_deletes ?types gws d k = Some False" by blast
    with r Jt_deletes_kept show ?thesis by blast
  qed
  moreover have "n < length (z_Ra s) \<and> ((response_key d n, v) \<in> set c \<longleftrightarrow> \<not> open_type (q_type (z_qs s (z_Ra s ! n))))"
    if d: "CHR ''-'' \<notin> set d" "(response_key d n, v) \<in> set ?r" for d n v
  proof -
    have "\<not> page_key (response_key d n)" using response_key_parse [OF d(1)] by (simp add: page_key_def)
    with wt_data_names [OF assms(1,2) names_I [OF d(2)]] resp obtain d' n' where
      "response_key d n = response_key d' n'" "CHR ''-'' \<notin> set d'" "n' < length (z_Ra s)" by blast
    then have n: "n < length (z_Ra s)" using response_key_number [OF d(1)] by metis
    then have del: "Jt_deletes ?types gws x (response_key d n) = Some (open_type (q_type (z_qs s (z_Ra s ! n))))" for x
      using assms(3) Jt_deletes_response [OF d(1), of n ?types gws x] by simp
    have "response_key d n \<in> set (map fst ?r)" using d(2) by force
    with keeps del have "(response_key d n, v) \<in> set c \<Longrightarrow> \<not> open_type (q_type (z_qs s (z_Ra s ! n)))" by fastforce
    moreover have "(response_key d n, v) \<in> set c" if "\<not> open_type (q_type (z_qs s (z_Ra s ! n)))"
      using Jt_loop_stays [OF c _ d(2)] del that by simp
    ultimately show ?thesis using n by blast
  qed
  ultimately show ?thesis using c unfolding Jt_def by blast
qed

definition answered_survey :: survey where
  "answered_survey = no_survey\<lparr>z_Ra := [0, 1],
     z_qs := (\<lambda>i. (new_question False (sample_spec []))\<lparr>q_type := (if i = 0 then ''open-text'' else ''multi''),
       q_response := [(''r'', Many [if i = 0 then ''secret'' else ''yes''])]\<rparr>)\<rparr>"

theorem callback_data_witness:
  "\<exists>c. Jt [''open-text'', ''multi''] False (wt_data ''a'' [] answered_survey) = Some c \<and>
     (response_key ''r'' 0, Many [''secret'']) \<notin> set c \<and> (response_key ''r'' 1, Many [''yes'']) \<in> set c"
proof -
  have s: "z_bb answered_survey = None" "z_ud answered_survey = []" "length (z_Ra answered_survey) \<le> 10"
    "list_all (\<lambda>i. list_all (\<lambda>(d, a). CHR ''-'' \<notin> set d) (q_response (z_qs answered_survey i))) (z_Ra answered_survey)"
    "map (\<lambda>i. q_type (z_qs answered_survey i)) (z_Ra answered_survey) = [''open-text'', ''multi'']"
    "q_type (z_qs answered_survey (z_Ra answered_survey ! 0)) = ''open-text''"
    "q_type (z_qs answered_survey (z_Ra answered_survey ! 1)) = ''multi''"
    by (simp_all add: answered_survey_def no_survey_def)
  have r: "(response_key ''r'' 0, Many [''secret'']) \<in> set (wt_data ''a'' [] answered_survey)"
    "(response_key ''r'' 1, Many [''yes'']) \<in> set (wt_data ''a'' [] answered_survey)"
    by code_simp+
  from callback_data [OF s(1-4), of False "''a''" "[]"] obtain c where
    c: "Jt [''open-text'', ''multi''] False (wt_data ''a'' [] answered_survey) = Some c"
    "\<And>d n v. CHR ''-'' \<notin> set d \<Longrightarrow> (response_key d n, v) \<in> set (wt_data ''a'' [] answered_survey) \<Longrightarrow>
      (response_key d n, v) \<in> set c \<longleftrightarrow> \<not> open_type (q_type (z_qs answered_survey (z_Ra answered_survey ! n)))"
    unfolding s(5) by blast
  show ?thesis
    using c(1) c(2) [OF _ r(1)] c(2) [OF _ r(2)] unfolding s(6,7) by (simp add: open_type_def)
qed

end
