(* ===== verification/Ga_X10.thy ===== *)
theory Ga_X10
  imports Ga_Links Key_Stores
begin

text \<open>
  The extension objects of ga.js (\<open>yd\<close>, lines 36 to 39): projects with a list of keys and a list of values,
  stored in sparse arrays and written as one text, which is the \<open>utme\<close> parameter of a hit. Uses: user
  timings (\<open>me\<close>), page load times (\<open>je\<close>, \<open>le\<close>, \<open>ke\<close>), custom variables and events (\<open>xe\<close>).

  The main lemma: the text of every object that calls can build reads back as its projects, indices and
  texts, whatever characters the texts have. An array is a list of options; writing beyond its end fills
  it up with \<open>None\<close>.
\<close>

subsection \<open>Sparse arrays\<close>

definition arr_get :: "nat \<Rightarrow> 'a option list \<Rightarrow> 'a option" where
  "arr_get i l = (if i < length l then l ! i else None)"

definition arr_put :: "nat \<Rightarrow> 'a option \<Rightarrow> 'a option list \<Rightarrow> 'a option list" where
  "arr_put i x l = (if i < length l then l[i := x] else l @ replicate (i - length l) None @ [x])"

lemma arr_get_put: "arr_get i (arr_put j x l) = (if i = j then x else arr_get i l)"
proof (cases "j < length l")
  case False
  then have "length (arr_put j x l) = Suc j" by (simp add: arr_put_def)
  with False show ?thesis by (auto simp: arr_get_def arr_put_def nth_append less_Suc_eq)
qed (auto simp: arr_get_def arr_put_def)

lemma arr_get_Nil [simp]: "arr_get i [] = None"
  by (simp add: arr_get_def)

lemma set_arr_put: "Some y \<in> set (arr_put i x l) \<Longrightarrow> x = Some y \<or> Some y \<in> set l"
  by (auto simp: arr_put_def split: if_splits dest!: subsetD [OF set_update_subset_insert])

lemma Some_in_arr_put: "Some y \<in> set (arr_put i (Some y) l)"
  by (auto simp: arr_put_def set_update_memI)

subsection \<open>Projects\<close>

record project =
  x_k :: "string option list option"
  x_v :: "string option list option"

datatype part = Keys | Values

type_synonym x10 = "project option list"

fun part_of :: "part \<Rightarrow> project \<Rightarrow> string option list option" where
  "part_of Keys p = x_k p"
| "part_of Values p = x_v p"

fun set_part :: "part \<Rightarrow> string option list option \<Rightarrow> project \<Rightarrow> project" where
  "set_part Keys l p = p\<lparr>x_k := l\<rparr>"
| "set_part Values l p = p\<lparr>x_v := l\<rparr>"

text \<open>The inner functions \<open>a\<close>, \<open>b\<close> and \<open>c\<close> of \<open>yd\<close>: storing, reading and clearing.\<close>

definition no_project :: project where
  "no_project = \<lparr>x_k = None, x_v = None\<rparr>"

definition yd_put :: "nat \<Rightarrow> part \<Rightarrow> nat \<Rightarrow> string \<Rightarrow> x10 \<Rightarrow> x10" where
  "yd_put a b c d f =
     (let p = (case arr_get a f of Some p \<Rightarrow> p | None \<Rightarrow> no_project);
          l = (case part_of b p of Some l \<Rightarrow> l | None \<Rightarrow> [])
      in arr_put a (Some (set_part b (Some (arr_put c (Some d) l)) p)) f)"

definition yd_get :: "nat \<Rightarrow> part \<Rightarrow> nat \<Rightarrow> x10 \<Rightarrow> string option" where
  "yd_get a b c f =
     (case arr_get a f of
        None \<Rightarrow> None
      | Some p \<Rightarrow> (case part_of b p of None \<Rightarrow> None | Some l \<Rightarrow> arr_get c l))"

definition yd_clear :: "nat \<Rightarrow> part \<Rightarrow> x10 \<Rightarrow> x10" where
  "yd_clear a b f =
     (case arr_get a f of
        None \<Rightarrow> f
      | Some p \<Rightarrow>
          (if part_of b p = None then f
           else let p = set_part b None p in arr_put a (if x_k p = None \<and> x_v p = None then None else Some p) f))"

text \<open>\<open>wd\<close> and \<open>xd\<close>: a text; an integer. Minus infinity passes \<open>xd\<close>, as written.\<close>

definition wd :: "jval \<Rightarrow> bool" where
  "wd a \<longleftrightarrow> is_str a"

definition xd :: "jval \<Rightarrow> bool" where
  "xd a = (case a of
      Num (Fin x) \<Rightarrow> of_int \<lfloor>x\<rfloor> = x
    | Num (Inf p) \<Rightarrow> \<not> p
    | _ \<Rightarrow> False)"

text \<open>\<open>_setKey\<close> and \<open>_setValue\<close>.\<close>

definition yd_f :: "nat \<Rightarrow> nat \<Rightarrow> jval \<Rightarrow> x10 \<Rightarrow> bool \<times> x10" where
  "yd_f b c d f = (if wd d then (True, yd_put b Keys c (to_str d) f) else (False, f))"

definition yd_o :: "nat \<Rightarrow> nat \<Rightarrow> jval \<Rightarrow> x10 \<Rightarrow> bool \<times> x10" where
  "yd_o b c d f = (if xd d then (True, yd_put b Values c (to_str d) f) else (False, f))"

subsection \<open>The text of an object\<close>

definition yd_escape :: "char \<Rightarrow> string" where
  "yd_escape c =
     (if c = CHR 0x27 then [CHR 0x27, CHR ''0''] else if c = CHR '')'' then [CHR 0x27, CHR ''1'']
      else if c = CHR ''*'' then [CHR 0x27, CHR ''2''] else if c = CHR ''!'' then [CHR 0x27, CHR ''3''] else [c])"

definition yd_text :: "string \<Rightarrow> string" where
  "yd_text s = concat (map yd_escape s)"

text \<open>The inner function \<open>d\<close>: the entries of a list. An index is written unless the entry before is there
  or it is 1.\<close>

fun yd_items :: "nat \<Rightarrow> bool \<Rightarrow> string option list \<Rightarrow> string list" where
  "yd_items e prev [] = []"
| "yd_items e prev (None # l) = yd_items (Suc e) False l"
| "yd_items e prev (Some x # l) =
     ((if e \<noteq> 1 \<and> \<not> prev then show_nat e @ ''!'' else []) @ yd_text x) # yd_items (Suc e) True l"

definition yd_list :: "string option list \<Rightarrow> string" where
  "yd_list l = ''('' @ join_with ''*'' (yd_items 0 False l) @ '')''"

definition yd_project :: "project \<Rightarrow> string" where
  "yd_project p =
     (case x_k p of Some l \<Rightarrow> yd_list l | None \<Rightarrow> []) @
     (case x_v p of Some l \<Rightarrow> (if x_k p = None then ''v'' else []) @ yd_list l | None \<Rightarrow> [])"

fun yd_from :: "nat \<Rightarrow> x10 \<Rightarrow> string" where
  "yd_from b [] = []"
| "yd_from b (None # f) = yd_from (Suc b) f"
| "yd_from b (Some p # f) = show_nat b @ yd_project p @ yd_from (Suc b) f"

definition yd_A :: "x10 \<Rightarrow> string" where
  "yd_A f = yd_from 0 f"

text \<open>\<open>Qa\<close>: the text with another object; its projects come first and replace the own ones.\<close>

definition yd_has :: "nat \<Rightarrow> x10 \<Rightarrow> bool" where
  "yd_has a f \<longleftrightarrow> arr_get a f \<noteq> None"

fun yd_rest :: "nat \<Rightarrow> x10 \<Rightarrow> x10 \<Rightarrow> string" where
  "yd_rest c g [] = []"
| "yd_rest c g (None # f) = yd_rest (Suc c) g f"
| "yd_rest c g (Some p # f) = (if yd_has c g then [] else show_nat c @ yd_project p) @ yd_rest (Suc c) g f"

definition yd_Qa :: "x10 option \<Rightarrow> x10 \<Rightarrow> string" where
  "yd_Qa a f = (case a of None \<Rightarrow> yd_A f | Some g \<Rightarrow> yd_A g @ yd_rest 0 g f)"

subsection \<open>Reading the text back\<close>

fun yd_unescape :: "string \<Rightarrow> string" where
  "yd_unescape [] = []"
| "yd_unescape [c] = [c]"
| "yd_unescape (c # d # s) =
     (if c = CHR 0x27
      then (if d = CHR ''0'' then CHR 0x27 else if d = CHR ''1'' then CHR '')'' else if d = CHR ''2'' then CHR ''*'' else CHR ''!'')
        # yd_unescape s
      else c # yd_unescape (d # s))"

definition read_item :: "nat \<Rightarrow> string \<Rightarrow> nat \<times> string" where
  "read_item nxt s =
     (if CHR ''!'' \<in> set s
      then (digits_val (takeWhile (\<lambda>c. c \<noteq> CHR ''!'') s), yd_unescape (tl (dropWhile (\<lambda>c. c \<noteq> CHR ''!'') s)))
      else (nxt, yd_unescape s))"

fun read_items :: "nat \<Rightarrow> string list \<Rightarrow> (nat \<times> string) list" where
  "read_items nxt [] = []"
| "read_items nxt (s # ss) = read_item nxt s # read_items (Suc (fst (read_item nxt s))) ss"

definition read_paren :: "string \<Rightarrow> (nat \<times> string) list option \<times> string" where
  "read_paren s =
     (if s \<noteq> [] \<and> hd s = CHR ''(''
      then (Some (read_items 1 (split_on CHR ''*'' (takeWhile (\<lambda>c. c \<noteq> CHR '')'') (tl s)))),
            tl (dropWhile (\<lambda>c. c \<noteq> CHR '')'') (tl s)))
      else (None, s))"

definition skip_v :: "string \<Rightarrow> string" where
  "skip_v s = (if s \<noteq> [] \<and> hd s = CHR ''v'' then tl s else s)"

type_synonym x10_content = "(nat \<times> (nat \<times> string) list option \<times> (nat \<times> string) list option) list"

fun read_projects :: "nat \<Rightarrow> string \<Rightarrow> x10_content" where
  "read_projects 0 s = []"
| "read_projects (Suc n) s =
     (if s = [] then []
      else let (k, r) = read_paren (dropWhile is_digit s); (v, r) = read_paren (skip_v r)
           in (digits_val (takeWhile is_digit s), k, v) # read_projects n r)"

text \<open>What an object holds.\<close>

fun entries :: "nat \<Rightarrow> string option list \<Rightarrow> (nat \<times> string) list" where
  "entries e [] = []"
| "entries e (None # l) = entries (Suc e) l"
| "entries e (Some x # l) = (e, x) # entries (Suc e) l"

fun contents :: "nat \<Rightarrow> x10 \<Rightarrow> x10_content" where
  "contents b [] = []"
| "contents b (None # f) = contents (Suc b) f"
| "contents b (Some p # f) = (b, map_option (entries 0) (x_k p), map_option (entries 0) (x_v p)) # contents (Suc b) f"

lemma entries_nth: "(i, x) \<in> set (entries e l) \<longleftrightarrow> e \<le> i \<and> arr_get (i - e) l = Some x"
proof (induction e l rule: entries.induct)
  case (2 e l)
  then show ?case by (cases "i = e") (auto simp: arr_get_def Suc_diff_le nth_Cons')
next
  case (3 e y l)
  then show ?case by (cases "i = e") (auto simp: arr_get_def Suc_diff_le nth_Cons')
qed simp

lemma contents_nth:
  "(a, k, v) \<in> set (contents b f) \<longleftrightarrow> b \<le> a \<and>
    (\<exists>p. arr_get (a - b) f = Some p \<and> k = map_option (entries 0) (x_k p) \<and> v = map_option (entries 0) (x_v p))"
proof (induction b f rule: contents.induct)
  case (2 b f)
  then show ?case by (cases "a = b") (auto simp: arr_get_def Suc_diff_le nth_Cons')
next
  case (3 b p f)
  then show ?case by (cases "a = b") (auto simp: arr_get_def Suc_diff_le nth_Cons')
qed simp

lemma contents_get:
  "yd_get a Keys c f = Some x \<longleftrightarrow> (\<exists>k v. (a, Some k, v) \<in> set (contents 0 f) \<and> (c, x) \<in> set k)"
  "yd_get a Values c f = Some x \<longleftrightarrow> (\<exists>k v. (a, k, Some v) \<in> set (contents 0 f) \<and> (c, x) \<in> set v)"
  by (auto simp: yd_get_def contents_nth entries_nth split: option.splits)

text \<open>Texts and items.\<close>

lemma yd_unescape_char: "yd_unescape (yd_escape c @ s) = c # yd_unescape s"
  by (cases s) (auto simp: yd_escape_def)

lemma yd_unescape_text: "yd_unescape (yd_text s) = s"
  by (induction s) (simp_all add: yd_text_def yd_unescape_char)

lemma yd_text_free: "{CHR '')'', CHR ''*'', CHR ''!''} \<inter> set (yd_text s) = {}"
  by (auto simp: yd_text_def yd_escape_def split: if_splits)

lemma show_nat_free: "\<not> is_digit c \<Longrightarrow> c \<notin> set (show_nat n)"
  using show_nat_digits [of n] by (auto simp: list_all_iff)

lemma not_digits: "\<not> is_digit CHR '')''" "\<not> is_digit CHR ''*''" "\<not> is_digit CHR ''!''" "\<not> is_digit CHR ''(''"
  "\<not> is_digit CHR ''v''"
  by code_simp+

lemma read_item_plain: "read_item n (yd_text x) = (n, x)"
  using yd_text_free [of x] by (auto simp: read_item_def yd_unescape_text)

lemma read_item_marked: "read_item n (show_nat e @ CHR ''!'' # yd_text x) = (e, x)"
proof -
  have "CHR ''!'' \<notin> set (show_nat e)" by (rule show_nat_free) (rule not_digits)
  then show ?thesis
    by (simp add: read_item_def takeWhile_append dropWhile_append yd_unescape_text)
qed

lemma read_items_back:
  "(prev \<longrightarrow> nxt = e \<and> 0 < e) \<Longrightarrow> (\<not> prev \<and> e \<le> 1 \<longrightarrow> nxt = 1) \<Longrightarrow> read_items nxt (yd_items e prev l) = entries e l"
proof (induction e prev l arbitrary: nxt rule: yd_items.induct)
  case (3 e prev x l)
  have "read_item nxt ((if e \<noteq> 1 \<and> \<not> prev then show_nat e @ ''!'' else []) @ yd_text x) = (e, x)"
    using 3(2,3) by (auto simp: read_item_plain read_item_marked)
  then show ?case using 3(1) [of "Suc e"] by simp
qed auto

lemma yd_items_free: "s \<in> set (yd_items e prev l) \<Longrightarrow> CHR ''*'' \<notin> set s \<and> CHR '')'' \<notin> set s"
proof (induction e prev l rule: yd_items.induct)
  case (3 e prev x l)
  then show ?case using yd_text_free [of x] show_nat_free [of _ e] not_digits by auto
qed auto

lemma yd_items_empty: "yd_items e prev l = [] \<longleftrightarrow> (\<forall>x. Some x \<notin> set l)"
  by (induction e prev l rule: yd_items.induct) auto

lemma set_join_free: "\<forall>s \<in> set ss. c \<notin> set s \<Longrightarrow> c \<notin> set sep \<Longrightarrow> c \<notin> set (join_with sep ss)"
  by (induction sep ss rule: join_with.induct) auto

lemma read_paren_list:
  assumes "Some x \<in> set l"
  shows "read_paren (yd_list l @ r) = (Some (entries 0 l), r)"
proof -
  have "yd_items 0 False l \<noteq> []" using assms by (auto simp: yd_items_empty)
  then have "split_on CHR ''*'' (join_with ''*'' (yd_items 0 False l)) = yd_items 0 False l"
    using yd_items_free by (intro split_join) auto
  moreover have "CHR '')'' \<notin> set (join_with ''*'' (yd_items 0 False l))"
    using yd_items_free by (intro set_join_free) auto
  moreover have "read_items 1 (yd_items 0 False l) = entries 0 l" by (rule read_items_back) auto
  ultimately show ?thesis
    by (simp add: read_paren_def yd_list_def takeWhile_append dropWhile_append)
qed


text \<open>Well-formed objects: every project has a list, every list an entry.\<close>

definition parts_ok :: "project \<Rightarrow> bool" where
  "parts_ok p \<longleftrightarrow> (\<forall>b l. part_of b p = Some l \<longrightarrow> (\<exists>x. Some x \<in> set l))"

definition wf_project :: "project \<Rightarrow> bool" where
  "wf_project p \<longleftrightarrow> (\<exists>b. part_of b p \<noteq> None) \<and> parts_ok p"

definition wf_x10 :: "x10 \<Rightarrow> bool" where
  "wf_x10 f \<longleftrightarrow> (\<forall>p. Some p \<in> set f \<longrightarrow> wf_project p)"

lemma wf_get: "wf_x10 f \<Longrightarrow> arr_get a f = Some p \<Longrightarrow> wf_project p"
  by (auto simp: wf_x10_def arr_get_def in_set_conv_nth split: if_splits)

lemma wf_arr_put: "wf_x10 f \<Longrightarrow> (\<forall>p. x = Some p \<longrightarrow> wf_project p) \<Longrightarrow> wf_x10 (arr_put a x f)"
  by (auto simp: wf_x10_def dest: set_arr_put)

lemma part_set_part: "part_of b (set_part c l p) = (if b = c then l else part_of b p)"
  by (cases b; cases c) simp_all

lemma part_none: "x_k p = None \<and> x_v p = None \<longleftrightarrow> (\<forall>b. part_of b p = None)"
  by (metis part.exhaust part_of.simps)

lemma wf_set_part: "parts_ok p \<Longrightarrow> wf_project (set_part b (Some (arr_put c (Some d) l)) p)"
  using Some_in_arr_put [of d c l] by (auto simp: wf_project_def parts_ok_def part_set_part)

lemma wf_put: "wf_x10 f \<Longrightarrow> wf_x10 (yd_put a b c d f)"
proof -
  assume f: "wf_x10 f"
  have "parts_ok no_project" by (auto simp: parts_ok_def no_project_def elim: part_of.elims)
  then have "parts_ok (case arr_get a f of Some p \<Rightarrow> p | None \<Rightarrow> no_project)"
    using f by (auto dest: wf_get simp: wf_project_def split: option.split)
  then show ?thesis
    unfolding yd_put_def Let_def by (intro wf_arr_put f) (auto simp: wf_set_part)
qed

lemma wf_clear: "wf_x10 f \<Longrightarrow> wf_x10 (yd_clear a b f)"
proof -
  assume f: "wf_x10 f"
  have "wf_project (set_part b None p)" if "wf_project p" "part_of c (set_part b None p) \<noteq> None" for p c
    using that by (auto simp: wf_project_def parts_ok_def part_set_part split: if_splits)
  with f show ?thesis
    unfolding yd_clear_def Let_def part_none
    by (auto split: option.split intro!: wf_arr_put dest: wf_get)
qed

text \<open>Projects.\<close>

lemma yd_list_start: "yd_list l @ r \<noteq> [] \<and> hd (yd_list l @ r) = CHR ''(''"
  by (simp add: yd_list_def)

lemma yd_from_start: "yd_from b f = [] \<or> is_digit (hd (yd_from b f))"
proof (induction b f rule: yd_from.induct)
  case (3 b p f)
  have "is_digit (hd (show_nat b))" using show_nat_digits [of b] by (cases "show_nat b") auto
  then show ?case by (simp add: hd_append)
qed simp_all

lemma read_paren_none: "s = [] \<or> hd s \<noteq> CHR ''('' \<Longrightarrow> read_paren s = (None, s)"
  by (auto simp: read_paren_def)

lemma read_project:
  assumes "wf_project p" "r = [] \<or> is_digit (hd r)"
  shows "(let (k, s) = read_paren (yd_project p @ r); (v, s) = read_paren (skip_v s) in (k, v, s)) =
    (map_option (entries 0) (x_k p), map_option (entries 0) (x_v p), r)"
proof -
  have r: "read_paren r = (None, r)" "skip_v r = r"
    using assms(2) not_digits by (auto simp: read_paren_def skip_v_def)
  have l: "\<exists>x. Some x \<in> set l" if "x_k p = Some l \<or> x_v p = Some l" for l
    using that assms(1) unfolding wf_project_def parts_ok_def by (metis part_of.simps)
  have s: "skip_v (yd_list m @ r) = yd_list m @ r" for m
    using yd_list_start [of m r] by (simp add: skip_v_def)
  show ?thesis
  proof (cases "x_k p")
    case None
    then obtain m where m: "x_v p = Some m" using assms(1) part_none [of p] by (auto simp: wf_project_def)
    then obtain x where x: "Some x \<in> set m" using l by blast
    have "read_paren (''v'' @ yd_list m @ r) = (None, ''v'' @ yd_list m @ r)" by (rule read_paren_none) simp
    moreover have "skip_v (''v'' @ yd_list m @ r) = yd_list m @ r" by (simp add: skip_v_def)
    ultimately show ?thesis using None m by (simp add: yd_project_def read_paren_list [OF x])
  next
    case (Some k)
    then obtain x where x: "Some x \<in> set k" using l by blast
    show ?thesis
    proof (cases "x_v p")
      case None
      with Some show ?thesis by (simp add: yd_project_def read_paren_list [OF x] r)
    next
      case (Some m)
      then obtain y where y: "Some y \<in> set m" using l by blast
      from Some \<open>x_k p = Some k\<close> show ?thesis
        by (simp add: yd_project_def read_paren_list [OF x] read_paren_list [OF y] s)
    qed
  qed
qed

lemma yd_project_start: "wf_project p \<Longrightarrow> yd_project p \<noteq> [] \<and> \<not> is_digit (hd (yd_project p))"
  using not_digits part_none [of p] by (auto simp: yd_project_def yd_list_def wf_project_def split: option.split)

lemma digits_before:
  assumes "\<forall>c \<in> set d. is_digit c" "t \<noteq> []" "\<not> is_digit (hd t)"
  shows "takeWhile is_digit (d @ t) = d" "dropWhile is_digit (d @ t) = t"
  using assms by (cases t; simp)+

lemma read_back:
  "wf_x10 f \<Longrightarrow> length f \<le> n \<Longrightarrow> read_projects n (yd_from b f) = contents b f"
proof (induction b f arbitrary: n rule: yd_from.induct)
  case (1 b)
  then show ?case by (cases n) auto
next
  case (2 b f)
  then show ?case by (simp add: wf_x10_def)
next
  case (3 b p f)
  obtain m where n: "n = Suc m" using 3(3) by (cases n) auto
  have p: "wf_project p" and f: "wf_x10 f" using 3(2) by (simp_all add: wf_x10_def)
  let ?t = "yd_project p @ yd_from (Suc b) f"
  have t: "?t \<noteq> []" "\<not> is_digit (hd ?t)" using yd_project_start [OF p] by auto
  have d: "\<forall>c \<in> set (show_nat b). is_digit c" using show_nat_digits [of b] by (simp add: list_all_iff)
  note a = digits_before [OF d t]
  have "read_projects m (yd_from (Suc b) f) = contents (Suc b) f" using 3(1) [OF f] 3(3) n by simp
  moreover have "read_projects n (show_nat b @ ?t) = (case (let (k, s) = read_paren ?t; (v, s) = read_paren (skip_v s) in (k, v, s)) of
      (k, v, r) \<Rightarrow> (digits_val (show_nat b), k, v) # read_projects m r)"
    unfolding n by (simp only: read_projects.simps a) (simp add: t split: prod.split)
  ultimately show ?case
    unfolding yd_from.simps append_assoc read_project [OF p yd_from_start] by simp
qed

datatype x10_call = Set_key nat nat jval | Set_value nat nat jval | Clear_key nat | Clear_value nat

fun x10_do :: "x10_call \<Rightarrow> x10 \<Rightarrow> x10" where
  "x10_do (Set_key b c d) f = snd (yd_f b c d f)"
| "x10_do (Set_value b c d) f = snd (yd_o b c d f)"
| "x10_do (Clear_key b) f = yd_clear b Keys f"
| "x10_do (Clear_value b) f = yd_clear b Values f"

lemma wf_calls: "wf_x10 f \<Longrightarrow> wf_x10 (fold x10_do cs f)"
proof (induction cs arbitrary: f)
  case (Cons c cs)
  have "wf_x10 (x10_do c f)" using Cons.prems by (cases c) (auto simp: yd_f_def yd_o_def wf_put wf_clear)
  then show ?case using Cons.IH by simp
qed simp

text \<open>C34. Whatever keys and values are set and cleared, the text of the object reads back exactly: it lists
  the projects with their keys and values, and an entry is in the list of its project exactly if
  \<open>getKey\<close> or \<open>getValue\<close> returns it.\<close>

theorem x10_readback:
  "let f = fold x10_do cs []; r = read_projects (length f) (yd_A f)
   in (yd_get a Keys c f = Some x \<longleftrightarrow> (\<exists>k v. (a, Some k, v) \<in> set r \<and> (c, x) \<in> set k)) \<and>
      (yd_get a Values c f = Some x \<longleftrightarrow> (\<exists>k v. (a, k, Some v) \<in> set r \<and> (c, x) \<in> set v)) \<and>
      r = contents 0 f"
proof -
  have "wf_x10 (fold x10_do cs [])" by (rule wf_calls) (simp add: wf_x10_def)
  then have "read_projects (length (fold x10_do cs [])) (yd_A (fold x10_do cs [])) = contents 0 (fold x10_do cs [])"
    unfolding yd_A_def by (rule read_back) simp
  then show ?thesis by (simp add: contents_get)
qed


subsection \<open>Timings\<close>

text \<open>\<open>le\<close> puts a time into its bucket; \<open>af\<close>, \<open>je\<close>, \<open>me\<close>.\<close>

definition le_bucket :: "jsnum \<Rightarrow> int" where
  "le_bucket a =
     (case a of
        NaN \<Rightarrow> 0
      | Inf p \<Rightarrow> (if p then 4100000 else 0)
      | Fin x \<Rightarrow>
          (if x < 0 then 0 else if x < 5000 then 10 * \<lfloor>x / 10\<rfloor> else if x < 50000 then 100 * \<lfloor>x / 100\<rfloor>
           else if x < 4100000 then 1000 * \<lfloor>x / 1000\<rfloor> else 4100000))"

definition af_valid :: "jsnum list \<Rightarrow> bool" where
  "af_valid a \<longleftrightarrow> list_all (\<lambda>x. x \<noteq> NaN \<and> x \<noteq> Inf True \<and> \<not> num_less x (Fin 0)) (tl a)"

definition put_key :: "nat \<Rightarrow> nat \<Rightarrow> string \<Rightarrow> x10 \<Rightarrow> x10" where
  "put_key b c d f = snd (yd_f b c (Str d) f)"

fun je_from :: "nat \<Rightarrow> jsnum list \<Rightarrow> x10 \<Rightarrow> x10" where
  "je_from b [] f = f"
| "je_from b (x # c) f = je_from (Suc b) c (snd (yd_o 14 (Suc b) (Num x) (put_key 14 (Suc b) (show_int (le_bucket x)) f)))"

definition je :: "jsnum list \<Rightarrow> x10" where
  "je c = je_from 0 c []"

definition me :: "string \<Rightarrow> string \<Rightarrow> jsnum \<Rightarrow> string option \<Rightarrow> x10" where
  "me a b c d =
     (let f = put_key 14 92 (show_int (le_bucket c)) (put_key 14 91 (take 150 a) (put_key 14 90 (take 500 b) []));
          f = (case d of None \<Rightarrow> f | Some d \<Rightarrow> put_key 14 93 (take 500 d) f)
      in snd (yd_o 14 90 (Num c) f))"

text \<open>\<open>x % 100\<close> truncates towards zero.\<close>

definition mod_100 :: "jsnum \<Rightarrow> jsnum" where
  "mod_100 a = (case a of
      Fin x \<Rightarrow> Fin (x - 100 * of_int (if 0 \<le> x then \<lfloor>x / 100\<rfloor> else \<lceil>x / 100\<rceil>))
    | _ \<Rightarrow> NaN)"

definition sampled_out :: "ga \<Rightarrow> jsnum \<Rightarrow> bool" where
  "sampled_out t f \<longleftrightarrow> num_le f (mod_100 (ga_num t ''Q'' (Fin 0)))"

text \<open>\<open>_trackTiming\<close> (\<open>Ha\<close>) with category, variable, time, label and sample rate.\<close>

definition good_text :: "jval \<Rightarrow> bool" where
  "good_text a \<longleftrightarrow> \<not> loose_eq a (Str []) \<and> wd a"

definition Ha_timing :: "ga \<Rightarrow> jval \<Rightarrow> jval \<Rightarrow> jval \<Rightarrow> jval \<Rightarrow> jval \<Rightarrow> x10 option" where
  "Ha_timing t a b c d e =
     (let f = (case e of Num n \<Rightarrow> (if n \<noteq> NaN then n else ga_num t ''Dc'' (Fin 0)) | _ \<Rightarrow> ga_num t ''Dc'' (Fin 0))
      in if sampled_out t f then None
         else let c = js_number (to_str c)
              in if \<not> good_text a \<or> \<not> good_text b \<or> \<not> xd (Num c) \<or> c = NaN \<or> num_less c (Fin 0) \<or> num_less f (Fin 0) \<or>
                    num_less (Fin 100) f \<or> (\<not> nullish d \<and> \<not> good_text d)
                 then None
                 else Some (me (to_str a) (to_str b) c (if nullish d then None else Some (to_str d))))"

text \<open>\<open>Ze\<close>: the times of a page load; \<open>ke\<close>: what becomes of them. The times of the browser are a
  record; a start of 0 means that it has none.\<close>

record timing =
  loadEventStart :: int
  navigationStart :: int
  domainLookupEnd :: int
  domainLookupStart :: int
  connectEnd :: int
  connectStart :: int
  responseEnd :: int
  responseStart :: int
  requestStart :: int
  fetchStart :: int
  domInteractive :: int
  domContentLoadedEventStart :: int

definition Ze :: "timing option \<Rightarrow> jsnum list option" where
  "Ze a =
     (case a of
        None \<Rightarrow> None
      | Some a \<Rightarrow>
          (let b = navigationStart a
           in if b = 0 then None
              else Some (map (\<lambda>x. Fin (of_int x))
                [loadEventStart a - b, domainLookupEnd a - domainLookupStart a, connectEnd a - connectStart a,
                 responseStart a - requestStart a, responseEnd a - responseStart a, fetchStart a - b,
                 domInteractive a - b, domContentLoadedEventStart a - b])))"

text \<open>\<open>$e\<close>: the time a toolbar measured; only in the top window.\<close>

definition dollar_e :: "bool \<Rightarrow> int option \<Rightarrow> bool \<Rightarrow> jsnum list option" where
  "dollar_e topmost onload valid =
     (case (if topmost then onload else None) of
        Some b \<Rightarrow> (if \<not> valid \<or> 2147483648 < b then None else Some [Fin (of_int b)])
      | None \<Rightarrow> None)"

datatype speed = Not_sampled | No_times | At_load | Times x10

definition num_min :: "jsnum \<Rightarrow> jsnum \<Rightarrow> jsnum" where
  "num_min a b = (if a = NaN \<or> b = NaN then NaN else if num_less a b then a else b)"

definition ke :: "ga \<Rightarrow> jsnum list option \<Rightarrow> speed" where
  "ke t c =
     (if sampled_out t (num_min (ga_num t ''Dc'' (Fin 0)) (Fin 100)) then Not_sampled
      else case c of
          None \<Rightarrow> No_times
        | Some [] \<Rightarrow> No_times
        | Some (d # ds) \<Rightarrow>
            (if d = Inf True \<or> d = NaN then No_times
             else if num_less (Fin 0) d then Times (je (if af_valid (d # ds) then d # ds else [d]))
             else At_load))"

subsection \<open>Events and custom variables\<close>

text \<open>\<open>_trackEvent\<close> (\<open>F\<close>): whether it is one, and the fields of its hit.\<close>

definition F_event :: "jval \<Rightarrow> jval \<Rightarrow> jval \<Rightarrow> jval \<Rightarrow> bool \<Rightarrow> ga \<Rightarrow> ga option" where
  "F_event a b c d e t =
     (if \<not> good_text a \<or> \<not> good_text b \<or> (\<not> nullish c \<and> \<not> wd c) \<or> (\<not> nullish d \<and> \<not> xd d) then None
      else Some (t(''wc'' := a, ''xc'' := b, ''yc'' := c, ''zc'' := d, ''vc'' := Bool e)))"

definition var_put :: "nat \<times> ga_var \<Rightarrow> x10 \<Rightarrow> x10" where
  "var_put x c =
     (let c = put_key 9 (fst x) (cv_value (snd x)) (put_key 8 (fst x) (cv_name (snd x)) c)
      in if cv_scope (snd x) \<noteq> 3 then put_key 11 (fst x) (show_nat (cv_scope (snd x))) c else c)"

definition ensure :: "x10 option \<Rightarrow> x10" where
  "ensure c = (case c of None \<Rightarrow> [] | Some c \<Rightarrow> c)"

definition event_put :: "ga \<Rightarrow> x10 \<Rightarrow> x10" where
  "event_put t c =
     (let c = snd (yd_f 5 1 (t ''wc'') c);
          c = snd (yd_f 5 2 (t ''xc'') c);
          c = (if nullish (t ''yc'') then c else snd (yd_f 5 3 (t ''yc'') c))
      in if nullish (t ''zc'') then c else snd (yd_o 5 1 (t ''zc'') c))"

text \<open>\<open>xe\<close>: the parameter \<open>utme\<close>. The object \<open>c\<close> of the tracker (\<open>Db\<close>), when it has one, is changed, as
  written; \<open>d\<close> (\<open>Eb\<close>) is the object of a timing.\<close>

definition xe :: "ga \<Rightarrow> ga_vars \<Rightarrow> x10 option \<Rightarrow> x10 option \<Rightarrow> x10 option \<times> string option" where
  "xe t e db d =
     (let c = fold (\<lambda>x c. Some (var_put x (ensure c))) (sort_key fst e) db;
          c = (if \<not> F_empty (t ''wc'') False \<and> \<not> F_empty (t ''xc'') True then Some (event_put t (ensure c)) else c);
          c = (if F_empty (t ''pf'') False then c else Some (snd (yd_f 12 1 (t ''pf'') (ensure c))))
      in (if db = None then None else c,
          case c of
            Some c \<Rightarrow> Some (yd_Qa d c)
          | None \<Rightarrow> (case d of Some d \<Rightarrow> Some (yd_A d) | None \<Rightarrow> None)))"

text \<open>\<open>_setXKey\<close> and the like of a tracker (\<open>Ca\<close>, \<open>Da\<close>, \<open>sa\<close>, \<open>ta\<close>, \<open>fa\<close>, \<open>ga\<close>); \<open>m\<close> makes its object.\<close>

definition Ca_key :: "nat \<Rightarrow> nat \<Rightarrow> jval \<Rightarrow> ga \<times> x10 option \<Rightarrow> ga \<times> x10 option" where
  "Ca_key a b c s =
     (if a = 12 \<and> b = 1 then ((fst s)(''pf'' := c), snd s) else (fst s, Some (snd (yd_f a b c (ensure (snd s))))))"

definition Da_value :: "nat \<Rightarrow> nat \<Rightarrow> jval \<Rightarrow> x10 option \<Rightarrow> x10 option" where
  "Da_value a b c db = Some (snd (yd_o a b c (ensure db)))"

definition sa_key :: "nat \<Rightarrow> nat \<Rightarrow> x10 option \<Rightarrow> string option" where
  "sa_key a b db = yd_get a Keys b (ensure db)"

definition ta_value :: "nat \<Rightarrow> nat \<Rightarrow> x10 option \<Rightarrow> string option" where
  "ta_value a b db = yd_get a Values b (ensure db)"

definition fa_clear :: "nat \<Rightarrow> x10 option \<Rightarrow> x10 option" where
  "fa_clear a db = Some (yd_clear a Keys (ensure db))"

definition ga_clear :: "nat \<Rightarrow> x10 option \<Rightarrow> x10 option" where
  "ga_clear a db = Some (yd_clear a Values (ensure db))"


subsection \<open>What is read after what was set\<close>

lemma yd_get_put [simp]:
  "yd_get a b c (yd_put a' b' c' d f) = (if a = a' \<and> b = b' \<and> c = c' then Some d else yd_get a b c f)"
proof -
  have e: "part_of b no_project = None" for b by (cases b) (simp_all add: no_project_def)
  show ?thesis
    by (auto simp: yd_get_def yd_put_def Let_def arr_get_put part_set_part e split: option.splits)
qed

lemma yd_get_clear: "yd_get a b c (yd_clear a' b' f) = (if a = a' \<and> b = b' then None else yd_get a b c f)"
proof (cases "arr_get a' f")
  case (Some p)
  show ?thesis
  proof (cases "part_of b' p")
    case (Some l)
    have n: "part_of b p = None \<or> b = b'" if "x_k (set_part b' None p) = None" "x_v (set_part b' None p) = None"
      using that part_none [of "set_part b' None p"] part_set_part [of b b' None p] by (auto split: if_splits)
    show ?thesis
    proof (cases "x_k (set_part b' None p) = None \<and> x_v (set_part b' None p) = None")
      case True
      with n show ?thesis
        using \<open>arr_get a' f = Some p\<close> Some
        by (auto simp: yd_get_def yd_clear_def Let_def arr_get_put part_set_part)
    next
      case False
      then show ?thesis
        using \<open>arr_get a' f = Some p\<close> Some
        by (auto simp: yd_get_def yd_clear_def Let_def arr_get_put part_set_part)
    qed
  qed (use Some in \<open>auto simp: yd_get_def yd_clear_def\<close>)
qed (auto simp: yd_get_def yd_clear_def)

lemma yd_get_f: "yd_get a b c (snd (yd_f a' c' d f)) =
    (if wd d \<and> a = a' \<and> b = Keys \<and> c = c' then Some (to_str d) else yd_get a b c f)"
  by (auto simp: yd_f_def)

lemma yd_get_o: "yd_get a b c (snd (yd_o a' c' d f)) =
    (if xd d \<and> a = a' \<and> b = Values \<and> c = c' then Some (to_str d) else yd_get a b c f)"
  by (auto simp: yd_o_def)

lemma yd_get_key: "yd_get a b c (put_key a' c' d f) =
    (if a = a' \<and> b = Keys \<and> c = c' then Some d else yd_get a b c f)"
  by (simp add: put_key_def yd_get_f wd_def)

lemma yd_get_new [simp]: "yd_get a b c [] = None"
  by (simp add: yd_get_def)

lemmas yd_gets = yd_get_f yd_get_o yd_get_key

text \<open>The objects are key stores: the laws of the other stores of the page scripts hold for them.\<close>

interpretation yd: key_store "[]" "\<lambda>f (a, b, c). yd_get a b c f" "\<lambda>(a, b, c) d f. yd_put a b c d f" wf_x10
proof unfold_locales
  show "wf_x10 []" by (simp add: wf_x10_def)
qed (auto simp: wf_put split: prod.splits if_splits)


text \<open>Times and their buckets.\<close>

lemma floor_part: "0 < k \<Longrightarrow> of_int (k * \<lfloor>x / of_int k\<rfloor>) \<le> (x :: rat)"
  using mult_left_mono [of "of_int \<lfloor>x / of_int k\<rfloor>" "x / of_int k" "of_int k"] by simp

lemma le_bucket_bounds: "0 \<le> le_bucket a \<and> le_bucket a \<le> 4100000"
proof -
  have "k * \<lfloor>x / of_int k\<rfloor> \<le> 4100000" if "x < 4100000" "0 < k" for x :: rat and k :: int
    using floor_part [OF that(2), of x] that(1) by linarith
  from this [of _ 10] this [of _ 100] this [of _ 1000] show ?thesis
    by (cases a) (auto simp: le_bucket_def)
qed

lemma le_bucket_below: "0 \<le> x \<Longrightarrow> of_int (le_bucket (Fin x)) \<le> x"
proof -
  assume x: "0 \<le> x"
  from floor_part [of 10 x] floor_part [of 100 x] floor_part [of 1000 x] x show ?thesis
    by (auto simp: le_bucket_def)
qed

text \<open>A user timing that is accepted is a whole number of milliseconds, not negative, in the sample; its
  object holds the variable and the category, cut off, the exact time, and a bucket that is no more
  than the time and at most 4100 seconds.\<close>

theorem timing_sent:
  assumes "Ha_timing t a b c d e = Some f"
  shows "\<exists>x u v. js_number (to_str c) = Fin x \<and> 0 \<le> x \<and> of_int \<lfloor>x\<rfloor> = x \<and> a = Str u \<and> b = Str v \<and> u \<noteq> [] \<and> v \<noteq> [] \<and>
    yd_get 14 Keys 90 f = Some (take 500 v) \<and> yd_get 14 Keys 91 f = Some (take 150 u) \<and>
    yd_get 14 Keys 92 f = Some (show_int (le_bucket (Fin x))) \<and> yd_get 14 Values 90 f = Some (show_rat x) \<and>
    of_int (le_bucket (Fin x)) \<le> x \<and> 0 \<le> le_bucket (Fin x) \<and> le_bucket (Fin x) \<le> 4100000"
proof -
  let ?c = "js_number (to_str c)"
  have g: "good_text a" "good_text b" "xd (Num ?c)" "?c \<noteq> NaN" "\<not> num_less ?c (Fin 0)"
    and f: "f = me (to_str a) (to_str b) ?c (if nullish d then None else Some (to_str d))"
    using assms by (auto simp: Ha_timing_def Let_def split: if_splits)
  from g(1,2) obtain u v where ab: "a = Str u" "b = Str v" "u \<noteq> []" "v \<noteq> []"
    by (cases a; cases b; simp add: good_text_def wd_def)
  from g(3-5) obtain x where x: "?c = Fin x" "0 \<le> x" "of_int \<lfloor>x\<rfloor> = x"
    by (cases ?c) (simp_all add: xd_def)
  have "xd (Num (Fin x))" using x(3) by (simp add: xd_def)
  then have "yd_get 14 Keys 90 f = Some (take 500 v) \<and> yd_get 14 Keys 91 f = Some (take 150 u) \<and>
    yd_get 14 Keys 92 f = Some (show_int (le_bucket (Fin x))) \<and> yd_get 14 Values 90 f = Some (show_rat x)"
    unfolding f x ab by (simp add: me_def Let_def yd_gets split: option.split)
  with ab x le_bucket_bounds [of "Fin x"] le_bucket_below [OF x(2)] show ?thesis
    by (intro exI [of _ x] exI [of _ u] exI [of _ v]) simp
qed

theorem timing_sent_witness:
  "\<exists>f x. Ha_timing (\<lambda>_. Undef) (Str ''load'') (Str ''menu'') (Num (Fin 1234)) Undef (Num (Fin 100)) = Some f \<and>
    yd_get 14 Keys 90 f = Some ''menu'' \<and> yd_get 14 Values 90 f = Some (show_rat x) \<and> of_int (le_bucket (Fin x)) \<le> x"
proof -
  have "js_number (to_str (Num (Fin 1234))) = Fin 1234" by code_simp
  moreover have "\<not> sampled_out (\<lambda>_. Undef) (Fin 100)" by code_simp
  moreover have "good_text (Str ''load'')" "good_text (Str ''menu'')" by code_simp+
  ultimately have "Ha_timing (\<lambda>_. Undef) (Str ''load'') (Str ''menu'') (Num (Fin 1234)) Undef (Num (Fin 100)) \<noteq> None"
    by (simp add: Ha_timing_def xd_def)
  then obtain f where f: "Ha_timing (\<lambda>_. Undef) (Str ''load'') (Str ''menu'') (Num (Fin 1234)) Undef (Num (Fin 100)) = Some f"
    by blast
  from timing_sent [OF f] obtain x v where "Str ''menu'' = Str v" "yd_get 14 Keys 90 f = Some (take 500 v)"
    "yd_get 14 Values 90 f = Some (show_rat x)" "of_int (le_bucket (Fin x)) \<le> x"
    by (elim exE conjE)
  moreover from this(1) have "take 500 v = ''menu''" by auto
  ultimately show ?thesis using f by (intro exI [of _ f] exI [of _ x]) simp
qed

text \<open>An event that has been tracked stays in the object of the tracker: when the page has made one
  (\<open>_setXKey\<close>), the next hit, of whatever kind, reports the event again.\<close>

lemma var_put_get: "a \<noteq> 8 \<Longrightarrow> a \<noteq> 9 \<Longrightarrow> a \<noteq> 11 \<Longrightarrow> yd_get a b c (var_put x f) = yd_get a b c f"
  by (simp add: var_put_def Let_def yd_gets)

lemma var_puts_get:
  "a \<noteq> 8 \<Longrightarrow> a \<noteq> 9 \<Longrightarrow> a \<noteq> 11 \<Longrightarrow>
    yd_get a b c (ensure (fold (\<lambda>x c. Some (var_put x (ensure c))) e db)) = yd_get a b c (ensure db)"
  by (induction e arbitrary: db) (simp_all add: var_put_get ensure_def)

lemma event_stays:
  assumes "\<not> F_empty (t ''wc'') False" "t ''wc'' = Str u" "t ''xc'' = Str v" "v \<noteq> []" "xe t e (Some db) None = (db', m)"
    and "F_empty (t' ''wc'') False" "F_empty (t' ''pf'') False" "xe t' [] db' None = (db'', m')"
  shows "\<exists>c. db' = Some c \<and> db'' = Some c \<and> m' = Some (yd_A c) \<and> yd_get 5 Keys 1 c = Some u \<and> yd_get 5 Keys 2 c = Some v"
proof -
  have x: "\<not> F_empty (t ''xc'') True" using assms(3,4) by (simp add: F_empty_def)
  have "\<exists>c. db' = Some c \<and> yd_get 5 Keys 1 c = Some u \<and> yd_get 5 Keys 2 c = Some v"
    using assms(1-3,5) x
    by (auto simp: xe_def Let_def event_put_def yd_gets wd_def ensure_def split: if_splits)
  then obtain c where c: "db' = Some c" "yd_get 5 Keys 1 c = Some u" "yd_get 5 Keys 2 c = Some v" by blast
  with assms(6-8) show ?thesis by (auto simp: xe_def Let_def yd_Qa_def)
qed

end
