(* ===== verification/Ga_Campaign.thy ===== *)
theory Ga_Campaign
  imports Ga_Links
begin

text \<open>
  Where a visit of ga.js comes from (lines 43 to 49): \<open>Sd\<close> looks for campaign parameters in the address
  (\<open>Xe\<close>), then for a search engine or another site as referrer (\<open>Qd\<close>, \<open>Od\<close>, \<open>Nd\<close>), takes a new visit
  without any as a direct one, and says whether the campaign is a new one (\<open>Rd\<close>). The fields of a tracker
  are those of \<open>Ga_Session\<close>; its lists of engines, ignored terms and ignored sites are arguments.

  The main lemma: a new visit always gets a campaign, and a known one gives way only to another one.
\<close>

subsection \<open>Search engines\<close>

text \<open>\<open>Ld\<close>: a name and the parameter of the search term.\<close>

definition Ld :: "string list" where
  "Ld = split_on CHR '' ''
     (''daum:q eniro:search_word naver:query pchome:q images.google:q google:q yahoo:p yahoo:q msn:q bing:q aol:query aol:q '' @
      ''lycos:q lycos:query ask:q cnn:query virgilio:qs baidu:wd baidu:word alice:qs yandex:text najdi:q seznam:q '' @
      ''rakuten:qt biglobe:q goo.ne:MT search.smt.docomo:MT onet:qt onet:q kvasir:q terra:query rambler:query '' @
      ''conduit:q babylon:q search-results:q avg:q comcast:q incredimail:q startsiden:q go.mail.ru:q centrum.cz:q '' @
      ''360.cn:q sogou:query tut.by:query globo:q ukr:q so.com:q haosou.com:q auone:q'')"

record camp_lists =
  l_zb :: "string list"
  l_Ab :: "string list"
  l_Bb :: "string list"

text \<open>\<open>Od\<close>: the name of the engine, the term, and whether the term is ignored. An entry is
  name:parameter, with a label and a part of the address as third and fourth field.\<close>

definition field_at :: "nat \<Rightarrow> string list \<Rightarrow> string" where
  "field_at i e = (if i < length e then e ! i else [])"

definition Od_term :: "string list \<Rightarrow> gurl \<Rightarrow> string" where
  "Od_term f b = (let t = (case f of x # _ \<Rightarrow> x | [] \<Rightarrow> []) in if t = [] \<and> contains (u_host b) ''google.'' then ''(not provided)'' else t)"

fun Od :: "string list \<Rightarrow> string list \<Rightarrow> gurl \<Rightarrow> (string \<times> string \<times> bool) option" where
  "Od [] ign b = None"
| "Od (s # c) ign b =
     (let e = split_on CHR '':'' s
      in if contains (u_host b) (to_lower (field_at 0 e)) then
           (case u_R b (field_at 1 e) of
              None \<Rightarrow> Od c ign b
            | Some f \<Rightarrow>
                (if field_at 3 e = [] \<or> contains (u_url b) (field_at 3 e)
                 then Some (if field_at 2 e \<noteq> [] then field_at 2 e else field_at 0 e, Od_term f b,
                        to_lower (I_decode (Od_term f b)) \<in> set ign)
                 else Od c ign b))
         else Od c ign b)"

text \<open>\<open>Nd\<close>: the referrer; the start pages of three engines get an empty search term. The expressions
  \<open>Td\<close>, \<open>jf\<close> and \<open>rf\<close> are matched by the texts that can be left over.\<close>

definition after_any :: "string list \<Rightarrow> string list \<Rightarrow> string list" where
  "after_any ps ss = concat (map (\<lambda>s. map (\<lambda>p. drop (length p) s) (filter (starts_with s) ps)) ss)"

definition maybe :: "string list \<Rightarrow> string list \<Rightarrow> string list" where
  "maybe ps ss = ss @ after_any ps ss"

definition country :: "string list \<Rightarrow> string list" where
  "country ss =
     ss @ concat (map (\<lambda>s. case s of
         d # x # y # r \<Rightarrow>
           (if d = CHR ''.'' \<and> is_lower x \<and> is_lower y then r # (if starts_with r ''t'' then [drop 1 r] else []) else [])
       | _ \<Rightarrow> []) ss)"

definition Td_google :: "string \<Rightarrow> bool" where
  "Td_google a \<longleftrightarrow>
     [] \<in> set (maybe [''/''] (country (maybe [''.co'', ''.com''] (after_any [''google''] (maybe [''www.'']
       (after_any [''http://'', ''https://''] [to_lower a]))))))"

definition jf_yahoo :: "string \<Rightarrow> bool" where
  "jf_yahoo a \<longleftrightarrow>
     list_ex (\<lambda>r. CHR ''?'' \<notin> set r) (maybe [''/''] (maybe [''.jp''] (after_any [''search.yahoo.co'', ''search.yahoo.com'']
       (maybe [''r.''] (after_any [''http://'', ''https://''] [to_lower a])))))"

definition rf_bing :: "string \<Rightarrow> bool" where
  "rf_bing a \<longleftrightarrow>
     [] \<in> set (maybe [''/''] (after_any [''bing.com''] (maybe [''www.''] (after_any [''http://'', ''https://''] [to_lower a]))))"

definition Nd :: "string \<Rightarrow> ga \<Rightarrow> string" where
  "Nd domain a =
     (let r = Pa_referrer domain (ga_text a ''Jb'' []) (ga_text a ''P'' [])
      in if Td_google r then r @ ''?q='' else if jf_yahoo r then r @ ''?p=(not provided)''
         else if rf_bing r then r @ ''?q=(not provided)'' else r)"

subsection \<open>The campaign of a visit\<close>

text \<open>\<open>Pd\<close>: id, source, click id and its source, other click id, campaign, medium, term and content.\<close>

definition Pd :: "jval \<Rightarrow> jval \<Rightarrow> jval \<Rightarrow> jval \<Rightarrow> jval \<Rightarrow> jval \<Rightarrow> jval \<Rightarrow> jval \<Rightarrow> jval \<Rightarrow> ga \<Rightarrow> ga" where
  "Pd b c d e f g k j t a =
     a(''ic'' := b, ''nc'' := c, ''S'' := d, ''kc'' := e, ''lc'' := f, ''jc'' := g, ''oc'' := k, ''pc'' := j, ''qc'' := t)"

definition Md :: "string list" where
  "Md = [''jc'', ''ic'', ''S'', ''lc'', ''nc'', ''oc'', ''pc'', ''qc'']"

text \<open>\<open>Rd\<close>: whether the campaign differs from the one before (\<open>b\<close>).\<close>

definition same_text :: "ga \<Rightarrow> ga \<Rightarrow> string \<Rightarrow> bool" where
  "same_text a b c \<longleftrightarrow>
     (let x = (if truthy (a c) then to_str (a c) else []); y = (if truthy (b c) then to_str (b c) else [])
      in x \<noteq> [] \<and> x = y)"

definition Rd :: "ga \<Rightarrow> ga \<Rightarrow> bool" where
  "Rd a b \<longleftrightarrow>
     \<not> (same_text a b ''S'' \<or> same_text a b ''lc'') \<and>
     list_ex (\<lambda>f. space_escape (or_dash (b f)) \<noteq> space_escape (or_dash (a f))) Md"

definition empty_text :: "string \<Rightarrow> bool" where
  "empty_text s = F_empty (Str s) False"

definition last_or_dash :: "params \<Rightarrow> string \<Rightarrow> string" where
  "last_or_dash b k = (let v = L_last b k in if v = [] then ''-'' else v)"

text \<open>The inner function \<open>c\<close> of \<open>Xe\<close>.\<close>

definition Xe_param :: "ga \<Rightarrow> params \<Rightarrow> string \<Rightarrow> string \<Rightarrow> string" where
  "Xe_param a b k d = (let v = L_last b (ga_text a k []) in if v \<noteq> [] \<and> v \<noteq> ''-'' then I_decode v else d)"

text \<open>\<open>Xe\<close>: a campaign given by parameters; a missing source or term is taken from the referrer.\<close>

definition Xe_fill :: "string \<Rightarrow> camp_lists \<Rightarrow> bool \<Rightarrow> bool \<Rightarrow> string \<Rightarrow> string \<Rightarrow> ga \<Rightarrow> string \<times> string" where
  "Xe_fill domain l mb xb e z a =
     (if mb \<or> xb then
        (case Od (l_zb l) (l_Ab l) (La (Nd domain a) True) of
           Some (n, q, i) \<Rightarrow>
             (if \<not> F_empty (if q = [] then Str q else Bool (\<not> i)) False
              then (if mb then n else e, if xb then q else z) else (e, z))
         | None \<Rightarrow> (e, z))
      else (e, z))"

definition Xe :: "string \<Rightarrow> camp_lists \<Rightarrow> params \<Rightarrow> ga \<Rightarrow> bool \<times> ga" where
  "Xe domain l b a =
     (let d = last_or_dash b (ga_text a ''nb'' []); e = last_or_dash b (ga_text a ''qb'' []);
          f = last_or_dash b (ga_text a ''pb'' []); g = last_or_dash b ''gclsrc''; k = last_or_dash b ''dclid'';
          a = (if f \<noteq> ''-'' then a(''w'' := Str f) else a);
          a = (if g \<noteq> ''-'' then a(''x'' := Str g) else a);
          j = Xe_param a b ''ob'' ''(not set)''; t = Xe_param a b ''rb'' ''(not set)'';
          z = Xe_param a b ''sb'' ''-''; m = Xe_param a b ''tb'' ''-''
      in if empty_text d \<and> empty_text f \<and> empty_text k \<and> empty_text e then (False, a)
         else
           let r = Xe_fill domain l (empty_text e \<and> (\<not> empty_text k \<or> \<not> empty_text f \<and> \<not> empty_text g))
                     (empty_text z) e z a
           in (True, Pd (Str d) (Str (fst r)) (Str f) (Str g) (Str k) (Str j) (Str t) (Str (snd r)) (Str m) a))"

text \<open>\<open>Qd\<close>: a search engine or another site as referrer.\<close>

definition Qd :: "string \<Rightarrow> camp_lists \<Rightarrow> ga \<Rightarrow> bool \<times> ga" where
  "Qd domain l a =
     (let b = Nd domain a; c = La b True
      in if \<not> (b \<noteq> [] \<and> b \<noteq> ''0'' \<and> b \<noteq> ''-'' \<and> contains b ''://'') \<or>
            contains (u_host c) ''google'' \<and> u_R c ''q'' \<noteq> None \<and> u_path c = ''cse''
         then (False, a)
         else
           case Od (l_zb l) (l_Ab l) c of
             Some (n, q, i) \<Rightarrow>
               (if \<not> i then (True, Pd Undef (Str n) Undef Undef Undef (Str ''(organic)'') (Str ''organic'') (Str q) Undef a)
                else (False, a))
           | None \<Rightarrow>
               (if \<not> truthy (a ''ac'') then (False, a)
                else if list_ex (contains (Ka_host (u_host c))) (l_Bb l) then (False, a)
                else (True, Pd Undef (Str (Ka_host (u_host c))) Undef Undef Undef (Str ''(referral)'') (Str ''referral'')
                        Undef (Str (''/'' @ u_path c)) a)))"

definition known :: "ga \<Rightarrow> bool" where
  "known a \<longleftrightarrow> \<not> F_empty (a ''ic'') False \<or> \<not> F_empty (a ''nc'') False \<or> \<not> F_empty (a ''S'') False \<or> \<not> F_empty (a ''lc'') False"

definition direct :: "ga \<Rightarrow> bool" where
  "direct a \<longleftrightarrow> a ''nc'' = Str ''(direct)'' \<and> a ''jc'' = Str ''(direct)'' \<and> a ''oc'' = Str ''(none)''"

definition Sd_params :: "string \<Rightarrow> ga \<Rightarrow> params" where
  "Sd_params href a =
     (if truthy (a ''rc'') then Na_parse Map.empty (to_str (a ''rc'')) else u_R (La href (truthy (a ''gb''))))"

text \<open>The end of \<open>Sd\<close>: \<open>before\<close> are the fields at its start.\<close>

definition Sd_count :: "ga \<Rightarrow> ga \<Rightarrow> ga" where
  "Sd_count before a =
     (let a = a(''hc'' := Bool (Rd a before))
      in if truthy (a ''hc'') \<or> truthy (a ''ac'') \<and> \<not> direct a
         then a(''ec'' := a ''ab'', ''fc'' := a ''$b'', ''gc'' := Num (num_add (ga_num a ''gc'' (Fin 0)) (Fin 1)))
         else a)"

definition Sd_find :: "string \<Rightarrow> camp_lists \<Rightarrow> params \<Rightarrow> ga \<Rightarrow> bool \<times> ga" where
  "Sd_find domain l p a = (let r = Xe domain l p a in if fst r then r else Qd domain l (snd r))"

definition Sd :: "string \<Rightarrow> string \<Rightarrow> camp_lists \<Rightarrow> ga \<Rightarrow> ga" where
  "Sd domain href l a =
     (if truthy (a ''kb'') \<and> \<not> truthy (a ''Mc'') then
        let b = known a; p = Sd_params href a
        in if L_last p (ga_text a ''ub'' []) \<noteq> ''1'' \<or> \<not> b then
             let (d, a') = Sd_find domain l p a
             in if d then Sd_count a a'
                else if b \<or> \<not> truthy (a' ''ac'') then a'
                else Sd_count a
                  (Pd Undef (Str ''(direct)'') Undef Undef Undef (Str ''(direct)'') (Str ''(none)'') Undef Undef a')
           else a
      else a)"

text \<open>\<open>Wd\<close> and \<open>Xd\<close>: a click id of a display ad that another click id replaces is kept as \<open>mc\<close>.\<close>

definition Wd_mark :: "ga \<Rightarrow> string \<times> string" where
  "Wd_mark a = (ga_text a ''S'' [], ga_text a ''kc'' [])"

definition Xd_mark :: "string \<times> string \<Rightarrow> ga \<Rightarrow> ga" where
  "Xd_mark u a =
     (let b = ga_text a ''S'' []; c = ga_text a ''kc'' []
      in if b \<noteq> fst u then
           if contains c ''ds'' then a(''mc'' := Undef)
           else if \<not> empty_text (fst u) \<and> contains (snd u) ''ds'' then a(''mc'' := Str (fst u)) else a
         else a)"


subsection \<open>New visits have a campaign; a known one stays\<close>

text \<open>An engine of the list has a name; a referrer outside the site, when there is one, has a host name.\<close>

definition engine_name :: "string \<Rightarrow> string" where
  "engine_name s = (let e = split_on CHR '':'' s in if field_at 2 e \<noteq> [] then field_at 2 e else field_at 0 e)"

definition engines_named :: "camp_lists \<Rightarrow> bool" where
  "engines_named l \<longleftrightarrow> list_all (\<lambda>s. \<not> empty_text (engine_name s)) (l_zb l)"

text \<open>No campaign parameter, and no referrer outside the site.\<close>

definition no_params :: "string \<Rightarrow> ga \<Rightarrow> bool" where
  "no_params href a \<longleftrightarrow>
     list_all (\<lambda>k. empty_text (last_or_dash (Sd_params href a) k))
       [ga_text a ''nb'' [], ga_text a ''qb'' [], ga_text a ''pb'' [], ''gclsrc'', ''dclid'']"

definition no_referrer :: "string \<Rightarrow> ga \<Rightarrow> bool" where
  "no_referrer domain a \<longleftrightarrow> (let b = Nd domain a in b = [] \<or> b = ''0'' \<or> b = ''-'' \<or> \<not> contains b ''://'')"

definition referrer_named :: "string \<Rightarrow> ga \<Rightarrow> bool" where
  "referrer_named domain a \<longleftrightarrow>
     no_referrer domain a \<or> \<not> empty_text (Ka_host (u_host (La (Nd domain a) True)))"

lemma empty_text_iff: "empty_text s \<longleftrightarrow> s = [] \<or> s = ''-''"
  by (auto simp: empty_text_def F_empty_def)

lemma known_Pd:
  "known (Pd b c d e f g k j t a) \<longleftrightarrow> \<not> F_empty b False \<or> \<not> F_empty c False \<or> \<not> F_empty d False \<or> \<not> F_empty f False"
  by (auto simp: known_def Pd_def)

lemma known_cong: "a ''ic'' = b ''ic'' \<Longrightarrow> a ''nc'' = b ''nc'' \<Longrightarrow> a ''S'' = b ''S'' \<Longrightarrow> a ''lc'' = b ''lc'' \<Longrightarrow> known a = known b"
  by (simp add: known_def)

lemma Nd_cong: "a ''Jb'' = b ''Jb'' \<Longrightarrow> a ''P'' = b ''P'' \<Longrightarrow> Nd domain a = Nd domain b"
  by (simp add: Nd_def ga_text_def)

lemma Od_name: "Od c ign b = Some (n, q, i) \<Longrightarrow> \<exists>s \<in> set c. n = engine_name s"
proof (induction c)
  case (Cons s c)
  then show ?case by (auto simp: engine_name_def Let_def split: if_splits option.splits)
qed simp

text \<open>When \<open>Xe\<close> finds nothing it changes only the two fields of click ids.\<close>

lemma Xe_False:
  assumes "Xe domain l b a = (False, a')"
  shows "\<forall>k. k \<noteq> ''w'' \<and> k \<noteq> ''x'' \<longrightarrow> a' k = a k"
  using assms by (auto simp: Xe_def Let_def split: if_splits prod.splits)

lemma Xe_fill_source: "fst (Xe_fill domain l False xb e z a) = e"
  by (auto simp: Xe_fill_def split: option.split)

lemma Xe_True:
  assumes "Xe domain l b a = (True, a')"
  shows "known a'"
proof -
  let ?d = "last_or_dash b (ga_text a ''nb'' [])" and ?e = "last_or_dash b (ga_text a ''qb'' [])"
    and ?f = "last_or_dash b (ga_text a ''pb'' [])" and ?k = "last_or_dash b ''dclid''"
  have "\<not> (empty_text ?d \<and> empty_text ?f \<and> empty_text ?k \<and> empty_text ?e)"
    using assms by (auto simp: Xe_def Let_def split: if_splits)
  moreover obtain mb xb y a1 g j t z m a2
    where "a' = Pd (Str ?d) (Str (fst (Xe_fill domain l mb xb ?e y a1))) (Str ?f) (Str g) (Str ?k) (Str j) (Str t) (Str z) (Str m) a2"
      "mb \<longrightarrow> \<not> empty_text ?k \<or> \<not> empty_text ?f"
    using assms unfolding Xe_def Let_def by (simp only: split: if_splits) blast+
  ultimately show ?thesis by (cases mb) (auto simp: known_Pd empty_text_def Xe_fill_source)
qed

lemma Qd_known:
  assumes "Qd domain l a = (True, a')" "engines_named l" "referrer_named domain a"
  shows "known a'"
proof -
  have "\<not> no_referrer domain a" using assms(1) by (auto simp: Qd_def Let_def no_referrer_def split: if_splits)
  with assms(3) have host: "\<not> empty_text (Ka_host (u_host (La (Nd domain a) True)))" by (simp add: referrer_named_def)
  show ?thesis
proof (cases "Od (l_zb l) (l_Ab l) (La (Nd domain a) True)")
  case None
  with assms(1) host show ?thesis
    by (auto simp: Qd_def Let_def known_Pd empty_text_def split: if_splits)
next
  case (Some p)
  obtain n q i where p: "p = (n, q, i)" by (cases p)
  with Some Od_name [of "l_zb l" "l_Ab l" "La (Nd domain a) True" n q i] assms(2) have "\<not> empty_text n"
    by (auto simp: engines_named_def list_all_iff)
  with assms(1) Some p show ?thesis
    by (auto simp: Qd_def Let_def known_Pd empty_text_def split: if_splits)
qed
qed

lemma Qd_False: "Qd domain l a = (False, a') \<Longrightarrow> a' = a"
  by (auto simp: Qd_def Let_def split: if_splits option.splits)

lemma known_count: "known (Sd_count b a) = known a"
  by (rule known_cong) (simp_all add: Sd_count_def Let_def)

lemma direct_count:
  "direct (Sd_count b (Pd Undef (Str ''(direct)'') Undef Undef Undef (Str ''(direct)'') (Str ''(none)'') Undef Undef a))"
  by (simp add: direct_def Sd_count_def Pd_def Let_def)

lemma find_nothing:
  assumes "Sd_find domain l p a = (False, a')"
  shows "\<forall>k. k \<noteq> ''w'' \<and> k \<noteq> ''x'' \<longrightarrow> a' k = a k"
proof (cases "Xe domain l p a")
  case (Pair x a1)
  with assms have x: "\<not> x" and q: "Qd domain l a1 = (False, a')" by (auto simp: Sd_find_def Let_def split: if_splits)
  with Pair have "Xe domain l p a = (False, a1)" by simp
  with q show ?thesis using Xe_False Qd_False by metis
qed

lemma find_known:
  assumes "Sd_find domain l p a = (True, a')" "engines_named l" "referrer_named domain a"
  shows "known a'"
proof (cases "Xe domain l p a")
  case (Pair x a1)
  show ?thesis
  proof (cases x)
    case True
    with Pair assms(1) have "Xe domain l p a = (True, a')" by (simp add: Sd_find_def)
    then show ?thesis by (rule Xe_True)
  next
    case False
    with Pair assms(1) have q: "Qd domain l a1 = (True, a')" "Xe domain l p a = (False, a1)" by (simp_all add: Sd_find_def)
    have "Nd domain a1 = Nd domain a" by (rule Nd_cong) (use Xe_False [OF q(2)] in simp_all)
    with assms(3) have "referrer_named domain a1" by (simp add: referrer_named_def no_referrer_def)
    with q(1) assms(2) show ?thesis by (rule Qd_known)
  qed
qed

lemma find_none:
  assumes "no_params href a" "no_referrer domain a"
  shows "\<not> fst (Sd_find domain l (Sd_params href a) a)"
proof (cases "Xe domain l (Sd_params href a) a")
  case (Pair x a1)
  with assms(1) have x: "\<not> x" by (auto simp: Xe_def Let_def no_params_def split: if_splits)
  with Pair have q: "Xe domain l (Sd_params href a) a = (False, a1)" by simp
  have "Nd domain a1 = Nd domain a" by (rule Nd_cong) (use Xe_False [OF q] in simp_all)
  with assms(2) have "\<not> fst (Qd domain l a1)" by (auto simp: Qd_def Let_def no_referrer_def)
  with q show ?thesis by (simp add: Sd_find_def)
qed

text \<open>C35. With campaign tracking on and no linker values taken from the address: after \<open>Sd\<close> a new visit
  has a campaign (an id, a source or a click id), whatever the address is, be the visit direct or referred (provided the
  configured search engines have names, and a referrer outside the site a host name); a new visit without a campaign of
  its own, without campaign parameters and without a referrer outside the site is recorded as direct; and such a visit
  leaves a known campaign, its time and its count as they are.\<close>

theorem campaign_of_visit:
  assumes "truthy (a ''kb'')" "\<not> truthy (a ''Mc'')"
  shows "(truthy (a ''ac'') \<and> engines_named l \<and> referrer_named domain a \<longrightarrow> known (Sd domain href l a)) \<and>
    (truthy (a ''ac'') \<and> \<not> known a \<and> no_params href a \<and> no_referrer domain a \<longrightarrow> direct (Sd domain href l a)) \<and>
    (known a \<and> no_params href a \<and> no_referrer domain a \<longrightarrow>
      list_all (\<lambda>k. Sd domain href l a k = a k) (Md @ [''kc'', ''hc'', ''ec'', ''fc'', ''gc'']))"
proof -
  obtain d a1 where f: "Sd_find domain l (Sd_params href a) a = (d, a1)" by fastforce
  have S: "Sd domain href l a =
      (if L_last (Sd_params href a) (ga_text a ''ub'' []) \<noteq> ''1'' \<or> \<not> known a then
         if d then Sd_count a a1
         else if known a \<or> \<not> truthy (a1 ''ac'') then a1
         else Sd_count a (Pd Undef (Str ''(direct)'') Undef Undef Undef (Str ''(direct)'') (Str ''(none)'') Undef Undef a1)
       else a)"
    using assms f by (simp add: Sd_def Let_def)
  have n: "known (Pd Undef (Str ''(direct)'') Undef Undef Undef c m Undef Undef a1)" for c m
    by (simp add: known_Pd F_empty_def)
  have "known (Sd domain href l a)" if v: "truthy (a ''ac'')" "engines_named l" "referrer_named domain a"
  proof (cases d)
    case True
    with f have "known a1" using find_known v(2,3) by simp
    then show ?thesis using True unfolding S by (simp add: known_count)
  next
    case False
    with f have a1: "a1 ''ac'' = a ''ac''" "known a1 = known a"
      using find_nothing [of domain l "Sd_params href a" a a1] known_cong [of a1 a] by simp_all
    show ?thesis using False a1 v(1) n unfolding S by (simp add: known_count)
  qed
  moreover have "direct (Sd domain href l a)"
    if v: "truthy (a ''ac'')" "\<not> known a" "no_params href a" "no_referrer domain a"
  proof -
    have "\<not> d" using find_none [OF v(3,4), of l] f by simp
    moreover from this f have "a1 ''ac'' = a ''ac''" using find_nothing [of domain l "Sd_params href a" a a1] by simp
    ultimately show ?thesis using v(1,2) unfolding S by (simp add: direct_count)
  qed
  moreover have "list_all (\<lambda>k. Sd domain href l a k = a k) (Md @ [''kc'', ''hc'', ''ec'', ''fc'', ''gc''])"
    if v: "known a" "no_params href a" "no_referrer domain a"
  proof -
    have "\<not> d" using find_none [OF v(2,3), of l] f by simp
    moreover from this have "\<forall>k. k \<noteq> ''w'' \<and> k \<noteq> ''x'' \<longrightarrow> a1 k = a k" using f find_nothing by simp
    ultimately show ?thesis using v(1) unfolding S by (simp add: Md_def)
  qed
  ultimately show ?thesis by blast
qed


definition sample_campaign :: ga where
  "sample_campaign =
     (\<lambda>_. Undef)(''kb'' := Bool True, ''ac'' := Bool True, ''nc'' := Str ''news'', ''P'' := Str ''/'', ''Jb'' := Str [],
       ''nb'' := Str ''utm_id'', ''qb'' := Str ''utm_source'', ''pb'' := Str ''gclid'', ''ub'' := Str ''utm_nooverride'')"

definition sample_lists :: camp_lists where
  "sample_lists = \<lparr>l_zb = Ld, l_Ab = [], l_Bb = []\<rparr>"

definition sample_direct :: ga where
  "sample_direct = sample_campaign(''nc'' := Undef)"

definition sample_referral :: ga where
  "sample_referral = sample_direct(''Jb'' := Str ''http://b.org/x'')"

text \<open>The engines of \<open>Ld\<close> have names.\<close>

lemma Ld_named: "engines_named \<lparr>l_zb = Ld, l_Ab = a, l_Bb = b\<rparr>"
proof -
  have "list_all (\<lambda>s. \<not> empty_text (engine_name s)) Ld" by code_simp
  then show ?thesis by (simp add: engines_named_def)
qed

theorem campaign_of_visit_witness:
  "Sd ''a.com'' ''http://a.com/'' sample_lists sample_campaign ''nc'' = Str ''news'' \<and>
   direct (Sd ''a.com'' ''http://a.com/'' sample_lists sample_direct) \<and>
   known (Sd ''a.com'' ''http://a.com/'' sample_lists sample_direct) \<and>
   known (Sd ''a.com'' ''http://a.com/?utm_source=x'' sample_lists sample_referral)"
proof -
  have t: "truthy (a ''kb'')" "\<not> truthy (a ''Mc'')" "truthy (a ''ac'')"
    if "a \<in> {sample_campaign, sample_direct, sample_referral}" for a
    using that by (auto simp: sample_campaign_def sample_direct_def sample_referral_def)
  have e: "engines_named sample_lists" by (simp add: sample_lists_def Ld_named)
  have k: "known sample_campaign" "no_params ''http://a.com/'' sample_campaign" "no_referrer ''a.com'' sample_campaign"
    by code_simp+
  have d: "\<not> known sample_direct" "no_params ''http://a.com/'' sample_direct" "no_referrer ''a.com'' sample_direct"
    "referrer_named ''a.com'' sample_direct"
    by code_simp+
  have r: "referrer_named ''a.com'' sample_referral" by code_simp
  have "sample_campaign ''nc'' = Str ''news''" by (simp add: sample_campaign_def)
  then have "Sd ''a.com'' ''http://a.com/'' sample_lists sample_campaign ''nc'' = Str ''news''"
    using campaign_of_visit [of sample_campaign sample_lists "''a.com''" "''http://a.com/''"] t k by (simp add: Md_def)
  moreover have "direct (Sd ''a.com'' ''http://a.com/'' sample_lists sample_direct)"
    "known (Sd ''a.com'' ''http://a.com/'' sample_lists sample_direct)"
    using campaign_of_visit [of sample_direct sample_lists "''a.com''" "''http://a.com/''"] t d e by simp_all
  moreover have "known (Sd ''a.com'' ''http://a.com/?utm_source=x'' sample_lists sample_referral)"
    using campaign_of_visit [of sample_referral sample_lists "''a.com''" "''http://a.com/?utm_source=x''"] t r e by simp
  ultimately show ?thesis by blast
qed

end
