(* ===== verification/Ga_Queue.thy ===== *)
theory Ga_Queue
  imports Ga_Links Command_Queue "HOL-Library.Multiset"
begin

text \<open>
  The command queue \<open>_gaq\<close> of ga.js (\<open>vd\<close>, \<open>Y\<close>, lines 32 to 36). A command names a tracker, a plugin and a
  method; \<open>_provide\<close> stores a plugin at once, \<open>_require\<close> of a plugin that is not there holds the queue up
  and has its script loaded. A command that runs may push commands itself: a command comes with the
  pushes it makes, and the calls under way are an explicit stack. What a command does otherwise is not
  modelled; the log says that it ran.

  The main lemmas: the queue comes to rest, loses and repeats no command, stands still only for a plugin
  that is required and not provided, and loads scripts only from the known place.
\<close>

subsection \<open>Commands\<close>

text \<open>The constructor \<open>vd\<close> splits at the last colon and the last dot.\<close>

definition vd_name :: "string \<Rightarrow> string \<times> string \<times> string" where
  "vd_name b =
     (case (last_index_of b CHR '':'', last_index_of b CHR ''.'') of
        (None, None) \<Rightarrow> ([], [], b)
      | (None, Some d) \<Rightarrow> (take d b, [], drop (d + 1) b)
      | (Some c, None) \<Rightarrow> ([], take c b, drop (c + 1) b)
      | (Some c, Some d) \<Rightarrow>
          (if d < c then (take d b, take (c - (d + 1)) (drop (d + 1) b), drop (c + 1) b)
           else (take d b, [], drop (d + 1) b)))"

datatype gcmd =
  G_fn nat
| G_meth string string string "carg list"

definition vd :: "string \<Rightarrow> carg list \<Rightarrow> gcmd" where
  "vd b args = (case vd_name b of (i, l, h) \<Rightarrow> G_meth i l h args)"

fun is_require :: "gcmd \<Rightarrow> bool" where
  "is_require (G_fn n) = False"
| "is_require (G_meth i l h args) = (l = [] \<and> h = ''_require'')"

fun is_provide :: "gcmd \<Rightarrow> bool" where
  "is_provide (G_fn n) = False"
| "is_provide (G_meth i l h args) = (i = [] \<and> l = [] \<and> h = ''_provide'')"

fun cmd_args :: "gcmd \<Rightarrow> carg list" where
  "cmd_args (G_fn n) = []"
| "cmd_args (G_meth i l h args) = args"

definition plugin_name :: "gcmd \<Rightarrow> string" where
  "plugin_name c = arg_text (arg_at (cmd_args c) 0)"

text \<open>A command in the queue: whether its script is being loaded (\<open>Pa\<close>), and the pushes it makes.\<close>

datatype gtree = G gcmd bool "gtree list list"

subsection \<open>The queue\<close>

text \<open>\<open>Loop b\<close> is the loop of a \<open>push\<close> with its local list, \<open>After b\<close> the rest of its round when the command
  has been executed, \<open>Pushes\<close> the pushes of the command being executed.\<close>

datatype frame = Loop "gtree list" | After "gtree list" | Pushes "gtree list list"

record gqueue =
  y_I :: "string \<Rightarrow> carg option"
  y_eb :: "gtree list"
  y_log :: "gcmd list"
  y_loads :: "string list"

definition provided :: "gqueue \<Rightarrow> string \<Rightarrow> bool" where
  "provided s a \<longleftrightarrow> (case y_I s a of Some (Fn n) \<Rightarrow> True | _ \<Rightarrow> False)"

text \<open>The check of the address of a plugin script in \<open>O\<close>; \<open>M.S\<close> has one place.\<close>

definition places :: "(string \<times> string \<times> string) list" where
  "places = [(''www.google-analytics.com'', [], ''/plugins/'')]"

definition or_port :: "string \<Rightarrow> string \<Rightarrow> string" where
  "or_port p k = (if p \<noteq> [] then p else k)"

definition may_load :: "(string \<Rightarrow> anchor) \<Rightarrow> string \<Rightarrow> anchor \<Rightarrow> bool" where
  "may_load parse href c =
     (let d = a_protocol c; e = a_protocol (parse href); be = Oa parse href href;
          k = (if d = ''http:'' then ''80'' else ''443'')
      in (d = ''https:'' \<or> d = e \<or> d = ''http:'' \<and> e = ''http:'') \<and>
         \<not> (a_search c \<noteq> [] \<or> contains (a_href c) ''?'' \<or> contains (a_pathname c) ''://'' \<or>
            a_hostname c = a_hostname be \<and> a_port c = a_port be) \<and>
         list_ex (\<lambda>(h, p, w). a_hostname c = h \<and> or_port (a_port c) k = or_port p k \<and> starts_with (a_pathname c) w) places)"

text \<open>\<open>O\<close> on a command that must wait: its script is loaded, once, if the address is allowed and the user
  has not opted out.\<close>

definition waits :: "gqueue \<Rightarrow> gcmd \<Rightarrow> bool" where
  "waits s c \<longleftrightarrow> is_require c \<and> \<not> provided s (plugin_name c)"

definition start_load :: "(string \<Rightarrow> anchor) \<Rightarrow> string \<Rightarrow> bool \<Rightarrow> gcmd \<Rightarrow> bool \<Rightarrow> gqueue \<Rightarrow> bool \<times> gqueue" where
  "start_load parse href opt c pa s =
     (if pa then (pa, s)
      else let u = Oa parse href (arg_text (arg_at (cmd_args c) 1))
           in if may_load parse href u \<and> \<not> opt then (True, s\<lparr>y_loads := a_href u # y_loads s\<rparr>) else (False, s))"

text \<open>\<open>O\<close> on \<open>_provide\<close>, and \<open>Va\<close>: the arguments of a \<open>push\<close> in turn.\<close>

definition provide :: "gcmd \<Rightarrow> gqueue \<Rightarrow> gqueue" where
  "provide c s = s\<lparr>y_I := (y_I s)(plugin_name c \<mapsto> arg_at (cmd_args c) 1), y_log := c # y_log s\<rparr>"

fun Va :: "gtree list \<Rightarrow> gqueue \<Rightarrow> gtree list \<times> gqueue" where
  "Va [] s = ([], s)"
| "Va (G c pa ns # ts) s =
     (if is_provide c then Va ts (provide c s) else let (b, s) = Va ts s in (G c pa ns # b, s))"

text \<open>\<open>push\<close>: the stack of calls is worked off. The measure below bounds the rounds.\<close>

fun weight :: "gtree \<Rightarrow> nat" and
  weights :: "gtree list \<Rightarrow> nat" and
  weight_pushes :: "gtree list list \<Rightarrow> nat" where
  "weight (G c pa ns) = 4 + weight_pushes ns"
| "weights [] = 0"
| "weights (t # ts) = weight t + weights ts"
| "weight_pushes [] = 0"
| "weight_pushes (ts # r) = 2 + weights ts + weight_pushes r"

fun frame_weight :: "frame \<Rightarrow> nat" where
  "frame_weight (Loop b) = 1 + weights b"
| "frame_weight (After b) = 2 + weights b"
| "frame_weight (Pushes r) = 1 + weight_pushes r"

lemma weights_append [simp]: "weights (a @ b) = weights a + weights b"
  by (induction a) auto

lemma Va_weights: "weights (fst (Va ts s)) \<le> weights ts"
  by (induction ts s rule: Va.induct) (auto simp: Let_def split: prod.split)

lemma provide_eb [simp]: "y_eb (provide c s) = y_eb s"
  by (simp add: provide_def)

lemma Va_eb [simp]: "y_eb (snd (Va ts s)) = y_eb s"
  by (induction ts s rule: Va.induct) (auto simp: Let_def split: prod.split)

lemma start_load_eb [simp]: "y_eb (snd (start_load p h opt c pa s)) = y_eb s"
  by (simp add: start_load_def Let_def)

function Y_run :: "(string \<Rightarrow> anchor) \<Rightarrow> string \<Rightarrow> bool \<Rightarrow> frame list \<Rightarrow> gqueue \<Rightarrow> gqueue" where
  "Y_run p h opt [] s = s"
| "Y_run p h opt (Loop [] # k) s = Y_run p h opt k s"
| "Y_run p h opt (Loop (G c pa ns # b) # k) s =
     (if waits s c
      then let r = start_load p h opt c pa s
           in Y_run p h opt k ((snd r)\<lparr>y_eb := y_eb (snd r) @ G c (fst r) ns # b\<rparr>)
      else if is_provide c then Y_run p h opt (After b # k) (provide c s)
      else Y_run p h opt (Pushes ns # After b # k) (s\<lparr>y_log := c # y_log s\<rparr>))"
| "Y_run p h opt (After b # k) s =
     (if y_eb s \<noteq> [] then Y_run p h opt k (s\<lparr>y_eb := y_eb s @ b\<rparr>) else Y_run p h opt (Loop b # k) s)"
| "Y_run p h opt (Pushes [] # k) s = Y_run p h opt k s"
| "Y_run p h opt (Pushes (ts # r) # k) s =
     (let x = Va ts s
      in Y_run p h opt (Loop (y_eb (snd x) @ fst x) # Pushes r # k) ((snd x)\<lparr>y_eb := []\<rparr>))"
  by pat_completeness auto
termination
proof (relation "measure (\<lambda>(p, h, opt, k, s). sum_list (map frame_weight k) + weights (y_eb s))", goal_cases)
  case (9 p h opt ts r k s x)
  then show ?case using Va_weights [of ts s] by simp
qed (auto simp: start_load_def Let_def)

definition Y_push :: "(string \<Rightarrow> anchor) \<Rightarrow> string \<Rightarrow> bool \<Rightarrow> gtree list \<Rightarrow> gqueue \<Rightarrow> gqueue" where
  "Y_push p h opt ts s = Y_run p h opt [Pushes [ts]] s"

definition Y_new :: gqueue where
  "Y_new = \<lparr>y_I = Map.empty, y_eb = [], y_log = [], y_loads = []\<rparr>"


subsection \<open>No command is lost, repeated or passed by\<close>

text \<open>All commands of a tree, those it pushes included.\<close>

fun commands :: "gtree \<Rightarrow> gcmd multiset" and
  commands_list :: "gtree list \<Rightarrow> gcmd multiset" and
  commands_pushes :: "gtree list list \<Rightarrow> gcmd multiset" where
  "commands (G c pa ns) = {#c#} + (if is_provide c then {#} else commands_pushes ns)"
| "commands_list [] = {#}"
| "commands_list (t # ts) = commands t + commands_list ts"
| "commands_pushes [] = {#}"
| "commands_pushes (ts # r) = commands_list ts + commands_pushes r"

fun frame_commands :: "frame \<Rightarrow> gcmd multiset" where
  "frame_commands (Loop b) = commands_list b"
| "frame_commands (After b) = commands_list b"
| "frame_commands (Pushes r) = commands_pushes r"

definition all_commands :: "frame list \<Rightarrow> gqueue \<Rightarrow> gcmd multiset" where
  "all_commands k s = sum_list (map frame_commands k) + commands_list (y_eb s) + mset (y_log s)"

lemma commands_append [simp]: "commands_list (a @ b) = commands_list a + commands_list b"
  by (induction a) auto

lemma Va_commands:
  "Va ts s = (b, t) \<Longrightarrow> commands_list b + mset (y_log t) = commands_list ts + mset (y_log s)"
proof (induction ts s arbitrary: b t rule: Va.induct)
  case (2 c pa ns ts s)
  show ?case
  proof (cases "is_provide c")
    case True
    with 2 show ?thesis by (simp add: provide_def)
  next
    case False
    obtain b1 t1 where v: "Va ts s = (b1, t1)" by fastforce
    with 2(3) False have "b = G c pa ns # b1" "t = t1" by auto
    with 2(2) [OF False v] show ?thesis by (simp add: add.assoc)
  qed
qed simp


lemma start_load_simps [simp]:
  "y_log (snd (start_load p h opt c pa s)) = y_log s" "y_I (snd (start_load p h opt c pa s)) = y_I s"
  by (simp_all add: start_load_def Let_def)

lemma waits_no_provide: "waits s c \<Longrightarrow> \<not> is_provide c"
  by (cases c) (auto simp: waits_def)

lemma run_commands: "all_commands [] (Y_run p h opt k s) = all_commands k s"
proof (induction p h opt k s rule: Y_run.induct)
  case (3 p h opt c pa ns b k s)
  show ?case
  proof (cases "waits s c")
    case True
    with 3(1) show ?thesis by (simp add: Let_def all_commands_def add.assoc add.left_commute)
  next
    case False
    then show ?thesis
      using 3(2,3) by (cases "is_provide c") (simp_all add: all_commands_def provide_def add.assoc add.left_commute)
  qed
next
  case (4 p h opt b k s)
  then show ?case by (simp add: all_commands_def add.assoc add.left_commute)
next
  case (6 p h opt ts r k s)
  obtain a t where v: "Va ts s = (a, t)" by fastforce
  have e: "y_eb t = y_eb s" using Va_eb [of ts s] v by simp
  have "commands_list a + (x + mset (y_log t)) = commands_list ts + (x + mset (y_log s))" for x
    using Va_commands [OF v] by (metis add.assoc add.commute)
  with 6 v e show ?case by (simp add: all_commands_def ac_simps)
qed (simp_all add: all_commands_def)


text \<open>Commands that provide are never in the queue.\<close>

fun root_of :: "gtree \<Rightarrow> gcmd" where
  "root_of (G c pa ns) = c"

definition clean :: "gtree list \<Rightarrow> bool" where
  "clean b \<longleftrightarrow> list_all (\<lambda>t. \<not> is_provide (root_of t)) b"

fun frame_clean :: "frame \<Rightarrow> bool" where
  "frame_clean (Loop b) = clean b"
| "frame_clean (After b) = clean b"
| "frame_clean (Pushes r) = True"

lemma clean_simps [simp]: "clean []" "clean (t # b) \<longleftrightarrow> \<not> is_provide (root_of t) \<and> clean b"
  "clean (a @ b) \<longleftrightarrow> clean a \<and> clean b"
  by (simp_all add: clean_def)

lemma Va_clean: "clean (fst (Va ts s))"
  by (induction ts s rule: Va.induct) (auto simp: Let_def split: prod.split)

lemma Va_roots: "map root_of (fst (Va ts s)) = filter (\<lambda>c. \<not> is_provide c) (map root_of ts)"
  by (induction ts s rule: Va.induct) (auto simp: Let_def split: prod.split)

lemma Va_log: "\<exists>l. y_log (snd (Va ts s)) = l @ y_log s \<and> list_all is_provide l"
proof (induction ts s rule: Va.induct)
  case (2 c pa ns ts s)
  show ?case
  proof (cases "is_provide c")
    case True
    with 2(1) obtain l where "y_log (snd (Va ts (provide c s))) = l @ y_log (provide c s)" "list_all is_provide l" by blast
    with True show ?thesis by (intro exI [of _ "l @ [c]"]) (simp add: provide_def)
  next
    case False
    with 2(2) obtain l where "y_log (snd (Va ts s)) = l @ y_log s" "list_all is_provide l"
      by (cases "Va ts s") auto
    with False show ?thesis by (auto simp: Let_def split: prod.split)
  qed
qed simp

definition head_blocked :: "gqueue \<Rightarrow> bool" where
  "head_blocked s \<longleftrightarrow> y_eb s = [] \<or> waits s (root_of (hd (y_eb s)))"

lemma waits_cong: "y_I s = y_I t \<Longrightarrow> waits s = waits t"
  by (rule ext) (simp add: waits_def provided_def)

lemma waits_simps [simp]:
  "waits (s\<lparr>y_eb := x\<rparr>) = waits s" "waits (s\<lparr>y_log := l\<rparr>) = waits s" "waits (snd (start_load p h opt c pa s)) = waits s"
  by (rule waits_cong; simp)+

lemma run_blocked:
  "head_blocked s \<Longrightarrow> list_all frame_clean k \<Longrightarrow> clean (y_eb s) \<Longrightarrow>
    head_blocked (Y_run p h opt k s) \<and> clean (y_eb (Y_run p h opt k s))"
proof (induction p h opt k s rule: Y_run.induct)
  case (3 p h opt c pa ns b k s)
  show ?case
  proof (cases "waits s c")
    case True
    let ?s = "snd (start_load p h opt c pa s)" and ?t = "G c (fst (start_load p h opt c pa s)) ns"
    have "head_blocked (?s\<lparr>y_eb := y_eb ?s @ ?t # b\<rparr>)"
      using 3(4) True by (cases "y_eb s") (simp_all add: head_blocked_def)
    then show ?thesis using 3(1) True 3(5,6) by (simp add: Let_def)
  next
    case False
    have "\<not> is_provide c" using 3(5) by simp
    then show ?thesis using 3(3) 3(4-6) False by (simp add: head_blocked_def)
  qed
next
  case (4 p h opt b k s)
  then show ?case by (cases "y_eb s") (simp_all add: head_blocked_def)
next
  case (6 p h opt ts r k s)
  then show ?case by (simp add: Let_def head_blocked_def Va_clean)
qed simp_all

text \<open>Commands that push nothing run in the order of their pushes.\<close>

fun flat :: "gtree \<Rightarrow> bool" where
  "flat (G c pa ns) \<longleftrightarrow> ns = []"

fun frame_order :: "frame \<Rightarrow> gcmd list" where
  "frame_order (Loop b) = map root_of b"
| "frame_order (After b) = map root_of b"
| "frame_order (Pushes r) = filter (\<lambda>c. \<not> is_provide c) (map root_of (concat r))"

fun frame_flat :: "frame \<Rightarrow> bool" where
  "frame_flat (Loop b) = list_all flat b"
| "frame_flat (After b) = list_all flat b"
| "frame_flat (Pushes r) = list_all flat (concat r)"

fun is_loop :: "frame \<Rightarrow> bool" where
  "is_loop (Loop b) = True"
| "is_loop f = False"

definition order :: "frame list \<Rightarrow> gqueue \<Rightarrow> gcmd list" where
  "order k s = rev (filter (\<lambda>c. \<not> is_provide c) (y_log s)) @ map root_of (y_eb s) @ concat (map frame_order k)"

lemma Va_flat: "list_all flat ts \<Longrightarrow> list_all flat (fst (Va ts s))"
  by (induction ts s rule: Va.induct) (auto simp: Let_def split: prod.split)

lemma Va_order: "filter (\<lambda>c. \<not> is_provide c) (y_log (snd (Va ts s))) = filter (\<lambda>c. \<not> is_provide c) (y_log s)"
proof -
  obtain l where "y_log (snd (Va ts s)) = l @ y_log s" "list_all is_provide l" using Va_log by blast
  then show ?thesis by (simp add: list_all_iff)
qed

lemma run_order:
  "list_all frame_flat k \<Longrightarrow> list_all flat (y_eb s) \<Longrightarrow> list_all frame_clean k \<Longrightarrow>
    (k \<noteq> [] \<and> is_loop (hd k) \<longrightarrow> y_eb s = []) \<Longrightarrow> list_all (\<lambda>f. \<not> is_loop f) (tl k) \<Longrightarrow> clean (y_eb s) \<Longrightarrow>
    order [] (Y_run p h opt k s) = order k s \<and> list_all flat (y_eb (Y_run p h opt k s))"
proof (induction p h opt k s rule: Y_run.induct)
  case (2 p h opt k s)
  then show ?case by (cases k) (auto simp: order_def)
next
  case (3 p h opt c pa ns b k s)
  have k: "k = [] \<or> \<not> is_loop (hd k)" "list_all (\<lambda>f. \<not> is_loop f) (tl k)" using 3(8) by (cases k; simp)+
  show ?case
  proof (cases "waits s c")
    case True
    with 3(1,4-7,9) k show ?thesis by (simp add: Let_def order_def)
  next
    case False
    have "\<not> is_provide c" using 3(6) by simp
    with False 3(3-9) k show ?thesis by (simp add: order_def)
  qed
next
  case (4 p h opt b k s)
  have k: "k = [] \<or> \<not> is_loop (hd k)" "list_all (\<lambda>f. \<not> is_loop f) (tl k)" using 4(7) by (cases k; simp)+
  with 4 show ?case by (cases "y_eb s = []") (simp_all add: order_def)
next
  case (5 p h opt k s)
  then show ?case by (cases k) (auto simp: order_def)
next
  case (6 p h opt ts r k s)
  have "order (Loop (y_eb s @ fst (Va ts s)) # Pushes r # k) ((snd (Va ts s))\<lparr>y_eb := []\<rparr>) = order (Pushes (ts # r) # k) s"
    by (simp add: order_def Va_order Va_roots)
  with 6 show ?case by (simp add: Let_def Va_flat Va_clean)
qed simp


text \<open>Scripts come from one place.\<close>

definition plugin_script :: "(string \<Rightarrow> anchor) \<Rightarrow> string \<Rightarrow> string \<Rightarrow> bool" where
  "plugin_script p h u \<longleftrightarrow>
     (\<exists>x. let c = Oa p h x
       in u = a_href c \<and> a_hostname c = ''www.google-analytics.com'' \<and> starts_with (a_pathname c) ''/plugins/'' \<and>
          a_search c = [] \<and> \<not> contains u ''?'' \<and>
          (a_protocol c = ''https:'' \<or> a_protocol c = a_protocol (p h)) \<and>
          (a_port c = [] \<or> a_port c = (if a_protocol c = ''http:'' then ''80'' else ''443'')))"

lemma start_load_ok:
  "list_all (plugin_script p h) (y_loads s) \<Longrightarrow> list_all (plugin_script p h) (y_loads (snd (start_load p h opt c pa s)))"
proof -
  have "plugin_script p h (a_href (Oa p h x))" if "may_load p h (Oa p h x)" for x
    using that unfolding plugin_script_def
    by (intro exI [of _ x]) (auto simp: may_load_def places_def Let_def or_port_def split: if_splits)
  then show "list_all (plugin_script p h) (y_loads s) \<Longrightarrow> ?thesis" by (simp add: start_load_def Let_def)
qed

lemma Va_loads [simp]: "y_loads (snd (Va ts s)) = y_loads s"
  by (induction ts s rule: Va.induct) (auto simp: Let_def provide_def split: prod.split)

lemma run_loads: "list_all (plugin_script p h) (y_loads s) \<Longrightarrow> list_all (plugin_script p h) (y_loads (Y_run p h opt k s))"
  by (induction p h opt k s rule: Y_run.induct) (auto simp: Let_def start_load_ok provide_def)

definition page_calls :: "(string \<Rightarrow> anchor) \<Rightarrow> string \<Rightarrow> bool \<Rightarrow> gtree list list \<Rightarrow> gqueue" where
  "page_calls p h opt tss = fold (Y_push p h opt) tss Y_new"

lemma page_calls_snoc: "page_calls p h opt (tss @ [ts]) = Y_push p h opt ts (page_calls p h opt tss)"
  by (simp add: page_calls_def)

lemma commands_pushes_append [simp]: "commands_pushes (a @ b) = commands_pushes a + commands_pushes b"
  by (induction a) auto

lemma page_calls_commands:
  "commands_list (y_eb (page_calls p h opt tss)) + mset (y_log (page_calls p h opt tss)) = commands_pushes tss"
proof (induction tss rule: rev_induct)
  case Nil
  then show ?case by (simp add: page_calls_def Y_new_def)
next
  case (snoc ts tss)
  then show ?case
    using run_commands [of p h opt "[Pushes [ts]]" "page_calls p h opt tss"]
    by (simp add: page_calls_snoc Y_push_def all_commands_def ac_simps)
qed

lemma page_calls_blocked:
  "head_blocked (page_calls p h opt tss) \<and> clean (y_eb (page_calls p h opt tss))"
proof (induction tss rule: rev_induct)
  case Nil
  then show ?case by (simp add: page_calls_def Y_new_def head_blocked_def)
next
  case (snoc ts tss)
  then show ?case
    using run_blocked [of "page_calls p h opt tss" "[Pushes [ts]]" p h opt] by (simp add: page_calls_snoc Y_push_def)
qed

lemma page_calls_order:
  "list_all flat (concat tss) \<Longrightarrow>
    order [] (page_calls p h opt tss) = filter (\<lambda>c. \<not> is_provide c) (map root_of (concat tss)) \<and>
    list_all flat (y_eb (page_calls p h opt tss))"
proof (induction tss rule: rev_induct)
  case Nil
  then show ?case by (simp add: page_calls_def Y_new_def order_def)
next
  case (snoc ts tss)
  then have ih: "order [] (page_calls p h opt tss) = filter (\<lambda>c. \<not> is_provide c) (map root_of (concat tss))"
    "list_all flat (y_eb (page_calls p h opt tss))" by simp_all
  have "order [Pushes [ts]] (page_calls p h opt tss) = order [] (page_calls p h opt tss) @ filter (\<lambda>c. \<not> is_provide c) (map root_of ts)"
    by (simp add: order_def)
  with ih snoc(2) page_calls_blocked [of p h opt tss]
  show ?case
    using run_order [of "[Pushes [ts]]" "page_calls p h opt tss" p h opt] by (simp add: page_calls_snoc Y_push_def)
qed

text \<open>C36. Whatever the page pushes, and whatever the commands push when they run: every command has run once or
  waits in the queue once; the queue waits only when its first command requires a plugin that is not
  provided; scripts are loaded only from the plugin directory of the known host. Commands that push nothing
  run in the order of their pushes, and those that wait come after them.\<close>

theorem gaq_queue:
  "let s = page_calls p h opt tss
   in commands_list (y_eb s) + mset (y_log s) = commands_pushes tss \<and>
      (y_eb s = [] \<or> waits s (root_of (hd (y_eb s)))) \<and>
      list_all (plugin_script p h) (y_loads s) \<and>
      (list_all flat (concat tss) \<longrightarrow>
        rev (filter (\<lambda>c. \<not> is_provide c) (y_log s)) @ map root_of (y_eb s) =
          filter (\<lambda>c. \<not> is_provide c) (map root_of (concat tss)))"
proof -
  have "list_all (plugin_script p h) (y_loads (page_calls p h opt tss))"
  proof (induction tss rule: rev_induct)
    case (snoc ts tss)
    then show ?case unfolding page_calls_snoc Y_push_def by (rule run_loads)
  qed (simp add: page_calls_def Y_new_def)
  then show ?thesis
    using page_calls_commands page_calls_blocked page_calls_order
    by (simp add: head_blocked_def order_def)
qed

definition sample_calls :: "gtree list list" where
  "sample_calls =
     [[G (vd ''_setAccount'' [V (Str ''UA-1'')]) False [], G (vd ''_require'' [V (Str ''ec'')]) False []],
      [G (vd ''t.ec:send'' []) False []], [G (vd ''_provide'' [V (Str ''ec''), Fn 7]) False []]]"

definition plain_anchor :: "string \<Rightarrow> anchor" where
  "plain_anchor s =
     \<lparr>a_protocol = ''https:'', a_hostname = ''a.com'', a_port = [], a_pathname = ''/'',
      a_search = [], a_hash = [], a_href = s\<rparr>"

definition sample_page :: gqueue where
  "sample_page = page_calls plain_anchor ''https://a.com/'' False sample_calls"

theorem gaq_queue_witness:
  "rev (filter (\<lambda>c. \<not> is_provide c) (y_log sample_page)) @ map root_of (y_eb sample_page) =
   [G_meth [] [] ''_setAccount'' [V (Str ''UA-1'')], G_meth [] [] ''_require'' [V (Str ''ec'')], G_meth ''t'' ''ec'' ''send'' []]"
proof -
  have "list_all flat (concat sample_calls)" by code_simp
  moreover have "filter (\<lambda>c. \<not> is_provide c) (map root_of (concat sample_calls)) =
    [G_meth [] [] ''_setAccount'' [V (Str ''UA-1'')], G_meth [] [] ''_require'' [V (Str ''ec'')], G_meth ''t'' ''ec'' ''send'' []]"
    by code_simp
  ultimately show ?thesis
    using gaq_queue [of plain_anchor "''https://a.com/''" False sample_calls]
    by (simp add: Let_def sample_page_def)
qed

text \<open>The names of a command without the two separators are read back.\<close>

lemma last_index_of_split: "c \<notin> set b \<Longrightarrow> last_index_of (a @ c # b) c = Some (length a)"
proof (induction a)
  case Nil
  then have "last_index_of b c = None" by (simp add: last_index_of_None)
  then show ?case by simp
qed simp

lemma vd_name_full:
  assumes "CHR '':'' \<notin> set h" "CHR ''.'' \<notin> set l" "CHR ''.'' \<notin> set h"
  shows "vd_name (i @ ''.'' @ l @ '':'' @ h) = (i, l, h)"
proof -
  have "last_index_of (i @ ''.'' @ l @ '':'' @ h) CHR '':'' = Some (length (i @ ''.'' @ l))"
    using last_index_of_split [of "CHR '':''" h "i @ ''.'' @ l"] assms(1) by simp
  moreover have "last_index_of (i @ ''.'' @ l @ '':'' @ h) CHR ''.'' = Some (length i)"
    using last_index_of_split [of "CHR ''.''" "l @ '':'' @ h" i] assms(2,3) by simp
  ultimately show ?thesis by (simp add: vd_name_def)
qed

lemma vd_name_plain:
  assumes "CHR '':'' \<notin> set h" "CHR ''.'' \<notin> set h"
  shows "vd_name h = ([], [], h)"
proof -
  have "last_index_of h CHR '':'' = None" "last_index_of h CHR ''.'' = None"
    using assms by (simp_all only: last_index_of_None not_False_eq_True)
  then show ?thesis by (simp add: vd_name_def)
qed

end
