(* ===== verification/Closure_Number.thy ===== *)
theory Closure_Number
  imports Closure_Text
begin

text \<open>
  Number formats of the survey script (\<open>ml\<close>, prompt_embed_static.js, lines 194 to 210): the constructor
  reads a pattern, \<open>format\<close> writes a number with it (\<open>rl\<close>, \<open>sl\<close>), \<open>parse\<close> reads one. The symbols are
  those of \<open>il\<close>, English ones; the signs for per mille and infinity are not code units of the model's
  characters, so a pattern or text never holds them. Numbers are exact rationals. Formatting with an
  exponent or in a compact style is not modelled; the script has one format, for the pattern
  \<open>#,##0.###\<close>, which uses neither, and nothing sets the number of significant digits \<open>qf\<close>.

  The main lemma: what that format writes is read back as the number rounded to three places, and digits are
  grouped by thousands.
\<close>

subsection \<open>Patterns\<close>

datatype pattern_error =
  Unexpected_zero
| Two_separators
| Two_exponents
| Malformed_exponent
| Malformed_pattern
| Too_many_percent
| Inconsistent_percent

text \<open>\<open>ll\<close>: the text before or after the digits. \<open>e\<close> says that a quotation is open; the pair is \<open>Gb\<close>, \<open>ge\<close>.
  The currency is the default one.\<close>

fun ll_affix :: "bool \<Rightarrow> string \<Rightarrow> string \<Rightarrow> int \<times> bool \<Rightarrow> pattern_error + string \<times> string \<times> int \<times> bool" where
  "ll_affix e d [] g = Inr (d, [], g)"
| "ll_affix e d [h] g =
     (if h = CHR 0x27 then ll_affix (\<not> e) d [] g
      else if e then ll_affix e (d @ [h]) [] g
      else if h \<in> set ''#0,.;'' then Inr (d, [h], g)
      else if h = CHR 0xA4 then ll_affix e (d @ ''$'') [] g
      else if h = CHR ''%'' then
        (if \<not> snd g \<and> fst g \<noteq> 1 then Inl Too_many_percent
         else if snd g \<and> fst g \<noteq> 100 then Inl Inconsistent_percent
         else ll_affix e (d @ ''%'') [] (100, False))
      else ll_affix e (d @ [h]) [] g)"
| "ll_affix e d (h # i # r) g =
     (if h = CHR 0x27 then
        (if i = CHR 0x27 then ll_affix e (d @ [CHR 0x27]) r g else ll_affix (\<not> e) d (i # r) g)
      else if e then ll_affix e (d @ [h]) (i # r) g
      else if h \<in> set ''#0,.;'' then Inr (d, h # i # r, g)
      else if h = CHR 0xA4 then
        (if i = CHR 0xA4 then ll_affix e (d @ ''USD'') r g else ll_affix e (d @ ''$'') (i # r) g)
      else if h = CHR ''%'' then
        (if \<not> snd g \<and> fst g \<noteq> 1 then Inl Too_many_percent
         else if snd g \<and> fst g \<noteq> 100 then Inl Inconsistent_percent
         else ll_affix e (d @ ''%'') (i # r) (100, False))
      else ll_affix e (d @ [h]) (i # r) g)"

text \<open>The loop over the digits of a pattern: place of the point \<open>d\<close>, digits \<open>e\<close> before the zeros \<open>g\<close> and \<open>h\<close>
  after them, size \<open>k\<close> of the current group, the groups, and for an exponent its zeros and sign.\<close>

record digits =
  d_d :: int
  d_e :: int
  d_g :: int
  d_h :: int
  d_k :: int
  d_Ud :: "nat list"
  d_Ki :: bool
  d_Xh :: nat
  d_Wo :: bool

definition count_k :: "digits \<Rightarrow> digits" where
  "count_k s = (if 0 \<le> d_k s \<and> d_d s < 0 then s\<lparr>d_k := d_k s + 1\<rparr> else s)"

fun digits_loop :: "string \<Rightarrow> digits \<Rightarrow> pattern_error + string \<times> digits" where
  "digits_loop [] s = Inr ([], s)"
| "digits_loop (c # r) s =
     (if c = CHR ''#'' then digits_loop r (count_k (if 0 < d_g s then s\<lparr>d_h := d_h s + 1\<rparr> else s\<lparr>d_e := d_e s + 1\<rparr>))
      else if c = CHR ''0'' then
        (if 0 < d_h s then Inl Unexpected_zero else digits_loop r (count_k (s\<lparr>d_g := d_g s + 1\<rparr>)))
      else if c = CHR '','' then
        digits_loop r ((if 0 < d_k s then s\<lparr>d_Ud := d_Ud s @ [nat (d_k s)]\<rparr> else s)\<lparr>d_k := 0\<rparr>)
      else if c = CHR ''.'' then
        (if 0 \<le> d_d s then Inl Two_separators else digits_loop r (s\<lparr>d_d := d_e s + d_g s + d_h s\<rparr>))
      else if c = CHR ''E'' then
        (if d_Ki s then Inl Two_exponents
         else let plus = starts_with r ''+''; r = (if plus then tl r else r); z = takeWhile (\<lambda>x. x = CHR ''0'') r
              in if d_e s + d_g s < 1 \<or> z = [] then Inl Malformed_exponent
                 else Inr (drop (length z) r, s\<lparr>d_Ki := True, d_Xh := length z, d_Wo := plus\<rparr>))
      else Inr (c # r, s))"

record numfmt =
  n_Ub :: int
  n_ce :: nat
  n_de :: nat
  n_Ud :: "nat list"
  n_Cm :: bool
  n_Ki :: bool
  n_Vh :: int
  n_Xh :: nat
  n_Wo :: bool
  n_Gb :: int
  n_ne :: string
  n_qg :: string
  n_pd :: string
  n_cf :: string

text \<open>The case of digits without zeros before the point, and the check of the counts.\<close>

definition shift_digits :: "digits \<Rightarrow> digits" where
  "shift_digits s =
     (if d_g s = 0 \<and> 0 < d_e s \<and> 0 \<le> d_d s then
        let g = (if d_d s = 0 then 1 else d_d s)
        in s\<lparr>d_h := d_e s - g, d_e := g - 1, d_g := 1\<rparr>
      else s)"

definition digits_bad :: "digits \<Rightarrow> bool" where
  "digits_bad s \<longleftrightarrow>
     d_d s < 0 \<and> 0 < d_h s \<or> 0 \<le> d_d s \<and> (d_d s < d_e s \<or> d_e s + d_g s < d_d s) \<or> d_k s = 0"

definition no_digits :: digits where
  "no_digits = \<lparr>d_d = -1, d_e = 0, d_g = 0, d_h = 0, d_k = -1, d_Ud = [], d_Ki = False, d_Xh = 0, d_Wo = False\<rparr>"

text \<open>The counts of a format; the affixes are filled in by the constructor.\<close>

definition counts_of :: "digits \<Rightarrow> numfmt" where
  "counts_of s =
     (let h = d_e s + d_g s + d_h s; d = d_d s;
          ce = (if 0 \<le> d then nat (h - d) else 0); Ub = (if 0 \<le> d then d else h) - d_e s
      in \<lparr>n_Ub = (if d_Ki s \<and> ce = 0 \<and> Ub = 0 then 1 else Ub), n_ce = ce,
          n_de = (if 0 \<le> d then nat (d_e s + d_g s - d) else 0),
          n_Ud = d_Ud s @ [nat (max 0 (d_k s))], n_Cm = (d = 0 \<or> d = h), n_Ki = d_Ki s,
          n_Vh = (if d_Ki s then d_e s + Ub else 40), n_Xh = d_Xh s, n_Wo = d_Wo s, n_Gb = 1,
          n_ne = [], n_qg = [], n_pd = ''-'', n_cf = []\<rparr>)"

text \<open>A second part of a pattern, after a semicolon, gives the affixes of negative numbers; its digits are
  skipped by the length of those of the first part.\<close>

definition negative_affixes :: "nat \<Rightarrow> string \<Rightarrow> int \<times> bool \<Rightarrow> numfmt \<Rightarrow> pattern_error + numfmt" where
  "negative_affixes len r g f =
     (case ll_affix False [] r (fst g, snd g \<or> fst g \<noteq> 1) of
        Inl x \<Rightarrow> Inl x
      | Inr (pd, r, g) \<Rightarrow>
          (case ll_affix False [] (drop len r) g of
             Inl x \<Rightarrow> Inl x
           | Inr (cf, r, g) \<Rightarrow> Inr (f\<lparr>n_pd := pd, n_cf := cf, n_Gb := fst g\<rparr>)))"

definition ml :: "string \<Rightarrow> pattern_error + numfmt" where
  "ml pat =
     (case ll_affix False [] pat (1, False) of
        Inl x \<Rightarrow> Inl x
      | Inr (ne, r0, g) \<Rightarrow>
          (case digits_loop r0 no_digits of
             Inl x \<Rightarrow> Inl x
           | Inr (r, s) \<Rightarrow>
               (let s = shift_digits s
                in if digits_bad s then Inl Malformed_pattern
                   else
                     case ll_affix False [] r g of
                       Inl x \<Rightarrow> Inl x
                     | Inr (qg, r1, g) \<Rightarrow>
                         (let f = (counts_of s)\<lparr>n_ne := ne, n_qg := qg, n_Gb := fst g\<rparr>
                          in if starts_with r1 '';'' then negative_affixes (length r0 - length r) (tl r1) g f
                             else Inr (f\<lparr>n_pd := ''-'' @ ne, n_cf := qg\<rparr>)))))"


subsection \<open>Writing a number\<close>

text \<open>\<open>Math.round\<close>; \<open>rl\<close> splits a number into its whole part and the rest in units of the last place.\<close>

definition math_round :: "rat \<Rightarrow> int" where
  "math_round x = \<lfloor>x + 1 / 2\<rfloor>"

definition rl :: "numfmt \<Rightarrow> rat \<Rightarrow> nat \<times> nat" where
  "rl f b =
     (let c = 10 ^ n_ce f; d = math_round (b * of_int c); e = \<lfloor>rat_of_int d / of_int c\<rfloor>
      in (nat e, nat (d - e * c)))"

text \<open>The digits of the whole part: beyond 10^20 the last ones are zeros.\<close>

function whole_digits :: "nat \<Rightarrow> string \<Rightarrow> string" where
  "whole_digits h l =
     (if 10 ^ 20 < h then whole_digits (nat (math_round (of_nat h / 10))) (CHR ''0'' # l) else show_nat h @ l)"
  by pat_completeness auto
termination
proof (relation "measure fst")
  fix h :: nat and l :: string
  assume "10 ^ 20 < h"
  then have "math_round (of_nat h / 10) < int h"
    unfolding math_round_def by (simp add: floor_less_iff)
  then show "((nat (math_round (of_nat h / 10)), CHR ''0'' # l), h, l) \<in> measure fst"
    using \<open>10 ^ 20 < h\<close> by simp
qed simp

declare whole_digits.simps [simp del]

text \<open>The two loops that put separators between the digits \<open>l\<close>: from the left, when the digits reach into the
  repeated first group of \<open>Ud\<close>, and from the right otherwise. \<open>c\<close> is the number of digits before the other groups.\<close>

fun group_left :: "nat list \<Rightarrow> int \<Rightarrow> nat \<Rightarrow> nat \<Rightarrow> nat \<Rightarrow> nat \<Rightarrow> string \<Rightarrow> string" where
  "group_left e c n L u q [] = []"
| "group_left e c n L u q (x # l) =
     (if n - L \<le> 1 then x # group_left e c n (Suc L) u q l
      else if int L < c then
        (let v = (if u < length e then e ! u else 0)
         in if v = 1 \<or> 0 < v \<and> (nat c - L) mod v = 1 then x # CHR '','' # group_left e c n (Suc L) u q l
            else x # group_left e c n (Suc L) u q l)
      else if u < length e then
        if int L = c then x # group_left e c n (Suc L) (u + 1) q l
        else if int (e ! u) = int L - c - int q + 1 then x # CHR '','' # group_left e c n (Suc L) (u + 1) (q + e ! u) l
        else x # group_left e c n (Suc L) u q l
      else x # group_left e c n (Suc L) u q l)"

fun group_right :: "nat list \<Rightarrow> string \<Rightarrow> string" where
  "group_right [] l = []"
| "group_right (u # us) l =
     (if l = [] then []
      else take u l @ (if u < length l then '','' else []) @ group_right us (drop u l))"

definition grouped :: "nat list \<Rightarrow> string \<Rightarrow> string" where
  "grouped Ud l =
     (let c = int (length l) - int (sum_list (tl Ud))
      in if 0 < c then group_left Ud c (length l) 0 0 0 l else rev (group_right (rev Ud) (rev l)))"

text \<open>The digits after the point: \<open>g\<close> with leading zeros, without trailing zeros beyond the minimum.\<close>

definition places_of :: "numfmt \<Rightarrow> nat \<Rightarrow> string" where
  "places_of f g = (let s = show_nat g in if n_ce f + 1 > length s then replicate (n_ce f - length s) CHR ''0'' @ s else tl s)"

fun drop_zeros :: "nat \<Rightarrow> string \<Rightarrow> string" where
  "drop_zeros k [] = []"
| "drop_zeros k (x # r) = (if x = CHR ''0'' \<and> k < length (x # r) then drop_zeros k r else x # r)"

definition sl :: "numfmt \<Rightarrow> rat \<Rightarrow> string option" where
  "sl f b =
     (if n_ce f < n_de f then None
      else
        let (e, g) = rl f b; l = whole_digits e []; k = (0 < n_de f \<or> 0 < g)
        in Some
          ((if 0 < e \<or> 0 < n_Ub f then replicate (nat (n_Ub f) - length l) CHR ''0'' @ grouped (n_Ud f) l
            else if k then [] else ''0'') @
           (if n_Cm f \<or> k then ''.'' else []) @
           rev (drop_zeros (n_de f) (rev (places_of f g)))))"

text \<open>\<open>format\<close> for a format without exponent; \<open>None\<close> is the error of \<open>sl\<close>.\<close>

definition ml_format :: "numfmt \<Rightarrow> rat \<Rightarrow> string option" where
  "ml_format f a =
     (let d = a < 0; x = (if d then -1 else 1) * a * of_int (n_Gb f)
      in case sl f x of
           None \<Rightarrow> None
         | Some s \<Rightarrow> Some ((if d then n_pd f else n_ne f) @ s @ (if d then n_cf f else n_qg f)))"

subsection \<open>Reading a number\<close>

text \<open>\<open>parseFloat\<close> on digits, points, signs and \<open>E\<close>.\<close>

definition exponent_prefix :: "string \<Rightarrow> int" where
  "exponent_prefix s =
     (let (neg, r) = (case s of
            [] \<Rightarrow> (False, [])
          | c # t \<Rightarrow> if c = CHR ''-'' then (True, t) else if c = CHR ''+'' then (False, t) else (False, s));
          k = int (digits_val (takeWhile is_digit r))
      in if neg then - k else k)"

definition float_prefix :: "string \<Rightarrow> jsnum" where
  "float_prefix u =
     (let ip = takeWhile is_digit u; r = dropWhile is_digit u;
          (fp, r) = (case r of
              [] \<Rightarrow> ([], [])
            | c # s \<Rightarrow> if c = CHR ''.'' then (takeWhile is_digit s, dropWhile is_digit s) else ([], r));
          x = of_nat (digits_val (ip @ fp)) / 10 ^ length fp
      in if ip = [] \<and> fp = [] then NaN
         else (case r of
             [] \<Rightarrow> Fin x
           | c # s \<Rightarrow> if c = CHR ''E'' then Fin (scale x (exponent_prefix s)) else Fin x))"

definition parse_float :: "string \<Rightarrow> jsnum" where
  "parse_float s =
     (case s of
        [] \<Rightarrow> NaN
      | c # r \<Rightarrow> (if c = CHR ''-'' then num_minus (float_prefix r) else if c = CHR ''+'' then float_prefix r else float_prefix s))"

text \<open>The loop of \<open>parse\<close>: \<open>h\<close> says that a point, \<open>k\<close> that an \<open>E\<close>, \<open>l\<close> that a digit was read, \<open>m\<close> that the
  character before was the \<open>E\<close>; \<open>q\<close> is the divisor of a percentage. The result has the text left over.\<close>

fun parse_loop :: "int \<Rightarrow> string \<Rightarrow> bool \<Rightarrow> bool \<Rightarrow> bool \<Rightarrow> bool \<Rightarrow> int \<Rightarrow> string \<Rightarrow> string \<times> int \<times> string" where
  "parse_loop G t h k l m q [] = (t, q, [])"
| "parse_loop G t h k l m q (x # r) =
     (if is_digit x then parse_loop G (t @ [x]) h k True False q r
      else if x = CHR ''.'' then (if h \<or> k then (t, q, x # r) else parse_loop G (t @ ''.'') True k l False q r)
      else if x = CHR '','' then (if h \<or> k then (t, q, x # r) else parse_loop G t h k l False q r)
      else if x = CHR ''E'' then (if k then (t, q, x # r) else parse_loop G (t @ ''E'') h True l True q r)
      else if x = CHR ''+'' \<or> x = CHR ''-'' then
        (if l \<and> \<not> m then (t, q, x # r) else parse_loop G (t @ [x]) h k l False q r)
      else if G = 1 \<and> x = CHR ''%'' then
        (if q \<noteq> 1 then (t, q, x # r) else if l then (t, 100, r) else parse_loop G t h k l False 100 r)
      else (t, q, x # r))"

definition num_div :: "jsnum \<Rightarrow> int \<Rightarrow> jsnum" where
  "num_div a q = (case a of Fin x \<Rightarrow> Fin (x / of_int q) | _ \<Rightarrow> a)"

definition ml_parse :: "numfmt \<Rightarrow> string \<Rightarrow> jsnum" where
  "ml_parse f a =
     (let a = map (\<lambda>c. if c = CHR '' '' then CHR 0xA0 else c) a;
          d = starts_with a (n_ne f); e = starts_with a (n_pd f);
          d' = (d \<and> \<not> (e \<and> length (n_ne f) < length (n_pd f)));
          e' = (e \<and> \<not> (d \<and> length (n_pd f) < length (n_ne f)));
          r = (if d' then drop (length (n_ne f)) a else if e' then drop (length (n_pd f)) a else a);
          (t, q, r) = parse_loop (n_Gb f) [] False False False False 1 r;
          g = num_div (parse_float t) (if n_Gb f \<noteq> 1 then n_Gb f else q)
      in if d' then (if starts_with r (n_qg f) then (if e' then num_minus g else g) else NaN)
         else if e' then (if starts_with r (n_cf f) then num_minus g else NaN)
         else g)"


subsection \<open>The format of the script\<close>

definition default_format :: numfmt where
  "default_format =
     \<lparr>n_Ub = 1, n_ce = 3, n_de = 0, n_Ud = [3], n_Cm = False, n_Ki = False, n_Vh = 40, n_Xh = 0, n_Wo = False, n_Gb = 1,
      n_ne = [], n_qg = [], n_pd = ''-'', n_cf = []\<rparr>"

lemma ml_default: "ml ''#,##0.###'' = Inr default_format"
  by code_simp

text \<open>Digits with a separator before every full group of three.\<close>

fun thousands :: "string \<Rightarrow> string" where
  "thousands [] = []"
| "thousands (x # l) = x # (if l \<noteq> [] \<and> length l mod 3 = 0 then CHR '','' # thousands l else thousands l)"

lemma group_left_thousands: "L + length l = n \<Longrightarrow> group_left [3] (int n) n L 0 0 l = thousands l"
proof (induction l arbitrary: L)
  case (Cons x l)
  then have "group_left [3] (int n) n (Suc L) 0 0 l = thousands l" by simp
  moreover have "(n - L) mod 3 = 1 \<longleftrightarrow> length l mod 3 = 0"
  proof -
    have "n - L = length l + 1" using Cons.prems by simp
    then show ?thesis by presburger
  qed
  moreover have "n - L \<le> 1 \<longleftrightarrow> l = []" "L < n" using Cons.prems by auto
  ultimately show ?case by simp
qed simp

lemma grouped_thousands: "l \<noteq> [] \<Longrightarrow> grouped [3] l = thousands l"
  by (simp add: grouped_def group_left_thousands)

lemma comma_not_digit: "\<not> is_digit CHR '',''" "\<not> is_digit CHR ''.''"
  by code_simp+

lemma parse_thousands:
  "list_all is_digit ds \<Longrightarrow> ds \<noteq> [] \<Longrightarrow>
    parse_loop 1 t False False l m 1 (thousands ds @ r) = parse_loop 1 (t @ ds) False False True False 1 r"
proof (induction ds arbitrary: t l m)
  case (Cons x ds)
  show ?case
  proof (cases "ds = []")
    case True
    with Cons.prems show ?thesis by simp
  next
    case False
    have x: "is_digit x" and ds: "list_all is_digit ds" using Cons.prems(1) by simp_all
    have step: "parse_loop 1 u False False k b 1 (CHR '','' # s) = parse_loop 1 u False False k False 1 s" for u k b s
      by (simp add: comma_not_digit)
    have "parse_loop 1 t False False l m 1 (thousands (x # ds) @ r) =
        parse_loop 1 (t @ [x]) False False True False 1 (thousands ds @ r)"
      using x False step [of "t @ [x]" True False] by (cases "length ds mod 3 = 0") simp_all
    then show ?thesis by (simp only: Cons.IH [OF ds False] append_assoc append_Cons append_Nil)
  qed
qed simp

lemma parse_places:
  "list_all is_digit fr \<Longrightarrow> parse_loop 1 t True False l m 1 fr = (t @ fr, 1, [])"
  by (induction fr arbitrary: t l m) simp_all

lemma digits_val_append: "digits_val (a @ b) = digits_val a * 10 ^ length b + digits_val b"
proof -
  have "foldl (\<lambda>n c. 10 * n + digit_val c) k b = k * 10 ^ length b + foldl (\<lambda>n c. 10 * n + digit_val c) 0 b" for k
  proof (induction b arbitrary: k)
    case (Cons c b)
    have "foldl (\<lambda>n c. 10 * n + digit_val c) k (c # b) =
        (10 * k + digit_val c) * 10 ^ length b + foldl (\<lambda>n c. 10 * n + digit_val c) 0 b"
      by (simp only: foldl.simps Cons [of "10 * k + digit_val c"])
    moreover have "foldl (\<lambda>n c. 10 * n + digit_val c) 0 (c # b) =
        digit_val c * 10 ^ length b + foldl (\<lambda>n c. 10 * n + digit_val c) 0 b"
      by (simp only: foldl.simps mult_0_right add_0 Cons [of "digit_val c"])
    ultimately show ?case by (simp only: length_Cons power_Suc) (simp only: algebra_simps)
  qed simp
  from this [of "foldl (\<lambda>n c. 10 * n + digit_val c) 0 a"] show ?thesis by (simp only: digits_val_def foldl_append)
qed

lemma digits_val_replicate: "digits_val (replicate n CHR ''0'') = 0"
  by (induction n) (simp_all add: digits_val_def digit_val_def)

lemma digits_val_zeros: "digits_val (replicate n CHR ''0'' @ s) = digits_val s"
  by (simp add: digits_val_append digits_val_replicate)

lemma float_digits:
  assumes "list_all is_digit ds" "list_all is_digit fr" "ds \<noteq> []"
  shows "parse_float ds = Fin (of_nat (digits_val ds))"
    "parse_float (ds @ ''.'' @ fr) = Fin (of_nat (digits_val (ds @ fr)) / 10 ^ length fr)"
proof -
  obtain x xs where x: "ds = x # xs" "is_digit x" using assms(1,3) by (cases ds) auto
  then have n: "x \<noteq> CHR ''-''" "x \<noteq> CHR ''+''" using not_digit_chars by auto
  have p: "parse_float (ds @ r) = float_prefix (ds @ r)" for r using x n by (simp add: parse_float_def)
  have "takeWhile is_digit (ds @ ''.'' @ fr) = ds" "dropWhile is_digit (ds @ ''.'' @ fr) = ''.'' @ fr"
    using assms(1) comma_not_digit by (simp_all add: list_all_iff takeWhile_append dropWhile_append)
  then show "parse_float (ds @ ''.'' @ fr) = Fin (of_nat (digits_val (ds @ fr)) / 10 ^ length fr)"
    using p assms by (simp add: float_prefix_def takeWhile_digits)
  show "parse_float ds = Fin (of_nat (digits_val ds))"
    using p [of "[]"] assms by (simp add: float_prefix_def takeWhile_digits)
qed

text \<open>Trailing zeros.\<close>

lemma drop_zeros_split: "\<exists>j. l = replicate j CHR ''0'' @ drop_zeros 0 l"
proof (induction l)
  case (Cons x l)
  then obtain j where j: "l = replicate j CHR ''0'' @ drop_zeros 0 l" by blast
  show ?case
  proof (cases "x = CHR ''0''")
    case True
    with j show ?thesis by (intro exI [of _ "Suc j"]) simp
  qed (auto intro: exI [of _ 0])
qed simp

lemma places_value:
  assumes "list_all is_digit p"
  defines "fr \<equiv> rev (drop_zeros 0 (rev p))"
  shows "list_all is_digit fr" "rat_of_nat (digits_val fr) / 10 ^ length fr = of_nat (digits_val p) / 10 ^ length p"
proof -
  obtain j where "rev p = replicate j CHR ''0'' @ drop_zeros 0 (rev p)" using drop_zeros_split by blast
  then have "p = rev (replicate j CHR ''0'' @ drop_zeros 0 (rev p))" by (metis rev_rev_ident)
  then have p: "p = fr @ replicate j CHR ''0''" by (simp add: fr_def)
  show "list_all is_digit fr" using assms(1) p by (metis list_all_append)
  have "digits_val p = digits_val fr * 10 ^ j"
    by (subst p) (simp add: digits_val_append digits_val_replicate)
  moreover have "length p = length fr + j" by (subst p) simp
  ultimately show "rat_of_nat (digits_val fr) / 10 ^ length fr = of_nat (digits_val p) / 10 ^ length p"
    by (simp add: power_add)
qed


lemma places_default:
  "g < 1000 \<Longrightarrow> list_all is_digit (places_of default_format g) \<and> length (places_of default_format g) = 3 \<and>
    digits_val (places_of default_format g) = g"
proof -
  assume g: "g < 1000"
  have len: "length (show_nat g) \<le> 3"
  proof -
    have "show_nat g = (if g < 10 then [char_of (48 + g)] else if g < 100 then [char_of (48 + g div 10), char_of (48 + g mod 10)]
        else [char_of (48 + g div 100), char_of (48 + g div 10 mod 10), char_of (48 + g mod 10)])"
      using g by (simp add: show_nat.simps [of g] show_nat.simps [of "g div 10"] show_nat.simps [of "g div 100"]
        div_mult2_eq [symmetric] div_less_iff_less_mult)
    then show ?thesis by simp
  qed
  then have p: "places_of default_format g = replicate (3 - length (show_nat g)) CHR ''0'' @ show_nat g"
    by (simp add: places_of_def default_format_def Let_def)
  have "list_all is_digit (replicate n CHR ''0'')" for n by (simp add: list_all_iff is_digit_def)
  then show ?thesis using len show_nat_digits [of g] unfolding p by (simp add: digits_val_zeros)
qed

lemma drop_all_zeros: "drop_zeros 0 (replicate n CHR ''0'') = []"
  by (induction n) simp_all

text \<open>The text of a number that is not negative: grouped digits, then the places if there are any.\<close>

definition places_text :: "nat \<Rightarrow> string" where
  "places_text g = (if g = 0 then [] else ''.'' @ rev (drop_zeros 0 (rev (places_of default_format g))))"

lemma rl_default:
  assumes "0 \<le> x"
  defines "d \<equiv> nat (math_round (x * 1000))"
  shows "rl default_format x = (d div 1000, d mod 1000)"
proof -
  have d: "int d = math_round (x * 1000)"
    unfolding d_def math_round_def using assms(1) by simp
  have "\<lfloor>rat_of_int (int d) / rat_of_int 1000\<rfloor> = int d div 1000" by (rule floor_divide_of_int_eq)
  then have "\<lfloor>rat_of_int (math_round (x * 1000)) / 1000\<rfloor> = int (d div 1000)" by (simp add: d zdiv_int)
  moreover have "int d - int (d div 1000) * 1000 = int (d mod 1000)"
    by (simp add: zmod_int zdiv_int minus_div_mult_eq_mod)
  ultimately show ?thesis by (simp add: rl_def Let_def default_format_def d [symmetric])
qed

lemma sl_default:
  assumes "0 \<le> x" "nat (math_round (x * 1000)) div 1000 \<le> 10 ^ 20"
  defines "d \<equiv> nat (math_round (x * 1000))"
  shows "sl default_format x = Some (thousands (show_nat (d div 1000)) @ places_text (d mod 1000))"
proof -
  have w: "whole_digits (d div 1000) [] = show_nat (d div 1000)"
    using assms(2) by (simp add: whole_digits.simps d_def)
  have z: "places_of default_format 0 = replicate 3 CHR ''0''"
  proof -
    have "char_of (48 :: nat) = CHR ''0''" by code_simp
    then show ?thesis by (simp add: places_of_def default_format_def show_nat.simps [of 0] numeral_3_eq_3)
  qed
  have r: "rl default_format x = (d div 1000, d mod 1000)" unfolding d_def by (rule rl_default [OF assms(1)])
  have f: "n_ce default_format = 3" "n_de default_format = 0" "n_Ub default_format = 1" "n_Ud default_format = [3]"
    "\<not> n_Cm default_format" by (simp_all add: default_format_def)
  have "nat 1 - length (show_nat (d div 1000)) = 0" by (cases "show_nat (d div 1000)") simp_all
  then show ?thesis
    unfolding sl_def r f Let_def prod.case w
    by (simp add: f grouped_thousands places_text_def z drop_all_zeros)
qed

lemma parse_default:
  assumes "g < 1000"
  shows "parse_loop 1 [] False False False False 1 (thousands (show_nat e) @ places_text g) =
      (show_nat e @ places_text g, 1, []) \<and>
    parse_float (show_nat e @ places_text g) = Fin (of_nat (1000 * e + g) / 1000)"
proof -
  let ?p = "places_of default_format g"
  define fr where "fr = rev (drop_zeros 0 (rev ?p))"
  have p: "list_all is_digit ?p" "length ?p = 3" "digits_val ?p = g" using places_default [OF assms] by auto
  have fr: "list_all is_digit fr" "rat_of_nat (digits_val fr) / 10 ^ length fr = of_nat g / 1000"
    using places_value [OF p(1)] p(2,3) by (simp_all add: fr_def)
  have e: "list_all is_digit (show_nat e)" "show_nat e \<noteq> []" using show_nat_digits by auto
  note loop = parse_thousands [OF e, of "[]" False False "places_text g"]
  show ?thesis
  proof (cases "g = 0")
    case True
    then show ?thesis using loop float_digits(1) [OF e(1) fr(1) e(2)] by (simp add: places_text_def)
  next
    case False
    then have t: "places_text g = ''.'' @ fr" by (simp add: places_text_def fr_def)
    have "parse_loop 1 (show_nat e) False False True False 1 (''.'' @ fr) = (show_nat e @ ''.'' @ fr, 1, [])"
      using parse_places [OF fr(1), of "show_nat e @ ''.''" True False] by (simp add: comma_not_digit)
    moreover have "parse_float (show_nat e @ ''.'' @ fr) = Fin (of_nat (1000 * e + g) / 1000)"
    proof -
      have "rat_of_nat (digits_val (show_nat e @ fr)) / 10 ^ length fr = of_nat e + of_nat g / 1000"
        using fr(2) by (simp add: digits_val_append add_divide_distrib)
      then show ?thesis
        unfolding float_digits(2) [OF e(1) fr(1) e(2)] by (simp add: add_divide_distrib)
    qed
    ultimately show ?thesis using loop t by simp
  qed
qed


lemma thousands_hd: "l \<noteq> [] \<Longrightarrow> \<exists>r. thousands l = hd l # r"
  by (cases l) simp_all

lemma thousands_set: "set (thousands l) \<subseteq> insert CHR '','' (set l)"
  by (induction l) auto

lemma default_text_chars: "c \<in> set (thousands (show_nat e) @ places_text g) \<Longrightarrow> g < 1000 \<Longrightarrow> is_digit c \<or> c = CHR '','' \<or> c = CHR ''.''"
proof -
  assume c: "c \<in> set (thousands (show_nat e) @ places_text g)" "g < 1000"
  have "list_all is_digit (rev (drop_zeros 0 (rev (places_of default_format g))))"
    using places_value(1) places_default [OF c(2)] by blast
  with c(1) show ?thesis
    using thousands_set [of "show_nat e"] show_nat_digits [of e]
    by (auto simp: places_text_def list_all_iff split: if_splits)
qed

text \<open>C37. Numbers with a whole part up to 10^20: the text that the format of the script writes is the sign,
  the digits of the whole part grouped by thousands, and at most three places; \<open>parse\<close> reads it back as
  the number rounded to three places.\<close>

theorem number_readback:
  assumes "nat (math_round (\<bar>a\<bar> * 1000)) div 1000 \<le> 10 ^ 20"
  defines "d \<equiv> nat (math_round (\<bar>a\<bar> * 1000))"
  shows "\<exists>s. ml_format default_format a = Some s \<and>
    s = (if a < 0 then ''-'' else []) @ thousands (show_nat (d div 1000)) @ places_text (d mod 1000) \<and>
    ml_parse default_format s = Fin ((if a < 0 then -1 else 1) * of_nat d / 1000)"
proof -
  let ?t = "thousands (show_nat (d div 1000)) @ places_text (d mod 1000)"
  let ?s = "(if a < 0 then ''-'' else []) @ ?t"
  have sl: "sl default_format \<bar>a\<bar> = Some ?t" using sl_default [of "\<bar>a\<bar>"] assms by simp
  have "(if a < 0 then -1 else 1) * a * of_int (n_Gb default_format) = \<bar>a\<bar>" by (simp add: default_format_def)
  then have "ml_format default_format a = Some ?s"
    using sl by (simp add: ml_format_def Let_def) (simp add: default_format_def)
  moreover have "ml_parse default_format ?s = Fin ((if a < 0 then -1 else 1) * of_nat d / 1000)"
  proof -
    have g: "d mod 1000 < 1000" by simp
    note p = parse_default [OF g, of "d div 1000"]
    have v: "of_nat (1000 * (d div 1000) + d mod 1000) = rat_of_nat d" by simp
    obtain x r where x: "show_nat (d div 1000) = x # r" "is_digit x"
      using show_nat_digits [of "d div 1000"] by (cases "show_nat (d div 1000)") auto
    then have m: "\<not> starts_with ?t ''-''"
      using thousands_hd [of "x # r"] not_digit_chars(1) by (auto simp: starts_with_def)
    have "\<not> is_digit CHR '' ''" by code_simp
    then have "CHR '' '' \<notin> set ?t" using default_text_chars [OF _ g] by fastforce
    then have "map (\<lambda>c. if c = CHR '' '' then CHR 0xA0 else c) ?t = ?t" by (intro map_idI) auto
    then have space: "map (\<lambda>c. if c = CHR '' '' then CHR 0xA0 else c) ?s = ?s" by simp
    have f: "n_ne default_format = []" "n_qg default_format = []" "n_pd default_format = ''-''" "n_cf default_format = []"
      "n_Gb default_format = 1" by (simp_all add: default_format_def)
    show ?thesis
    proof (cases "a < 0")
      case True
      have "starts_with (''-'' @ ?t) ''-''" by (rule starts_with_append)
      with True space p v show ?thesis
        by (simp add: ml_parse_def f Let_def starts_with_def num_div_def num_minus_def)
    next
      case False
      with m space p v show ?thesis
        by (simp add: ml_parse_def f Let_def num_div_def) (simp add: starts_with_def)
    qed
  qed
  ultimately show ?thesis by blast
qed


theorem number_readback_witness:
  "\<exists>s. ml_format default_format (- 12345 / 10) = Some s \<and> ml_parse default_format s = Fin (- 1234500 / 1000)"
proof -
  have d: "math_round (\<bar>- 12345 / 10\<bar> * 1000) = 1234500" by code_simp
  have "nat (math_round (\<bar>- 12345 / 10\<bar> * 1000)) div 1000 \<le> 10 ^ 20" unfolding d by simp
  from number_readback [OF this] obtain s where s: "ml_format default_format (- 12345 / 10) = Some s"
    "ml_parse default_format s = Fin ((if - 12345 / 10 < (0 :: rat) then -1 else 1) *
       of_nat (nat (math_round (\<bar>- 12345 / 10\<bar> * 1000))) / 1000)" by blast
  from s(2) have "ml_parse default_format s = Fin (- 1234500 / 1000)" unfolding d by simp
  with s(1) show ?thesis by blast
qed

end
