(* ===== verification/Closure_Message.thy ===== *)
theory Closure_Message
  imports Closure_Number Survey_Markup Js_Value Js_Regex
begin

text \<open>
  Message formats of the survey script (\<open>Cl\<close>, prompt_embed_static.js, lines 209 to 217, with the plural
  rules \<open>vl\<close>, \<open>xl\<close>, and the three messages of lines 452 and 564). A pattern is split at its outer braces
  (\<open>Kl\<close>) into texts and blocks; a block is a parameter, a choice by a value (\<open>select\<close>) or by a number
  (\<open>plural\<close>, \<open>selectordinal\<close>), whose branches are patterns again (\<open>Hl\<close>, \<open>Ol\<close>, \<open>Pl\<close>, \<open>Ql\<close>). Formatting
  (\<open>Il\<close>, \<open>Jl\<close>) writes a slot for each parameter and each quoted text and puts the values in at the end
  (\<open>Fl\<close>). Assertions of the script are errors here.

  The code units U+FDDF (which starts a slot) and U+221E are not among the model's characters; they are
  written as the code units 0 and 1, so a pattern or value with one of those is outside the model, as are
  keys and parameters named like a property of \<open>Object.prototype\<close>.

  The main lemmas: a pattern that parses is well formed, and formatting it fails in two named cases only;
  formatting the pattern of an abstract message gives the meaning of the message.
\<close>

subsection \<open>Braces\<close>

datatype msg_error =
  No_matching_brace
| Mismatched_braces
| Unknown_block
| Missing_value
| Expected_block
| No_other
| Bad_option
| Below_offset
| Unrecognized_type
| Hash_left

datatype piece = Outside string | Block string

primrec piece_text :: "piece \<Rightarrow> string" where
  "piece_text (Outside t) = t"
| "piece_text (Block t) = t"

definition outside :: "string \<Rightarrow> piece list" where
  "outside t = (if t = [] then [] else [Outside t])"

text \<open>\<open>Kl\<close>: \<open>n\<close> is the height of the stack of open braces, \<open>t\<close> the text since the start of the piece.\<close>

fun Kl_loop :: "nat \<Rightarrow> string \<Rightarrow> string \<Rightarrow> msg_error + piece list" where
  "Kl_loop n t [] = (if n = 0 then Inr (outside t) else Inl Mismatched_braces)"
| "Kl_loop n t (c # s) =
     (if c = CHR ''}'' then
        (case n of
           0 \<Rightarrow> Inl No_matching_brace
         | Suc m \<Rightarrow>
             (if m = 0 then map_sum id (\<lambda>ps. Block t # ps) (Kl_loop 0 [] s) else Kl_loop m (t @ [c]) s))
      else if c = CHR ''{'' then
        (if n = 0 then map_sum id (\<lambda>ps. outside t @ ps) (Kl_loop 1 [] s) else Kl_loop (Suc n) (t @ [c]) s)
      else Kl_loop n (t @ [c]) s)"

definition Kl :: "string \<Rightarrow> msg_error + piece list" where
  "Kl a = Kl_loop 0 [] a"

lemma map_sum_Inr: "map_sum id f x = Inr y \<longleftrightarrow> (\<exists>z. x = Inr z \<and> y = f z)"
  by (cases x) auto

lemma outside_set [simp]: "p \<in> set (outside t) \<longleftrightarrow> t \<noteq> [] \<and> p = Outside t"
  by (simp add: outside_def)

lemma Kl_loop_length:
  "Kl_loop n t s = Inr ps \<Longrightarrow> p \<in> set ps \<Longrightarrow> length (piece_text p) \<le> length t + length s"
  "Kl_loop n t s = Inr ps \<Longrightarrow> Block v \<in> set ps \<Longrightarrow> length v < (if n = 0 then length s else length t + length s)"
proof (induction n t s arbitrary: ps rule: Kl_loop.induct)
  case (2 n t c s)
  {
    case 1
    then show ?case using 2 by (fastforce simp: map_sum_Inr split: if_splits nat.splits)
  next
    case 2
    then show ?case using "2.IH"
      by (fastforce simp: map_sum_Inr split: if_splits nat.splits)
  }
qed (auto split: if_splits)


lemma Kl_length:
  "Kl a = Inr ps \<Longrightarrow> p \<in> set ps \<Longrightarrow> length (piece_text p) \<le> length a"
  "Kl a = Inr ps \<Longrightarrow> Block v \<in> set ps \<Longrightarrow> length v < length a"
  using Kl_loop_length [of 0 "[]" a ps] by (auto simp: Kl_def)

subsection \<open>Parsing\<close>

text \<open>A branch object holds the name of its parameter under \<open>Ng\<close>, an offset under \<open>$l\<close> and the branches
  under their keys.\<close>

datatype block =
  B_text string
| B_param string
| B_select "(string \<times> bval) list"
| B_plural "(string \<times> bval) list"
| B_ordinal "(string \<times> bval) list"
and bval =
  V_name string
| V_off nat
| V_blocks "block list"

text \<open>The heads of blocks, \<open>/^\s*(\w+)\s*,\s*kw\s*,/\<close>, with the rest; \<open>Ll\<close> goes on with the offset.\<close>

definition arg_head :: "string \<Rightarrow> string \<Rightarrow> (string \<times> string) option" where
  "arg_head kw s =
     (let s = dropWhile is_space s; w = takeWhile is_word s; s = dropWhile is_space (dropWhile is_word s)
      in if w = [] \<or> \<not> starts_with s '','' then None
         else let s = dropWhile is_space (tl s)
              in if \<not> starts_with s kw then None
                 else let s = dropWhile is_space (drop (length kw) s)
                      in if starts_with s '','' then Some (w, tl s) else None)"

definition offset_of :: "string \<Rightarrow> nat \<times> string" where
  "offset_of r =
     (let s = dropWhile is_space r; t = drop 7 s
      in if starts_with s ''offset:'' \<and> takeWhile is_digit t \<noteq> []
         then (digits_val (takeWhile is_digit t), dropWhile is_digit t) else (0, r))"

definition Ll :: "string \<Rightarrow> (string \<times> nat \<times> string) option" where
  "Ll v = (case arg_head ''plural'' v of None \<Rightarrow> None | Some (w, r) \<Rightarrow> Some (w, offset_of r))"

definition Ml :: "string \<Rightarrow> (string \<times> string) option" where
  "Ml v = arg_head ''selectordinal'' v"

definition Nl :: "string \<Rightarrow> (string \<times> string) option" where
  "Nl v = arg_head ''select'' v"

text \<open>The keys of branches: \<open>replace(/\s/g, "")\<close>, and the first match of \<open>/\s*(?:=)?(\w+)\s*/\<close> replaced by
  its word.\<close>

definition select_key :: "string \<Rightarrow> string" where
  "select_key s = filter (\<lambda>c. \<not> is_space c) s"

definition key_match :: "string \<Rightarrow> string option" where
  "key_match s =
     (let s = dropWhile is_space s; s = (if starts_with s ''='' then tl s else s); w = takeWhile is_word s
      in if w = [] then None else Some (w @ dropWhile is_space (dropWhile is_word s)))"

fun plural_key :: "string \<Rightarrow> string" where
  "plural_key [] = []"
| "plural_key (c # s) = (case key_match (c # s) of Some t \<Rightarrow> t | None \<Rightarrow> c # plural_key s)"

text \<open>The pairs of a key and a branch; the loops of \<open>Ol\<close>, \<open>Pl\<close> and \<open>Ql\<close> stop at the first error.\<close>

fun branches :: "(string \<Rightarrow> string) \<Rightarrow> piece list \<Rightarrow> (string \<times> (msg_error + string)) list" where
  "branches f [] = []"
| "branches f [p] = [(f (piece_text p), Inl Missing_value)]"
| "branches f (p # q # ps) =
     (f (piece_text p), case q of Block v \<Rightarrow> Inr v | Outside t \<Rightarrow> Inl Expected_block) # branches f ps"

fun each :: "('a \<Rightarrow> 'e + 'b) \<Rightarrow> 'a list \<Rightarrow> 'e + 'b list" where
  "each f [] = Inr []"
| "each f (x # xs) =
     (case f x of Inl e \<Rightarrow> Inl e | Inr y \<Rightarrow> (case each f xs of Inl e \<Rightarrow> Inl e | Inr ys \<Rightarrow> Inr (y # ys)))"

definition branch_value :: "(string \<Rightarrow> msg_error + block list) \<Rightarrow> string \<times> (msg_error + string) \<Rightarrow> msg_error + string \<times> bval" where
  "branch_value H kq =
     (case snd kq of
        Inl e \<Rightarrow> Inl e
      | Inr u \<Rightarrow> (case H u of Inl e \<Rightarrow> Inl e | Inr bs \<Rightarrow> Inr (fst kq, V_blocks bs)))"

text \<open>The branches of a block: \<open>r\<close> is the text after the head and \<open>ob\<close> the object so far.\<close>

definition options ::
  "(string \<Rightarrow> msg_error + block list) \<Rightarrow> (string \<Rightarrow> string) \<Rightarrow> (string \<times> bval) list \<Rightarrow> string \<Rightarrow>
    msg_error + (string \<times> bval) list" where
  "options H f ob r =
     (case Kl r of
        Inl e \<Rightarrow> Inl e
      | Inr qs \<Rightarrow>
          (case each (branch_value H) (branches f qs) of
             Inl e \<Rightarrow> Inl e
           | Inr kvs \<Rightarrow>
               (let o' = fold (\<lambda>(k, v). dict_set k v) kvs ob
                in case map_of o' ''other'' of Some (V_blocks bs) \<Rightarrow> Inr o' | _ \<Rightarrow> Inl No_other)))"

text \<open>One round of the loop of \<open>Hl\<close>, where \<open>H\<close> parses the branches.\<close>

definition piece_block :: "(string \<Rightarrow> msg_error + block list) \<Rightarrow> piece \<Rightarrow> msg_error + block" where
  "piece_block H p =
     (case p of
        Outside t \<Rightarrow> Inr (B_text t)
      | Block v \<Rightarrow>
          (case Ll v of
             Some (w, d, r) \<Rightarrow> map_sum id B_plural (options H plural_key [(''Ng'', V_name w), (''$l'', V_off d)] r)
           | None \<Rightarrow>
               (case Ml v of
                  Some (w, r) \<Rightarrow> map_sum id B_ordinal (options H plural_key [(''Ng'', V_name w), (''$l'', V_off 0)] r)
                | None \<Rightarrow>
                    (case Nl v of
                       Some (w, r) \<Rightarrow> map_sum id B_select (options H select_key [(''Ng'', V_name w)] r)
                     | None \<Rightarrow>
                         if takeWhile is_word (dropWhile is_space v) \<noteq> [] then Inr (B_param v)
                         else Inl Unknown_block))))"

lemma length_dropWhile: "length (dropWhile P s) \<le> length s"
  by (induction s) auto

lemma arg_head_length: "arg_head kw s = Some (w, r) \<Longrightarrow> length r < length s"
proof -
  assume a: "arg_head kw s = Some (w, r)"
  define s1 where "s1 = dropWhile is_space (dropWhile is_word (dropWhile is_space s))"
  define s2 where "s2 = dropWhile is_space (drop (length kw) (dropWhile is_space (tl s1)))"
  have r: "r = tl s2" "starts_with s1 '',''"
    using a by (simp_all add: arg_head_def Let_def s1_def s2_def split: if_splits)
  have "length s1 \<le> length s" unfolding s1_def by (intro order_trans [OF length_dropWhile]) (rule length_dropWhile order_refl)+
  moreover have "length s2 \<le> length (tl s1)"
    unfolding s2_def by (rule order_trans [OF length_dropWhile]) (simp add: le_diff_conv, rule le_trans [OF length_dropWhile], simp)
  moreover have "s1 \<noteq> []" using r(2) by (auto simp: starts_with_def)
  ultimately show ?thesis using r(1) by (cases s1) auto
qed

lemma offset_of_length: "length (snd (offset_of r)) \<le> length r"
proof -
  have "length (dropWhile is_digit (drop 7 (dropWhile is_space r))) \<le> length (dropWhile is_space r)"
    by (rule order_trans [OF length_dropWhile]) simp
  also have "\<dots> \<le> length r" by (rule length_dropWhile)
  finally show ?thesis by (simp add: offset_of_def Let_def)
qed

lemma head_lengths:
  "Ll v = Some (w, d, r) \<Longrightarrow> length r < length v" "Ml v = Some (w, r) \<Longrightarrow> length r < length v"
  "Nl v = Some (w, r) \<Longrightarrow> length r < length v"
proof -
  assume "Ll v = Some (w, d, r)"
  then obtain r' where "arg_head ''plural'' v = Some (w, r')" "offset_of r' = (d, r)"
    by (auto simp: Ll_def split: option.splits)
  then show "length r < length v" using arg_head_length offset_of_length [of r'] by fastforce
qed (auto simp: Ml_def Nl_def dest: arg_head_length)

lemma each_cong [fundef_cong]: "xs = ys \<Longrightarrow> (\<And>x. x \<in> set ys \<Longrightarrow> f x = g x) \<Longrightarrow> each f xs = each g ys"
proof (induction xs arbitrary: ys)
  case (Cons x xs)
  then have e: "f x = g x" "each f xs = each g xs" by auto
  show ?case unfolding Cons.prems(1) [symmetric] each.simps e by (rule refl)
qed simp

lemma branches_block: "(k, Inr u) \<in> set (branches f qs) \<Longrightarrow> Block u \<in> set qs"
  by (induction f qs rule: branches.induct) (auto split: piece.splits)

lemma options_cong:
  assumes "\<And>u. length u < length r \<Longrightarrow> H u = H' u"
  shows "options H f ob r = options H' f ob r"
proof (cases "Kl r")
  case (Inr qs)
  have "branch_value H x = branch_value H' x" if "x \<in> set (branches f qs)" for x
  proof (cases x)
    case (Pair k q)
    then show ?thesis
      using that assms Kl_length(2) [OF Inr] branches_block [of k]
      by (cases q) (auto simp: branch_value_def)
  qed
  then have "each (branch_value H) (branches f qs) = each (branch_value H') (branches f qs)"
    by (intro each_cong) auto
  then show ?thesis by (simp add: options_def Inr)
qed (simp add: options_def)

lemma piece_block_cong [fundef_cong]:
  "p = p' \<Longrightarrow> (\<And>u. length u < length (piece_text p') \<Longrightarrow> H u = H' u) \<Longrightarrow> piece_block H p = piece_block H' p'"
proof -
  assume p: "p = p'" and H: "\<And>u. length u < length (piece_text p') \<Longrightarrow> H u = H' u"
  show ?thesis
  proof (cases p')
    case (Block v)
    have o: "options H f ob r = options H' f ob r" if "length r < length v" for f ob r
      using that H Block by (intro options_cong) simp
    show ?thesis
      unfolding p Block piece_block_def piece.case
      using head_lengths [of v] o by (simp split: option.split)
  qed (simp add: p piece_block_def)
qed

function Hl :: "string \<Rightarrow> msg_error + block list" where
  "Hl a = (case Kl a of Inl e \<Rightarrow> Inl e | Inr ps \<Rightarrow> each (piece_block Hl) ps)"
  by pat_completeness auto
termination
  by (relation "measure length") (auto dest: Kl_length(1))

declare Hl.simps [simp del]


subsection \<open>Plural rules\<close>

text \<open>\<open>a | 0\<close> and \<open>a % n\<close> for numbers that need not be integers.\<close>

definition trunc :: "rat \<Rightarrow> int" where
  "trunc r = (if 0 \<le> r then \<lfloor>r\<rfloor> else \<lceil>r\<rceil>)"

definition to_int32 :: "jsnum \<Rightarrow> int" where
  "to_int32 a = (case a of Fin r \<Rightarrow> sint (word_of_int (trunc r) :: 32 word) | _ \<Rightarrow> 0)"

definition num_rem :: "jsnum \<Rightarrow> int \<Rightarrow> jsnum" where
  "num_rem a n = (case a of Fin r \<Rightarrow> Fin (r - of_int (n * trunc (r / of_int n))) | _ \<Rightarrow> NaN)"

definition vl_rule :: "jsnum \<Rightarrow> string" where
  "vl_rule a =
     (if num_rem a 10 = Fin 1 \<and> num_rem a 100 \<noteq> Fin 11 then ''one''
      else if num_rem a 10 = Fin 2 \<and> num_rem a 100 \<noteq> Fin 12 then ''two''
      else if num_rem a 10 = Fin 3 \<and> num_rem a 100 \<noteq> Fin 13 then ''few''
      else ''other'')"

definition xl_rule :: "jsnum \<Rightarrow> string" where
  "xl_rule a =
     (let c = show_num a;
          places = (case index_of c ''.'' of None \<Rightarrow> 0 | Some d \<Rightarrow> min (length c - d - 1) 3)
      in if to_int32 a = 1 \<and> places = 0 then ''one'' else ''other'')"

subsection \<open>Formatting\<close>

type_synonym params = "string \<Rightarrow> jval"

definition slot_mark :: char where
  "slot_mark = CHR 0x00"

text \<open>\<open>nj\<close>: the slot of the last entry of a list of length \<open>n + 1\<close>.\<close>

definition slot_text :: "nat \<Rightarrow> string" where
  "slot_text n = slot_mark # ''_'' @ show_nat n @ ''_''"

text \<open>\<open>xs.format(k)\<close>: the format of numbers has no error (\<open>number_readback\<close>); the sign for infinity is the
  code unit 1.\<close>

definition number_text :: "jsnum \<Rightarrow> string" where
  "number_text k =
     (case k of
        Fin r \<Rightarrow> (case ml_format default_format r of Some s \<Rightarrow> s | None \<Rightarrow> [])
      | Inf p \<Rightarrow> (if p then [] else ''-'') @ [CHR 0x01]
      | NaN \<Rightarrow> ''NaN'')"

text \<open>The name of the parameter of a branch object, as a key: a branch under the key \<open>Ng\<close> has taken the
  place of the name, and is an array of objects. Likewise the offset.\<close>

definition name_of :: "(string \<times> bval) list \<Rightarrow> string" where
  "name_of ob =
     (case map_of ob ''Ng'' of
        Some (V_name w) \<Rightarrow> w
      | Some (V_blocks bs) \<Rightarrow> join_with '','' (map (\<lambda>b. ''[object Object]'') bs)
      | _ \<Rightarrow> ''undefined'')"

definition minus_offset :: "(string \<times> bval) list \<Rightarrow> jsnum \<Rightarrow> jsnum" where
  "minus_offset ob l =
     (case map_of ob ''$l'' of
        Some (V_off n) \<Rightarrow> (case l of Fin x \<Rightarrow> Fin (x - of_nat n) | _ \<Rightarrow> l)
      | Some (V_blocks []) \<Rightarrow> l
      | _ \<Rightarrow> NaN)"

definition not_negative :: "jsnum \<Rightarrow> bool" where
  "not_negative k = (case k of Fin r \<Rightarrow> 0 \<le> r | Inf p \<Rightarrow> p | NaN \<Rightarrow> False)"

definition array_or_fail :: "bval option \<Rightarrow> msg_error + bval" where
  "array_or_fail v = (case v of Some (V_blocks bs) \<Rightarrow> Inr (V_blocks bs) | _ \<Rightarrow> Inl Bad_option)"

text \<open>The branch of a \<open>select\<close> for the text \<open>t\<close> of its parameter, and that of a plural block for the text and
  the number after the offset.\<close>

definition select_branch :: "(string \<times> bval) list \<Rightarrow> string \<Rightarrow> msg_error + bval" where
  "select_branch ob t =
     (case map_of ob t of Some v \<Rightarrow> Inr v | None \<Rightarrow> array_or_fail (map_of ob ''other''))"

definition plural_branch :: "(jsnum \<Rightarrow> string) \<Rightarrow> (string \<times> bval) list \<Rightarrow> string \<Rightarrow> jsnum \<Rightarrow> msg_error + bval" where
  "plural_branch rule ob t k =
     (case map_of ob t of
        Some v \<Rightarrow> Inr v
      | None \<Rightarrow>
          (if \<not> not_negative k then Inl Below_offset
           else case map_of ob (rule k) of
             Some v \<Rightarrow> array_or_fail (Some v)
           | None \<Rightarrow> array_or_fail (map_of ob ''other'')))"

lemma array_or_fail_Inr: "array_or_fail v = Inr w \<Longrightarrow> v = Some w"
  by (auto simp: array_or_fail_def split: option.splits bval.splits)

lemma branch_in_object:
  "select_branch ob t = Inr v \<Longrightarrow> \<exists>k. (k, v) \<in> set ob"
  "plural_branch rule ob t k = Inr v \<Longrightarrow> \<exists>k. (k, v) \<in> set ob"
  unfolding select_branch_def plural_branch_def
  by (fastforce dest: array_or_fail_Inr map_of_SomeD split: option.splits if_splits)+

lemma object_size: "(k, v) \<in> set ob \<Longrightarrow> size v < Suc (size_list (size_prod (\<lambda>_. 0) size) ob)"
  by (induction ob) auto

lemma branch_size:
  "select_branch ob t = Inr v \<Longrightarrow> 2 * size v < Suc (2 * size_list (size_prod (\<lambda>_. 0) size) ob)"
  "plural_branch rule ob t k = Inr v \<Longrightarrow> 2 * size v < Suc (2 * size_list (size_prod (\<lambda>_. 0) size) ob)"
  using branch_in_object object_size by (metis less_Suc_eq_le mult_le_mono2)+

text \<open>\<open>Il\<close> and \<open>Jl\<close>: \<open>gc\<close> is the list \<open>Gc\<close> of values for slots; \<open>d\<close> says that numbers are left as \<open>#\<close>. The
  result has the list and the text written.\<close>

type_synonym written = "msg_error + string list \<times> string"

definition then_write :: "written \<Rightarrow> (string list \<Rightarrow> written) \<Rightarrow> written" where
  "then_write m f =
     (case m of
        Inl e \<Rightarrow> Inl e
      | Inr (gc, s) \<Rightarrow> (case f gc of Inl e \<Rightarrow> Inl e | Inr (gc', t) \<Rightarrow> Inr (gc', s @ t)))"

definition write_number :: "bool \<Rightarrow> jsnum \<Rightarrow> written \<Rightarrow> written" where
  "write_number d k m = map_sum id (\<lambda>(gc, s). (gc, if d then s else replace_all ''#'' (number_text k) s)) m"

lemma then_write_cong [fundef_cong]:
  "m = m' \<Longrightarrow> (\<And>gc s. m' = Inr (gc, s) \<Longrightarrow> f gc = g gc) \<Longrightarrow> then_write m f = then_write m' g"
  by (auto simp: then_write_def split: sum.splits)

function Il :: "params \<Rightarrow> bool \<Rightarrow> block list \<Rightarrow> string list \<Rightarrow> written"
  and Il_one :: "params \<Rightarrow> bool \<Rightarrow> block \<Rightarrow> string list \<Rightarrow> written"
  and Jl :: "params \<Rightarrow> bool \<Rightarrow> (jsnum \<Rightarrow> string) \<Rightarrow> (string \<times> bval) list \<Rightarrow> string list \<Rightarrow> written"
  and Il_val :: "params \<Rightarrow> bool \<Rightarrow> bval \<Rightarrow> string list \<Rightarrow> written"
where
  "Il c d [] gc = Inr (gc, [])"
| "Il c d (b # bs) gc = then_write (Il_one c d b gc) (Il c d bs)"
| "Il_one c d (B_text t) gc = Inr (gc, t)"
| "Il_one c d (B_param h) gc =
     (if c h = Undef then Inr (gc, ''Undefined parameter - '' @ h)
      else Inr (gc @ [to_str (c h)], slot_text (length gc)))"
| "Il_one c d (B_select ob) gc =
     (if c (name_of ob) = Undef then Inr (gc, ''Undefined parameter - '' @ name_of ob)
      else case select_branch ob (to_str (c (name_of ob))) of
        Inl e \<Rightarrow> Inl e
      | Inr v \<Rightarrow> Il_val c d v gc)"
| "Il_one c d (B_plural ob) gc = Jl c d xl_rule ob gc"
| "Il_one c d (B_ordinal ob) gc = Jl c d vl_rule ob gc"
| "Jl c d rule ob gc =
     (let l = to_num (c (name_of ob)); k = minus_offset ob l
      in if l = NaN then Inr (gc, ''Undefined or invalid parameter - '' @ name_of ob)
         else case plural_branch rule ob (to_str (c (name_of ob))) k of
           Inl e \<Rightarrow> Inl e
         | Inr v \<Rightarrow> write_number d k (Il_val c d v gc))"
| "Il_val c d (V_blocks bs) gc = Il c d bs gc"
| "Il_val c d (V_name w) gc = (if w = [] then Inr (gc, []) else Inl Unrecognized_type)"
| "Il_val c d (V_off n) gc = Inr (gc, [])"
  by pat_completeness auto
termination
proof (relation "measure (\<lambda>x. case x of
    Inl (Inl (c, d, bs, gc)) \<Rightarrow> 2 * size_list size bs
  | Inl (Inr (c, d, b, gc)) \<Rightarrow> 2 * size b
  | Inr (Inl (c, d, rule, ob, gc)) \<Rightarrow> 2 * Suc (size_list (size_prod (\<lambda>_. 0) size) ob) - 1
  | Inr (Inr (c, d, v, gc)) \<Rightarrow> 2 * size v)", goal_cases)
qed (auto dest: branch_size)

declare Jl.simps [simp del]


text \<open>\<open>Gl\<close>: two apostrophes stand for one, and an apostrophe before a brace or \<open>#\<close> quotes the text up to the
  next one on the line; both become slots, whose texts are collected in \<open>ek\<close>.\<close>

fun apos_pass :: "string \<Rightarrow> string list \<Rightarrow> string \<times> string list" where
  "apos_pass (c # e # s) ek =
     (if c = CHR 0x27 \<and> e = CHR 0x27 then
        (let (t, ek') = apos_pass s (ek @ [[CHR 0x27]]) in (slot_text (length ek) @ t, ek'))
      else let (t, ek') = apos_pass (e # s) ek in (c # t, ek'))"
| "apos_pass s ek = (s, ek)"

definition quote_end :: "char \<Rightarrow> bool" where
  "quote_end c \<longleftrightarrow> c = CHR 0x27 \<or> c = CHR 0x0A \<or> c = CHR 0x0D"

function quote_pass :: "string \<Rightarrow> string list \<Rightarrow> string \<times> string list" where
  "quote_pass (c # x # s) ek =
     (let t = takeWhile (\<lambda>c. \<not> quote_end c) s; r = dropWhile (\<lambda>c. \<not> quote_end c) s
      in if c = CHR 0x27 \<and> x \<in> set ''{}#'' \<and> starts_with r [CHR 0x27] then
           (let (u, ek') = quote_pass (tl r) (ek @ [x # t]) in (slot_text (length ek) @ u, ek'))
         else let (u, ek') = quote_pass (x # s) ek in (c # u, ek'))"
| "quote_pass [] ek = ([], ek)"
| "quote_pass [c] ek = ([c], ek)"
  by pat_completeness auto
termination
proof (relation "measure (length \<circ> fst)", goal_cases)
  case (2 c x s ek t r)
  have "length r \<le> length s" unfolding 2 by (rule length_dropWhile)
  then show ?case by simp
qed auto

definition Gl :: "string \<Rightarrow> string \<times> string list" where
  "Gl b = (let (t, ek) = apos_pass b [] in quote_pass t ek)"

text \<open>A format object: the pattern \<open>ii\<close> until it is parsed, then its blocks \<open>hi\<close> and quoted texts \<open>ek\<close>.\<close>

record cl =
  cl_ii :: "string option"
  cl_ek :: "string list"
  cl_hi :: "block list option"

definition Cl :: "string \<Rightarrow> cl" where
  "Cl a = \<lparr>cl_ii = Some a, cl_ek = [], cl_hi = None\<rparr>"

definition Fl_parse :: "cl \<Rightarrow> msg_error option \<times> cl" where
  "Fl_parse a =
     (case cl_ii a of
        None \<Rightarrow> (None, a)
      | Some p \<Rightarrow>
          if p = [] then (None, a)
          else let (d, ek) = Gl p in
            (case Hl d of
               Inl e \<Rightarrow> (Some e, a\<lparr>cl_ek := ek\<rparr>)
             | Inr bs \<Rightarrow> (None, a\<lparr>cl_ek := ek, cl_hi := Some bs, cl_ii := None\<rparr>)))"

text \<open>The values put in for the slots, the last one first.\<close>

definition fill_slots :: "string list \<Rightarrow> string \<Rightarrow> string" where
  "fill_slots gc t = foldr (\<lambda>(i, v) t. replace_text t (slot_text i) v) (enumerate 0 gc) t"

definition Fl_write :: "cl \<Rightarrow> params \<Rightarrow> bool \<Rightarrow> msg_error + string" where
  "Fl_write a b c =
     (case cl_hi a of
        None \<Rightarrow> Inr []
      | Some bs \<Rightarrow>
          if bs = [] then Inr []
          else
            (case Il b c bs (cl_ek a) of
               Inl e \<Rightarrow> Inl e
             | Inr (gc, t) \<Rightarrow> if \<not> c \<and> CHR ''#'' \<in> set t then Inl Hash_left else Inr (fill_slots gc t)))"

definition Fl :: "cl \<Rightarrow> params \<Rightarrow> bool \<Rightarrow> (msg_error + string) \<times> cl" where
  "Fl a b c =
     (case Fl_parse a of
        (Some e, a) \<Rightarrow> (Inl e, a)
      | (None, a) \<Rightarrow> (Fl_write a b c, a))"

subsection \<open>The messages of the prompt\<close>

definition Gt :: cl where
  "Gt = Cl ''{ACCESS_DAYS, plural, =1 {1 day}other {# days}}''"

definition Ht :: cl where
  "Ht = Cl ''{ACCESS_HOURS, plural, =1 {1 hour}other {# hours}}''"

definition one_param :: "string \<Rightarrow> rat \<Rightarrow> params" where
  "one_param n x = (\<lambda>k. if k = n then Num (Fin x) else Undef)"

text \<open>\<open>Dt\<close>: the period of access in words; \<open>h\<close> is \<open>longFormAccessPeriodHours\<close>, and the two formats are the
  state.\<close>

definition Dt :: "rat \<Rightarrow> cl \<times> cl \<Rightarrow> (msg_error + string) \<times> cl \<times> cl" where
  "Dt h g =
     (if 24 = h then (let (r, a) = Fl (fst g) (one_param ''ACCESS_DAYS'' 1) False in (r, a, snd g))
      else if h < 48 then (let (r, a) = Fl (snd g) (one_param ''ACCESS_HOURS'' h) False in (r, fst g, a))
      else (let (r, a) = Fl (fst g) (one_param ''ACCESS_DAYS'' (of_int \<lfloor>h / 24\<rfloor>)) False in (r, a, snd g)))"


subsection \<open>Parsed patterns do not go wrong\<close>

text \<open>A typed block: only the two own fields of its object are not arrays of typed blocks, and the branch
  for other values is there.\<close>

fun typed :: "block \<Rightarrow> bool" and typed_val :: "string \<Rightarrow> bval \<Rightarrow> bool" where
  "typed (B_text t) = True"
| "typed (B_param t) = True"
| "typed (B_select ob) =
     (list_all (\<lambda>(k, v). typed_val k v) ob \<and> (\<exists>bs \<in> set (map snd ob). map_of ob ''other'' = Some bs))"
| "typed (B_plural ob) =
     (list_all (\<lambda>(k, v). typed_val k v) ob \<and> (\<exists>bs \<in> set (map snd ob). map_of ob ''other'' = Some bs))"
| "typed (B_ordinal ob) =
     (list_all (\<lambda>(k, v). typed_val k v) ob \<and> (\<exists>bs \<in> set (map snd ob). map_of ob ''other'' = Some bs))"
| "typed_val k (V_name w) = (k = ''Ng'')"
| "typed_val k (V_off n) = (k = ''$l'')"
| "typed_val k (V_blocks bs) = list_all typed bs"

definition typed_object :: "(string \<times> bval) list \<Rightarrow> bool" where
  "typed_object ob \<longleftrightarrow> list_all (\<lambda>(k, v). typed_val k v) ob \<and> (\<exists>v. map_of ob ''other'' = Some v)"

lemma typed_object [simp]:
  "typed (B_select ob) = typed_object ob" "typed (B_plural ob) = typed_object ob" "typed (B_ordinal ob) = typed_object ob"
  by (auto simp: typed_object_def dest: map_of_SomeD) (force dest: map_of_SomeD)+

declare typed.simps(3-5) [simp del]

lemma list_all_dict_set: "list_all (\<lambda>(k, v). P k v) ob \<Longrightarrow> P k v \<Longrightarrow> list_all (\<lambda>(k, v). P k v) (dict_set k v ob)"
  by (induction ob) auto

lemma each_Inr: "each f xs = Inr ys \<Longrightarrow> y \<in> set ys \<Longrightarrow> \<exists>x \<in> set xs. f x = Inr y"
  by (induction xs arbitrary: ys) (auto split: sum.splits)

lemma options_typed:
  assumes "options H f ob r = Inr o'" "list_all (\<lambda>(k, v). typed_val k v) ob"
    and H: "\<And>u bs. length u < length r \<Longrightarrow> H u = Inr bs \<Longrightarrow> list_all typed bs"
  shows "typed_object o'"
proof -
  obtain qs kvs where qs: "Kl r = Inr qs" and kvs: "each (branch_value H) (branches f qs) = Inr kvs"
    and o': "o' = fold (\<lambda>(k, v). dict_set k v) kvs ob" "\<exists>bs. map_of o' ''other'' = Some bs"
    using assms(1) by (auto simp: options_def Let_def split: sum.splits option.splits bval.splits)
  have "list_all (\<lambda>(k, v). typed_val k v) kvs"
    unfolding list_all_iff
  proof
    fix y assume "y \<in> set kvs"
    then obtain x where "x \<in> set (branches f qs)" "branch_value H x = Inr y"
      using each_Inr [OF kvs] by blast
    then obtain k q where x: "(k, q) \<in> set (branches f qs)" "branch_value H (k, q) = Inr y"
      by (metis surj_pair)
    then obtain u bs where u: "q = Inr u" "H u = Inr bs" "y = (k, V_blocks bs)"
      by (auto simp: branch_value_def split: sum.splits)
    have "length u < length r" using Kl_length(2) [OF qs] branches_block x(1) u(1) by blast
    with H u show "case y of (k, v) \<Rightarrow> typed_val k v" by simp
  qed
  then have "list_all (\<lambda>(k, v). typed_val k v) (fold (\<lambda>(k, v). dict_set k v) kvs ob)"
    using assms(2)
  proof (induction kvs arbitrary: ob)
    case (Cons p kvs)
    then show ?case by (cases p) (simp add: list_all_dict_set)
  qed simp
  then show ?thesis using o' by (simp add: typed_object_def)
qed

lemma piece_typed:
  assumes "piece_block H p = Inr b"
    and H: "\<And>u bs. length u < length (piece_text p) \<Longrightarrow> H u = Inr bs \<Longrightarrow> list_all typed bs"
  shows "typed b"
proof (cases p)
  case (Block v)
  have own: "list_all (\<lambda>(k, v). typed_val k v) [(''Ng'', V_name a)]"
    "list_all (\<lambda>(k, v). typed_val k v) [(''Ng'', V_name a), (''$l'', V_off n)]" for a n
    by simp_all
  have o: "typed_object o'" if "options H f ob r = Inr o'" "length r < length v" "list_all (\<lambda>(k, v). typed_val k v) ob" for f ob r o'
  proof (rule options_typed [OF that(1,3)])
    fix u bs assume "length u < length r" "H u = Inr bs"
    then show "list_all typed bs" using H [of u bs] that(2) by (simp add: Block)
  qed
  show ?thesis
    using assms(1) head_lengths [of v]
    by (auto simp: piece_block_def Block map_sum_Inr split: option.splits if_splits intro!: o own)
qed (use assms(1) in \<open>auto simp: piece_block_def\<close>)

lemma parsed_typed: "Hl a = Inr bs \<Longrightarrow> list_all typed bs"
proof (induction a arbitrary: bs rule: Hl.induct)
  case (1 a)
  then obtain ps where ps: "Kl a = Inr ps" and each: "each (piece_block Hl) ps = Inr bs"
    by (auto simp: Hl.simps [of a] split: sum.splits)
  show ?case
    unfolding list_all_iff
  proof
    fix b assume "b \<in> set bs"
    then obtain p where p: "p \<in> set ps" "piece_block Hl p = Inr b"
      using each_Inr [OF each] by blast
    show "typed b"
    proof (rule piece_typed [OF p(2)])
      fix u cs assume "length u < length (piece_text p)" "Hl u = Inr cs"
      then show "list_all typed cs" by (rule 1(1) [OF ps p(1)])
    qed
  qed
qed

lemma typed_branch:
  assumes "typed_object ob"
  shows "map_of ob k = Some v \<Longrightarrow> typed_val k v"
    "k \<noteq> ''Ng'' \<Longrightarrow> k \<noteq> ''$l'' \<Longrightarrow> map_of ob k = Some v \<Longrightarrow> array_or_fail (Some v) = Inr v"
    "\<exists>v. map_of ob ''other'' = Some v \<and> array_or_fail (Some v) = Inr v"
proof -
  show t: "typed_val k v" if "map_of ob k = Some v" for k v
    using assms map_of_SomeD [OF that] by (auto simp: typed_object_def list_all_iff)
  show a: "array_or_fail (Some v) = Inr v" if "k \<noteq> ''Ng''" "k \<noteq> ''$l''" "map_of ob k = Some v" for k v
    using t [OF that(3)] that(1,2) by (cases v) (simp_all add: array_or_fail_def)
  show "\<exists>v. map_of ob ''other'' = Some v \<and> array_or_fail (Some v) = Inr v"
    using assms a [of "''other''"] by (auto simp: typed_object_def)
qed

lemma select_typed:
  assumes "typed_object ob" "t \<noteq> ''Ng''"
  shows "\<exists>k v. select_branch ob t = Inr v \<and> typed_val k v \<and> k \<noteq> ''Ng''"
  using typed_branch(1) [OF assms(1)] typed_branch(3) [OF assms(1)] assms(2)
  by (cases "map_of ob t") (fastforce simp: select_branch_def)+

lemma plural_typed:
  assumes "typed_object ob" "t \<noteq> ''Ng''" "rule k \<noteq> ''Ng''" "rule k \<noteq> ''$l''"
  shows "plural_branch rule ob t k = Inl Below_offset \<or>
    (\<exists>j v. plural_branch rule ob t k = Inr v \<and> typed_val j v \<and> j \<noteq> ''Ng'')"
proof (cases "map_of ob t")
  case None
  obtain v where v: "map_of ob ''other'' = Some v" "array_or_fail (Some v) = Inr v"
    using typed_branch(3) [OF assms(1)] by blast
  show ?thesis
  proof (cases "map_of ob (rule k)")
    case None
    with \<open>map_of ob t = None\<close> v typed_branch(1) [OF assms(1) v(1)] show ?thesis
      by (auto simp: plural_branch_def)
  next
    case (Some w)
    with None typed_branch(2) [OF assms(1,3,4) Some] typed_branch(1) [OF assms(1) Some] assms(3) show ?thesis
      by (auto simp: plural_branch_def)
  qed
qed (use assms(2) typed_branch(1) [OF assms(1)] in \<open>auto simp: plural_branch_def\<close>)

lemma rule_keys: "xl_rule a \<noteq> ''Ng''" "xl_rule a \<noteq> ''$l''" "vl_rule a \<noteq> ''Ng''" "vl_rule a \<noteq> ''$l''"
  by (simp_all add: xl_rule_def vl_rule_def Let_def)

lemma then_write_Inl: "then_write m f = Inl e \<Longrightarrow> m = Inl e \<or> (\<exists>gc s. m = Inr (gc, s) \<and> f gc = Inl e)"
  by (auto simp: then_write_def split: sum.splits)

lemma typed_errors:
  assumes c: "\<And>n. to_str (c n) \<noteq> ''Ng''"
  shows "Il c d bs gc = Inl e \<Longrightarrow> list_all typed bs \<Longrightarrow> e = Below_offset"
    "Il_one c d b gc = Inl e \<Longrightarrow> typed b \<Longrightarrow> e = Below_offset"
    "Jl c d rule ob gc = Inl e \<Longrightarrow> typed_object ob \<Longrightarrow> (\<And>k. rule k \<noteq> ''Ng'' \<and> rule k \<noteq> ''$l'') \<Longrightarrow> e = Below_offset"
    "Il_val c d v gc = Inl e \<Longrightarrow> typed_val j v \<Longrightarrow> j \<noteq> ''Ng'' \<Longrightarrow> e = Below_offset"
  using c
proof (induction c d bs gc and c d b gc and c d rule ob gc and c d v gc arbitrary: e and e and e and e j
    rule: Il_Il_one_Jl_Il_val.induct)
  case (2 c d b bs gc)
  from then_write_Inl [OF "2.prems"(1) [unfolded Il.simps]] show ?case
    using "2.IH" "2.prems"(2,3) by fastforce
next
  case (5 c d ob gc)
  let ?t = "to_str (c (name_of ob))"
  obtain k v where v: "select_branch ob ?t = Inr v" "typed_val k v" "k \<noteq> ''Ng''"
    using select_typed [of ob ?t] 5 by auto
  with "5.prems"(1) have "c (name_of ob) \<noteq> Undef" "Il_val c d v gc = Inl e" by (auto split: if_splits)
  then show ?case using "5.IH" v "5.prems"(3) by blast
next
  case (8 c d rule ob gc)
  let ?t = "to_str (c (name_of ob))" and ?k = "minus_offset ob (to_num (c (name_of ob)))"
  have n: "to_num (c (name_of ob)) \<noteq> NaN" using "8.prems"(1) by (auto simp: Jl.simps Let_def)
  from plural_typed [of ob ?t rule ?k] 8 consider "plural_branch rule ob ?t ?k = Inl Below_offset"
    | j v where "plural_branch rule ob ?t ?k = Inr v" "typed_val j v" "j \<noteq> ''Ng''" by blast
  then show ?case
  proof cases
    case 1
    with "8.prems"(1) n show ?thesis by (simp add: Jl.simps Let_def)
  next
    case (2 j v)
    with "8.prems"(1) n have "Il_val c d v gc = Inl e"
      by (cases "Il_val c d v gc") (simp_all add: Jl.simps Let_def write_number_def)
    then show ?thesis using "8.IH" [OF refl refl n] 2 "8.prems"(4) by blast
  qed
qed (auto simp: rule_keys split: if_splits)


text \<open>C38. A pattern that parses is well typed: every choice has an array of blocks for other values. The
  object keeps its blocks, so later calls of \<open>format\<close> see the same message, and formatting fails only where
  the script asserts something of the arguments: a number below the offset without a branch of its own, or
  a \<open>#\<close> outside a plural block when numbers are to be put in. (A parameter with the text \<open>Ng\<close> would select
  the field of that name.)\<close>

theorem message_typed:
  assumes "Fl_parse (Cl p) = (None, a)" and c: "\<And>n. to_str (c n) \<noteq> ''Ng''"
  shows "(case cl_hi a of None \<Rightarrow> p = [] | Some bs \<Rightarrow> list_all typed bs) \<and>
    Fl (Cl p) c d = Fl a c d \<and> snd (Fl a c d) = a \<and>
    (case fst (Fl a c d) of Inr t \<Rightarrow> True | Inl e \<Rightarrow> e = Below_offset \<or> e = Hash_left \<and> \<not> d)"
proof (cases "p = []")
  case True
  with assms(1) have "a = Cl p" by (simp add: Fl_parse_def Cl_def)
  then show ?thesis using True by (simp add: Fl_def Fl_parse_def Fl_write_def Cl_def)
next
  case False
  with assms(1) obtain bs ek where bs: "Hl (fst (Gl p)) = Inr bs" and
    a: "a = \<lparr>cl_ii = None, cl_ek = ek, cl_hi = Some bs\<rparr>"
    by (auto simp: Fl_parse_def Cl_def split: prod.splits sum.splits)
  have w: "e = Below_offset \<or> e = Hash_left \<and> \<not> d" if "Fl_write a c d = Inl e" for e
    using that typed_errors(1) [OF c _ parsed_typed [OF bs]]
    by (auto simp: Fl_write_def a split: if_splits sum.splits)
  have "Fl_parse a = (None, a)" by (simp add: Fl_parse_def a)
  then show ?thesis using assms(1) parsed_typed [OF bs] w by (simp add: Fl_def a split: sum.split)
qed

theorem message_typed_witness:
  "snd (Fl (snd (Fl_parse Gt)) (one_param ''ACCESS_DAYS'' 3) False) = snd (Fl_parse Gt)"
proof -
  have "Fl_parse Gt = (None, snd (Fl_parse Gt))" by code_simp
  moreover have "to_str (one_param ''ACCESS_DAYS'' 3 n) \<noteq> ''Ng''" for n
  proof -
    have "to_str (Num (Fin 3)) \<noteq> ''Ng''" "to_str Undef \<noteq> ''Ng''" by code_simp+
    then show ?thesis by (simp add: one_param_def)
  qed
  ultimately show ?thesis
    using message_typed [of "''{ACCESS_DAYS, plural, =1 {1 day}other {# days}}''" "snd (Fl_parse Gt)" "one_param ''ACCESS_DAYS'' 3" False]
    by (simp add: Gt_def)
qed

subsection \<open>Messages\<close>

text \<open>An abstract message: texts, parameters, the number of the enclosing plural block, and choices with
  their branches and the branch for other values. \<open>show_all\<close> writes its pattern.\<close>

datatype msg =
  M_text string
| M_arg string
| M_hash
| M_select string "(string \<times> msg list) list" "msg list"
| M_plural bool string nat "(string \<times> msg list) list" "msg list"

definition show_head :: "string \<Rightarrow> string \<Rightarrow> string" where
  "show_head n kw = n @ '', '' @ kw @ '',''"

definition show_offset :: "nat \<Rightarrow> string" where
  "show_offset off = (if off = 0 then [] else '' offset:'' @ show_nat off)"

definition show_key :: "bool \<Rightarrow> string \<Rightarrow> string" where
  "show_key num k = (if num \<and> list_all is_digit k then '' ='' @ k @ '' '' else '' '' @ k @ '' '')"

fun show_msg :: "msg \<Rightarrow> string" and show_all :: "msg list \<Rightarrow> string"
  and show_options :: "bool \<Rightarrow> (string \<times> msg list) list \<Rightarrow> string" where
  "show_msg (M_text t) = t"
| "show_msg (M_arg n) = ''{'' @ n @ ''}''"
| "show_msg M_hash = ''#''"
| "show_msg (M_select n os d) =
     ''{'' @ show_head n ''select'' @ show_options False os @ show_key False ''other'' @ ''{'' @ show_all d @ ''}}''"
| "show_msg (M_plural ord n off os d) =
     ''{'' @ show_head n (if ord then ''selectordinal'' else ''plural'') @ (if ord then [] else show_offset off) @
     show_options True os @ show_key True ''other'' @ ''{'' @ show_all d @ ''}}''"
| "show_all [] = []"
| "show_all (m # ms) = show_msg m @ show_all ms"
| "show_options num [] = []"
| "show_options num ((k, ms) # os) = show_key num k @ ''{'' @ show_all ms @ ''}'' @ show_options num os"

text \<open>What a message means, with the values put in directly; \<open>None\<close> is a number below the offset.\<close>

definition append_opt :: "string option \<Rightarrow> string option \<Rightarrow> string option" where
  "append_opt a b = (case (a, b) of (Some s, Some t) \<Rightarrow> Some (s @ t) | _ \<Rightarrow> None)"

definition undefined_text :: "string \<Rightarrow> string" where
  "undefined_text n = ''Undefined parameter - '' @ n"

definition number_branch ::
  "bool \<Rightarrow> jsnum \<Rightarrow> string \<Rightarrow> (string \<times> 'a) list \<Rightarrow> 'a \<Rightarrow> 'a option" where
  "number_branch ord k t os d =
     (case map_of (os @ [(''other'', d)]) t of
        Some ms \<Rightarrow> Some ms
      | None \<Rightarrow>
          if not_negative k then
            Some (case map_of os (if ord then vl_rule k else xl_rule k) of Some ms \<Rightarrow> ms | None \<Rightarrow> d)
          else None)"

definition offset_value :: "jsnum \<Rightarrow> nat \<Rightarrow> jsnum" where
  "offset_value l off = (case l of Fin x \<Rightarrow> Fin (x - of_nat off) | _ \<Rightarrow> l)"

lemma number_branch_in: "number_branch ord k t os d = Some ms \<Longrightarrow> ms = d \<or> (\<exists>j. (j, ms) \<in> set os)"
  by (auto simp: number_branch_def map_add_def dest: map_of_SomeD split: option.splits if_splits)

lemma options_size: "(k, ms) \<in> set os \<Longrightarrow> size_list size ms < Suc (size_list (size_prod (\<lambda>_. 0) (size_list size)) os)"
  by (induction os) auto

function meaning :: "params \<Rightarrow> jsnum \<Rightarrow> msg \<Rightarrow> string option"
  and meaning_all :: "params \<Rightarrow> jsnum \<Rightarrow> msg list \<Rightarrow> string option" where
  "meaning c k (M_text t) = Some t"
| "meaning c k (M_arg n) = Some (if c n = Undef then undefined_text n else to_str (c n))"
| "meaning c k M_hash = Some (number_text k)"
| "meaning c k (M_select n os d) =
     (if c n = Undef then Some (undefined_text n)
      else case map_of os (to_str (c n)) of Some ms \<Rightarrow> meaning_all c k ms | None \<Rightarrow> meaning_all c k d)"
| "meaning c k (M_plural ord n off os d) =
     (let l = to_num (c n); j = offset_value l (if ord then 0 else off)
      in if l = NaN then Some (''Undefined or invalid parameter - '' @ n)
         else case number_branch ord j (to_str (c n)) os d of
           None \<Rightarrow> None
         | Some ms \<Rightarrow> meaning_all c j ms)"
| "meaning_all c k [] = Some []"
| "meaning_all c k (m # ms) = append_opt (meaning c k m) (meaning_all c k ms)"
  by pat_completeness auto
termination
  by (relation "measure (\<lambda>x. case x of Inl (c, k, m) \<Rightarrow> 2 * size m | Inr (c, k, ms) \<Rightarrow> 2 * size_list size ms + 1)")
    (auto dest!: map_of_SomeD number_branch_in options_size)


text \<open>Messages whose pattern can be read: parameters and keys are words, no two branches have the same key,
  and texts are free of braces, apostrophes, \<open>#\<close> and slots.\<close>

definition plain_text :: "string \<Rightarrow> bool" where
  "plain_text t \<longleftrightarrow> set t \<inter> {CHR ''{'', CHR ''}'', CHR ''#'', CHR 0x27, slot_mark} = {}"

definition word :: "string \<Rightarrow> bool" where
  "word n \<longleftrightarrow> n \<noteq> [] \<and> list_all is_word n"

fun wf_msg :: "msg \<Rightarrow> bool" and wf_all :: "msg list \<Rightarrow> bool" and wf_options :: "(string \<times> msg list) list \<Rightarrow> bool" where
  "wf_msg (M_text t) = plain_text t"
| "wf_msg (M_arg n) = word n"
| "wf_msg M_hash = True"
| "wf_msg (M_select n os d) = (word n \<and> distinct (map fst os) \<and> wf_options os \<and> wf_all d)"
| "wf_msg (M_plural ord n off os d) = (word n \<and> distinct (map fst os) \<and> wf_options os \<and> wf_all d)"
| "wf_all [] = True"
| "wf_all (m # ms) = (wf_msg m \<and> wf_all ms)"
| "wf_options [] = True"
| "wf_options ((k, ms) # os) = (word k \<and> k \<noteq> ''other'' \<and> k \<noteq> ''Ng'' \<and> wf_all ms \<and> wf_options os)"

text \<open>What is between the outer braces of a pattern, and the blocks it is parsed to.\<close>

fun inner :: "msg \<Rightarrow> string" where
  "inner (M_arg n) = n"
| "inner (M_select n os d) =
     show_head n ''select'' @ show_options False os @ show_key False ''other'' @ ''{'' @ show_all d @ ''}''"
| "inner (M_plural ord n off os d) =
     show_head n (if ord then ''selectordinal'' else ''plural'') @ (if ord then [] else show_offset off) @
     show_options True os @ show_key True ''other'' @ ''{'' @ show_all d @ ''}''"
| "inner m = []"

fun is_block :: "msg \<Rightarrow> bool" where
  "is_block (M_text t) = False"
| "is_block M_hash = False"
| "is_block m = True"

fun pieces :: "string \<Rightarrow> msg list \<Rightarrow> piece list" where
  "pieces t [] = outside t"
| "pieces t (m # ms) =
     (if is_block m then outside t @ Block (inner m) # pieces [] ms else pieces (t @ show_msg m) ms)"

fun block_of :: "msg \<Rightarrow> block" and blocks :: "string \<Rightarrow> msg list \<Rightarrow> block list"
  and object_of :: "(string \<times> msg list) list \<Rightarrow> (string \<times> bval) list" where
  "block_of (M_text t) = B_text t"
| "block_of (M_arg n) = B_param n"
| "block_of M_hash = B_text ''#''"
| "block_of (M_select n os d) = B_select ((''Ng'', V_name n) # object_of os @ [(''other'', V_blocks (blocks [] d))])"
| "block_of (M_plural ord n off os d) =
     (if ord then B_ordinal else B_plural)
       ((''Ng'', V_name n) # (''$l'', V_off (if ord then 0 else off)) # object_of os @ [(''other'', V_blocks (blocks [] d))])"
| "blocks t [] = (if t = [] then [] else [B_text t])"
| "blocks t (m # ms) =
     (if is_block m then (if t = [] then [] else [B_text t]) @ block_of m # blocks [] ms
      else blocks (t @ show_msg m) ms)"
| "object_of [] = []"
| "object_of ((k, ms) # os) = (k, V_blocks (blocks [] ms)) # object_of os"

subsubsection \<open>Splitting the pattern of a message\<close>

definition bal :: "string \<Rightarrow> bool" where
  "bal x \<longleftrightarrow> (\<forall>n t s. Kl_loop (Suc n) t (x @ s) = Kl_loop (Suc n) (t @ x) s)"

definition no_braces :: "string \<Rightarrow> bool" where
  "no_braces x \<longleftrightarrow> CHR ''{'' \<notin> set x \<and> CHR ''}'' \<notin> set x"

lemma Kl_plain: "no_braces x \<Longrightarrow> Kl_loop n t (x @ s) = Kl_loop n (t @ x) s"
  by (induction x arbitrary: t) (auto simp: no_braces_def)

lemma bal_plain: "no_braces x \<Longrightarrow> bal x"
  by (simp add: bal_def Kl_plain)

lemma bal_append: "bal x \<Longrightarrow> bal y \<Longrightarrow> bal (x @ y)"
  by (simp add: bal_def)

lemma bal_block: "bal x \<Longrightarrow> bal (''{'' @ x @ ''}'')"
  by (simp add: bal_def)

lemma bal_block_append: "bal x \<Longrightarrow> bal y \<Longrightarrow> bal (''{'' @ x @ ''}'' @ y)"
  by (simp add: bal_def)

lemma Kl_block:
  "bal x \<Longrightarrow> Kl_loop 0 t (''{'' @ x @ ''}'' @ s) = map_sum id (\<lambda>ps. outside t @ Block x # ps) (Kl_loop 0 [] s)"
  by (cases "Kl_loop 0 [] s") (simp_all add: bal_def)

lemma word_char: "is_word c \<Longrightarrow> \<not> is_space c \<and> c \<notin> set ''{}#,=:$'' \<and> c \<noteq> CHR 0x27 \<and> c \<noteq> slot_mark"
  by (auto simp: is_word_def is_digit_def is_upper_def is_lower_def is_space_def slot_mark_def Let_def)

lemma word_set: "word n \<Longrightarrow> c \<in> set n \<Longrightarrow> is_word c"
  by (simp add: word_def list_all_iff)

lemma no_braces_append [simp]: "no_braces (x @ y) \<longleftrightarrow> no_braces x \<and> no_braces y"
  by (auto simp: no_braces_def)

lemma word_no_braces: "word n \<Longrightarrow> no_braces n"
  using word_set [of n] word_char by (fastforce simp: no_braces_def)

lemma digits_word: "word (show_nat n)"
  using show_nat_digits [of n] by (auto simp: word_def list_all_iff is_word_def)

lemma no_braces_parts:
  "word n \<Longrightarrow> no_braces (show_head n ''select'')" "word n \<Longrightarrow> no_braces (show_head n ''plural'')"
  "word n \<Longrightarrow> no_braces (show_head n ''selectordinal'')" "no_braces (show_offset off)"
  "word k \<Longrightarrow> no_braces (show_key num k)" "plain_text t \<Longrightarrow> no_braces t" "no_braces ''#''"
  using word_no_braces digits_word
  by (auto simp: show_head_def show_offset_def show_key_def plain_text_def) (auto simp: no_braces_def)

lemma word_other: "word ''other''"
  by code_simp

lemma bal_options:
  "no_braces a \<Longrightarrow> bal b \<Longrightarrow> no_braces k \<Longrightarrow> bal x \<Longrightarrow> bal (a @ b @ k @ ''{'' @ x @ ''}'')"
  by (intro bal_append [OF bal_plain] bal_append [of b] bal_append [of "''{'' @ x @ ''}''", simplified] bal_block)

lemma show_block: "is_block m \<Longrightarrow> show_msg m = ''{'' @ inner m @ ''}''"
  by (cases m) auto

lemma block_balanced:
  assumes "wf_msg m" "\<And>n os d. m = M_select n os d \<Longrightarrow> bal (show_options False os) \<and> bal (show_all d)"
    "\<And>ord n off os d. m = M_plural ord n off os d \<Longrightarrow> bal (show_options True os) \<and> bal (show_all d)"
  shows "bal (inner m)" "is_block m \<Longrightarrow> bal (show_msg m)"
proof -
  show i: "bal (inner m)"
  proof (cases m)
    case (M_select n os d)
    then show ?thesis
      using bal_options [OF no_braces_parts(1) _ no_braces_parts(5) [OF word_other]] assms(1,2) by simp
  next
    case (M_plural ord n off os d)
    define a where "a = show_head n (if ord then ''selectordinal'' else ''plural'') @ (if ord then [] else show_offset off)"
    have "no_braces a" using assms(1) no_braces_parts by (simp add: a_def M_plural) (simp add: no_braces_def)
    then show ?thesis
      using bal_options [OF _ _ no_braces_parts(5) [OF word_other], of a] assms(3) [OF M_plural]
      by (simp add: M_plural a_def)
  qed (use assms(1) in \<open>auto intro!: bal_plain simp: word_no_braces no_braces_def [of "[]"]\<close>)
  show "bal (show_msg m)" if "is_block m"
    using bal_block [OF i] by (simp add: show_block [OF that])
qed

lemma show_balanced:
  "wf_msg m \<Longrightarrow> bal (show_msg m)" "wf_all ms \<Longrightarrow> bal (show_all ms)" "wf_options os \<Longrightarrow> bal (show_options num os)"
proof (induction m and ms and num os rule: show_msg_show_all_show_options.induct)
  case (4 n os d)
  then show ?case by (intro block_balanced(2)) auto
next
  case (5 ord n off os d)
  then show ?case by (intro block_balanced(2)) auto
next
  case (2 n)
  then show ?case using bal_block [OF bal_plain [OF word_no_braces]] by simp
next
  case (9 num k ms os)
  then have "bal (show_key num k @ ''{'' @ show_all ms @ ''}'' @ show_options num os)"
    by (intro bal_append [OF bal_plain] bal_block_append no_braces_parts) simp_all
  then show ?case by simp
qed (auto simp: no_braces_parts bal_append intro: bal_plain, simp_all add: bal_def)

lemma inner_balanced: "wf_msg m \<Longrightarrow> bal (inner m)"
  by (rule block_balanced(1)) (auto intro: show_balanced)

lemma Kl_message: "wf_all ms \<Longrightarrow> Kl_loop 0 t (show_all ms) = Inr (pieces t ms)"
proof (induction ms arbitrary: t)
  case (Cons m ms)
  then have m: "wf_msg m" and IH: "\<And>t. Kl_loop 0 t (show_all ms) = Inr (pieces t ms)" by simp_all
  show ?case
  proof (cases "is_block m")
    case True
    have "Kl_loop 0 t (show_all (m # ms)) = Kl_loop 0 t (''{'' @ inner m @ ''}'' @ show_all ms)"
      by (simp add: show_block [OF True])
    then show ?thesis
      by (simp only: Kl_block [OF inner_balanced [OF m]] IH pieces.simps True map_sum.simps if_True)
  next
    case False
    then have "no_braces (show_msg m)" using m by (cases m) (simp_all add: no_braces_parts)
    then show ?thesis by (simp only: show_all.simps Kl_plain IH pieces.simps False if_False)
  qed
qed simp

definition option_pieces :: "bool \<Rightarrow> (string \<times> msg list) list \<Rightarrow> piece list" where
  "option_pieces num os = concat (map (\<lambda>(k, ms). [Outside (show_key num k), Block (show_all ms)]) os)"

lemma show_key_not_Nil: "show_key num k \<noteq> []"
  by (simp add: show_key_def)

lemma Kl_option:
  "word k \<Longrightarrow> wf_all ms \<Longrightarrow>
    Kl_loop 0 [] (show_key num k @ ''{'' @ show_all ms @ ''}'' @ s) =
      map_sum id (\<lambda>ps. Outside (show_key num k) # Block (show_all ms) # ps) (Kl_loop 0 [] s)"
  unfolding Kl_plain [OF no_braces_parts(5)] Kl_block [OF show_balanced(2)]
  by (simp add: outside_def show_key_not_Nil)

lemma Kl_options:
  "wf_options os \<Longrightarrow> wf_all d \<Longrightarrow>
    Kl (show_options num os @ show_key num ''other'' @ ''{'' @ show_all d @ ''}'') =
      Inr (option_pieces num os @ [Outside (show_key num ''other''), Block (show_all d)])"
proof (induction os)
  case Nil
  then show ?case using Kl_option [OF word_other, of d num "[]"] by (simp add: Kl_def option_pieces_def outside_def)
next
  case (Cons p os)
  obtain k ms where p: "p = (k, ms)" by force
  with Cons have "wf_all ms" "word k" "wf_options os" by simp_all
  then show ?case
    using Cons.IH Cons.prems(2) Kl_option [of k ms num "show_options num os @ show_key num ''other'' @ ''{'' @ show_all d @ ''}''"]
    by (simp add: p Kl_def option_pieces_def)
qed

subsubsection \<open>Heads and keys\<close>

lemma not_space_chars: "\<not> is_space CHR '',''" "\<not> is_space CHR ''s''" "\<not> is_space CHR ''p''" "is_space CHR '' ''"
  "\<not> is_word CHR '',''" "\<not> is_word CHR '' ''" "\<not> is_space CHR ''o''" "\<not> is_space CHR ''=''" "\<not> is_word CHR ''=''"
  "\<not> is_digit CHR '' ''" "\<not> is_word CHR '':''"
  by code_simp+

lemma word_parts:
  assumes "word n" "\<not> is_word c"
  shows "dropWhile is_space (n @ c # r) = n @ c # r" "takeWhile is_word (n @ c # r) = n"
    "dropWhile is_word (n @ c # r) = c # r"
proof -
  obtain x m where n: "n = x # m" using assms(1) by (cases n) (auto simp: word_def)
  then have "\<not> is_space x" using assms(1) word_char by (simp add: word_def)
  then show "dropWhile is_space (n @ c # r) = n @ c # r" by (simp add: n)
  show "takeWhile is_word (n @ c # r) = n" "dropWhile is_word (n @ c # r) = c # r"
    using assms by (simp_all add: word_def list_all_iff takeWhile_append dropWhile_append)
qed

lemma head_read:
  assumes "word n" "kw = s # kw'" "\<not> is_space s"
  shows "arg_head k (show_head n kw @ r) =
    (if starts_with (kw @ '','' @ r) k
     then let t = dropWhile is_space (drop (length k) (kw @ '','' @ r)) in if starts_with t '','' then Some (n, tl t) else None
     else None)"
proof -
  have "show_head n kw @ r = n @ CHR '','' # '' '' @ kw @ '','' @ r" by (simp add: show_head_def)
  then show ?thesis
    unfolding arg_head_def using assms not_space_chars
    by (simp add: word_parts Let_def word_def starts_with_def)
qed

lemma heads:
  assumes "word n"
  shows "Ll (show_head n ''plural'' @ r) = Some (n, offset_of r)"
    "Ll (show_head n ''selectordinal'' @ r) = None" "Ml (show_head n ''selectordinal'' @ r) = Some (n, r)"
    "Ll (show_head n ''select'' @ r) = None" "Ml (show_head n ''select'' @ r) = None"
    "Nl (show_head n ''select'' @ r) = Some (n, r)"
  unfolding Ll_def Ml_def Nl_def
  using head_read [OF assms refl not_space_chars(2)] head_read [OF assms refl not_space_chars(3)] not_space_chars
  by (simp_all add: starts_with_def)

lemma param_heads: "word n \<Longrightarrow> Ll n = None" "word n \<Longrightarrow> Ml n = None" "word n \<Longrightarrow> Nl n = None"
    "word n \<Longrightarrow> takeWhile is_word (dropWhile is_space n) \<noteq> []"
proof -
  assume n: "word n"
  then obtain x m where x: "n = x # m" "is_word x" by (cases n) (auto simp: word_def)
  then have s: "dropWhile is_space n = n" using word_char by simp
  have d: "dropWhile is_word n = []" using n by (simp add: word_def list_all_iff)
  have "arg_head k n = None" for k by (simp add: arg_head_def Let_def s d starts_with_def)
  then show "Ll n = None" "Ml n = None" "Nl n = None" by (simp_all add: Ll_def Ml_def Nl_def)
  show "takeWhile is_word (dropWhile is_space n) \<noteq> []" by (simp add: s) (simp add: x)
qed

lemma select_key_read: "word k \<Longrightarrow> select_key (show_key False k) = k"
proof -
  assume "word k"
  then have "filter (\<lambda>c. \<not> is_space c) k = k" using word_set word_char by (intro filter_True) blast
  then show ?thesis by (simp add: select_key_def show_key_def not_space_chars)
qed

lemma plural_key_read: "word k \<Longrightarrow> plural_key (show_key True k) = k"
proof -
  assume k: "word k"
  then obtain x m where x: "k = x # m" "is_word x" by (cases k) (auto simp: word_def)
  have n: "\<not> starts_with (k @ s) ''=''" for s using x not_space_chars by (auto simp: starts_with_def)
  have w: "takeWhile is_word (k @ '' '') = k" "dropWhile is_word (k @ '' '') = '' ''"
    "dropWhile is_space (k @ '' '') = k @ '' ''"
    using word_parts [OF k not_space_chars(6), of "[]"] by simp_all
  have "key_match (show_key True k) = Some k"
    unfolding key_match_def show_key_def Let_def using w n k
    by (simp add: not_space_chars word_def) (simp add: starts_with_def)
  then show ?thesis by (cases "show_key True k") (simp_all add: show_key_not_Nil)
qed


lemma word_no_offset: "word k \<Longrightarrow> \<not> starts_with (k @ '' '' @ z) ''offset:''"
proof
  assume k: "word k" and s: "starts_with (k @ '' '' @ z) ''offset:''"
  then obtain y where y: "k @ '' '' @ z = ''offset:'' @ y"
    by (metis append_take_drop_id starts_with_def)
  have "takeWhile (\<lambda>c. c \<noteq> CHR '' '') (k @ '' '' @ z) = k"
    using word_set [OF k] not_space_chars by (auto simp: takeWhile_append)
  moreover have "takeWhile (\<lambda>c. c \<noteq> CHR '' '') (''offset:'' @ y) = ''offset:'' @ takeWhile (\<lambda>c. c \<noteq> CHR '' '') y"
    by simp
  ultimately have "CHR '':'' \<in> set k" unfolding y by (metis UnI1 list.set_intros(1,2) set_append)
  then show False using word_set [OF k] not_space_chars by blast
qed

lemma offset_none: "word k \<Longrightarrow> offset_of (show_key True k @ z) = (0, show_key True k @ z)"
proof -
  assume k: "word k"
  then obtain x m where x: "k = x # m" "is_word x" by (cases k) (auto simp: word_def)
  have d: "dropWhile is_space ('' '' @ k @ r) = k @ r" "dropWhile is_space ('' ='' @ r) = ''='' @ r" for r
    using x word_char not_space_chars by simp_all
  have "\<not> starts_with (dropWhile is_space (show_key True k @ z)) ''offset:''"
  proof (cases "list_all is_digit k")
    case True
    then show ?thesis using d(2) [of "k @ '' '' @ z"] by (simp add: show_key_def starts_with_def)
  next
    case False
    then have "show_key True k @ z = '' '' @ k @ '' '' @ z" by (simp add: show_key_def)
    then show ?thesis using d(1) [of "'' '' @ z"] word_no_offset [OF k, of z] by simp
  qed
  then show ?thesis by (simp add: offset_of_def Let_def)
qed

lemma offset_read: "word k \<Longrightarrow> offset_of (show_offset off @ show_key True k @ z) = (off, show_key True k @ z)"
proof (cases "off = 0")
  case True
  assume "word k"
  then show ?thesis using True offset_none by (simp add: show_offset_def)
next
  case False
  obtain r where r: "show_key True k @ z = CHR '' '' # r"
    by (cases "list_all is_digit k") (simp_all add: show_key_def)
  have "dropWhile is_space ('' offset:'' @ u) = ''offset:'' @ u" for u using not_space_chars by simp
  then have "dropWhile is_space (show_offset off @ show_key True k @ z) = ''offset:'' @ show_nat off @ CHR '' '' # r"
    using False by (simp add: show_offset_def r)
  moreover have "takeWhile is_digit (show_nat off @ CHR '' '' # r) = show_nat off"
    "dropWhile is_digit (show_nat off @ CHR '' '' # r) = CHR '' '' # r"
    using show_nat_digits [of off] not_space_chars by (simp_all add: list_all_iff takeWhile_append dropWhile_append)
  ultimately show ?thesis by (simp add: offset_of_def Let_def r starts_with_def)
qed

lemma offset_message:
  "wf_options os \<Longrightarrow> offset_of (show_offset off @ show_options True os @ show_key True ''other'' @ z) =
    (off, show_options True os @ show_key True ''other'' @ z)"
proof (cases os)
  case Nil
  then show ?thesis using offset_read [OF word_other] by simp
next
  case (Cons p os')
  assume "wf_options os"
  with Cons show ?thesis using offset_read [of "fst p"] by (cases p) simp
qed

subsubsection \<open>The blocks of a message\<close>

lemma object_of_map: "object_of os = map (\<lambda>(k, ms). (k, V_blocks (blocks [] ms))) os"
  by (induction os) auto

lemma branches_message:
  assumes "\<And>k. word k \<Longrightarrow> f (show_key num k) = k" "wf_options os"
  shows "branches f (option_pieces num os @ [Outside (show_key num ''other''), Block t]) =
    map (\<lambda>(k, ms). (k, Inr (show_all ms))) os @ [(''other'', Inr t)]"
  using assms(2) by (induction os) (auto simp: option_pieces_def assms(1) word_other)

lemma each_append:
  "each f xs = Inr ys \<Longrightarrow> each f zs = Inr ws \<Longrightarrow> each f (xs @ zs) = Inr (ys @ ws)"
  by (induction xs arbitrary: ys) (auto split: sum.splits)

lemma each_map: "(\<And>x. x \<in> set xs \<Longrightarrow> f (g x) = Inr (h x)) \<Longrightarrow> each f (map g xs) = Inr (map h xs)"
  by (induction xs) auto

lemma dict_set_new: "k \<notin> fst ` set ob \<Longrightarrow> dict_set k v ob = ob @ [(k, v)]"
  by (induction ob) auto

lemma fold_dict_set_new:
  "distinct (map fst kvs) \<Longrightarrow> fst ` set kvs \<inter> fst ` set ob = {} \<Longrightarrow> fold (\<lambda>(k, v). dict_set k v) kvs ob = ob @ kvs"
proof (induction kvs arbitrary: ob)
  case (Cons p kvs)
  obtain k v where p: "p = (k, v)" by force
  have "dict_set k v ob = ob @ [(k, v)]" using Cons.prems by (intro dict_set_new) (auto simp: p)
  moreover have "fold (\<lambda>(k, v). dict_set k v) kvs (ob @ [(k, v)]) = (ob @ [(k, v)]) @ kvs"
    using Cons.prems by (intro Cons.IH) (auto simp: p)
  ultimately show ?case by (simp add: p)
qed simp

lemma wf_options_keys: "wf_options os \<Longrightarrow> (k, ms) \<in> set os \<Longrightarrow> word k \<and> k \<noteq> ''other'' \<and> k \<noteq> ''Ng'' \<and> wf_all ms"
  by (induction os) auto

lemma options_message:
  assumes f: "\<And>k. word k \<Longrightarrow> f (show_key num k) = k"
    and wf: "wf_options os" "wf_all d" "distinct (map fst os)"
    and H: "\<And>k ms. (k, ms) \<in> set os \<Longrightarrow> H (show_all ms) = Inr (blocks [] ms)" "H (show_all d) = Inr (blocks [] d)"
    and ob: "fst ` set ob \<subseteq> {''Ng'', ''$l''}"
  shows "options H f ob (show_options num os @ show_key num ''other'' @ ''{'' @ show_all d @ ''}'') =
    Inr (ob @ object_of os @ [(''other'', V_blocks (blocks [] d))])"
proof -
  let ?new = "object_of os @ [(''other'', V_blocks (blocks [] d))]"
  have "each (branch_value H) (map (\<lambda>(k, ms). (k, Inr (show_all ms))) os) = Inr (object_of os)"
    unfolding object_of_map using H(1) by (intro each_map) (auto simp: branch_value_def)
  moreover have "each (branch_value H) [(''other'', Inr (show_all d))] = Inr [(''other'', V_blocks (blocks [] d))]"
    by (simp add: branch_value_def H(2))
  ultimately have e: "each (branch_value H) (map (\<lambda>(k, ms). (k, Inr (show_all ms))) os @ [(''other'', Inr (show_all d))]) = Inr ?new"
    by (rule each_append)
  have keys: "map fst (object_of os) = map fst os" by (induction os) auto
  have no: "k \<noteq> ''other''" "k \<noteq> ''Ng''" "k \<noteq> ''$l''" if k: "k \<in> set (map fst os)" for k
  proof -
    from k obtain ms where "(k, ms) \<in> set os" by auto
    then have w: "word k" "k \<noteq> ''other''" "k \<noteq> ''Ng''" using wf_options_keys [OF wf(1)] by blast+
    then show "k \<noteq> ''other''" "k \<noteq> ''Ng''" by simp_all
    show "k \<noteq> ''$l''"
    proof
      assume "k = ''$l''"
      then have "is_word CHR ''$''" using word_set [OF w(1), of "CHR ''$''"] by simp
      then show False by code_simp
    qed
  qed
  have fst: "fst ` set (object_of os) = set (map fst os)" by (metis keys list.set_map)
  have dist: "distinct (map fst ?new)" using wf(3) no(1) by (auto simp: keys)
  have "fst ` set ?new \<subseteq> insert ''other'' (set (map fst os))" using fst by auto
  moreover have "set (map fst os) \<inter> {''Ng'', ''$l''} = {}" using no(2,3) by blast
  then have "insert ''other'' (set (map fst os)) \<inter> {''Ng'', ''$l''} = {}" by simp
  ultimately have "fst ` set ?new \<inter> fst ` set ob = {}" using ob by (meson disjoint_iff subsetD)
  then have fold: "fold (\<lambda>(k, v). dict_set k v) ?new ob = ob @ ?new" by (rule fold_dict_set_new [OF dist])
  have "map_of (ob @ ?new) ''other'' = Some (V_blocks (blocks [] d))"
  proof -
    have "map_of ob ''other'' = None" using ob by (auto simp: map_of_eq_None_iff)
    moreover have "map_of (object_of os) ''other'' = None"
      using no(1) by (auto simp: map_of_eq_None_iff fst)
    ultimately show ?thesis by (simp add: map_add_def)
  qed
  moreover have b: "branches f (option_pieces num os @ [Outside (show_key num ''other''), Block (show_all d)]) =
      map (\<lambda>(k, ms). (k, Inr (show_all ms))) os @ [(''other'', Inr (show_all d))]"
    using f wf(1) by (rule branches_message)
  ultimately show ?thesis
    unfolding options_def Kl_options [OF wf(1,2)] sum.case b e Let_def fold by simp
qed

lemma Hl_message:
  "wf_msg m \<Longrightarrow> is_block m \<Longrightarrow> piece_block Hl (Block (inner m)) = Inr (block_of m)"
  "wf_all ms \<Longrightarrow> each (piece_block Hl) (pieces t ms) = Inr (blocks t ms)"
  "wf_options os \<Longrightarrow> \<forall>(k, ms) \<in> set os. Hl (show_all ms) = Inr (blocks [] ms)"
proof (induction m and t ms and os rule: block_of_blocks_object_of.induct)
  case (4 n os d)
  have d: "Hl (show_all d) = Inr (blocks [] d)"
    using 4 by (simp add: Hl.simps [of "show_all d"] Kl_def Kl_message)
  have "options Hl select_key [(''Ng'', V_name n)] (show_options False os @ show_key False ''other'' @ ''{'' @ show_all d @ ''}'') =
      Inr ([(''Ng'', V_name n)] @ object_of os @ [(''other'', V_blocks (blocks [] d))])"
    using 4 d by (intro options_message select_key_read) auto
  then show ?case using 4 by (simp add: piece_block_def heads)
next
  case (5 ord n off os d)
  have d: "Hl (show_all d) = Inr (blocks [] d)"
    using 5 by (simp add: Hl.simps [of "show_all d"] Kl_def Kl_message)
  have "options Hl plural_key [(''Ng'', V_name n), (''$l'', V_off k)] (show_options True os @ show_key True ''other'' @ ''{'' @ show_all d @ ''}'') =
      Inr ([(''Ng'', V_name n), (''$l'', V_off k)] @ object_of os @ [(''other'', V_blocks (blocks [] d))])" for k
    using 5 d by (intro options_message plural_key_read) auto
  then show ?case
    using 5 offset_message [of os off "''{'' @ show_all d @ ''}''"]
    by (cases ord) (simp_all add: piece_block_def heads)
next
  case (7 t m ms)
  then show ?case
    by (cases "is_block m") (auto simp: piece_block_def outside_def)
qed (auto simp: piece_block_def param_heads Hl.simps [of "show_all _"] Kl_def Kl_message outside_def)


subsubsection \<open>Slots\<close>

text \<open>The text under way: pieces that are final, slots, and \<open>#\<close> signs that stand for the number of the
  enclosing block.\<close>

datatype seg = P string | S nat | H

primrec seg_text :: "seg \<Rightarrow> string" where
  "seg_text (P t) = t"
| "seg_text (S i) = slot_text i"
| "seg_text H = ''#''"

primrec seg_value :: "string list \<Rightarrow> jsnum \<Rightarrow> seg \<Rightarrow> string" where
  "seg_value gc k (P t) = t"
| "seg_value gc k (S i) = gc ! i"
| "seg_value gc k H = number_text k"

primrec seg_slots :: "seg \<Rightarrow> nat list" where
  "seg_slots (P t) = []"
| "seg_slots (S i) = [i]"
| "seg_slots H = []"

text \<open>No piece holds the mark of a slot, and no final piece a \<open>#\<close>.\<close>

primrec seg_ok :: "seg \<Rightarrow> bool" where
  "seg_ok (P t) = (slot_mark \<notin> set t)"
| "seg_ok (S i) = True"
| "seg_ok H = True"

primrec seg_clean :: "seg \<Rightarrow> bool" where
  "seg_clean (P t) = (CHR ''#'' \<notin> set t)"
| "seg_clean (S i) = True"
| "seg_clean H = True"

definition segs_text :: "seg list \<Rightarrow> string" where
  "segs_text segs = concat (map seg_text segs)"

definition segs_value :: "string list \<Rightarrow> jsnum \<Rightarrow> seg list \<Rightarrow> string" where
  "segs_value gc k segs = concat (map (seg_value gc k) segs)"

definition segs_slots :: "seg list \<Rightarrow> nat list" where
  "segs_slots segs = concat (map seg_slots segs)"

lemma segs_simps [simp]:
  "segs_text [] = []" "segs_text (x # xs) = seg_text x @ segs_text xs" "segs_text (xs @ ys) = segs_text xs @ segs_text ys"
  "segs_value gc k [] = []" "segs_value gc k (x # xs) = seg_value gc k x @ segs_value gc k xs"
  "segs_value gc k (xs @ ys) = segs_value gc k xs @ segs_value gc k ys"
  "segs_slots [] = []" "segs_slots (x # xs) = seg_slots x @ segs_slots xs" "segs_slots (xs @ ys) = segs_slots xs @ segs_slots ys"
  by (simp_all add: segs_text_def segs_value_def segs_slots_def)

definition plain_value :: "string \<Rightarrow> bool" where
  "plain_value v \<longleftrightarrow> slot_mark \<notin> set v \<and> CHR ''$'' \<notin> set v"

lemma mark_not_word: "\<not> is_word slot_mark" "\<not> is_digit slot_mark" "slot_mark \<noteq> CHR ''_''" "slot_mark \<noteq> CHR ''#''"
  "\<not> is_digit CHR ''_''" "\<not> is_digit CHR ''#''"
  by code_simp+

lemma slot_tail: "slot_mark \<notin> set (tl (slot_text i))"
  using show_nat_digits [of i] mark_not_word by (auto simp: slot_text_def list_all_iff)

lemma slot_eq: "starts_with (slot_text i @ y) (slot_text j) \<Longrightarrow> i = j"
proof -
  assume "starts_with (slot_text i @ y) (slot_text j)"
  then obtain z where "slot_text i @ y = slot_text j @ z" by (metis append_take_drop_id starts_with_def)
  then have e: "show_nat i @ CHR ''_'' # y = show_nat j @ CHR ''_'' # z" by (simp add: slot_text_def)
  have t: "takeWhile is_digit (show_nat n @ CHR ''_'' # w) = show_nat n" for n w
    using show_nat_digits [of n] mark_not_word by (simp add: list_all_iff takeWhile_append)
  have "show_nat i = show_nat j" using arg_cong [OF e, of "takeWhile is_digit"] by (simp only: t)
  then show "i = j" by (metis digits_val_show_nat)
qed

lemma index_skip: "slot_mark \<notin> set x \<Longrightarrow> index_of (x @ y) (slot_text j) = map_option ((+) (length x)) (index_of y (slot_text j))"
proof (induction x)
  case Nil
  then show ?case by (cases "index_of y (slot_text j)") auto
next
  case (Cons c x)
  then have "take (length (slot_text j)) (c # x @ y) \<noteq> slot_text j" by (auto simp: slot_text_def)
  with Cons show ?case by (cases "index_of y (slot_text j)") auto
qed

lemma index_slot: "i \<noteq> j \<Longrightarrow> index_of (slot_text i @ y) (slot_text j) = map_option ((+) (length (slot_text i))) (index_of y (slot_text j))"
proof -
  assume n: "i \<noteq> j"
  obtain r where r: "slot_text i = slot_mark # r" "slot_mark \<notin> set r" using slot_tail [of i] by (simp add: slot_text_def)
  have "take (length (slot_text j)) (slot_mark # r @ y) \<noteq> slot_text j"
    using slot_eq [of i y j] n by (auto simp: starts_with_def r(1))
  then show ?thesis using index_skip [OF r(2), of y j] by (cases "index_of y (slot_text j)") (simp_all add: r(1))
qed

lemma index_segs:
  "list_all seg_ok xs \<Longrightarrow> j \<notin> set (segs_slots xs) \<Longrightarrow>
    index_of (segs_text xs @ y) (slot_text j) = map_option ((+) (length (segs_text xs))) (index_of y (slot_text j))"
proof (induction xs)
  case Nil
  then show ?case by (cases "index_of y (slot_text j)") auto
next
  case (Cons x xs)
  have "index_of (seg_text x @ segs_text xs @ y) (slot_text j) =
      map_option ((+) (length (seg_text x))) (index_of (segs_text xs @ y) (slot_text j))"
  proof (cases x)
    case (P t)
    then show ?thesis using Cons.prems by (simp add: index_skip)
  next
    case (S i)
    then show ?thesis using Cons.prems by (simp add: index_slot)
  next
    case H
    have "slot_mark \<notin> set ''#''" using mark_not_word by simp
    then show ?thesis unfolding H seg_text.simps by (rule index_skip)
  qed
  with Cons show ?case by (cases "index_of y (slot_text j)") (auto simp: ac_simps)
qed

lemma replace_slot:
  assumes "list_all seg_ok xs" "j \<notin> set (segs_slots xs)" "CHR ''$'' \<notin> set v"
  shows "replace_text (segs_text xs @ slot_text j @ y) (slot_text j) v = segs_text xs @ v @ y"
proof -
  have "index_of (slot_text j @ y) (slot_text j) = Some 0" by (simp add: index_of_Some_0)
  then have "index_of (segs_text xs @ slot_text j @ y) (slot_text j) = Some (length (segs_text xs))"
    using index_segs [OF assms(1,2), of "slot_text j @ y"] by simp
  then show ?thesis by (simp add: replace_text_def expand_simple no_dollar assms(3))
qed

lemma replace_no_slot:
  assumes "list_all seg_ok xs" "j \<notin> set (segs_slots xs)"
  shows "replace_text (segs_text xs) (slot_text j) v = segs_text xs"
proof -
  have "index_of [] (slot_text j) = None" by (simp add: slot_text_def)
  then have "index_of (segs_text xs @ []) (slot_text j) = None" by (simp only: index_segs [OF assms] option.map)
  then show ?thesis by (simp add: replace_text_def)
qed


text \<open>The last slot is filled first; the others follow.\<close>

definition fill_one :: "nat \<Rightarrow> string \<Rightarrow> seg \<Rightarrow> seg" where
  "fill_one j v x = (if x = S j then P v else x)"

lemma slot_split:
  assumes "distinct (segs_slots segs)" "j \<in> set (segs_slots segs)"
  shows "\<exists>xs ys. segs = xs @ S j # ys \<and> j \<notin> set (segs_slots xs) \<and> j \<notin> set (segs_slots ys)"
  using assms
proof (induction segs)
  case (Cons x segs)
  show ?case
  proof (cases "x = S j")
    case True
    with Cons.prems show ?thesis by (intro exI [of _ "[]"] exI [of _ segs]) auto
  next
    case False
    then have x: "j \<notin> set (seg_slots x)" by (cases x) auto
    with Cons obtain xs ys where "segs = xs @ S j # ys" "j \<notin> set (segs_slots xs)" "j \<notin> set (segs_slots ys)" by auto
    with x show ?thesis by (intro exI [of _ "x # xs"] exI [of _ ys]) auto
  qed
qed simp

lemma fill_slots_snoc: "fill_slots (gc @ [v]) t = fill_slots gc (replace_text t (slot_text (length gc)) v)"
  by (simp add: fill_slots_def enumerate_append_eq)

lemma segs_value_append:
  "set (segs_slots segs) \<subseteq> {..<length gc} \<Longrightarrow> segs_value (gc @ new) k segs = segs_value gc k segs"
proof (induction segs)
  case (Cons x segs)
  then show ?case by (cases x) (auto simp: nth_append)
qed simp

lemma fill_segs:
  "list_all seg_ok segs \<Longrightarrow> distinct (segs_slots segs) \<Longrightarrow> set (segs_slots segs) \<subseteq> {..<length gc} \<Longrightarrow>
    list_all plain_value gc \<Longrightarrow> H \<notin> set segs \<Longrightarrow> fill_slots gc (segs_text segs) = segs_value gc k segs"
proof (induction gc arbitrary: segs rule: rev_induct)
  case Nil
  have "segs_text segs = segs_value [] k segs"
    using Nil.prems(3,5)
  proof (induction segs)
    case (Cons x segs)
    then show ?case by (cases x) auto
  qed simp
  then show ?case by (simp add: fill_slots_def)
next
  case (snoc v gc)
  let ?j = "length gc"
  have pv: "plain_value v" and gc: "list_all plain_value gc" using snoc.prems(4) by simp_all
  from pv have v: "slot_mark \<notin> set v" "CHR ''$'' \<notin> set v" by (simp_all add: plain_value_def)
  show ?case
  proof (cases "?j \<in> set (segs_slots segs)")
    case True
    obtain xs ys where segs: "segs = xs @ S ?j # ys" "?j \<notin> set (segs_slots xs)" "?j \<notin> set (segs_slots ys)"
      using slot_split [OF snoc.prems(2) True] by blast
    have ok: "list_all seg_ok xs" "list_all seg_ok ys" using snoc.prems(1) segs(1) by simp_all
    have sub: "set (segs_slots (xs @ P v # ys)) \<subseteq> {..<length gc}"
      using snoc.prems(3) segs by (auto simp: subset_iff less_Suc_eq)
    have "replace_text (segs_text segs) (slot_text ?j) v = segs_text (xs @ P v # ys)"
      using replace_slot [OF ok(1) segs(2) v(2)] by (simp add: segs(1))
    moreover have "fill_slots gc (segs_text (xs @ P v # ys)) = segs_value gc k (xs @ P v # ys)"
      using snoc.prems(2,5) sub gc ok v(1) by (intro snoc.IH) (auto simp: segs(1))
    moreover have "segs_value gc k (xs @ P v # ys) = segs_value (gc @ [v]) k segs"
      using sub by (simp add: segs(1) segs_value_append)
    ultimately show ?thesis by (simp add: fill_slots_snoc)
  next
    case False
    then have sub: "set (segs_slots segs) \<subseteq> {..<length gc}"
      using snoc.prems(3) by (auto simp: subset_iff less_Suc_eq)
    then have "fill_slots gc (segs_text segs) = segs_value gc k segs"
      using snoc.prems gc by (intro snoc.IH) auto
    then show ?thesis
      using replace_no_slot [OF snoc.prems(1) False] sub by (simp add: fill_slots_snoc segs_value_append)
  qed
qed


subsubsection \<open>Numbers in messages\<close>

lemma whole_digits_chars: "list_all is_digit l \<Longrightarrow> list_all is_digit (whole_digits h l) \<and> whole_digits h l \<noteq> []"
proof (induction h l rule: whole_digits.induct)
  case (1 h l)
  have "is_digit CHR ''0''" by code_simp
  then show ?case
    using 1 show_nat_digits [of h] by (subst (1 2) whole_digits.simps) auto
qed

lemma sl_chars:
  assumes "0 \<le> x"
  shows "\<exists>s. sl default_format x = Some s \<and> (\<forall>c \<in> set s. is_digit c \<or> c = CHR '','' \<or> c = CHR ''.'')"
proof -
  define d where "d = nat (math_round (x * 1000))"
  let ?l = "whole_digits (d div 1000) []"
  have l: "list_all is_digit ?l" "?l \<noteq> []" using whole_digits_chars [of "[]"] by auto
  then have len: "nat 1 - length ?l = 0" by (cases ?l) simp_all
  have r: "rl default_format x = (d div 1000, d mod 1000)" unfolding d_def by (rule rl_default [OF assms])
  have p: "list_all is_digit (places_of default_format (d mod 1000))" using places_default [of "d mod 1000"] by simp
  have z: "c \<in> set (drop_zeros k u) \<Longrightarrow> c \<in> set u" for c k u
    by (induction k u rule: drop_zeros.induct) (auto split: if_splits)
  have f: "n_ce default_format = 3" "n_de default_format = 0" "n_Ub default_format = 1" "n_Ud default_format = [3]"
    "\<not> n_Cm default_format" by (simp_all add: default_format_def)
  have "sl default_format x = Some (thousands ?l @ (if 0 < d mod 1000 then ''.'' else []) @
      rev (drop_zeros 0 (rev (places_of default_format (d mod 1000)))))"
    unfolding sl_def r f Let_def prod.case using len l(2) by (simp add: f grouped_thousands)
  moreover have "c \<in> set (thousands ?l) \<Longrightarrow> is_digit c \<or> c = CHR '',''" for c
    using thousands_set [of ?l] l(1) by (auto simp: list_all_iff)
  moreover have "c \<in> set (rev (drop_zeros 0 (rev (places_of default_format (d mod 1000))))) \<Longrightarrow> is_digit c" for c
    using z [of c 0] p by (force simp: list_all_iff)
  ultimately show ?thesis by auto
qed

lemma number_text_plain: "c \<in> set (number_text k) \<Longrightarrow> c \<noteq> CHR ''#'' \<and> c \<noteq> slot_mark"
proof -
  assume c: "c \<in> set (number_text k)"
  have digit: "is_digit c \<Longrightarrow> c \<noteq> CHR ''#'' \<and> c \<noteq> slot_mark" using mark_not_word by auto
  have chars: "CHR 0x01 \<noteq> slot_mark" "CHR ''-'' \<noteq> slot_mark" "CHR ''N'' \<noteq> slot_mark" "CHR ''a'' \<noteq> slot_mark"
    "CHR '','' \<noteq> slot_mark" "CHR ''.'' \<noteq> slot_mark" by code_simp+
  show ?thesis
  proof (cases k)
    case (Fin r)
    obtain s where s: "sl default_format \<bar>r\<bar> = Some s" "\<forall>c \<in> set s. is_digit c \<or> c = CHR '','' \<or> c = CHR ''.''"
      using sl_chars [of "\<bar>r\<bar>"] by auto
    have "(if r < 0 then -1 else 1) * r * of_int (n_Gb default_format) = \<bar>r\<bar>" by (simp add: default_format_def)
    then have "ml_format default_format r = Some ((if r < 0 then ''-'' else []) @ s)"
      using s by (simp add: ml_format_def Let_def) (simp add: default_format_def)
    then show ?thesis using c s(2) digit chars by (auto simp: number_text_def Fin split: if_splits)
  qed (use c chars in \<open>auto simp: number_text_def split: if_splits\<close>)
qed

subsubsection \<open>Formatting a message\<close>

text \<open>The number of an enclosing block is put in.\<close>

definition put_number :: "jsnum \<Rightarrow> seg \<Rightarrow> seg" where
  "put_number k x = (if x = H then P (number_text k) else x)"

lemma replace_all_hash_id: "CHR ''#'' \<notin> set t \<Longrightarrow> replace_all ''#'' r t = t"
  by (rule replace_all_id) auto

lemma replace_all_hash_append: "replace_all ''#'' r (s @ t) = replace_all ''#'' r s @ replace_all ''#'' r t"
  by (simp add: replace_all_char)

lemma slot_no_hash: "CHR ''#'' \<notin> set (slot_text i)"
  using show_nat_digits [of i] mark_not_word by (auto simp: slot_text_def list_all_iff)

lemma put_number_text:
  "list_all seg_clean segs \<Longrightarrow> replace_all ''#'' (number_text k) (segs_text segs) = segs_text (map (put_number k) segs)"
proof (induction segs)
  case (Cons x segs)
  then have IH: "replace_all ''#'' (number_text k) (segs_text segs) = segs_text (map (put_number k) segs)" by simp
  have "replace_all ''#'' (number_text k) (seg_text x) = seg_text (put_number k x)"
    using Cons.prems slot_no_hash by (cases x) (simp_all add: replace_all_hash_id put_number_def starts_with_def)
  with IH show ?case by (simp only: segs_simps list.map replace_all_hash_append)
qed simp

lemma put_number_segs:
  "segs_value gc j (map (put_number k) segs) = segs_value gc k segs"
  "segs_slots (map (put_number k) segs) = segs_slots segs"
  "list_all seg_ok segs \<Longrightarrow> list_all seg_ok (map (put_number k) segs)"
  "list_all seg_clean segs \<Longrightarrow> list_all seg_clean (map (put_number k) segs)"
  "H \<notin> set (map (put_number k) segs)"
proof (induction segs)
  case (Cons x segs)
  {
    case 1 then show ?case using Cons by (cases x) (simp_all add: put_number_def)
  next
    case 2 then show ?case using Cons by (cases x) (simp_all add: put_number_def)
  next
    case 3 then show ?case using Cons number_text_plain by (cases x) (auto simp: put_number_def)
  next
    case 4 then show ?case using Cons number_text_plain by (cases x) (auto simp: put_number_def)
  next
    case 5 then show ?case using Cons by (cases x) (auto simp: put_number_def)
  }
qed simp_all

text \<open>What formatting with the list \<open>gc\<close> gives for a message of meaning \<open>v\<close>; \<open>hf\<close> says that no \<open>#\<close> is left.\<close>

definition writes :: "bool \<Rightarrow> string list \<Rightarrow> jsnum \<Rightarrow> written \<Rightarrow> string option \<Rightarrow> bool" where
  "writes hf gc k r v \<longleftrightarrow>
     (case v of
        None \<Rightarrow> r = Inl Below_offset
      | Some u \<Rightarrow>
          (\<exists>segs new. r = Inr (gc @ new, segs_text segs) \<and> segs_value (gc @ new) k segs = u \<and>
             segs_slots segs = [length gc..<length gc + length new] \<and> list_all plain_value new \<and>
             list_all seg_ok segs \<and> list_all seg_clean segs \<and> (hf \<longrightarrow> H \<notin> set segs)))"

lemma writes_text:
  "slot_mark \<notin> set t \<Longrightarrow> CHR ''#'' \<notin> set t \<Longrightarrow> writes hf gc k (Inr (gc, t)) (Some t)"
  unfolding writes_def option.case
  by (intro exI [of _ "[P t]"] exI [of _ "[]"]) simp

lemma writes_hash: "\<not> hf \<Longrightarrow> writes hf gc k (Inr (gc, ''#'')) (Some (number_text k))"
  unfolding writes_def option.case
  by (intro exI [of _ "[H]"] exI [of _ "[]"]) simp

lemma writes_param: "plain_value v \<Longrightarrow> writes hf gc k (Inr (gc @ [v], slot_text (length gc))) (Some v)"
  unfolding writes_def option.case
  by (intro exI [of _ "[S (length gc)]"] exI [of _ "[v]"]) simp

lemma writes_then:
  assumes "writes hf gc k m a" "\<And>gc. writes hf' gc k (f gc) b"
  shows "writes (hf \<and> hf') gc k (then_write m f) (append_opt a b)"
proof (cases a)
  case None
  then show ?thesis using assms(1) by (simp add: writes_def then_write_def append_opt_def)
next
  case (Some u)
  then obtain segs new where m: "m = Inr (gc @ new, segs_text segs)" "segs_value (gc @ new) k segs = u"
    "segs_slots segs = [length gc..<length gc + length new]" "list_all plain_value new"
    "list_all seg_ok segs" "list_all seg_clean segs" "hf \<longrightarrow> H \<notin> set segs"
    using assms(1) by (auto simp: writes_def)
  show ?thesis
  proof (cases b)
    case None
    then show ?thesis
      using assms(2) [of "gc @ new"] Some by (simp add: writes_def then_write_def append_opt_def m(1))
  next
    case (Some w)
    then obtain segs' new' where f: "f (gc @ new) = Inr ((gc @ new) @ new', segs_text segs')"
      "segs_value ((gc @ new) @ new') k segs' = w"
      "segs_slots segs' = [length (gc @ new)..<length (gc @ new) + length new']" "list_all plain_value new'"
      "list_all seg_ok segs'" "list_all seg_clean segs'" "hf' \<longrightarrow> H \<notin> set segs'"
      using assms(2) [of "gc @ new"] by (auto simp: writes_def)
    have "segs_value ((gc @ new) @ new') k segs = u"
      using m(2,3) by (subst segs_value_append) auto
    moreover have "segs_slots (segs @ segs') = [length gc..<length gc + length (new @ new')]"
      using m(3) f(3) by (simp add: upt_add_eq_append [of "length gc" "length gc + length new"] flip: add.assoc)
    ultimately show ?thesis
      unfolding writes_def using m f Some \<open>a = Some u\<close>
      by (auto simp: append_opt_def then_write_def intro!: exI [of _ "segs @ segs'"] exI [of _ "new @ new'"])
  qed
qed

lemma writes_number:
  "writes hf gc k m v \<Longrightarrow> writes True gc j (write_number False k m) v"
proof (cases v)
  case (Some u)
  assume "writes hf gc k m v"
  with Some obtain segs new where m: "m = Inr (gc @ new, segs_text segs)" "segs_value (gc @ new) k segs = u"
    "segs_slots segs = [length gc..<length gc + length new]" "list_all plain_value new"
    "list_all seg_ok segs" "list_all seg_clean segs"
    by (auto simp: writes_def)
  then show ?thesis
    using put_number_segs(5) [of k segs]
    unfolding writes_def Some option.case
    by (intro exI [of _ "map (put_number k) segs"] exI [of _ new])
      (simp add: write_number_def put_number_text put_number_segs(1-4))
qed (simp add: writes_def write_number_def)


text \<open>Messages whose \<open>#\<close> signs are all inside plural blocks.\<close>

fun hash_free :: "msg \<Rightarrow> bool" where
  "hash_free (M_text t) = True"
| "hash_free (M_arg n) = True"
| "hash_free M_hash = False"
| "hash_free (M_select n os d) = (list_all (\<lambda>(k, ms). list_all hash_free ms) os \<and> list_all hash_free d)"
| "hash_free (M_plural ord n off os d) = True"

lemma map_of_object: "map_of (object_of os) t = map_option (\<lambda>ms. V_blocks (blocks [] ms)) (map_of os t)"
  by (induction os) auto

lemma object_other: "wf_options os \<Longrightarrow> map_of os ''other'' = None \<and> map_of os ''Ng'' = None"
  by (induction os) auto

lemma select_object:
  "wf_options os \<Longrightarrow> t \<noteq> ''Ng'' \<Longrightarrow>
    select_branch ((''Ng'', V_name n) # object_of os @ [(''other'', V_blocks (blocks [] d))]) t =
      Inr (V_blocks (blocks [] (case map_of os t of Some ms \<Rightarrow> ms | None \<Rightarrow> d)))"
  by (cases "map_of os t")
    (auto simp: select_branch_def map_of_object array_or_fail_def map_add_def object_other split: option.split)

lemma plural_object:
  assumes "wf_options os" "t \<noteq> ''Ng''" "t \<noteq> ''$l''" "rule = (if ord then vl_rule else xl_rule)"
  shows "plural_branch rule ((''Ng'', V_name n) # (''$l'', V_off off) # object_of os @ [(''other'', V_blocks (blocks [] d))]) t k =
    (case number_branch ord k t os d of None \<Rightarrow> Inl Below_offset | Some ms \<Rightarrow> Inr (V_blocks (blocks [] ms)))"
  using assms rule_keys object_other [OF assms(1)]
  by (auto simp: plural_branch_def number_branch_def map_of_object map_add_def array_or_fail_def split: option.split)

lemma meaning_text_prefix: "append_opt (Some s) (append_opt (Some t) x) = append_opt (Some (s @ t)) x"
  by (cases x) (simp_all add: append_opt_def)

definition proper_params :: "params \<Rightarrow> bool" where
  "proper_params c \<longleftrightarrow> (\<forall>n. c n = Undef \<or> plain_value (to_str (c n)) \<and> to_str (c n) \<noteq> ''Ng'')"


lemma writes_weaken: "writes hf gc k r v \<Longrightarrow> (hf' \<Longrightarrow> hf) \<Longrightarrow> writes hf' gc k r v"
  by (auto simp: writes_def split: option.splits)

lemma append_opt_Nil [simp]: "append_opt (Some []) x = x"
  by (cases x) (simp_all add: append_opt_def)

lemma Il_prefix: "Il c d ((if t = [] then [] else [B_text t]) @ bs) gc = then_write (Inr (gc, t)) (Il c d bs)"
  by (auto simp: then_write_def split: sum.splits)

text \<open>The text before the next block.\<close>

definition prefix_segs :: "seg list \<Rightarrow> bool" where
  "prefix_segs segs \<longleftrightarrow> segs_slots segs = [] \<and> list_all seg_ok segs \<and> list_all seg_clean segs"

lemma no_prefix: "prefix_segs []"
  by (simp add: prefix_segs_def)

lemma writes_prefix:
  "prefix_segs segs \<Longrightarrow> writes (H \<notin> set segs) gc k (Inr (gc, segs_text segs)) (Some (segs_value [] k segs))"
  unfolding writes_def option.case
  by (intro exI [of _ segs] exI [of _ "[]"]) (use segs_value_append [of segs "[]" gc k] in \<open>simp add: prefix_segs_def\<close>)

lemma undefined_clean:
  "word n \<Longrightarrow> slot_mark \<notin> set (undefined_text n) \<and> CHR ''#'' \<notin> set (undefined_text n)"
  "word n \<Longrightarrow> slot_mark \<notin> set (''Undefined or invalid parameter - '' @ n) \<and> CHR ''#'' \<notin> set (''Undefined or invalid parameter - '' @ n)"
proof -
  assume n: "word n"
  have "slot_mark \<notin> set ''Undefined parameter - ''" "slot_mark \<notin> set ''Undefined or invalid parameter - ''" by code_simp+
  moreover have "slot_mark \<notin> set n" "CHR ''#'' \<notin> set n" using word_set [OF n] mark_not_word word_char by fastforce+
  ultimately show "slot_mark \<notin> set (undefined_text n) \<and> CHR ''#'' \<notin> set (undefined_text n)"
    "slot_mark \<notin> set (''Undefined or invalid parameter - '' @ n) \<and> CHR ''#'' \<notin> set (''Undefined or invalid parameter - '' @ n)"
    by (simp_all add: undefined_text_def)
qed

lemma proper_value: "proper_params c \<Longrightarrow> c n \<noteq> Undef \<Longrightarrow> plain_value (to_str (c n)) \<and> to_str (c n) \<noteq> ''Ng'' \<and> to_str (c n) \<noteq> ''$l''"
  by (auto simp: proper_params_def plain_value_def)

lemma Il_message:
  "proper_params c \<Longrightarrow> wf_msg m \<Longrightarrow> is_block m \<Longrightarrow>
    writes (hash_free m) gc k (Il_one c False (block_of m) gc) (meaning c k m)"
  "proper_params c \<Longrightarrow> wf_all ms \<Longrightarrow> prefix_segs segs \<Longrightarrow>
    writes (H \<notin> set segs \<and> list_all hash_free ms) gc k (Il c False (blocks (segs_text segs) ms) gc)
      (append_opt (Some (segs_value [] k segs)) (meaning_all c k ms))"
proof (induction c k m and c k ms arbitrary: gc and gc segs rule: meaning_meaning_all.induct)
  case (2 c k n)
  then show ?case
    using undefined_clean(1) [of n] proper_value [of c n] writes_param [of "to_str (c n)"] writes_text
    by (simp add: undefined_text_def)
next
  case (4 c k n os d)
  let ?ob = "(''Ng'', V_name n) # object_of os @ [(''other'', V_blocks (blocks [] d))]"
  let ?ms = "case map_of os (to_str (c n)) of Some ms \<Rightarrow> ms | None \<Rightarrow> d"
  show ?case
  proof (cases "c n = Undef")
    case True
    then show ?thesis
      using undefined_clean(1) [of n] 4 writes_text by (simp add: name_of_def undefined_text_def)
  next
    case False
    have IH: "writes (list_all hash_free ?ms) gc k (Il c False (blocks [] ?ms) gc) (meaning_all c k ?ms)"
    proof (cases "map_of os (to_str (c n))")
      case None
      then show ?thesis using "4.IH"(1) [OF False None _ _ no_prefix, of gc] 4 by simp
    next
      case (Some ms)
      have "wf_all ms" using wf_options_keys [OF _ map_of_SomeD [OF Some]] 4 by simp
      then show ?thesis using "4.IH"(2) [OF False Some _ _ no_prefix, of gc] 4 Some by simp
    qed
    have "writes (hash_free (M_select n os d)) gc k (Il c False (blocks [] ?ms) gc) (meaning_all c k ?ms)"
      using IH
    proof (rule writes_weaken)
      assume "hash_free (M_select n os d)"
      then show "list_all hash_free ?ms"
        using map_of_SomeD [of os "to_str (c n)"] by (cases "map_of os (to_str (c n))") (auto simp: list_all_iff)
    qed
    moreover have "select_branch ?ob (to_str (c n)) = Inr (V_blocks (blocks [] ?ms))"
      using 4 proper_value [of c n] False by (intro select_object) auto
    ultimately show ?thesis
      using False by (simp add: name_of_def split: option.splits)
  qed
next
  case (5 c k ord n off os d)
  let ?ob = "(''Ng'', V_name n) # (''$l'', V_off (if ord then 0 else off)) # object_of os @ [(''other'', V_blocks (blocks [] d))]"
  let ?rule = "if ord then vl_rule else xl_rule" and ?l = "to_num (c n)" and ?t = "to_str (c n)"
  let ?j = "offset_value ?l (if ord then 0 else off)"
  have J: "Il_one c False (block_of (M_plural ord n off os d)) gc = Jl c False ?rule ?ob gc" by simp
  have name: "name_of ?ob = n" "minus_offset ?ob ?l = ?j"
    by (simp_all add: name_of_def minus_offset_def offset_value_def)
  show ?case
  proof (cases "?l = NaN")
    case True
    then show ?thesis
      unfolding J Jl.simps name Let_def using undefined_clean(2) [of n] 5 writes_text by simp
  next
    case False
    then have "c n \<noteq> Undef" by auto
    then have t: "?t \<noteq> ''Ng''" "?t \<noteq> ''$l''" using proper_value [of c n] 5 by auto
    have wf: "wf_options os" "wf_all d" using 5 by simp_all
    have b: "plural_branch ?rule ?ob ?t ?j =
        (case number_branch ord ?j ?t os d of None \<Rightarrow> Inl Below_offset | Some ms \<Rightarrow> Inr (V_blocks (blocks [] ms)))"
      by (rule plural_object [OF wf(1) t]) simp
    show ?thesis
    proof (cases "number_branch ord ?j ?t os d")
      case None
      then show ?thesis unfolding J Jl.simps name Let_def b using False by (simp add: writes_def Let_def)
    next
      case (Some ms)
      have "wf_all ms" using number_branch_in [OF Some] wf wf_options_keys [OF wf(1)] by blast
      then have "writes (list_all hash_free ms) gc ?j (Il c False (blocks [] ms) gc) (meaning_all c ?j ms)"
        using "5.IH" [OF refl refl False Some _ _ no_prefix, of gc] 5 by simp
      then have "writes True gc k (write_number False ?j (Il c False (blocks [] ms) gc)) (meaning_all c ?j ms)"
        by (rule writes_number)
      then show ?thesis unfolding J Jl.simps name Let_def b using False Some by (simp add: Let_def)
    qed
  qed
next
  case (6 c k)
  then show ?case using writes_prefix [of segs] Il_prefix [of c False "segs_text segs" "[]" gc]
    by (simp add: then_write_def append_opt_def)
next
  case (7 c k m ms)
  show ?case
  proof (cases "is_block m")
    case True
    have "writes (hash_free m \<and> (H \<notin> set [] \<and> list_all hash_free ms)) gc k
        (then_write (Il_one c False (block_of m) gc) (Il c False (blocks (segs_text []) ms)))
        (append_opt (meaning c k m) (append_opt (Some (segs_value [] k [])) (meaning_all c k ms)))" for gc
      using 7 True by (intro writes_then [where hf = "hash_free m"] 7) (simp_all add: no_prefix)
    then have inner: "writes (hash_free m \<and> list_all hash_free ms) gc k
        (then_write (Il_one c False (block_of m) gc) (Il c False (blocks [] ms)))
        (append_opt (meaning c k m) (meaning_all c k ms))" for gc
      by simp
    have "writes (H \<notin> set segs \<and> (hash_free m \<and> list_all hash_free ms)) gc k
        (then_write (Inr (gc, segs_text segs)) (\<lambda>gc. then_write (Il_one c False (block_of m) gc) (Il c False (blocks [] ms))))
        (append_opt (Some (segs_value [] k segs)) (append_opt (meaning c k m) (meaning_all c k ms)))"
      by (rule writes_then [OF writes_prefix inner]) (rule "7.prems"(3))
    moreover have "Il c False (blocks (segs_text segs) (m # ms)) gc =
        then_write (Inr (gc, segs_text segs)) (\<lambda>gc. then_write (Il_one c False (block_of m) gc) (Il c False (blocks [] ms)))"
      unfolding blocks.simps if_P [OF True] Il_prefix
      by (rule arg_cong [of _ _ "then_write _"]) (simp add: fun_eq_iff)
    ultimately show ?thesis by simp
  next
    case False
    then obtain x where x: "segs_text [x] = show_msg m" "seg_value [] k x = the (meaning c k m)" "meaning c k m \<noteq> None"
      "prefix_segs [x]" "x = H \<longleftrightarrow> \<not> hash_free m"
    proof (cases m)
      case (M_text t)
      then show ?thesis using 7 that [of "P t"] by (auto simp: prefix_segs_def plain_text_def)
    next
      case M_hash
      then show ?thesis using that [of H] by (simp add: prefix_segs_def)
    qed simp_all
    have "prefix_segs (segs @ [x])" using x(4) 7 by (simp add: prefix_segs_def)
    from "7.IH"(2) [OF _ _ this, of gc] have "writes (H \<notin> set (segs @ [x]) \<and> list_all hash_free ms) gc k
        (Il c False (blocks (segs_text (segs @ [x])) ms) gc)
        (append_opt (Some (segs_value [] k (segs @ [x]))) (meaning_all c k ms))"
      using 7 by simp
    moreover have "blocks (segs_text (segs @ [x])) ms = blocks (segs_text segs) (m # ms)"
      using False x(1) by simp
    moreover have "append_opt (Some (segs_value [] k (segs @ [x]))) (meaning_all c k ms) =
        append_opt (Some (segs_value [] k segs)) (meaning_all c k (m # ms))"
      using x(2,3) meaning_text_prefix by auto
    moreover have "H \<notin> set (segs @ [x]) \<and> list_all hash_free ms \<longleftrightarrow> H \<notin> set segs \<and> list_all hash_free (m # ms)"
      using x(5) by auto
    ultimately show ?thesis by simp
  qed
qed auto


lemma no_quotes: "CHR 0x27 \<notin> set s \<Longrightarrow> apos_pass s ek = (s, ek)" "CHR 0x27 \<notin> set s \<Longrightarrow> quote_pass s ek = (s, ek)"
proof -
  show "CHR 0x27 \<notin> set s \<Longrightarrow> apos_pass s ek = (s, ek)"
    by (induction s ek rule: apos_pass.induct) auto
  show "CHR 0x27 \<notin> set s \<Longrightarrow> quote_pass s ek = (s, ek)"
  proof (induction s arbitrary: ek)
    case (Cons c s)
    then show ?case by (cases s) (auto simp: Let_def)
  qed simp
qed

lemma part_quotes:
  "word n \<Longrightarrow> CHR 0x27 \<notin> set n" "CHR 0x27 \<notin> set (show_offset off)" "word k \<Longrightarrow> CHR 0x27 \<notin> set (show_key num k)"
proof -
  have w: "word n \<Longrightarrow> CHR 0x27 \<notin> set n" for n using word_set word_char by blast
  then show "word n \<Longrightarrow> CHR 0x27 \<notin> set n" "word k \<Longrightarrow> CHR 0x27 \<notin> set (show_key num k)"
    by (auto simp: show_key_def)
  show "CHR 0x27 \<notin> set (show_offset off)" using w [OF digits_word, of off] by (simp add: show_offset_def)
qed

lemma show_quotes:
  "wf_msg m \<Longrightarrow> CHR 0x27 \<notin> set (show_msg m)" "wf_all ms \<Longrightarrow> CHR 0x27 \<notin> set (show_all ms)"
  "wf_options os \<Longrightarrow> CHR 0x27 \<notin> set (show_options num os)"
  by (induction m and ms and num os rule: show_msg_show_all_show_options.induct)
    (auto simp: plain_text_def show_head_def part_quotes word_other)

lemma fill_slots_Nil: "fill_slots gc [] = []"
proof (induction gc rule: rev_induct)
  case (snoc v gc)
  have "replace_text [] (slot_text (length gc)) v = []" by (simp add: replace_text_def slot_text_def)
  with snoc show ?case by (simp add: fill_slots_snoc)
qed (simp add: fill_slots_def)

lemma Fl_write_blocks:
  "cl_hi a = Some bs \<Longrightarrow> Fl_write a c False =
    (case Il c False bs (cl_ek a) of
      Inl e \<Rightarrow> Inl e
    | Inr (gc, t) \<Rightarrow> if CHR ''#'' \<in> set t then Inl Hash_left else Inr (fill_slots gc t))"
  by (cases "bs = []") (auto simp: Fl_write_def fill_slots_Nil split: sum.split)

lemma format_blocks:
  assumes "wf_all ms" "list_all hash_free ms" "proper_params c"
  shows "(case Il c False (blocks [] ms) [] of
      Inl e \<Rightarrow> Inl e
    | Inr (gc, t) \<Rightarrow> if CHR ''#'' \<in> set t then Inl Hash_left else Inr (fill_slots gc t)) =
    (case meaning_all c NaN ms of None \<Rightarrow> Inl Below_offset | Some t \<Rightarrow> Inr t)"
proof -
  have w: "writes True [] NaN (Il c False (blocks [] ms) []) (meaning_all c NaN ms)"
    using Il_message(2) [OF assms(3,1) no_prefix, of "[]" NaN] assms(2) by simp
  show ?thesis
  proof (cases "meaning_all c NaN ms")
    case None
    with w show ?thesis by (simp add: writes_def)
  next
    case (Some t)
    with w obtain segs new where r: "Il c False (blocks [] ms) [] = Inr (new, segs_text segs)"
      "segs_value new NaN segs = t" "segs_slots segs = [0..<length new]" "list_all plain_value new"
      "list_all seg_ok segs" "list_all seg_clean segs" "H \<notin> set segs"
      by (auto simp: writes_def)
    have "CHR ''#'' \<notin> set (segs_text segs)"
      using r(6,7)
    proof (induction segs)
      case (Cons x segs)
      then show ?case using slot_no_hash by (cases x) auto
    qed simp
    moreover have "set (segs_slots segs) \<subseteq> {..<length new}" "distinct (segs_slots segs)" using r(3) by auto
    then have "fill_slots new (segs_text segs) = t"
      using fill_segs [of segs new NaN] r by simp
    ultimately show ?thesis by (simp add: r(1) Some)
  qed
qed

text \<open>C39. Formatting implements the meaning of messages: for the pattern of a well-formed message, nested as
  deeply as one likes, and arguments without \<open>$\<close>, \<open>format\<close> gives the message with the values put in
  directly (branches by value, by number or by plural rule, \<open>#\<close> the number minus the offset of its
  block), or the error of a number below an offset.\<close>

theorem format_meaning:
  assumes "wf_all ms" "list_all hash_free ms" "proper_params c"
  shows "fst (Fl (Cl (show_all ms)) c False) =
    (case meaning_all c NaN ms of None \<Rightarrow> Inl Below_offset | Some t \<Rightarrow> Inr t)"
proof -
  note b = format_blocks [OF assms]
  have pieces: "Kl (show_all ms) = Inr (pieces [] ms)" using Kl_message [OF assms(1)] by (simp add: Kl_def)
  have each: "each (piece_block Hl) (pieces [] ms) = Inr (blocks [] ms)" by (rule Hl_message(2) [OF assms(1)])
  show ?thesis
  proof (cases "show_all ms = []")
    case True
    then have "blocks [] ms = []" using pieces each by (simp add: Kl_def outside_def)
    then show ?thesis using True b by (simp add: Fl_def Fl_parse_def Fl_write_def Cl_def fill_slots_Nil)
  next
    case False
    have "Hl (show_all ms) = Inr (blocks [] ms)" using pieces each by (simp add: Hl.simps [of "show_all ms"])
    moreover have "Gl (show_all ms) = (show_all ms, [])"
      using no_quotes show_quotes(2) [OF assms(1)] by (simp add: Gl_def)
    ultimately show ?thesis
      using False b by (simp add: Fl_def Fl_parse_def Cl_def Fl_write_blocks)
  qed
qed


definition sample_message :: "msg list" where
  "sample_message =
     [M_text ''See '', M_arg ''WHO'', M_text '': '',
      M_plural False ''DAYS'' 1 [(''0'', [M_text ''today'']), (''one'', [M_hash, M_text '' day''])]
        [M_hash, M_text '' days'']]"

definition sample_params :: params where
  "sample_params = (\<lambda>n. if n = ''WHO'' then Str ''{#}'' else if n = ''DAYS'' then Num (Fin 2001) else Undef)"


lemma number_text_nat: "n \<le> 10 ^ 20 \<Longrightarrow> number_text (Fin (of_nat n)) = thousands (show_nat n)"
proof -
  assume n: "n \<le> 10 ^ 20"
  have "math_round (of_nat n * 1000) = int (n * 1000)"
  proof -
    have "rat_of_nat n * 1000 + 1 / 2 = of_int (int (n * 1000)) + 1 / 2" by simp
    then show ?thesis unfolding math_round_def by linarith
  qed
  then have d: "nat (math_round (of_nat n * 1000)) = n * 1000" by simp
  have "sl default_format (of_nat n) = Some (thousands (show_nat (n * 1000 div 1000)) @ places_text (n * 1000 mod 1000))"
    using sl_default [of "of_nat n"] n unfolding d by simp
  then have s: "sl default_format (of_nat n) = Some (thousands (show_nat n))" by (simp add: places_text_def)
  have "n_Gb default_format = 1" "n_ne default_format = []" "n_qg default_format = []" by (simp_all add: default_format_def)
  then show ?thesis using s by (simp add: number_text_def ml_format_def Let_def)
qed

lemma sample_ok: "wf_all sample_message" "list_all hash_free sample_message"
  by code_simp+

lemma sample_text: "show_rat 2001 = ''2001''" "show_rat 2000 = ''2000''"
proof -
  have "show_nat 2001 = ''2001''" "show_nat 2000 = ''2000''" by code_simp+
  then show "show_rat 2001 = ''2001''" "show_rat 2000 = ''2000''"
    using show_rat_nat [of 2001] show_rat_nat [of 2000] by (simp_all only: of_nat_numeral)
qed

lemma sample_proper: "proper_params sample_params"
proof -
  show ?thesis using sample_text(1) by (simp add: proper_params_def sample_params_def plain_value_def slot_mark_def)
qed

lemma sample_number: "number_text (Fin 2000) = ''2,000''"
proof -
  have le: "(2000 :: nat) \<le> 10 ^ 20" by simp
  have t: "number_text (Fin 2000) = thousands (show_nat 2000)" using number_text_nat [OF le] by (simp only: of_nat_numeral)
  have "thousands (show_nat 2000) = ''2,000''" by code_simp
  then show ?thesis by (rule trans [OF t])
qed

lemma sample_meaning: "meaning_all sample_params NaN sample_message = Some ''See {#}: 2,000 days''"
proof -
  have x: "xl_rule (Fin 2000) = ''other''"
  proof -
    have "to_int32 (Fin 2000) \<noteq> 1" by (simp add: to_int32_def trunc_def)
    then show ?thesis by (simp add: xl_rule_def Let_def)
  qed
  with sample_text(1) sample_number show ?thesis
    by (simp add: sample_message_def sample_params_def offset_value_def number_branch_def not_negative_def append_opt_def)
qed

theorem format_meaning_witness:
  "show_all sample_message = ''See {WHO}: {DAYS, plural, offset:1 =0 {today} one {# day} other {# days}}'' \<and>
   fst (Fl (Cl (show_all sample_message)) sample_params False) = Inr ''See {#}: 2,000 days''"
proof
  show "show_all sample_message = ''See {WHO}: {DAYS, plural, offset:1 =0 {today} one {# day} other {# days}}''"
    by code_simp
  show "fst (Fl (Cl (show_all sample_message)) sample_params False) = Inr ''See {#}: 2,000 days''"
    by (simp only: format_meaning [OF sample_ok sample_proper] sample_meaning option.case)
qed

text \<open>The period of access.\<close>

lemma xl_cases: "xl_rule k = ''one'' \<or> xl_rule k = ''other''"
  by (simp add: xl_rule_def Let_def)

lemma access_days:
  assumes "48 \<le> h" "h < 24 * 10 ^ 20"
  shows "fst (Dt h (Gt, Ht)) = Inr (thousands (show_nat (nat \<lfloor>h / 24\<rfloor>)) @ '' days'')"
proof -
  define n where "n = nat \<lfloor>h / 24\<rfloor>"
  have "h / 24 < of_int (10 ^ 20)" using assms(2) by simp
  then have f: "(2 :: int) \<le> \<lfloor>h / 24\<rfloor>" "\<lfloor>h / 24\<rfloor> \<le> 10 ^ 20" using assms(1) by (linarith, simp add: floor_le_iff)
  then have n: "rat_of_int \<lfloor>h / 24\<rfloor> = of_nat n" by (simp add: n_def)
  have "nat 2 \<le> n" "n \<le> nat (10 ^ 20)" unfolding n_def by (rule nat_mono, rule f)+
  then have n2: "2 \<le> n" "n \<le> 10 ^ 20" by simp_all
  have parse: "Fl_parse Gt = (None, \<lparr>cl_ii = None, cl_ek = [], cl_hi = Some [B_plural [(''Ng'', V_name ''ACCESS_DAYS''),
      (''$l'', V_off 0), (''1'', V_blocks [B_text ''1 day'']), (''other'', V_blocks [B_text ''# days''])]]\<rparr>)"
    by code_simp
  have keys: "show_nat n \<noteq> ''Ng''" "show_nat n \<noteq> ''$l''" "show_nat n \<noteq> ''1''" "show_nat n \<noteq> ''other''"
  proof -
    have one: "digits_val ''1'' = 1" by code_simp
    show "show_nat n \<noteq> ''1''"
    proof
      assume "show_nat n = ''1''"
      with digits_val_show_nat [of n] one have "n = 1" by (simp only:)
      with n2(1) show False by simp
    qed
    have "\<not> list_all is_digit ''Ng''" "\<not> list_all is_digit ''$l''" "\<not> list_all is_digit ''other''" by code_simp+
    then show "show_nat n \<noteq> ''Ng''" "show_nat n \<noteq> ''$l''" "show_nat n \<noteq> ''other''" using show_nat_digits [of n] by metis+
  qed
  have "c \<noteq> CHR ''#''" if "c \<in> set (thousands (show_nat n) @ '' days'')" for c
    using that number_text_plain [of c "Fin (of_nat n)"] by (auto simp: number_text_nat [OF n2(2)])
  then have hash: "CHR ''#'' \<notin> set (thousands (show_nat n) @ '' days'')" by blast
  have put: "replace_all ''#'' r ''# days'' = r @ '' days''" for r
    unfolding replace_all_char by simp
  let ?ob = "[(''Ng'', V_name ''ACCESS_DAYS''), (''$l'', V_off 0), (''1'', V_blocks [B_text ''1 day'']),
    (''other'', V_blocks [B_text ''# days''])]"
  let ?c = "one_param ''ACCESS_DAYS'' (of_nat n)"
  have own: "name_of ?ob = ''ACCESS_DAYS''" "minus_offset ?ob (Fin x) = Fin x" for x
    by (simp_all add: name_of_def minus_offset_def)
  have c: "?c ''ACCESS_DAYS'' = Num (Fin (of_nat n))" by (simp add: one_param_def)
  have "plural_branch xl_rule ?ob (show_nat n) (Fin (of_nat n)) = Inr (V_blocks [B_text ''# days''])"
    using keys xl_cases [of "Fin (of_nat n)"] by (auto simp: plural_branch_def not_negative_def array_or_fail_def)
  then have J: "Jl ?c False xl_rule ?ob [] = Inr ([], thousands (show_nat n) @ '' days'')"
    unfolding Jl.simps own c
    by (simp add: own write_number_def then_write_def number_text_nat [OF n2(2)] put del: replace_all.simps)
  have "Fl_write (snd (Fl_parse Gt)) ?c False = Inr (thousands (show_nat n) @ '' days'')"
    using hash by (simp add: parse Fl_write_def J then_write_def fill_slots_def)
  then show ?thesis using assms(1) by (simp add: Dt_def Fl_def n parse Let_def) (simp add: n_def)
qed

end
