(* ===== verification/Ga_Fields.thy ===== *)
theory Ga_Fields
  imports Ga_Links Usage_Bits
begin

text \<open>
  The fields of a ga.js tracker (lines 9 to 20, 26 and 59 to 66). Every field variable has a key; fields
  that come from cookies are marked. The store \<open>Zc\<close> keeps lasting values and those of the hit under way,
  reads the cookies before a marked field is used and writes them after it is set, runs the load filters
  once, and for each hit runs the hit filters until one stops it. The page reaches the fields through
  tables of setters and getters, which also note their use in \<open>od\<close>.

  Filters and the readers and writers of cookies (the latter are in Ga_Session) work on the fields by the
  same two methods. They are programs over these methods here: \<open>Get\<close> and \<open>Put\<close> steps, and \<open>Stop\<close> for
  \<open>stopPropagation\<close>, which throws. Each operation has its own programs, since what they do depends on
  the page at that time. Arrays and objects in fields are opaque references. Not modelled: a filter that
  itself sends a hit, and readers or writers of cookies that throw (those of the script do not). \<open>zc_log\<close> is a
  record of what happens that the script does not keep.

  The main lemma: cookies are read before and written after every hit, and the load filters run once, before
  the first hit.
\<close>

subsection \<open>Declarations\<close>

text \<open>The declarations in order: variable, name if it has one, and the mark for cookies. \<open>N\<close> makes up keys
  from a counter, \<open>Va\<close> takes the name.\<close>

definition declared :: "(string \<times> string option \<times> bool) list" where
  "declared =
     [(''Wa'', None, False), (''Xa'', Some ''anonymizeIp'', False), (''Ya'', None, False), (''$a'', None, False),
      (''ab'', None, False), (''bb'', None, False), (''O'', None, False), (''P'', None, False),
      (''cb'', None, False), (''db'', None, False), (''eb'', None, False), (''fb'', None, False),
      (''gb'', None, False), (''hb'', None, False), (''ib'', None, False), (''jb'', None, False),
      (''kb'', None, False), (''lb'', None, False), (''nb'', None, False), (''ob'', None, False),
      (''pb'', None, False), (''qb'', None, False), (''rb'', None, False), (''sb'', None, False),
      (''tb'', None, False), (''ub'', None, False), (''vb'', None, False), (''wb'', None, False),
      (''xb'', None, False), (''yb'', None, False), (''zb'', None, False), (''Ab'', None, False),
      (''Bb'', None, False), (''Cb'', None, False), (''Db'', None, False), (''Eb'', None, False),
      (''Fb'', None, True), (''Gb'', Some ''currencyCode'', False), (''v'', Some ''storeGac'', False),
      (''Hb'', Some ''page'', False), (''Ib'', Some ''title'', False), (''Jb'', None, False),
      (''Kb'', None, False), (''Lb'', None, False), (''Mb'', None, False), (''Nb'', None, False),
      (''Ob'', None, False), (''Pb'', None, False), (''Qb'', None, False), (''Rb'', None, False),
      (''Q'', None, True), (''Sb'', None, True), (''Tb'', None, True), (''Ub'', None, True), (''Vb'', None, True),
      (''Wb'', None, True), (''Zb'', None, True), (''$b'', None, True), (''ac'', None, True), (''bc'', None, True),
      (''cc'', None, True), (''R'', None, True), (''dc'', None, True), (''ec'', None, True), (''fc'', None, True),
      (''gc'', None, True), (''hc'', None, True), (''ic'', None, True), (''jc'', None, True), (''S'', None, True),
      (''kc'', None, True), (''lc'', None, True), (''mc'', None, True), (''nc'', None, True), (''oc'', None, True),
      (''pc'', None, True), (''qc'', None, True), (''rc'', Some ''campaignParams'', False), (''sc'', None, False),
      (''tc'', Some ''hitCallback'', False), (''uc'', None, False), ('''', None, False), (''vc'', None, False),
      (''wc'', None, False), (''xc'', None, False), (''yc'', None, False), (''zc'', None, False),
      (''Ac'', None, False), (''Bc'', None, False), (''Cc'', None, False), (''Dc'', None, False),
      (''Ec'', None, False), (''Fc'', None, False), (''Gc'', None, False), (''Hc'', None, False),
      (''Ic'', None, False), ('''', None, False), (''Mc'', None, False), (''Nc'', None, False),
      (''Yb'', None, False), (''Jc'', None, False), (''Kc'', None, False),
      (''Lc'', Some ''utmtCookieName'', False), (''Cd'', Some ''displayFeatures'', False), (''Oc'', None, False),
      (''of'', Some ''gtmid'', False), (''Oe'', Some ''uaName'', False), (''Pe'', Some ''uaDomain'', False),
      (''Qe'', Some ''uaPath'', False), (''pf'', Some ''linkid'', False), (''w'', None, False),
      (''x'', None, False), (''y'', None, False), (''z'', None, False)]"

fun assign_keys :: "nat \<Rightarrow> (string \<times> string option \<times> bool) list \<Rightarrow> (string \<times> string \<times> bool) list" where
  "assign_keys n [] = []"
| "assign_keys n ((v, None, w) # ds) = (v, ''x'' @ show_nat n, w) # assign_keys (Suc n) ds"
| "assign_keys n ((v, Some k, w) # ds) = (v, k, w) # assign_keys n ds"

definition field_keys :: "(string \<times> string \<times> bool) list" where
  "field_keys = assign_keys 0 declared"

text \<open>\<open>Ua\<close>, by the variable of the field.\<close>

definition watched :: "string \<Rightarrow> bool" where
  "watched v = (case map_of field_keys v of Some (k, w) \<Rightarrow> w | None \<Rightarrow> False)"

lemma assign_keys_marks: "map_option snd (map_of (assign_keys n ds) v) = map_option snd (map_of ds v)"
  by (induction n ds rule: assign_keys.induct) auto

lemma watched_declared: "watched v = (case map_of declared v of Some (k, w) \<Rightarrow> w | None \<Rightarrow> False)"
  using assign_keys_marks [of 0 declared v]
  by (cases "map_of declared v") (auto simp: watched_def field_keys_def split: option.splits)

text \<open>The methods of the page: setters with field, usage id, conversion and constant; getters; and the other
  methods, of \<open>_gat\<close> and of a tracker, with the property that holds them.\<close>

definition setters :: "(string \<times> string \<times> nat \<times> nat option \<times> nat option) list" where
  "setters =
     [(''_setClientInfo'', ''ib'', 66, Some 2, None), (''_setAccount'', ''Wa'', 3, None, None),
      (''_setNamespace'', ''Ya'', 48, None, None), (''_setAllowLinker'', ''fb'', 11, Some 2, None),
      (''_setDetectFlash'', ''jb'', 61, Some 2, None), (''_setDetectTitle'', ''lb'', 62, Some 2, None),
      (''_setLocalGifPath'', ''wb'', 46, Some 0, None), (''_setLocalServerMode'', ''xb'', 92, None, Some 0),
      (''_setRemoteServerMode'', ''xb'', 63, None, Some 1),
      (''_setLocalRemoteServerMode'', ''xb'', 47, None, Some 2), (''_setSampleRate'', ''vb'', 45, Some 1, None),
      (''_setCampaignTrack'', ''kb'', 36, Some 2, None), (''_setAllowAnchor'', ''gb'', 7, Some 2, None),
      (''_setCampNameKey'', ''ob'', 41, None, None), (''_setCampContentKey'', ''tb'', 38, None, None),
      (''_setCampIdKey'', ''nb'', 39, None, None), (''_setCampMediumKey'', ''rb'', 40, None, None),
      (''_setCampNOKey'', ''ub'', 42, None, None), (''_setCampSourceKey'', ''qb'', 43, None, None),
      (''_setCampTermKey'', ''sb'', 44, None, None), (''_setCampCIdKey'', ''pb'', 37, None, None),
      (''_setCookiePath'', ''P'', 9, Some 0, None), (''_setMaxCustomVariables'', ''yb'', 0, Some 1, None),
      (''_setVisitorCookieTimeout'', ''cb'', 28, Some 1, None),
      (''_setSessionCookieTimeout'', ''db'', 26, Some 1, None),
      (''_setCampaignCookieTimeout'', ''eb'', 29, Some 1, None),
      (''_setReferrerOverride'', ''Jb'', 49, None, None), (''_setSiteSpeedSampleRate'', ''Dc'', 132, None, None),
      (''_storeGac'', ''v'', 143, None, None), (''_setSessionTimeout'', ''db'', 27, Some 3, None),
      (''_setCookieTimeout'', ''eb'', 25, Some 3, None), (''_setCookiePersistence'', ''cb'', 24, Some 1, None)]"

definition getters :: "(string \<times> string \<times> nat \<times> nat option) list" where
  "getters =
     [(''_getName'', ''$a'', 58, None), (''_getAccount'', ''Wa'', 64, None), (''_visitCode'', ''Q'', 54, None),
      (''_getClientInfo'', ''ib'', 53, Some 1), (''_getDetectTitle'', ''lb'', 56, Some 1),
      (''_getDetectFlash'', ''jb'', 65, Some 1), (''_getLocalGifPath'', ''wb'', 57, None),
      (''_getServiceMode'', ''xb'', 59, None)]"

definition gat_methods :: "(string \<times> string \<times> nat option) list" where
  "gat_methods =
     [(''_createTracker'', ''hb'', Some 55), (''_getTracker'', ''oa'', Some 0),
      (''_getTrackerByName'', ''u'', Some 51), (''_getTrackers'', ''pa'', Some 130),
      (''_anonymizeIp'', ''aa'', Some 16), (''_forceSSL'', ''la'', Some 125), (''_getPlugin'', ''Pc'', Some 120)]"

definition tracker_methods :: "(string \<times> string \<times> nat option) list" where
  "tracker_methods =
     [(''_trackPageview'', ''Fa'', Some 1), (''_trackEvent'', ''F'', Some 4),
      (''_trackPageLoadTime'', ''Ea'', Some 100), (''_trackSocial'', ''Ga'', Some 104),
      (''_trackTrans'', ''Ia'', Some 18), (''_sendXEvent'', ''ib'', Some 78),
      (''_createEventTracker'', ''ia'', Some 74), (''_getVersion'', ''qa'', Some 60),
      (''_setDomainName'', ''B'', Some 6), (''_setAllowHash'', ''va'', Some 8),
      (''_getLinkerUrl'', ''na'', Some 52), (''_link'', ''link'', Some 101), (''_linkByPost'', ''ua'', Some 102),
      (''_setTrans'', ''za'', Some 20), (''_addTrans'', ''$'', Some 21), (''_addItem'', ''Y'', Some 19),
      (''_clearTrans'', ''ea'', Some 105), (''_setTransactionDelim'', ''Aa'', Some 82),
      (''_setCustomVar'', ''wa'', Some 10), (''_deleteCustomVar'', ''ka'', Some 35),
      (''_getVisitorCustomVar'', ''ra'', Some 50), (''_setXKey'', ''Ca'', Some 83),
      (''_setXValue'', ''Da'', Some 84), (''_getXKey'', ''sa'', Some 76), (''_getXValue'', ''ta'', Some 77),
      (''_clearXKey'', ''fa'', Some 72), (''_clearXValue'', ''ga'', Some 73), (''_createXObj'', ''ja'', Some 75),
      (''_addIgnoredOrganic'', ''W'', Some 15), (''_clearIgnoredOrganic'', ''ba'', Some 97),
      (''_addIgnoredRef'', ''X'', Some 31), (''_clearIgnoredRef'', ''ca'', Some 32),
      (''_addOrganic'', ''Z'', Some 14), (''_clearOrganic'', ''da'', Some 70),
      (''_cookiePathCopy'', ''ha'', Some 30), (''_get'', ''ma'', Some 106), (''_set'', ''xa'', Some 107),
      (''_addEventListener'', ''addEventListener'', Some 108),
      (''_removeEventListener'', ''removeEventListener'', Some 109), (''_addDevId'', ''V'', None),
      (''_getPlugin'', ''Pc'', Some 122), (''_setPageGroup'', ''ya'', Some 126),
      (''_trackTiming'', ''Ha'', Some 124), (''_initData'', ''initData'', Some 2), (''_setVar'', ''Ba'', Some 22),
      (''_setAutoTrackOutbound'', ''Fa'', Some 79), (''_setTrackOutboundSubdomains'', ''Fa'', Some 81),
      (''_setHrefExamineLimit'', ''Fa'', Some 80)]"

subsection \<open>The store\<close>

datatype prog = Done | Stop | Get string "jval \<Rightarrow> prog" | Put string jval bool prog

datatype zevent = Read_cookies | Write_cookies | Load_filters | Hit string

record zstore =
  zc_a :: ga
  zc_b :: ga
  zc_e :: bool
  zc_f :: bool
  zc_Be :: bool
  zc_od :: "bool list"
  zc_log :: "zevent list"

record page_code =
  pc_host :: string
  pc_Wc :: prog
  pc_Xc :: prog
  pc_load :: "prog list"
  pc_hit :: "prog list"

definition zc_view :: "zstore \<Rightarrow> ga" where
  "zc_view s k = (if zc_b s k \<noteq> Undef then zc_b s k else zc_a s k)"

definition zc_put :: "string \<Rightarrow> jval \<Rightarrow> bool \<Rightarrow> zstore \<Rightarrow> zstore" where
  "zc_put k v tmp s = (if tmp then s\<lparr>zc_b := (zc_b s)(k := v)\<rparr> else s\<lparr>zc_a := (zc_a s)(k := v)\<rparr>)"

text \<open>A program run while \<open>e\<close> is off, when \<open>load\<close> and \<open>store\<close> do nothing; the result says if it threw.\<close>

primrec quiet_run :: "prog \<Rightarrow> zstore \<Rightarrow> zstore \<times> bool" where
  "quiet_run Done s = (s, False)"
| "quiet_run Stop s = (s, True)"
| "quiet_run (Get k f) s = quiet_run (f (zc_view s k)) s"
| "quiet_run (Put k v tmp p) s = quiet_run p (zc_put k v tmp s)"

text \<open>\<open>Uc.cb\<close>.\<close>

fun run_filters :: "prog list \<Rightarrow> zstore \<Rightarrow> zstore" where
  "run_filters [] s = s"
| "run_filters (p # ps) s = (case quiet_run p s of (s, stop) \<Rightarrow> if stop then s else run_filters ps s)"

definition zc_note :: "zevent \<Rightarrow> zstore \<Rightarrow> zstore" where
  "zc_note x s = s\<lparr>zc_log := zc_log s @ [x]\<rparr>"

text \<open>\<open>Sc\<close>: pages and cookie domains of Google.\<close>

definition Sc_google :: "string \<Rightarrow> string \<Rightarrow> string \<Rightarrow> bool" where
  "Sc_google host a b \<longleftrightarrow>
     Mg host \<or>
     b = ''/'' \<and>
       \<not> (\<not> starts_with a ''www.google.'' \<and> \<not> starts_with a ''.google.'' \<and> \<not> starts_with a ''google.'' \<or>
          contains a ''google.org'')"

text \<open>\<open>Ka\<close>: the hash of the cookie domain, once.\<close>

definition zc_Ka :: "page_code \<Rightarrow> zstore \<Rightarrow> zstore" where
  "zc_Ka env s =
     (let b = ga_text (zc_view s) ''bb'' []; c = ga_text (zc_view s) ''P'' ''/''
      in if \<not> zc_Be s \<or> Sc_google (pc_host env) b c then s
         else s\<lparr>zc_a := (zc_a s)(''O'' := Num (Fin (if truthy (zc_a s ''hb'') \<and> b \<noteq> []
                                              then of_int (Yc (map of_char b)) else 1))),
                zc_Be := False\<rparr>)"

definition zc_read :: "page_code \<Rightarrow> zstore \<Rightarrow> zstore" where
  "zc_read env s = zc_note Read_cookies (fst (quiet_run (pc_Wc env) s))"

definition zc_write :: "page_code \<Rightarrow> zstore \<Rightarrow> zstore" where
  "zc_write env s = zc_note Write_cookies (fst (quiet_run (pc_Xc env) s))"

definition zc_load :: "page_code \<Rightarrow> zstore \<Rightarrow> zstore" where
  "zc_load env s =
     (if \<not> zc_e s then s
      else
        let s = zc_read env (zc_Ka env (s\<lparr>zc_e := False\<rparr>));
            s = (if zc_f s then s
                 else zc_read env (zc_write env (zc_note Load_filters (run_filters (pc_load env) (s\<lparr>zc_f := True\<rparr>)))))
        in s\<lparr>zc_e := True\<rparr>)"

definition zc_store :: "page_code \<Rightarrow> zstore \<Rightarrow> zstore" where
  "zc_store env s =
     (if \<not> zc_e s then s
      else if zc_f s then (zc_write env (s\<lparr>zc_e := False\<rparr>))\<lparr>zc_e := True\<rparr>
      else zc_load env s)"

definition zc_get :: "page_code \<Rightarrow> string \<Rightarrow> zstore \<Rightarrow> jval \<times> zstore" where
  "zc_get env k s = (let s = (if watched k then zc_load env s else s) in (zc_view s k, s))"

definition zc_set :: "page_code \<Rightarrow> string \<Rightarrow> jval \<Rightarrow> bool \<Rightarrow> zstore \<Rightarrow> zstore" where
  "zc_set env k v tmp s =
     (let s = zc_put k v tmp (if watched k then zc_load env s else s) in if watched k then zc_store env s else s)"

text \<open>\<open>Za\<close> counts up a field.\<close>

definition zc_Za :: "page_code \<Rightarrow> string \<Rightarrow> zstore \<Rightarrow> zstore" where
  "zc_Za env k s =
     (let s = snd (zc_get env k s) in s\<lparr>zc_a := (zc_a s)(k := Num (num_add (ga_num (zc_view s) k (Fin 0)) (Fin 1)))\<rparr>)"

text \<open>\<open>j\<close>: a hit of type \<open>t\<close>; the object for its callback goes into \<open>uc\<close>.\<close>

definition zc_j :: "page_code \<Rightarrow> string \<Rightarrow> zstore \<Rightarrow> zstore" where
  "zc_j env t s =
     (let s = zc_put ''uc'' (Ref 0) True (zc_set env ''sc'' (Str t) True (zc_load env s));
          s = zc_note (Hit t) (run_filters (pc_hit env) (s\<lparr>zc_e := False\<rparr>))
      in zc_store env (s\<lparr>zc_e := True, zc_b := (\<lambda>_. Undef)\<rparr>))"


subsection \<open>The tracker\<close>

text \<open>\<open>B\<close> sets the cookie domain; the page's own domain is an argument.\<close>

definition domain_name :: "string \<Rightarrow> string \<Rightarrow> string" where
  "domain_name page a =
     (if a = ''auto'' then Ka_host page
      else if a \<noteq> [] \<and> a \<noteq> ''-'' \<and> a \<noteq> ''none'' then to_lower a else [])"

text \<open>The constructor \<open>U\<close>: name, account and namespace, the time in seconds, the page's domain and referrer, and
  what \<open>Ye\<close> reads of experiments. The arrays get references 1 to 6.\<close>

definition first_fields :: "string \<Rightarrow> string \<Rightarrow> string \<Rightarrow> int \<Rightarrow> string \<Rightarrow> string \<Rightarrow> (string \<times> jval) list" where
  "first_fields a b c now page referrer =
     [(''Wa'', Str (if b = [] then ''UA-XXXXX-X'' else b)), (''$a'', Str a), (''Ya'', Str c),
      (''ab'', Num (Fin (of_int now))), (''P'', Str ''/''), (''cb'', Num (Fin 63072000000)),
      (''eb'', Num (Fin 15768000000)), (''db'', Num (Fin 1800000)), (''fb'', Bool False), (''yb'', Num (Fin 50)),
      (''gb'', Bool False), (''hb'', Bool True), (''ib'', Bool True), (''jb'', Bool True), (''kb'', Bool True),
      (''lb'', Bool True), (''ob'', Str ''utm_campaign''), (''nb'', Str ''utm_id''), (''pb'', Str ''gclid''),
      (''qb'', Str ''utm_source''), (''rb'', Str ''utm_medium''), (''sb'', Str ''utm_term''),
      (''tb'', Str ''utm_content''), (''ub'', Str ''utm_nooverride''), (''vb'', Num (Fin 100)), (''Dc'', Num (Fin 1)),
      (''Ec'', Bool False), (''wb'', Str ''/__utm.gif''), (''xb'', Num (Fin 1)), (''Cb'', Ref 1), (''Fb'', Ref 2),
      (''zb'', Ref 3), (''Ab'', Ref 4), (''Bb'', Ref 5), (''bb'', Str (domain_name page ''auto'')), (''Jb'', Str referrer),
      (''v'', Bool True), (''y'', Num (Fin (of_int now)))]"

definition zc_new :: zstore where
  "zc_new = \<lparr>zc_a = (\<lambda>_. Undef), zc_b = (\<lambda>_. Undef), zc_e = False, zc_f = False, zc_Be = True, zc_od = [], zc_log = []\<rparr>"

definition U_new :: "page_code \<Rightarrow> prog \<Rightarrow> (string \<times> jval) list \<Rightarrow> zstore" where
  "U_new env Ye_code fs =
     (let s = fold (\<lambda>(k, v). zc_set env k v False) fs zc_new; s = fst (quiet_run Ye_code s);
          s = zc_set env ''Nc'' (Ref 6) False s
      in (if ga_num (zc_view s) ''ab'' NaN = Fin 0 then s\<lparr>zc_od := usage_set (zc_od s) 111\<rparr> else s)\<lparr>zc_e := True\<rparr>)"

text \<open>A setter of the table, which notes its use; a setter with a constant ignores its argument. \<open>Qc\<close> makes the
  getters. Unknown names are not methods.\<close>

definition V_call :: "page_code \<Rightarrow> string \<Rightarrow> jval \<Rightarrow> zstore \<Rightarrow> zstore" where
  "V_call env name f s =
     (case map_of setters name of
        None \<Rightarrow> s
      | Some (b, c, d, e) \<Rightarrow>
          zc_set env b (case e of None \<Rightarrow> Aa_convert f d | Some k \<Rightarrow> Num (Fin (of_nat k))) False
            (s\<lparr>zc_od := usage_set (zc_od s) c\<rparr>))"

definition Q_call :: "page_code \<Rightarrow> string \<Rightarrow> zstore \<Rightarrow> jval \<times> zstore" where
  "Q_call env name s =
     (case map_of getters name of
        None \<Rightarrow> (Undef, s)
      | Some (b, c, d) \<Rightarrow>
          (case zc_get env b (s\<lparr>zc_od := usage_set (zc_od s) c\<rparr>) of (v, s) \<Rightarrow> (Aa_convert v d, s)))"

text \<open>What the page does with a tracker, by way of the methods \<open>get\<close>, \<open>set\<close>, \<open>_set\<close>, \<open>_setDomainName\<close>, \<open>_initData\<close>
  and those that send a hit or save a custom variable.\<close>

datatype zop =
  Op_get string
| Op_set string jval bool
| Op_count string
| Op_hit string
| Op_init
| Op_store
| Op_domain string string
| Op_setter string jval
| Op_getter string

fun zc_step :: "page_code \<times> zop \<Rightarrow> zstore \<Rightarrow> zstore" where
  "zc_step (env, Op_get k) s = snd (zc_get env k s)"
| "zc_step (env, Op_set k v tmp) s = zc_set env k v tmp s"
| "zc_step (env, Op_count k) s = zc_Za env k s"
| "zc_step (env, Op_hit t) s = zc_j env t s"
| "zc_step (env, Op_init) s = zc_load env s"
| "zc_step (env, Op_store) s = zc_store env s"
| "zc_step (env, Op_domain page a) s = zc_set env ''bb'' (Str (domain_name page a)) False s"
| "zc_step (env, Op_setter name v) s = V_call env name v s"
| "zc_step (env, Op_getter name) s = snd (Q_call env name s)"

definition zc_run :: "(page_code \<times> zop) list \<Rightarrow> zstore \<Rightarrow> zstore" where
  "zc_run ops s = fold zc_step ops s"

text \<open>\<open>Ra\<close>: the page sends at most one error report, and only one page in a hundred does; \<open>r\<close> is the random
  number and \<open>out\<close> says that the visitor opted out. The result is the counter \<open>Qa\<close> of reports sent.\<close>

definition Ra_report :: "nat \<Rightarrow> rat \<Rightarrow> bool \<Rightarrow> nat" where
  "Ra_report Qa r out = (if 1 \<le> Qa \<or> 1 \<le> 100 * r \<or> out then Qa else Qa + 1)"

lemma one_error_report: "fold (\<lambda>(r, out) Qa. Ra_report Qa r out) rs 0 \<le> 1"
proof -
  have one: "Ra_report Qa r out \<le> 1" if "Qa \<le> 1" for Qa r out
    using that by (simp add: Ra_report_def)
  have all: "Qa \<le> 1 \<Longrightarrow> fold (\<lambda>(r, out) Qa. Ra_report Qa r out) rs Qa \<le> 1" for Qa
  proof (induction rs arbitrary: Qa)
    case (Cons x rs)
    then show ?case using Cons.IH [OF one] by (simp add: case_prod_beta)
  qed simp
  show ?thesis by (rule all) simp
qed

subsection \<open>Laws\<close>

text \<open>Programs do not touch the switches and the log.\<close>

lemma quiet_keeps:
  "zc_e (fst (quiet_run p s)) = zc_e s \<and> zc_f (fst (quiet_run p s)) = zc_f s \<and> zc_log (fst (quiet_run p s)) = zc_log s"
  by (induction p arbitrary: s) (simp_all add: zc_put_def)

lemma run_filters_keeps:
  "zc_e (run_filters ps s) = zc_e s \<and> zc_f (run_filters ps s) = zc_f s \<and> zc_log (run_filters ps s) = zc_log s"
proof (induction ps arbitrary: s)
  case (Cons p ps)
  then show ?case using quiet_keeps [of p s] by (cases "quiet_run p s") simp
qed simp

lemma Ka_keeps: "zc_e (zc_Ka env s) = zc_e s \<and> zc_f (zc_Ka env s) = zc_f s \<and> zc_log (zc_Ka env s) = zc_log s"
  by (simp add: zc_Ka_def Let_def)

lemmas zc_keeps = quiet_keeps run_filters_keeps Ka_keeps

lemma load_switches:
  "zc_e (zc_load env s) = zc_e s" "zc_e s \<Longrightarrow> zc_f (zc_load env s)"
  "zc_e s \<Longrightarrow> zc_log (zc_load env s) =
    zc_log s @ (if zc_f s then [Read_cookies] else [Read_cookies, Load_filters, Write_cookies, Read_cookies])"
  by (simp_all add: zc_load_def Let_def zc_read_def zc_write_def zc_note_def zc_keeps)

lemma store_switches:
  "zc_e (zc_store env s) = zc_e s" "zc_e s \<Longrightarrow> zc_f (zc_store env s)"
  "zc_e s \<Longrightarrow> zc_log (zc_store env s) =
    zc_log s @ (if zc_f s then [Write_cookies] else [Read_cookies, Load_filters, Write_cookies, Read_cookies])"
  by (simp_all add: zc_store_def Let_def zc_write_def zc_note_def zc_keeps load_switches)

lemma put_switches [simp]:
  "zc_e (zc_put k v t s) = zc_e s" "zc_f (zc_put k v t s) = zc_f s" "zc_log (zc_put k v t s) = zc_log s"
  by (simp_all add: zc_put_def)

text \<open>Rounds of a started tracker, and the life of a tracker.\<close>

inductive rounds :: "zevent list \<Rightarrow> bool" where
  none: "rounds []"
| reads: "rounds l \<Longrightarrow> rounds (l @ [Read_cookies])"
| writes: "rounds l \<Longrightarrow> rounds (l @ [Write_cookies])"
| hit: "rounds l \<Longrightarrow> rounds (l @ [Read_cookies, Hit t, Write_cookies])"

lemma rounds_once: "rounds l \<Longrightarrow> Load_filters \<notin> set l"
  by (induction rule: rounds.induct) auto

definition life :: "zstore \<Rightarrow> bool" where
  "life s \<longleftrightarrow>
     zc_e s \<and>
     (\<not> zc_f s \<and> zc_log s = [] \<or>
      zc_f s \<and> (\<exists>l. zc_log s = [Read_cookies, Load_filters, Write_cookies] @ l \<and> rounds l))"

lemma rounds_read: "rounds [Read_cookies]"
  using rounds.reads [OF rounds.none] by simp

lemma life_load: "life s \<Longrightarrow> life (zc_load env s)"
  using rounds_read rounds.reads by (auto simp: life_def load_switches)

lemma life_store: "life s \<Longrightarrow> life (zc_store env s)"
  using rounds_read rounds.writes by (auto simp: life_def store_switches)

lemma life_put: "life s \<Longrightarrow> life (zc_put k v t s)"
  by (simp add: life_def)

lemma life_get: "life s \<Longrightarrow> life (snd (zc_get env k s))"
  by (simp add: zc_get_def Let_def life_load)

lemma life_set: "life s \<Longrightarrow> life (zc_set env k v t s)"
  by (simp add: zc_set_def Let_def life_load life_put life_store)

text \<open>A hit: the cookies have just been read, and are written afterwards.\<close>

lemma hit_log:
  assumes "zc_e s"
  shows "zc_e (zc_j env t s)" "zc_f (zc_j env t s)"
    "zc_log (zc_j env t s) = zc_log (zc_load env s) @ [Hit t, Write_cookies]"
proof -
  have w: "\<not> watched ''sc''" by (simp add: watched_declared declared_def)
  define s1 where "s1 = zc_put ''uc'' (Ref 0) True (zc_set env ''sc'' (Str t) True (zc_load env s))"
  have s1: "zc_f s1" "zc_log s1 = zc_log (zc_load env s)"
    using load_switches(2) [OF assms] by (simp_all add: s1_def zc_set_def w Let_def)
  define s2 where "s2 = (zc_note (Hit t) (run_filters (pc_hit env) (s1\<lparr>zc_e := False\<rparr>)))\<lparr>zc_e := True, zc_b := (\<lambda>_. Undef)\<rparr>"
  have s2: "zc_e s2" "zc_f s2" "zc_log s2 = zc_log (zc_load env s) @ [Hit t]"
    using s1 by (simp_all add: s2_def zc_note_def zc_keeps)
  have j: "zc_j env t s = zc_store env s2" by (simp add: zc_j_def s1_def s2_def Let_def)
  show "zc_e (zc_j env t s)" "zc_f (zc_j env t s)"
    "zc_log (zc_j env t s) = zc_log (zc_load env s) @ [Hit t, Write_cookies]"
    using s2 by (simp_all add: j store_switches)
qed

lemma life_hit: "life s \<Longrightarrow> life (zc_j env t s)"
proof -
  assume s: "life s"
  then have e: "zc_e s" by (simp add: life_def)
  obtain l where "zc_log (zc_load env s) = [Read_cookies, Load_filters, Write_cookies] @ l @ [Read_cookies]" "rounds l"
    using s rounds.none by (auto simp: life_def load_switches)
  then have "zc_log (zc_j env t s) = [Read_cookies, Load_filters, Write_cookies] @ (l @ [Read_cookies, Hit t, Write_cookies])"
    using hit_log(3) [OF e] by simp
  moreover have "rounds (l @ [Read_cookies, Hit t, Write_cookies])" using \<open>rounds l\<close> by (rule rounds.hit)
  ultimately show ?thesis using hit_log(1,2) [OF e] by (auto simp: life_def)
qed

lemma life_step: "life s \<Longrightarrow> life (zc_step x s)"
proof -
  assume s: "life s"
  have c: "life (zc_Za env k s)" for env k
  proof -
    have "life (snd (zc_get env k s))" using s by (rule life_get)
    then show ?thesis by (simp add: zc_Za_def Let_def life_def)
  qed
  have m: "life (s\<lparr>zc_od := u\<rparr>)" for u using s by (simp add: life_def)
  have g: "life (snd (Q_call env n s))" for env n
    using s life_get [OF m] by (auto simp: Q_call_def split: option.split prod.split) (metis snd_conv)
  show ?thesis
    using s c g m by (cases x; cases "snd x") (auto simp: life_get life_set life_hit life_load life_store V_call_def split: option.split)
qed


lemma set_quiet:
  "\<not> zc_e s \<Longrightarrow> zc_set env k v t s = zc_put k v t s" "\<not> zc_e s \<Longrightarrow> zc_get env k s = (zc_view s k, s)"
proof -
  have l: "\<not> zc_e s \<Longrightarrow> zc_load env s = s" for s by (simp add: zc_load_def)
  have "\<not> zc_e s \<Longrightarrow> zc_store env s = s" for s by (simp add: zc_store_def)
  with l show "\<not> zc_e s \<Longrightarrow> zc_set env k v t s = zc_put k v t s" "\<not> zc_e s \<Longrightarrow> zc_get env k s = (zc_view s k, s)"
    by (simp_all add: zc_set_def zc_get_def Let_def)
qed

lemma life_new: "life (U_new env p fs)"
proof -
  have f: "\<not> zc_e (fold (\<lambda>(k, v). zc_set env k v False) fs s) \<and> \<not> zc_f (fold (\<lambda>(k, v). zc_set env k v False) fs s) \<and>
      zc_log (fold (\<lambda>(k, v). zc_set env k v False) fs s) = zc_log s" if "\<not> zc_e s" "\<not> zc_f s" for s
    using that
  proof (induction fs arbitrary: s)
    case (Cons x fs)
    obtain k v where x: "x = (k, v)" by force
    show ?case using Cons.IH [of "zc_put k v False s"] Cons.prems by (simp add: x set_quiet)
  qed simp
  define s1 where "s1 = fst (quiet_run p (fold (\<lambda>(k, v). zc_set env k v False) fs zc_new))"
  have s1: "\<not> zc_e s1" "\<not> zc_f s1" "zc_log s1 = []"
    using f [of zc_new] by (simp_all add: s1_def zc_keeps) (simp_all add: zc_new_def)
  then show ?thesis by (simp add: U_new_def Let_def s1_def [symmetric] set_quiet life_def)
qed


text \<open>A setter of the table reads and writes no cookies, changes its field only, and a getter of the same field
  gives the value converted.\<close>

lemma setters_unwatched: "list_all (\<lambda>(n, b, c, d, e). \<not> watched b) setters"
  unfolding watched_declared by code_simp

lemma setter_effect:
  assumes "map_of setters name = Some (b, c, d, e)"
  shows "zc_log (V_call env name f s) = zc_log s"
    "zc_a (V_call env name f s) =
      (zc_a s)(b := (case e of None \<Rightarrow> Aa_convert f d | Some k \<Rightarrow> Num (Fin (of_nat k))))"
    "zc_b (V_call env name f s) = zc_b s"
proof -
  have "\<not> watched b" using setters_unwatched map_of_SomeD [OF assms] by (fastforce simp: list_all_iff)
  then show "zc_log (V_call env name f s) = zc_log s"
    "zc_a (V_call env name f s) =
      (zc_a s)(b := (case e of None \<Rightarrow> Aa_convert f d | Some k \<Rightarrow> Num (Fin (of_nat k))))"
    "zc_b (V_call env name f s) = zc_b s"
    by (simp_all add: V_call_def assms zc_set_def zc_put_def)
qed

lemma client_info_read: "fst (Q_call env ''_getClientInfo'' (V_call env ''_setClientInfo'' v zc_new)) = Num (Fin (if truthy v then 1 else 0))"
proof -
  have t: "map_of setters ''_setClientInfo'' = Some (''ib'', 66, Some 2, None)" "map_of getters ''_getClientInfo'' = Some (''ib'', 53, Some 1)"
    by code_simp+
  have w: "\<not> watched ''ib''" by (simp add: watched_declared declared_def)
  show ?thesis
    by (simp add: Q_call_def t zc_get_def w zc_view_def setter_effect [OF t(1)] Aa_convert_def Let_def) (simp add: zc_new_def)
qed

end
