(* ===== verification/Spec2Isabelle.thy ===== *)
theory Spec2Isabelle
  imports Js_Prelude Js_Number Js_Value Usage_Bits Ga_Hash Cookie_Scope Rate_Limits Key_Stores
    Tracker_Fields Tracker_Laws Command_Queue Relay_Sha1 Relay_Session Js_Uri Gapi_Url Gapi_Loader Closure_Events Closure_Promise Js_Regex Closure_Uri Tag_Values Tag_Layer Tag_Urls Tag_Rules Tag_Runs Auto_Track Ga_Session Ga_Links Closure_Text Closure_Json Survey_Markup Survey_Questions Survey_Flow Ga_X10 Ga_Campaign Ga_Queue Closure_Number Closure_Message Ga_Fields
begin

text \<open>
  \<^bold>\<open>The program.\<close>  The repository is the iOS app Demolition. Its own logic in JavaScript is the set
  of page scripts of the saved Firebase console page (the folder pin.imageset under src/Demolition):
  analytics.js and ga.js (two generations of the analytics tracker), autotrack.js (events of clicks for
  ga.js), gtm.js (the tag manager with its container), client.js (the gapi module loader),
  25936583-postmessagerelay.js (the session relay) and prompt_embed_static.js (the survey prompt on
  the Closure library). They meet in the page: the command queues and the data layer are arrays and
  functions the page pushes to, the trackers share cookies, the tag manager starts trackers, and the
  relay and the loader exchange messages and script loads with other frames.

  \<^bold>\<open>JavaScript.\<close>  Js_Prelude (strings, 32-bit operators), Js_Regex (global replacement), Js_Uri
  (encodeURIComponent and its inverse), Js_Number (reading and writing numbers) and Js_Value (primitive
  values, truthiness, loose equality) model what the scripts use of the language. A string is a list of
  code units 0 to 255, numbers the code keeps integral are integers, 32-bit operators go through 32
  word. Objects whose identity matters are numbers in a store; plain objects are association lists in
  the order of insertion. Where a theory needs more (larger code units, floating-point rounding) its
  opening text says what it takes instead.

  \<^bold>\<open>Trackers.\<close>  Usage_Bits: the packed sets of used features (analytics.js \<open>da\<close>, ga.js \<open>od\<close>,
  gtm.js \<open>Wk\<close>) and that unpacking gives the set. Ga_Hash: the string hash and sampling. Cookie_Scope:
  which client-id cookie is chosen and written (\<open>Qc\<close>, \<open>uc\<close>, \<open>xc\<close>, ga.js \<open>bf\<close>), that both scripts
  choose the same one (where their cookie formats agree), the one whose scope fits best. Rate_Limits: the four limiters and their bounds over any sequence of calls.
  Key_Stores: the stores of the trackers and the Closure map with its iterators. Tracker_Fields and
  Tracker_Laws: the field table, get, set, send and the payload of analytics.js with the laws of
  aliases, protected fields and the scope of send. Command_Queue: parsing of commands, the queue and
  the registry of trackers. Ga_Session and Ga_Links: the cookie texts of ga.js read back as written, and
  the linker with its hash check, in the query and in the fragment. Ga_Fields: the fields of a tracker of
  ga.js, its methods, and when cookies are read and written around a hit. Ga_X10: the extension objects
  with their text. Ga_Campaign: campaigns from parameters, search engines and referrers. Ga_Queue: the
  command queue \<open>_gaq\<close> with plugins. Auto_Track: autotrack.js.

  \<^bold>\<open>Tag manager.\<close>  Tag_Values: values and the deep merge. Tag_Layer: the two data models and the loop
  over pushed items. Tag_Urls: addresses, cookies and click ids. Tag_Rules: the container's tables, the
  resolution of macros and the choice of tags. Tag_Runs: how the chosen tags start, wait and finish.

  \<^bold>\<open>Loader and relay.\<close>  Gapi_Url and Gapi_Loader: addresses of module loads and the order in which
  loaded scripts run. Relay_Sha1: SHA-1 in pieces, proved equal to SHA-1 as FIPS 180 describes
  it, which is written out there beside the code. Relay_Session: session states and their check.

  \<^bold>\<open>Survey prompt.\<close>  Closure_Events, Closure_Promise, Closure_Uri: event targets, promises with their
  work queue, and addresses with their resolution. Closure_Text and Closure_Json: text functions, and the
  writer of JSON with an independent reader. Closure_Number and Closure_Message: the formatter of numbers
  and that of messages with plural and select blocks, with the meaning of abstract messages. Survey_Markup:
  the text of questions, answers inserted into them, and the addresses allowed. Survey_Questions: the
  guards an answer passes. Survey_Flow: the course of a prompt from its payload to its reports.

  \<^bold>\<open>How the theorems are stated.\<close>  The properties are the theorems under a text block that begins
  with a claim id; the lemmas before them carry the proofs: invariants with one lemma per operation,
  laws of the string operations in the collections \<open>js_string\<close> and \<open>js_bits\<close>, and equations of loops
  with a structural description of what they compute. A property with hypotheses has a witness at a
  concrete input.

  \<^bold>\<open>Fuel and loops.\<close>  Loops are structural recursions or carry a measure. Where a recursion follows
  data that could be cyclic it is given a bound, and the bound is shown to be enough: \<open>Ua_get_n\<close> needs 2
  (an alias refers to a field, which is not an alias), the queue loop of Command_Queue a quadratic
  number of rounds in its commands, the walk over ancestors of an event target stops after 998 as the
  source asserts below 1000, the drain of callbacks takes one more than the entries of the free list,
  the loop of the data layer one round for each item, and macros one level for each macro of the
  container (\<open>bi_enough\<close>). The reader of JSON spends one unit for each level of nesting and gets more than
  there are characters; that of extension objects one for each project of the object. A run of the tag manager is given fuel for the nesting of started tags.

  \<^bold>\<open>Parameters.\<close>  The browser (document, cookie jar, the anchor element that parses addresses, clocks,
  random numbers, timers, script elements), the libraries the scripts call and functions given by the
  page are arguments of the definitions or steps of the histories.

  \<^bold>\<open>Not modelled.\<close>  The Swift sources and the vendored Pods (C++, Objective-C and Swift), storyboards
  and assets; the files cb=gapi*.loaded_0, rs=*, f.txt (minified third-party bundles without a js file
  name) and the HTML of the page; rpc_shindig_random.js and googleapis.proxy.js, which are client.js
  again with a different list of modules in their last line, so their code is modelled as client.js;
  code that only reads or changes the DOM (layout, style, templates of the survey), tables of constant
  names, and the parts listed as partly or not modelled in the manifest.
\<close>

end
